(* ===== verification/Prelude.thy ===== *)
theory Prelude
  imports Main "HOL-Library.Word"
begin

text \<open>
  Shared ground of the development: the machine types of the C++ sources, exceptions as
  values, little-endian field encodings (the byte order of the targets the engine runs on,
  which its \<open>memcpy\<close> and \<open>reinterpret_cast\<close> accesses expose), reading and overwriting a byte
  range, and fixed-stride arrays of cells inside a byte buffer.
\<close>

section \<open>Types\<close>

type_synonym byte = "8 word"
type_synonym u16 = "16 word"
type_synonym u32 = "32 word"
type_synonym u64 = "64 word"

text \<open>An \<open>int64_t\<close> is kept as its 64 bits; \<open>sint\<close> is its value.\<close>
type_synonym i64 = "64 word"

type_synonym page_id_t = u32

text \<open>
  The exception classes of the sources. The message of an exception is kept as the fixed part
  that tells its throw sites apart; lexer and parser errors carry their position.
  \<open>StdTerminate\<close> is the end of the process: an exception that leaves a destructor.
  \<open>UndefinedBehaviour\<close> marks an access the language gives no meaning to (a null page pointer).
\<close>
datatype exn =
    RuntimeError string
  | InvalidArgument string
  | LogicError string
  | OutOfRange string
  | CatalogError string
  | RowEncodingError string
  | SemanticError string
  | EvalError string
  | ColumnResolutionError string
  | LexError string int int
  | ParseError string int int
  | UndefinedBehaviour string
  | StdTerminate

type_synonym 'a res = "exn + 'a"

named_theorems layout_simps \<open>widths and offsets of the on-disk structures\<close>
named_theorems inv_intros \<open>operations preserve their component's invariant\<close>

section \<open>Little-endian integers\<close>

lemma unat_bound: "unat (w :: 'a::len word) < 2 ^ LENGTH('a)"
  by (rule unsigned_less)

lemma unat_byte_bound: "unat (b :: byte) < 256"
  using unat_bound [of b] by simp

fun le_bytes :: "nat \<Rightarrow> nat \<Rightarrow> byte list" where
  "le_bytes 0 n = []"
| "le_bytes (Suc k) n = of_nat n # le_bytes k (n div 256)"

fun le_nat :: "byte list \<Rightarrow> nat" where
  "le_nat [] = 0"
| "le_nat (b # bs) = unat b + 256 * le_nat bs"

lemma length_le_bytes [simp]: "length (le_bytes k n) = k"
  by (induction k arbitrary: n) auto

lemma unat_of_nat_byte: "unat (of_nat n :: byte) = n mod 256"
  by (simp add: unat_of_nat)

lemma le_nat_le_bytes [simp]: "le_nat (le_bytes k n) = n mod 256 ^ k"
proof (induction k arbitrary: n)
  case 0
  then show ?case by simp
next
  case (Suc k)
  have "n mod 256 + 256 * (n div 256 mod 256 ^ k) = n mod (256 * 256 ^ k)"
    by (simp add: mod_mult2_eq)
  then show ?case by (simp add: Suc.IH unat_of_nat_byte)
qed

lemma le_nat_bound: "le_nat bs < 256 ^ length bs"
proof (induction bs)
  case Nil
  then show ?case by simp
next
  case (Cons b bs)
  have "unat b < 256" by (rule unat_byte_bound)
  with Cons show ?case by (simp add: mult.commute)
qed

lemma le_bytes_le_nat [simp]: "le_bytes (length bs) (le_nat bs) = bs"
proof (induction bs)
  case Nil
  then show ?case by simp
next
  case (Cons b bs)
  have bound: "unat b < 256" by (rule unat_byte_bound)
  have zero: "(256 :: byte) = 0" by simp
  have "(of_nat (unat b + 256 * m) :: byte) = b" for m
    by (simp add: zero)
  with bound Cons show ?case by simp
qed

text \<open>A machine word as its bytes and back.\<close>

definition word_le :: "nat \<Rightarrow> 'a::len word \<Rightarrow> byte list" where
  "word_le k w = le_bytes k (unat w)"

definition le_word :: "byte list \<Rightarrow> 'a::len word" where
  "le_word bs = of_nat (le_nat bs)"

lemma length_word_le [simp]: "length (word_le k w) = k"
  by (simp add: word_le_def)

lemma le_word_word_le:
  fixes w :: "'a::len word"
  assumes "8 * k = LENGTH('a)"
  shows "le_word (word_le k w) = w"
proof -
  have "(256::nat) ^ k = 2 ^ (8 * k)" by (simp add: power_mult)
  then have "unat w mod 256 ^ k = unat w"
    using unat_bound [of w] assms by simp
  then show ?thesis by (simp add: le_word_def word_le_def)
qed

lemma word_le_le_word:
  assumes "8 * length bs = LENGTH('a::len)"
  shows "word_le (length bs) (le_word bs :: 'a word) = bs"
proof -
  have "(256::nat) ^ length bs = 2 ^ (8 * length bs)" by (simp add: power_mult)
  then have "unat (of_nat (le_nat bs) :: 'a word) = le_nat bs"
    using le_nat_bound [of bs] assms by (simp add: unat_of_nat)
  then show ?thesis by (simp add: le_word_def word_le_def)
qed

lemma word_le_inj:
  fixes v w :: "'a::len word"
  assumes "8 * k = LENGTH('a)"
  shows "word_le k v = word_le k w \<longleftrightarrow> v = w"
  using le_word_word_le [OF assms] by metis

section \<open>Byte ranges\<close>

text \<open>
  \<open>seg off n p\<close> is the \<open>n\<close> bytes at offset \<open>off\<close>; \<open>patch off ys p\<close> is \<open>memcpy(p + off, ys, |ys|)\<close>.
\<close>

definition seg :: "nat \<Rightarrow> nat \<Rightarrow> 'a list \<Rightarrow> 'a list" where
  "seg off n xs = take n (drop off xs)"

definition patch :: "nat \<Rightarrow> 'a list \<Rightarrow> 'a list \<Rightarrow> 'a list" where
  "patch off ys xs = take off xs @ ys @ drop (off + length ys) xs"

lemma length_seg [simp]: "off + n \<le> length xs \<Longrightarrow> length (seg off n xs) = n"
  by (simp add: seg_def)

lemma length_seg_le: "length (seg off n xs) = min n (length xs - off)"
  by (auto simp: seg_def)

lemma nth_seg [simp]: "off + n \<le> length xs \<Longrightarrow> i < n \<Longrightarrow> seg off n xs ! i = xs ! (off + i)"
  by (simp add: seg_def)

lemma seg_0 [simp]: "seg off 0 xs = []"
  by (simp add: seg_def)

lemma length_patch [simp]:
  "off + length ys \<le> length xs \<Longrightarrow> length (patch off ys xs) = length xs"
  by (simp add: patch_def)

lemma patch_Nil [simp]: "patch off [] xs = xs"
  by (simp add: patch_def)

lemma nth_patch:
  assumes "off + length ys \<le> length xs" "i < length xs"
  shows "patch off ys xs ! i =
    (if off \<le> i \<and> i < off + length ys then ys ! (i - off) else xs ! i)"
  using assms by (auto simp: patch_def nth_append)

lemma seg_patch_same [simp]:
  assumes "off + length ys \<le> length xs" "n = length ys"
  shows "seg off n (patch off ys xs) = ys"
  using assms by (simp add: seg_def patch_def)

lemma seg_patch_other:
  assumes "off' + n \<le> off \<or> off + length ys \<le> off'"
    and "off + length ys \<le> length xs" "off' + n \<le> length xs"
  shows "seg off' n (patch off ys xs) = seg off' n xs"
  using assms by (intro nth_equalityI) (auto simp: nth_patch)

lemma seg_patch_inside:
  assumes "off \<le> off'" "off' + n \<le> off + length ys" "off + length ys \<le> length xs"
  shows "seg off' n (patch off ys xs) = seg (off' - off) n ys"
  using assms by (intro nth_equalityI) (auto simp: nth_patch)

lemma patch_seg_id:
  assumes "off + n \<le> length xs"
  shows "patch off (seg off n xs) xs = xs"
  using assms by (intro nth_equalityI) (auto simp: nth_patch)

lemma patch_patch_same:
  assumes "off + length ys \<le> length xs" "length zs = length ys"
  shows "patch off zs (patch off ys xs) = patch off zs xs"
  using assms by (intro nth_equalityI) (auto simp: nth_patch)

lemma patch_commute:
  assumes "off + length ys \<le> off' \<or> off' + length zs \<le> off"
    and "off + length ys \<le> length xs" "off' + length zs \<le> length xs"
  shows "patch off ys (patch off' zs xs) = patch off' zs (patch off ys xs)"
  using assms by (intro nth_equalityI) (auto simp: nth_patch)

lemma patch_append1:
  assumes "off + length ys \<le> length xs"
  shows "patch off ys (xs @ zs) = patch off ys xs @ zs"
  using assms by (simp add: patch_def)

lemma patch_all: "length ys = length xs \<Longrightarrow> patch 0 ys xs = ys"
  by (simp add: patch_def)

lemma seg_all: "n = length xs \<Longrightarrow> seg 0 n xs = xs"
  by (simp add: seg_def)

lemma seg_append_left: "off + n \<le> length xs \<Longrightarrow> seg off n (xs @ ys) = seg off n xs"
  by (simp add: seg_def)

lemma seg_append_right:
  "length xs \<le> off \<Longrightarrow> seg off n (xs @ ys) = seg (off - length xs) n ys"
  by (simp add: seg_def)

lemma seg_update:
  assumes "k < length p" "off + n \<le> length p"
  shows "seg off n (p[k := b]) = (if off \<le> k \<and> k < off + n then (seg off n p)[k - off := b] else seg off n p)"
  using assms by (auto intro!: nth_equalityI simp: nth_list_update)

lemma seg_update_changed:
  assumes "off \<le> k" "k < off + n" "off + n \<le> length p" "b \<noteq> p ! k"
  shows "(seg off n p)[k - off := b] \<noteq> seg off n p"
proof
  assume "(seg off n p)[k - off := b] = seg off n p"
  then have "(seg off n p)[k - off := b] ! (k - off) = seg off n p ! (k - off)" by simp
  with assms show False by simp
qed

lemma seg_seg:
  "a + n \<le> m \<Longrightarrow> seg a n (seg b m xs) = seg (a + b) n xs"
  by (simp add: seg_def take_drop min_def)

section \<open>Fixed-width fields\<close>

text \<open>
  A field of a packed struct at a fixed offset of a byte buffer: reading and writing one
  field, and the laws that make struct access through pointers behave like record access.
\<close>

definition get_field :: "nat \<Rightarrow> nat \<Rightarrow> byte list \<Rightarrow> 'a::len word" where
  "get_field off k p = le_word (seg off k p)"

definition put_field :: "nat \<Rightarrow> nat \<Rightarrow> 'a::len word \<Rightarrow> byte list \<Rightarrow> byte list" where
  "put_field off k v p = patch off (word_le k v) p"

lemma length_put_field [simp]: "off + k \<le> length p \<Longrightarrow> length (put_field off k v p) = length p"
  by (simp add: put_field_def)

lemma get_put_field:
  fixes v :: "'a::len word"
  assumes "off + k \<le> length p" "8 * k = LENGTH('a)"
  shows "get_field off k (put_field off k v p) = v"
  using assms by (simp add: get_field_def put_field_def le_word_word_le)

lemma word_le_get_field:
  assumes "off + k \<le> length p" "8 * k = LENGTH('a::len)"
  shows "word_le k (get_field off k p :: 'a word) = seg off k p"
  using assms word_le_le_word [of "seg off k p", where 'a = 'a] by (simp add: get_field_def)

lemma get_field_eq_iff:
  fixes v :: "'a::len word"
  assumes "off + k \<le> length p" "8 * k = LENGTH('a)"
  shows "get_field off k p = v \<longleftrightarrow> seg off k p = word_le k v"
  using word_le_get_field [OF assms] word_le_inj [OF assms(2)] by metis

lemma get_put_field_other:
  assumes "off' + k' \<le> off \<or> off + k \<le> off'" "off + k \<le> length p" "off' + k' \<le> length p"
  shows "get_field off' k' (put_field off k v p) = get_field off' k' p"
  using assms by (simp add: get_field_def put_field_def seg_patch_other)

lemma seg_put_field_other:
  assumes "off' + n \<le> off \<or> off + k \<le> off'" "off + k \<le> length p" "off' + n \<le> length p"
  shows "seg off' n (put_field off k v p) = seg off' n p"
  using assms by (simp add: put_field_def seg_patch_other)

lemma get_field_patch_other:
  assumes "off' + k' \<le> off \<or> off + length ys \<le> off'"
    and "off + length ys \<le> length p" "off' + k' \<le> length p"
  shows "get_field off' k' (patch off ys p) = get_field off' k' p"
  using assms by (simp add: get_field_def seg_patch_other)

lemma put_put_field:
  assumes "off + k \<le> length p"
  shows "put_field off k v (put_field off k w p) = put_field off k v p"
  using assms by (simp add: put_field_def patch_patch_same)

lemma put_field_commute:
  assumes "off + k \<le> off' \<or> off' + k' \<le> off" "off + k \<le> length p" "off' + k' \<le> length p"
  shows "put_field off k v (put_field off' k' w p) = put_field off' k' w (put_field off k v p)"
  unfolding put_field_def using assms by (intro patch_commute) simp_all

lemma nth_put_field:
  assumes "off + k \<le> length p" "i < length p"
  shows "put_field off k v p ! i = (if off \<le> i \<and> i < off + k then word_le k v ! (i - off) else p ! i)"
  using assms by (simp add: put_field_def nth_patch)

section \<open>Arrays of fixed-size cells\<close>

text \<open>
  \<open>cells base stride n p\<close> is the array of \<open>n\<close> cells of \<open>stride\<close> bytes that starts at \<open>base\<close>. The lemmas
  turn byte-range writes that are aligned to cells into list operations on the cells.
\<close>

definition cells :: "nat \<Rightarrow> nat \<Rightarrow> nat \<Rightarrow> byte list \<Rightarrow> byte list list" where
  "cells base stride n p = map (\<lambda>i. seg (base + i * stride) stride p) [0..<n]"

lemma length_cells [simp]: "length (cells base stride n p) = n"
  by (simp add: cells_def)

lemma nth_cells [simp]: "i < n \<Longrightarrow> cells base stride n p ! i = seg (base + i * stride) stride p"
  by (simp add: cells_def)

lemma take_cells [simp]: "k \<le> n \<Longrightarrow> take k (cells base stride n p) = cells base stride k p"
  by (simp add: cells_def take_map)

lemma length_concat_uniform:
  assumes "\<And>c. c \<in> set cs \<Longrightarrow> length c = stride"
  shows "length (concat cs) = length cs * stride"
  using assms by (induction cs) auto

lemma seg_concat_uniform:
  assumes "\<And>c. c \<in> set cs \<Longrightarrow> length c = stride" "i < length cs"
  shows "seg (i * stride) stride (concat cs) = cs ! i"
  using assms
proof (induction cs arbitrary: i)
  case Nil
  then show ?case by simp
next
  case (Cons c cs)
  then have len: "length c = stride" by simp
  show ?case
  proof (cases i)
    case 0
    with len show ?thesis by (simp add: seg_def)
  next
    case (Suc j)
    with Cons have "seg (j * stride) stride (concat cs) = cs ! j" by simp
    with len Suc show ?thesis by (simp add: seg_append_right)
  qed
qed

lemma seg_eq_concat_cells:
  assumes "base + n * stride \<le> length p"
  shows "seg base (n * stride) p = concat (cells base stride n p)"
  using assms
proof (induction n)
  case 0
  then show ?case by (simp add: cells_def)
next
  case (Suc n)
  have "seg base (n * stride + stride) p = seg base (n * stride) p @ seg (base + n * stride) stride p"
    by (simp add: seg_def take_add add.commute [of base])
  then have "seg base (Suc n * stride) p = seg base (n * stride) p @ seg (base + n * stride) stride p"
    by (simp add: add.commute)
  also have "\<dots> = concat (cells base stride n p) @ seg (base + n * stride) stride p"
    using Suc by simp
  finally show ?case by (simp add: cells_def)
qed

lemma cells_patch_aligned:
  assumes len: "\<And>c. c \<in> set cs \<Longrightarrow> length c = stride"
    and fit: "base + (i + length cs) * stride \<le> length p" "base + n * stride \<le> length p"
    and "0 < stride"
  shows "cells base stride n (patch (base + i * stride) (concat cs) p) ! j =
    (if j < n then if i \<le> j \<and> j < i + length cs then cs ! (j - i) else cells base stride n p ! j
     else cells base stride n (patch (base + i * stride) (concat cs) p) ! j)"
proof (cases "j < n")
  case False
  then show ?thesis by simp
next
  case True
  let ?p = "patch (base + i * stride) (concat cs) p"
  have lc: "length (concat cs) = length cs * stride" using len by (rule length_concat_uniform)
  have fits: "base + i * stride + length (concat cs) \<le> length p"
    using fit(1) lc by (simp add: algebra_simps)
  have fj: "base + j * stride + stride \<le> length p"
  proof -
    have "Suc j * stride \<le> n * stride" using True by (intro mult_le_mono1) simp
    then show ?thesis using fit(2) by simp
  qed
  consider (below) "j < i" | (inside) "i \<le> j" "j < i + length cs" | (above) "i + length cs \<le> j"
    by linarith
  then show ?thesis
  proof cases
    case below
    have "Suc j * stride \<le> i * stride" using below by (intro mult_le_mono1) simp
    then show ?thesis using True below fits fj by (simp add: seg_patch_other)
  next
    case above
    have "(i + length cs) * stride \<le> j * stride" using above by (intro mult_le_mono1)
    then have "base + i * stride + length (concat cs) \<le> base + j * stride"
      by (simp add: lc algebra_simps)
    then show ?thesis using True above fits fj by (simp add: seg_patch_other)
  next
    case inside
    have "Suc (j - i) * stride \<le> length cs * stride"
      using inside by (intro mult_le_mono1) simp
    moreover have "j * stride = i * stride + (j - i) * stride"
      using inside by (simp add: diff_mult_distrib)
    ultimately have "seg (base + j * stride) stride ?p = seg ((j - i) * stride) stride (concat cs)"
      using fits by (subst seg_patch_inside) (auto simp: lc)
    also have "\<dots> = cs ! (j - i)" using inside by (intro seg_concat_uniform len) auto
    finally show ?thesis using True inside by simp
  qed
qed

lemma cells_put_other:
  assumes "off + length ys \<le> base \<or> base + n * stride \<le> off"
    and "off + length ys \<le> length p" "base + n * stride \<le> length p"
  shows "cells base stride n (patch off ys p) = cells base stride n p"
proof (rule nth_equalityI)
  fix j assume "j < length (cells base stride n (patch off ys p))"
  then have "j < n" by simp
  then have "Suc j * stride \<le> n * stride" by (intro mult_le_mono1) simp
  with assms \<open>j < n\<close>
  show "cells base stride n (patch off ys p) ! j = cells base stride n p ! j"
    by (auto intro!: seg_patch_other)
qed simp

lemma map_sum_Inr_iff: "map_sum f g x = Inr y \<longleftrightarrow> (\<exists>z. x = Inr z \<and> y = g z)"
  by (cases x) auto

end
