(* ===== verification/Page.thy ===== *)
theory Page
  imports Prelude
begin

unbundle bit_operations_syntax

text \<open>
  Pages (\<open>page.h\<close>) and their checksum (\<open>checksum.h\<close>). A page is its 4096 bytes; the packed
  \<open>PageHeader\<close> at its start is read and written through fields at fixed offsets. The locale
  \<open>page_field\<close> is the contract of one such field, \<open>byte_hash\<close> the contract of a byte-wise hash
  whose step loses nothing; FNV-1a is shown to be one.
\<close>

section \<open>Pages and header fields\<close>

type_synonym page = "byte list"

definition PAGE_SIZE :: nat where
  "PAGE_SIZE = 4096"

definition INVALID_PAGE_ID :: page_id_t where
  "INVALID_PAGE_ID = - 1"

datatype PageType = INVALID | LEAF | INTERNAL | METADATA | CATALOG

text \<open>The underlying \<open>uint8_t\<close> of the enumeration.\<close>
primrec page_type_code :: "PageType \<Rightarrow> byte" where
  "page_type_code INVALID = 0"
| "page_type_code LEAF = 1"
| "page_type_code INTERNAL = 2"
| "page_type_code METADATA = 3"
| "page_type_code CATALOG = 4"

definition PageHeader_size :: nat where
  "PageHeader_size = 24"

definition hdr_page_id :: "page \<Rightarrow> page_id_t" where
  "hdr_page_id = get_field 0 4"

definition set_page_id :: "page_id_t \<Rightarrow> page \<Rightarrow> page" where
  "set_page_id = put_field 0 4"

definition hdr_page_type :: "page \<Rightarrow> byte" where
  "hdr_page_type = get_field 4 1"

definition set_page_type :: "byte \<Rightarrow> page \<Rightarrow> page" where
  "set_page_type = put_field 4 1"

definition hdr_num_slots :: "page \<Rightarrow> u16" where
  "hdr_num_slots = get_field 5 2"

definition set_num_slots :: "u16 \<Rightarrow> page \<Rightarrow> page" where
  "set_num_slots = put_field 5 2"

definition hdr_lsn :: "page \<Rightarrow> u32" where
  "hdr_lsn = get_field 9 4"

definition set_lsn :: "u32 \<Rightarrow> page \<Rightarrow> page" where
  "set_lsn = put_field 9 4"

definition hdr_checksum :: "page \<Rightarrow> u32" where
  "hdr_checksum = get_field 13 4"

definition set_checksum :: "u32 \<Rightarrow> page \<Rightarrow> page" where
  "set_checksum = put_field 13 4"

text \<open>The default-constructed page.\<close>
definition zero_page :: page where
  "zero_page = replicate PAGE_SIZE 0"

definition wf_page :: "page \<Rightarrow> bool" where
  "wf_page p \<longleftrightarrow> length p = PAGE_SIZE"

lemmas header_defs = hdr_page_id_def set_page_id_def hdr_page_type_def set_page_type_def
  hdr_num_slots_def set_num_slots_def hdr_lsn_def set_lsn_def hdr_checksum_def set_checksum_def

declare PAGE_SIZE_def [layout_simps] PageHeader_size_def [layout_simps]

lemma wf_zero_page [simp]: "wf_page zero_page"
  by (simp add: wf_page_def zero_page_def)

section \<open>The contract of a header field\<close>

locale page_field =
  fixes off k :: nat
    and get :: "page \<Rightarrow> 'a::len word"
    and put :: "'a word \<Rightarrow> page \<Rightarrow> page"
  assumes get_eq: "get = get_field off k"
    and put_eq: "put = put_field off k"
    and fits: "off + k \<le> PAGE_SIZE"
    and width: "8 * k = LENGTH('a)"
begin

lemma wf_put [simp]: "wf_page p \<Longrightarrow> wf_page (put v p)"
  using fits by (simp add: put_eq wf_page_def)

lemma get_put [simp]: "wf_page p \<Longrightarrow> get (put v p) = v"
  using fits width by (simp add: get_eq put_eq wf_page_def get_put_field)

lemma put_put [simp]: "wf_page p \<Longrightarrow> put v (put w p) = put v p"
  using fits by (simp add: put_eq wf_page_def put_put_field)

lemma put_get [simp]: "wf_page p \<Longrightarrow> put (get p) p = p"
proof -
  assume "wf_page p"
  then have len: "length (seg off k p) = k" and "off + k \<le> length p"
    using fits by (simp_all add: wf_page_def)
  moreover have "word_le (length (seg off k p)) (le_word (seg off k p) :: 'a word) = seg off k p"
    using width len by (intro word_le_le_word) simp
  ultimately show ?thesis
    by (simp add: get_eq put_eq get_field_def put_field_def patch_seg_id)
qed

lemma seg_put [simp]:
  assumes "wf_page p" "a + n \<le> off \<or> off + k \<le> a" "a + n \<le> PAGE_SIZE"
  shows "seg a n (put v p) = seg a n p"
  using assms fits by (simp add: put_eq wf_page_def seg_put_field_other)

lemma nth_put [simp]:
  assumes "wf_page p" "i < off \<or> off + k \<le> i" "i < PAGE_SIZE"
  shows "put v p ! i = p ! i"
  using assms fits by (auto simp: put_eq wf_page_def nth_put_field)

lemma get_patch [simp]:
  assumes "wf_page p" "off + k \<le> a \<or> a + length ys \<le> off" "a + length ys \<le> PAGE_SIZE"
  shows "get (patch a ys p) = get p"
  using assms fits by (simp add: get_eq wf_page_def get_field_patch_other)

lemma get_update [simp]:
  assumes "wf_page p" "i < off \<or> off + k \<le> i" "i < PAGE_SIZE"
  shows "get (p[i := b]) = get p"
proof -
  have "seg off k (p[i := b]) = seg off k p"
    using assms fits by (intro nth_equalityI) (auto simp: wf_page_def nth_list_update)
  then show ?thesis by (simp add: get_eq get_field_def)
qed

end

locale two_fields = f: page_field off k get put + g: page_field off' k' get' put'
  for off k get put off' k' get' put' +
  assumes disjoint: "off + k \<le> off' \<or> off' + k' \<le> off"
begin

lemma get_put_other [simp]: "wf_page p \<Longrightarrow> get (put' v p) = get p"
  using disjoint f.fits g.fits
  by (auto simp: f.get_eq g.put_eq wf_page_def get_put_field_other)

lemma get'_put_other [simp]: "wf_page p \<Longrightarrow> get' (put v p) = get' p"
  using disjoint f.fits g.fits
  by (auto simp: g.get_eq f.put_eq wf_page_def get_put_field_other)

lemma put_commute: "wf_page p \<Longrightarrow> put v (put' w p) = put' w (put v p)"
  using disjoint f.fits g.fits
  by (auto simp: f.put_eq g.put_eq wf_page_def intro!: put_field_commute)

end

interpretation page_id: page_field 0 4 hdr_page_id set_page_id
  by unfold_locales (simp_all add: header_defs layout_simps)

interpretation page_type: page_field 4 1 hdr_page_type set_page_type
  by unfold_locales (simp_all add: header_defs layout_simps)

interpretation num_slots: page_field 5 2 hdr_num_slots set_num_slots
  by unfold_locales (simp_all add: header_defs layout_simps)

interpretation lsn: page_field 9 4 hdr_lsn set_lsn
  by unfold_locales (simp_all add: header_defs layout_simps)

interpretation checksum: page_field 13 4 hdr_checksum set_checksum
  by unfold_locales (simp_all add: header_defs layout_simps)

interpretation id_type: two_fields 0 4 hdr_page_id set_page_id 4 1 hdr_page_type set_page_type
  by unfold_locales simp

interpretation id_slots: two_fields 0 4 hdr_page_id set_page_id 5 2 hdr_num_slots set_num_slots
  by unfold_locales simp

interpretation id_lsn: two_fields 0 4 hdr_page_id set_page_id 9 4 hdr_lsn set_lsn
  by unfold_locales simp

interpretation id_sum: two_fields 0 4 hdr_page_id set_page_id 13 4 hdr_checksum set_checksum
  by unfold_locales simp

interpretation type_slots: two_fields 4 1 hdr_page_type set_page_type 5 2 hdr_num_slots set_num_slots
  by unfold_locales simp

interpretation type_lsn: two_fields 4 1 hdr_page_type set_page_type 9 4 hdr_lsn set_lsn
  by unfold_locales simp

interpretation type_sum: two_fields 4 1 hdr_page_type set_page_type 13 4 hdr_checksum set_checksum
  by unfold_locales simp

interpretation slots_lsn: two_fields 5 2 hdr_num_slots set_num_slots 9 4 hdr_lsn set_lsn
  by unfold_locales simp

interpretation slots_sum: two_fields 5 2 hdr_num_slots set_num_slots 13 4 hdr_checksum set_checksum
  by unfold_locales simp

interpretation lsn_sum: two_fields 9 4 hdr_lsn set_lsn 13 4 hdr_checksum set_checksum
  by unfold_locales simp

section \<open>Byte-wise hashing\<close>

locale byte_hash =
  fixes step :: "'h \<Rightarrow> byte \<Rightarrow> 'h"
  assumes state_inj: "step h b = step h' b \<Longrightarrow> h = h'"
    and byte_inj: "step h b = step h b' \<Longrightarrow> b = b'"
begin

lemma foldl_inj: "foldl step h bs = foldl step h' bs \<Longrightarrow> h = h'"
proof (induction bs arbitrary: h h')
  case Nil
  then show ?case by simp
next
  case (Cons b bs)
  then have "step h b = step h' b" by simp
  then show ?case by (rule state_inj)
qed

lemma one_byte_detected: "foldl step h (xs @ a # ys) = foldl step h (xs @ b # ys) \<Longrightarrow> a = b"
  by (auto dest: foldl_inj byte_inj)

lemma update_detected:
  assumes "i < length bs" "b \<noteq> bs ! i"
  shows "foldl step h (bs[i := b]) \<noteq> foldl step h bs"
proof
  assume eq: "foldl step h (bs[i := b]) = foldl step h bs"
  have "bs = take i bs @ bs ! i # drop (Suc i) bs" using assms by (simp add: id_take_nth_drop)
  moreover have "bs[i := b] = take i bs @ b # drop (Suc i) bs"
    using assms by (simp add: upd_conv_take_nth_drop)
  ultimately have "foldl step h (take i bs @ b # drop (Suc i) bs) =
      foldl step h (take i bs @ bs ! i # drop (Suc i) bs)"
    using eq by simp
  then have "b = bs ! i" by (rule one_byte_detected)
  with assms show False by simp
qed

end

definition FNV_OFFSET :: u32 where
  "FNV_OFFSET = 2166136261"

definition FNV_PRIME :: u32 where
  "FNV_PRIME = 16777619"

definition fnv_step :: "u32 \<Rightarrow> byte \<Rightarrow> u32" where
  "fnv_step hash b = (hash XOR ucast b) * FNV_PRIME"

text \<open>The multiplier is a unit modulo \<open>2 ^ 32\<close>, so multiplying by it loses nothing.\<close>

lemma fnv_prime_unit: "FNV_PRIME * 899433627 = 1"
  by (simp add: FNV_PRIME_def)

lemma mult_fnv_prime_inj: "x * FNV_PRIME = y * FNV_PRIME \<Longrightarrow> x = y"
proof -
  assume "x * FNV_PRIME = y * FNV_PRIME"
  then have "x * (FNV_PRIME * 899433627) = y * (FNV_PRIME * 899433627)"
    by (simp only: mult.assoc [symmetric])
  then show ?thesis by (simp add: fnv_prime_unit)
qed

lemma xor_left_inj: "(x :: 'a::len word) XOR y = x XOR z \<Longrightarrow> y = z"
proof -
  assume "x XOR y = x XOR z"
  then have "x XOR (x XOR y) = x XOR (x XOR z)" by simp
  then show ?thesis by (simp add: xor.assoc [symmetric])
qed

lemma ucast_byte_inj: "(ucast (a :: byte) :: u32) = ucast b \<Longrightarrow> a = b"
proof -
  have "unat (ucast c :: u32) = unat c" for c :: byte
    using unat_byte_bound [of c] by (simp add: unsigned_ucast_eq take_bit_nat_eq_self)
  then show "(ucast a :: u32) = ucast b \<Longrightarrow> a = b" by (metis word_unat_eq_iff)
qed

interpretation fnv: byte_hash fnv_step
proof
  show "h = h'" if "fnv_step h b = fnv_step h' b" for h h' b
    using that xor_left_inj [of "ucast b" h h']
    by (auto simp: fnv_step_def xor.commute dest!: mult_fnv_prime_inj)
  show "b = b'" if "fnv_step h b = fnv_step h b'" for h b b'
    using that by (auto simp: fnv_step_def dest!: mult_fnv_prime_inj xor_left_inj ucast_byte_inj)
qed

section \<open>The page checksum\<close>

definition checksum_offset :: nat where
  "checksum_offset = 13"

text \<open>The loop of \<open>ComputeChecksum\<close> over every byte index, skipping the checksum's own bytes.\<close>
definition ComputeChecksum :: "page \<Rightarrow> u32" where
  "ComputeChecksum p =
     foldl (\<lambda>hash i. if checksum_offset \<le> i \<and> i < checksum_offset + 4 then hash
                     else fnv_step hash (p ! i))
       FNV_OFFSET [0..<PAGE_SIZE]"

text \<open>The loop is FNV-1a over the page with the four checksum bytes cut out.\<close>

lemma foldl_skip:
  "foldl (\<lambda>h i. if P i then h else f h i) a xs = foldl f a (filter (\<lambda>i. \<not> P i) xs)"
  by (induction xs arbitrary: a) auto

lemma foldl_nth_upt:
  "b \<le> length p \<Longrightarrow> a \<le> b \<Longrightarrow> foldl (\<lambda>h i. f h (p ! i)) h [a..<b] = foldl f h (seg a (b - a) p)"
proof (induction "b - a" arbitrary: b)
  case 0
  then show ?case by simp
next
  case (Suc n)
  then obtain c where b: "b = Suc c" "a \<le> c" by (cases b) auto
  with Suc have "foldl (\<lambda>h i. f h (p ! i)) h [a..<c] = foldl f h (seg a (c - a) p)" by simp
  moreover have "seg a (b - a) p = seg a (c - a) p @ [p ! c]"
    using b Suc.prems by (simp add: seg_def Suc_diff_le take_Suc_conv_app_nth)
  ultimately show ?case using b by simp
qed

lemma filter_upt_gap:
  assumes "a \<le> b" "b \<le> n"
  shows "filter (\<lambda>i. a \<le> i \<longrightarrow> \<not> i < b) [0..<n] = [0..<a] @ [b..<n]"
proof -
  have "[0..<n] = [0..<a] @ [a..<b] @ [b..<n]"
    using assms upt_add_eq_append [of 0 a "n - a"] upt_add_eq_append [of a b "n - b"] by simp
  then show ?thesis using assms by (simp add: filter_False filter_True)
qed

lemma foldl_gap:
  assumes "a \<le> b" "b \<le> length p"
  shows "foldl (\<lambda>h i. if a \<le> i \<and> i < b then h else f h (p ! i)) h [0..<length p] =
    foldl f h (take a p @ drop b p)"
  using assms foldl_nth_upt [of a p 0 f] foldl_nth_upt [of "length p" p b f]
  by (simp add: foldl_skip filter_upt_gap seg_def)

lemma ComputeChecksum_eq_fnv:
  assumes "wf_page p"
  shows "ComputeChecksum p = foldl fnv_step FNV_OFFSET (take 13 p @ drop 17 p)"
  using assms foldl_gap [of 13 17 p fnv_step FNV_OFFSET]
  by (simp add: ComputeChecksum_def checksum_offset_def wf_page_def PAGE_SIZE_def del: upt_rec_numeral)

lemma ComputeChecksum_set_checksum [simp]:
  assumes "wf_page p"
  shows "ComputeChecksum (set_checksum v p) = ComputeChecksum p"
proof -
  have "take 13 (set_checksum v p) = take 13 p" "drop 17 (set_checksum v p) = drop 17 p"
    using assms by (simp_all add: set_checksum_def put_field_def patch_def wf_page_def PAGE_SIZE_def)
  then show ?thesis using assms by (simp add: ComputeChecksum_eq_fnv)
qed

end
