(* ===== verification/Posix_File.thy ===== *)
theory Posix_File
  imports Page
begin

text \<open>
  The part of the POSIX file interface the storage layer calls (\<open>pread\<close>, \<open>pwrite\<close>, \<open>ftruncate\<close>,
  \<open>fsync\<close>, \<open>fstat\<close>). A file is its bytes. \<open>f_cap\<close> is how many bytes the device or the process
  limit lets it hold (\<open>None\<close>: no limit): a \<open>pwrite\<close> past it writes what fits and reports the
  shorter count. \<open>f_sync_ok\<close> tells whether \<open>fsync\<close> succeeds.
\<close>

record os_file =
  f_bytes :: "byte list"
  f_cap :: "nat option"
  f_sync_ok :: bool

definition f_size :: "os_file \<Rightarrow> nat" where
  "f_size f = length (f_bytes f)"

text \<open>\<open>pread\<close> returns the bytes it could read: fewer than asked for at the end of the file.\<close>
definition pread :: "os_file \<Rightarrow> nat \<Rightarrow> nat \<Rightarrow> byte list" where
  "pread f n off = seg off n (f_bytes f)"

text \<open>Writing past the end fills the gap with zero bytes.\<close>
definition file_write :: "nat \<Rightarrow> byte list \<Rightarrow> byte list \<Rightarrow> byte list" where
  "file_write off bs f =
     (if bs = [] then f else patch off bs (f @ replicate (off + length bs - length f) 0))"

definition writable :: "os_file \<Rightarrow> nat \<Rightarrow> nat \<Rightarrow> nat" where
  "writable f off n = (case f_cap f of None \<Rightarrow> n | Some c \<Rightarrow> min n (c - off))"

definition pwrite :: "os_file \<Rightarrow> byte list \<Rightarrow> nat \<Rightarrow> nat \<times> os_file" where
  "pwrite f bs off =
     (let n = writable f off (length bs)
      in (n, f\<lparr>f_bytes := file_write off (take n bs) (f_bytes f)\<rparr>))"

definition ftruncate :: "os_file \<Rightarrow> nat \<Rightarrow> os_file" where
  "ftruncate f n = f\<lparr>f_bytes := take n (f_bytes f)\<rparr>"

text \<open>A file whose writes and syncs do not fail.\<close>
definition file_ok :: "os_file \<Rightarrow> bool" where
  "file_ok f \<longleftrightarrow> f_cap f = None \<and> f_sync_ok f"

lemma length_file_write [simp]:
  "bs \<noteq> [] \<Longrightarrow> length (file_write off bs f) = max (length f) (off + length bs)"
  by (simp add: file_write_def max_def)

lemma nth_file_write:
  assumes "bs \<noteq> []" "i < max (length f) (off + length bs)"
  shows "file_write off bs f ! i =
    (if off \<le> i \<and> i < off + length bs then bs ! (i - off) else if i < length f then f ! i else 0)"
proof -
  let ?f = "f @ replicate (off + length bs - length f) 0"
  have "file_write off bs f ! i =
      (if off \<le> i \<and> i < off + length bs then bs ! (i - off) else ?f ! i)"
    using assms by (simp add: file_write_def nth_patch max_def split: if_splits)
  then show ?thesis using assms by (auto simp: nth_append)
qed

lemma seg_file_write_same [simp]:
  "n = length bs \<Longrightarrow> bs \<noteq> [] \<Longrightarrow> seg off n (file_write off bs f) = bs"
  by (rule nth_equalityI) (simp_all add: nth_file_write)

lemma seg_file_write_other:
  assumes "bs \<noteq> []" "a + n \<le> off \<or> off + length bs \<le> a" "a + n \<le> length f"
  shows "seg a n (file_write off bs f) = seg a n f"
  using assms by (intro nth_equalityI) (auto simp: nth_file_write)

lemma file_write_commute:
  assumes "bs \<noteq> []" "cs \<noteq> []" "a + length bs \<le> b \<or> b + length cs \<le> a"
  shows "file_write a bs (file_write b cs f) = file_write b cs (file_write a bs f)"
  using assms by (intro nth_equalityI) (auto simp: nth_file_write)

lemma file_write_idem:
  assumes "bs \<noteq> []"
  shows "file_write a bs (file_write a bs f) = file_write a bs f"
  using assms by (intro nth_equalityI) (auto simp: nth_file_write)

lemma file_write_append: "bs \<noteq> [] \<Longrightarrow> file_write (length f) bs f = f @ bs"
  by (rule nth_equalityI) (auto simp: nth_file_write nth_append)

lemma pwrite_ok:
  "file_ok f \<Longrightarrow> pwrite f bs off = (length bs, f\<lparr>f_bytes := file_write off bs (f_bytes f)\<rparr>)"
  by (simp add: pwrite_def writable_def file_ok_def)

lemma file_ok_update [simp]: "file_ok (f\<lparr>f_bytes := bs\<rparr>) = file_ok f"
  by (simp add: file_ok_def)

lemma file_ok_ftruncate [simp]: "file_ok (ftruncate f n) = file_ok f"
  by (simp add: ftruncate_def)

end
