(* ===== verification/Disk_Manager.thy ===== *)
theory Disk_Manager
  imports Posix_File "HOL-Library.Multiset"
begin

text \<open>
  The disk manager (\<open>disk_manager.h\<close>, \<open>disk_manager.cpp\<close>): a flat file of checksummed pages and
  the page-id counter. The locale \<open>page_file\<close> is what its clients, the buffer pool and recovery,
  rely on; the manager is shown to provide it on a file whose writes succeed.
\<close>

section \<open>Operations\<close>

record DiskManager =
  dm_file :: os_file
  next_page_id :: page_id_t

definition page_offset :: "page_id_t \<Rightarrow> nat" where
  "page_offset i = unat i * PAGE_SIZE"

text \<open>The constructor, on a file that could be opened.\<close>
definition DiskManager_open :: "os_file \<Rightarrow> DiskManager" where
  "DiskManager_open f = \<lparr>dm_file = f, next_page_id = of_nat (f_size f div PAGE_SIZE)\<rparr>"

text \<open>\<open>ReadPage\<close> fills the caller's buffer before it checks the length and the checksum.\<close>
definition ReadPage :: "DiskManager \<Rightarrow> page_id_t \<Rightarrow> page \<Rightarrow> unit res \<times> page" where
  "ReadPage d i buf =
     (let raw = pread (dm_file d) PAGE_SIZE (page_offset i);
          buf' = patch 0 raw buf
      in if length raw \<noteq> PAGE_SIZE then (Inl (RuntimeError ''DiskManager: short read''), buf')
         else if hdr_checksum buf' \<noteq> ComputeChecksum buf'
           then (Inl (RuntimeError ''DiskManager: checksum mismatch''), buf')
         else (Inr (), buf'))"

text \<open>\<open>WritePage\<close> stamps the checksum into the caller's page and writes it.\<close>
definition WritePage :: "DiskManager \<Rightarrow> page_id_t \<Rightarrow> page \<Rightarrow> unit res \<times> page \<times> DiskManager" where
  "WritePage d i p =
     (let p' = set_checksum (ComputeChecksum p) p;
          (n, f') = pwrite (dm_file d) p' (page_offset i);
          d' = d\<lparr>dm_file := f'\<rparr>
      in if n \<noteq> PAGE_SIZE then (Inl (RuntimeError ''DiskManager: short write''), p', d')
         else (Inr (), p', d'))"

definition AllocatePage :: "DiskManager \<Rightarrow> page_id_t \<times> DiskManager" where
  "AllocatePage d = (next_page_id d, d\<lparr>next_page_id := next_page_id d + 1\<rparr>)"

definition Flush :: "DiskManager \<Rightarrow> unit res" where
  "Flush d = (if f_sync_ok (dm_file d) then Inr () else Inl (RuntimeError ''DiskManager: fsync failed''))"

definition NumPages :: "DiskManager \<Rightarrow> nat" where
  "NumPages d = unat (next_page_id d)"

definition RefreshNextPageIdAfterRecovery :: "DiskManager \<Rightarrow> DiskManager" where
  "RefreshNextPageIdAfterRecovery d =
     d\<lparr>next_page_id := of_nat (f_size (dm_file d) div PAGE_SIZE)\<rparr>"

section \<open>The contract of a page file\<close>

text \<open>What \<open>WritePage\<close> leaves in the page: the checksum of its own bytes.\<close>
definition seal :: "page \<Rightarrow> page" where
  "seal p = set_checksum (ComputeChecksum p) p"

text \<open>A run of writes that stops at the first failure, as a loop of throwing calls does.\<close>
fun write_pages ::
  "('d \<Rightarrow> page_id_t \<Rightarrow> page \<Rightarrow> unit res \<times> page \<times> 'd) \<Rightarrow> (page_id_t \<times> page) list \<Rightarrow> 'd \<Rightarrow> unit res \<times> 'd"
where
  "write_pages wr [] d = (Inr (), d)"
| "write_pages wr ((i, p) # ps) d =
     (case wr d i p of
        (Inl e, _, d') \<Rightarrow> (Inl e, d')
      | (Inr _, _, d') \<Rightarrow> write_pages wr ps d')"

locale page_file =
  fixes wr :: "'d \<Rightarrow> page_id_t \<Rightarrow> page \<Rightarrow> unit res \<times> page \<times> 'd"
    and content_at :: "'d \<Rightarrow> page_id_t \<Rightarrow> page option"
    and ok :: "'d \<Rightarrow> bool"
  assumes write_succeeds: "ok d \<Longrightarrow> wf_page p \<Longrightarrow> \<exists>d'. wr d i p = (Inr (), seal p, d') \<and> ok d'"
    and read_written: "ok d \<Longrightarrow> wf_page p \<Longrightarrow> wr d i p = (Inr (), p', d') \<Longrightarrow> content_at d' i = Some (seal p)"
    and read_other: "ok d \<Longrightarrow> wf_page p \<Longrightarrow> wr d i p = (Inr (), p', d') \<Longrightarrow> j \<noteq> i \<Longrightarrow>
      content_at d j = Some q \<Longrightarrow> content_at d' j = Some q"
begin

lemma write_pages_ok:
  assumes "ok d" "\<forall>(i, p) \<in> set ps. wf_page p" "distinct (map fst ps)"
  shows "\<exists>d'. write_pages wr ps d = (Inr (), d') \<and> ok d'
    \<and> (\<forall>i p. (i, p) \<in> set ps \<longrightarrow> content_at d' i = Some (seal p))
    \<and> (\<forall>j q. j \<notin> fst ` set ps \<longrightarrow> content_at d j = Some q \<longrightarrow> content_at d' j = Some q)"
  using assms
proof (induction ps arbitrary: d)
  case Nil
  then show ?case by simp
next
  case (Cons ip ps)
  obtain i p where ip: "ip = (i, p)" by (cases ip)
  with Cons.prems have wf: "wf_page p" by simp
  obtain d1 where d1: "wr d i p = (Inr (), seal p, d1)" "ok d1"
    using write_succeeds [OF Cons.prems(1) wf] by blast
  from Cons.prems ip have "\<forall>(i, p) \<in> set ps. wf_page p" "distinct (map fst ps)" by auto
  from Cons.IH [OF d1(2) this] obtain d2 where d2: "write_pages wr ps d1 = (Inr (), d2)" "ok d2"
    "\<And>i p. (i, p) \<in> set ps \<Longrightarrow> content_at d2 i = Some (seal p)"
    "\<And>j q. j \<notin> fst ` set ps \<Longrightarrow> content_at d1 j = Some q \<Longrightarrow> content_at d2 j = Some q"
    by blast
  have "content_at d1 i = Some (seal p)" by (rule read_written [OF Cons.prems(1) wf d1(1)])
  moreover have "i \<notin> fst ` set ps" using Cons.prems(3) ip by simp
  ultimately have "content_at d2 i = Some (seal p)" by (rule d2(4) [rotated])
  moreover have "content_at d2 j = Some q"
    if "j \<notin> fst ` set (ip # ps)" "content_at d j = Some q" for j q
    using that ip d2(4) read_other [OF Cons.prems(1) wf d1(1), of j q] by auto
  ultimately show ?case using d1 d2 ip by auto
qed

end

section \<open>The disk manager provides it\<close>

definition page_at :: "DiskManager \<Rightarrow> page_id_t \<Rightarrow> page option" where
  "page_at d i = (case ReadPage d i zero_page of (Inr _, p) \<Rightarrow> Some p | (Inl _, _) \<Rightarrow> None)"

definition dm_ok :: "DiskManager \<Rightarrow> bool" where
  "dm_ok d \<longleftrightarrow> file_ok (dm_file d)"

lemma wf_seal [simp]: "wf_page p \<Longrightarrow> wf_page (seal p)"
  by (simp add: seal_def)

lemma hdr_checksum_seal: "wf_page p \<Longrightarrow> hdr_checksum (seal p) = ComputeChecksum (seal p)"
  by (simp add: seal_def)

lemma wf_page_not_Nil: "wf_page p \<Longrightarrow> p \<noteq> []"
  by (auto simp: wf_page_def PAGE_SIZE_def)

lemma page_offset_disjoint:
  assumes "i \<noteq> j"
  shows "page_offset i + PAGE_SIZE \<le> page_offset j \<or> page_offset j + PAGE_SIZE \<le> page_offset i"
proof -
  have "unat i < unat j \<or> unat j < unat i" using assms by (meson linorder_neqE_nat word_unat_eq_iff)
  then have "Suc (unat i) * PAGE_SIZE \<le> unat j * PAGE_SIZE \<or> Suc (unat j) * PAGE_SIZE \<le> unat i * PAGE_SIZE"
    by (meson Suc_leI mult_le_mono1)
  then show ?thesis by (auto simp: page_offset_def)
qed

lemma WritePage_ok:
  "dm_ok d \<Longrightarrow> wf_page p \<Longrightarrow> WritePage d i p =
     (Inr (), seal p, d\<lparr>dm_file := (dm_file d)\<lparr>f_bytes :=
        file_write (page_offset i) (seal p) (f_bytes (dm_file d))\<rparr>\<rparr>)"
  by (simp add: WritePage_def dm_ok_def pwrite_ok seal_def wf_page_def [symmetric] Let_def)

text \<open>Reading does not depend on what the buffer held.\<close>
lemma ReadPage_page_at:
  assumes "wf_page buf" "page_at d i = Some p"
  shows "ReadPage d i buf = (Inr (), p)"
proof -
  have "patch 0 raw buf = raw" if "length raw = PAGE_SIZE" for raw
    using that assms(1) by (simp add: patch_all wf_page_def)
  moreover have "patch 0 raw zero_page = raw" if "length raw = PAGE_SIZE" for raw
    using that by (simp add: patch_all zero_page_def)
  ultimately show ?thesis
    using assms(2) by (auto simp: page_at_def ReadPage_def Let_def split: if_splits)
qed

lemma page_at_iff:
  "page_at d i = Some p \<longleftrightarrow>
     seg (page_offset i) PAGE_SIZE (f_bytes (dm_file d)) = p \<and> wf_page p \<and> hdr_checksum p = ComputeChecksum p"
proof -
  have "patch 0 raw zero_page = raw" if "length raw = PAGE_SIZE" for raw
    using that by (simp add: patch_all zero_page_def)
  then show ?thesis
    by (auto simp: page_at_def ReadPage_def Let_def pread_def wf_page_def split: if_splits)
qed

lemma ReadPage_Inr: "wf_page buf \<Longrightarrow> ReadPage d i buf = (Inr u, p) \<longleftrightarrow> page_at d i = Some p"
proof -
  assume wf: "wf_page buf"
  have "patch 0 raw buf = raw" if "length raw = PAGE_SIZE" for raw
    using that wf by (simp add: patch_all wf_page_def)
  then show ?thesis
    using ReadPage_page_at [OF wf]
    by (auto simp: page_at_iff ReadPage_def Let_def pread_def wf_page_def split: if_splits)
qed

interpretation disk: page_file WritePage page_at dm_ok
proof
  fix d :: DiskManager and i j :: page_id_t and p p' q :: page and d' :: DiskManager
  assume ok: "dm_ok d" and wf: "wf_page p"
  show "\<exists>d'. WritePage d i p = (Inr (), seal p, d') \<and> dm_ok d'"
    using WritePage_ok [OF ok wf] ok by (simp add: dm_ok_def)
  assume w: "WritePage d i p = (Inr (), p', d')"
  have len: "length (seal p) = PAGE_SIZE" "seal p \<noteq> []"
    using wf_seal [OF wf] by (auto simp: wf_page_def PAGE_SIZE_def)
  then show "page_at d' i = Some (seal p)"
    using w WritePage_ok [OF ok wf] wf
    by (auto simp: page_at_iff hdr_checksum_seal)
  assume "j \<noteq> i" "page_at d j = Some q"
  then have seg: "seg (page_offset j) PAGE_SIZE (f_bytes (dm_file d)) = q"
    and q: "wf_page q" "hdr_checksum q = ComputeChecksum q"
    by (auto simp: page_at_iff)
  from seg q have "page_offset j + PAGE_SIZE \<le> length (f_bytes (dm_file d))"
    by (auto simp: wf_page_def length_seg_le PAGE_SIZE_def)
  then have "seg (page_offset j) PAGE_SIZE (f_bytes (dm_file d')) = q"
    using seg len page_offset_disjoint [OF \<open>j \<noteq> i\<close>] w WritePage_ok [OF ok wf]
    by (auto simp: seg_file_write_other)
  then show "page_at d' j = Some q" using q by (simp add: page_at_iff)
qed

section \<open>Holes\<close>

text \<open>
  A page the file only holds as a hole (zero bytes, never written) does not pass its own
  checksum, so on a file of whole pages a write changes what can be read at its own page only.
\<close>

lemma ComputeChecksum_zero_page: "ComputeChecksum zero_page \<noteq> 0"
proof
  assume "ComputeChecksum zero_page = 0"
  then have "foldl fnv_step FNV_OFFSET (replicate 4092 0) = 0"
    by (simp add: ComputeChecksum_eq_fnv) (simp add: zero_page_def PAGE_SIZE_def flip: foldl_append replicate_add)
  also have "0 = foldl fnv_step 0 (replicate n 0)" for n
    by (induction n) (simp_all add: fnv_step_def)
  finally have "FNV_OFFSET = 0" by (rule fnv.foldl_inj)
  then show False by (simp add: FNV_OFFSET_def)
qed

lemma le_nat_zeros [simp]: "le_nat (replicate n 0) = 0"
  by (induction n) auto

lemma hdr_checksum_zero_page: "hdr_checksum zero_page = 0"
  by (simp add: hdr_checksum_def get_field_def le_word_def zero_page_def seg_def)

lemma zero_page_unreadable: "hdr_checksum zero_page \<noteq> ComputeChecksum zero_page"
  using ComputeChecksum_zero_page by (simp add: hdr_checksum_zero_page)

definition aligned :: "DiskManager \<Rightarrow> bool" where
  "aligned d \<longleftrightarrow> PAGE_SIZE dvd f_size (dm_file d)"

lemma page_at_bound: "page_at d i = Some p \<Longrightarrow> page_offset i + PAGE_SIZE \<le> f_size (dm_file d)"
  by (auto simp: page_at_iff wf_page_def length_seg_le PAGE_SIZE_def f_size_def)

lemma seg_hole:
  assumes "bs \<noteq> []" "length f \<le> a" "a + n \<le> off \<or> off + length bs \<le> a"
    and "length (seg a n (file_write off bs f)) = n"
  shows "seg a n (file_write off bs f) = replicate n 0"
proof (rule nth_equalityI)
  fix k assume "k < length (seg a n (file_write off bs f))"
  with assms(4) have k: "k < n" by simp
  with assms(4) have fit: "a + n \<le> length (file_write off bs f)"
    by (simp add: length_seg_le)
  then have "file_write off bs f ! (a + k) = 0"
    using assms k by (subst nth_file_write) auto
  then show "seg a n (file_write off bs f) ! k = replicate n 0 ! k" using fit k by simp
qed (use assms(4) in simp)

lemma aligned_cases:
  assumes "aligned d"
  shows "page_offset i + PAGE_SIZE \<le> f_size (dm_file d) \<or> f_size (dm_file d) \<le> page_offset i"
proof -
  obtain m where "f_size (dm_file d) = PAGE_SIZE * m" using assms by (auto simp: aligned_def)
  moreover have "Suc (unat i) * PAGE_SIZE \<le> m * PAGE_SIZE \<or> m * PAGE_SIZE \<le> unat i * PAGE_SIZE"
    by (meson Suc_leI linorder_not_le mult_le_mono1)
  ultimately show ?thesis by (auto simp: page_offset_def mult.commute)
qed

lemma page_at_WritePage:
  assumes "dm_ok d" "aligned d" "wf_page p" "WritePage d i p = (r, p', d')"
  shows "page_at d' j = (if j = i then Some (seal p) else page_at d j)"
proof (cases "j = i")
  case True
  then show ?thesis using assms disk.read_written disk.write_succeeds by (metis prod.inject)
next
  case False
  have w: "WritePage d i p = (Inr (), seal p, d')"
    using disk.write_succeeds [OF assms(1,3)] assms(4) by (metis prod.inject)
  have d': "f_bytes (dm_file d') = file_write (page_offset i) (seal p) (f_bytes (dm_file d))"
    using w WritePage_ok [OF assms(1,3)] by auto
  have len: "length (seal p) = PAGE_SIZE" "seal p \<noteq> []"
    using wf_seal [OF assms(3)] wf_page_not_Nil by (auto simp: wf_page_def)
  show ?thesis
  proof (cases "page_at d j")
    case (Some q)
    then show ?thesis using False disk.read_other [OF assms(1,3) w False] by simp
  next
    case None
    have "page_at d' j \<noteq> Some q" for q
    proof
      assume q: "page_at d' j = Some q"
      let ?s = "seg (page_offset j) PAGE_SIZE (file_write (page_offset i) (seal p) (f_bytes (dm_file d)))"
      have s: "?s = q" "wf_page q" "hdr_checksum q = ComputeChecksum q"
        using q by (auto simp: page_at_iff d')
      from aligned_cases [OF assms(2), of j] show False
      proof
        assume "page_offset j + PAGE_SIZE \<le> f_size (dm_file d)"
        then have "?s = seg (page_offset j) PAGE_SIZE (f_bytes (dm_file d))"
          using page_offset_disjoint [OF False] len by (intro seg_file_write_other) (auto simp: f_size_def)
        then show False using s None page_at_iff [of d j q] by simp
      next
        assume "f_size (dm_file d) \<le> page_offset j"
        then have "?s = replicate PAGE_SIZE 0"
          using page_offset_disjoint [OF False] len s(1,2)
          by (intro seg_hole) (auto simp: f_size_def wf_page_def)
        then show False using s zero_page_unreadable by (simp add: zero_page_def)
      qed
    qed
    then show ?thesis using False None by (cases "page_at d' j") auto
  qed
qed

lemma aligned_WritePage:
  assumes "dm_ok d" "aligned d" "wf_page p" "WritePage d i p = (r, p', d')"
  shows "aligned d'"
proof -
  have "length (seal p) = PAGE_SIZE" "seal p \<noteq> []"
    using wf_seal [OF assms(3)] wf_page_not_Nil by (auto simp: wf_page_def)
  moreover have "PAGE_SIZE dvd page_offset i + PAGE_SIZE" by (simp add: page_offset_def)
  ultimately show ?thesis
    using assms(2,4) WritePage_ok [OF assms(1,3)] by (auto simp: aligned_def f_size_def max_def)
qed

section \<open>Order of writes\<close>

text \<open>Writes of different pages commute, so the order of a run of them does not matter.\<close>

definition put_page :: "page_id_t \<times> page \<Rightarrow> DiskManager \<Rightarrow> DiskManager" where
  "put_page ip d = d\<lparr>dm_file := (dm_file d)\<lparr>f_bytes :=
     file_write (page_offset (fst ip)) (seal (snd ip)) (f_bytes (dm_file d))\<rparr>\<rparr>"

lemma put_page_commute:
  assumes "wf_page (snd x)" "wf_page (snd y)" "fst x \<noteq> fst y"
  shows "put_page x \<circ> put_page y = put_page y \<circ> put_page x"
proof
  fix d
  have "length (seal (snd x)) = PAGE_SIZE" "length (seal (snd y)) = PAGE_SIZE"
    using assms(1,2) by (auto simp flip: wf_page_def)
  then show "(put_page x \<circ> put_page y) d = (put_page y \<circ> put_page x) d"
    using page_offset_disjoint [OF assms(3)] file_write_commute [of "seal (snd x)" "seal (snd y)"]
      wf_page_not_Nil [OF wf_seal [OF assms(1)]] wf_page_not_Nil [OF wf_seal [OF assms(2)]]
    by (auto simp: put_page_def)
qed

lemma write_pages_fold:
  assumes "dm_ok d" "\<forall>(i, p) \<in> set ps. wf_page p"
  shows "write_pages WritePage ps d = (Inr (), fold put_page ps d)"
  using assms
proof (induction ps arbitrary: d)
  case Nil
  then show ?case by simp
next
  case (Cons ip ps)
  obtain i p where ip: "ip = (i, p)" by (cases ip)
  have "dm_ok (put_page ip d)" using Cons.prems(1) by (simp add: put_page_def dm_ok_def)
  with Cons.IH [of "put_page ip d"] Cons.prems ip show ?case
    by (simp add: WritePage_ok put_page_def)
qed

lemma write_pages_order_irrelevant:
  assumes "dm_ok d" "\<forall>(i, p) \<in> set ps. wf_page p" "distinct (map fst ps)" "mset ps = mset qs"
  shows "write_pages WritePage ps d = write_pages WritePage qs d"
proof -
  have sets: "set ps = set qs" using assms(4) by (rule mset_eq_setD)
  have "fold put_page ps = fold put_page qs"
  proof (rule fold_multiset_equiv [OF _ assms(4)])
    fix x y assume xy: "x \<in> set ps" "y \<in> set ps"
    then have wf: "wf_page (snd x)" "wf_page (snd y)" using assms(2) by auto
    have "x = y \<or> fst x \<noteq> fst y" using xy assms(3) by (metis distinct_map inj_on_def)
    then show "put_page x \<circ> put_page y = put_page y \<circ> put_page x"
      using wf put_page_commute by blast
  qed
  then show ?thesis using assms(1,2) sets by (simp add: write_pages_fold)
qed

end
