(* ===== verification/Wal.thy ===== *)
theory Wal
  imports Posix_File
begin

unbundle bit_operations_syntax

text \<open>
  The write-ahead log (\<open>wal.h\<close>, \<open>wal.cpp\<close>): records that hold the full image of one page,
  the scan at open time that keeps the intact prefix and truncates a torn tail, and the append.
  The lemmas say that what was appended is what a later open finds, whatever happened to the
  bytes behind it.
\<close>

section \<open>Records\<close>

definition WAL_MAGIC :: u32 where
  "WAL_MAGIC = 0x57414C31"

record WALRecordHeader =
  wh_magic :: u32
  wh_lsn :: u64
  wh_page_id :: page_id_t
  wh_checksum :: u32

definition WALRecordHeader_size :: nat where
  "WALRecordHeader_size = 20"

definition WAL_RECORD_SIZE :: nat where
  "WAL_RECORD_SIZE = WALRecordHeader_size + PAGE_SIZE"

declare WALRecordHeader_size_def [layout_simps] WAL_RECORD_SIZE_def [layout_simps]

text \<open>The bytes of the packed header struct, and the struct read back from a buffer.\<close>
definition header_bytes :: "WALRecordHeader \<Rightarrow> byte list" where
  "header_bytes h = word_le 4 (wh_magic h) @ word_le 8 (wh_lsn h) @ word_le 4 (wh_page_id h)
     @ word_le 4 (wh_checksum h)"

definition header_of_bytes :: "byte list \<Rightarrow> WALRecordHeader" where
  "header_of_bytes raw = \<lparr>wh_magic = get_field 0 4 raw, wh_lsn = get_field 4 8 raw,
     wh_page_id = get_field 12 4 raw, wh_checksum = get_field 16 4 raw\<rparr>"

definition Fnv1a :: "byte list \<Rightarrow> u32" where
  "Fnv1a bs = foldl fnv_step FNV_OFFSET bs"

definition ComputeRecordChecksum :: "WALRecordHeader \<Rightarrow> page \<Rightarrow> u32" where
  "ComputeRecordChecksum h p =
     (let hash = Fnv1a (word_le 4 (wh_magic h));
          buf = word_le 8 (wh_lsn h) @ word_le 4 (wh_page_id h);
          h2 = Fnv1a buf;
          hash = (hash * 16777619) XOR h2;
          h3 = Fnv1a p
      in (hash * 16777619) XOR h3)"

record RecoveredPage =
  rp_page_id :: page_id_t
  rp_lsn :: u64
  rp_page :: page

section \<open>Opening and appending\<close>

record WALManager =
  wal_file :: os_file
  next_offset :: nat
  next_lsn :: u64
  valid_records :: "RecoveredPage list"

text \<open>
  The scan loop of the constructor. Its state is the file offset, \<open>next_lsn_\<close> and
  \<open>valid_records_\<close>; it stops at the first slot that is short, has the wrong magic number or
  fails its checksum.
\<close>
function wal_scan :: "os_file \<Rightarrow> nat \<Rightarrow> u64 \<Rightarrow> RecoveredPage list \<Rightarrow> nat \<times> u64 \<times> RecoveredPage list"
where
  "wal_scan f offset lsn recs =
     (if offset + WAL_RECORD_SIZE \<le> f_size f then
        let raw = pread f WAL_RECORD_SIZE offset in
        if length raw \<noteq> WAL_RECORD_SIZE then (offset, lsn, recs)
        else
          let header = header_of_bytes raw in
          if wh_magic header \<noteq> WAL_MAGIC then (offset, lsn, recs)
          else
            let rp = \<lparr>rp_page_id = wh_page_id header, rp_lsn = wh_lsn header,
                      rp_page = seg WALRecordHeader_size PAGE_SIZE raw\<rparr> in
            if ComputeRecordChecksum header (rp_page rp) \<noteq> wh_checksum header
            then (offset, lsn, recs)
            else wal_scan f (offset + WAL_RECORD_SIZE) (max lsn (wh_lsn header + 1)) (recs @ [rp])
      else (offset, lsn, recs))"
  by pat_completeness auto
termination
  by (relation "measure (\<lambda>(f, offset, lsn, recs). Suc (f_size f) - offset)") (auto simp: layout_simps)

declare wal_scan.simps [simp del]

definition WAL_open :: "os_file \<Rightarrow> WALManager" where
  "WAL_open f =
     (let (offset, lsn, recs) = wal_scan f 0 0 []
      in \<lparr>wal_file = (if f_size f \<noteq> offset then ftruncate f offset else f),
          next_offset = offset, next_lsn = lsn, valid_records = recs\<rparr>)"

text \<open>
  \<open>AppendRecord\<close> takes the next LSN and stamps it into the caller's page first, so both happen
  even when the write or the sync then fails; only success advances the offset.
\<close>
definition AppendRecord :: "WALManager \<Rightarrow> page_id_t \<Rightarrow> page \<Rightarrow> u64 res \<times> page \<times> WALManager" where
  "AppendRecord w i p =
     (let lsn = next_lsn w;
          w1 = w\<lparr>next_lsn := lsn + 1\<rparr>;
          p' = set_lsn (ucast lsn) p;
          h0 = \<lparr>wh_magic = WAL_MAGIC, wh_lsn = lsn, wh_page_id = i, wh_checksum = 0\<rparr>;
          h = h0\<lparr>wh_checksum := ComputeRecordChecksum h0 p'\<rparr>;
          raw = header_bytes h @ p';
          (written, f') = pwrite (wal_file w) raw (next_offset w);
          w2 = w1\<lparr>wal_file := f'\<rparr>
      in if written \<noteq> WAL_RECORD_SIZE
           then (Inl (RuntimeError ''WALManager: short write appending WAL record''), p', w2)
         else if \<not> f_sync_ok f' then (Inl (RuntimeError ''WALManager: fsync failed''), p', w2)
         else (Inr lsn, p', w2\<lparr>next_offset := next_offset w + WAL_RECORD_SIZE,
                 valid_records := valid_records w @ [\<lparr>rp_page_id = i, rp_lsn = lsn, rp_page = p'\<rparr>]\<rparr>))"

section \<open>A record as bytes\<close>

text \<open>The record an append writes, and the test the scan applies to one slot.\<close>

definition record_header :: "RecoveredPage \<Rightarrow> WALRecordHeader" where
  "record_header r =
     (let h0 = \<lparr>wh_magic = WAL_MAGIC, wh_lsn = rp_lsn r, wh_page_id = rp_page_id r, wh_checksum = 0\<rparr>
      in h0\<lparr>wh_checksum := ComputeRecordChecksum h0 (rp_page r)\<rparr>)"

definition encode_record :: "RecoveredPage \<Rightarrow> byte list" where
  "encode_record r = header_bytes (record_header r) @ rp_page r"

definition decode_record :: "byte list \<Rightarrow> RecoveredPage" where
  "decode_record raw = \<lparr>rp_page_id = get_field 12 4 raw, rp_lsn = get_field 4 8 raw,
     rp_page = seg WALRecordHeader_size PAGE_SIZE raw\<rparr>"

definition record_ok :: "byte list \<Rightarrow> bool" where
  "record_ok raw \<longleftrightarrow> length raw = WAL_RECORD_SIZE
     \<and> wh_magic (header_of_bytes raw) = WAL_MAGIC
     \<and> ComputeRecordChecksum (header_of_bytes raw) (rp_page (decode_record raw))
         = wh_checksum (header_of_bytes raw)"

lemma length_header_bytes [simp]: "length (header_bytes h) = WALRecordHeader_size"
  by (simp add: header_bytes_def layout_simps)

lemma length_encode_record [simp]: "wf_page (rp_page r) \<Longrightarrow> length (encode_record r) = WAL_RECORD_SIZE"
  by (simp add: encode_record_def wf_page_def layout_simps)

lemma encode_record_not_Nil [simp]: "encode_record r \<noteq> []"
proof -
  have "header_bytes h \<noteq> []" for h
    using length_header_bytes [of h] unfolding WALRecordHeader_size_def by (cases "header_bytes h") simp_all
  then show ?thesis by (simp add: encode_record_def)
qed

lemma header_of_header_bytes [simp]: "header_of_bytes (header_bytes h @ bs) = h"
proof -
  have seg: "seg 0 4 (header_bytes h @ bs) = word_le 4 (wh_magic h)"
    "seg 4 8 (header_bytes h @ bs) = word_le 8 (wh_lsn h)"
    "seg 12 4 (header_bytes h @ bs) = word_le 4 (wh_page_id h)"
    "seg 16 4 (header_bytes h @ bs) = word_le 4 (wh_checksum h)"
    by (simp_all add: header_bytes_def seg_def)
  then show ?thesis by (simp add: header_of_bytes_def get_field_def le_word_word_le)
qed

lemma decode_encode_record [simp]: "wf_page (rp_page r) \<Longrightarrow> decode_record (encode_record r) = r"
proof -
  assume wf: "wf_page (rp_page r)"
  have "seg WALRecordHeader_size PAGE_SIZE (encode_record r) = rp_page r"
    using wf by (simp add: encode_record_def seg_append_right seg_all wf_page_def)
  moreover have "header_of_bytes (encode_record r) = record_header r"
    by (simp add: encode_record_def)
  then have "get_field 12 4 (encode_record r) = rp_page_id r" "get_field 4 8 (encode_record r) = rp_lsn r"
    by (simp_all add: header_of_bytes_def record_header_def Let_def)
  ultimately show ?thesis by (simp add: decode_record_def)
qed

lemma record_ok_encode [simp]: "wf_page (rp_page r) \<Longrightarrow> record_ok (encode_record r)"
  by (simp add: record_ok_def) (simp add: encode_record_def record_header_def ComputeRecordChecksum_def Let_def)

section \<open>What the scan finds\<close>

text \<open>One unfolding of the loop in terms of \<open>record_ok\<close>.\<close>
lemma wal_scan_step:
  "wal_scan f offset lsn recs =
     (let raw = pread f WAL_RECORD_SIZE offset in
      if record_ok raw
      then wal_scan f (offset + WAL_RECORD_SIZE) (max lsn (rp_lsn (decode_record raw) + 1)) (recs @ [decode_record raw])
      else (offset, lsn, recs))"
proof -
  have "length (pread f WAL_RECORD_SIZE offset) = WAL_RECORD_SIZE \<longleftrightarrow> offset + WAL_RECORD_SIZE \<le> f_size f"
    by (auto simp: pread_def length_seg_le f_size_def layout_simps)
  then show ?thesis
    by (subst wal_scan.simps)
      (auto simp: Let_def record_ok_def decode_record_def header_of_bytes_def)
qed

definition lsn_after :: "u64 \<Rightarrow> RecoveredPage list \<Rightarrow> u64" where
  "lsn_after lsn rs = foldl (\<lambda>m r. max m (rp_lsn r + 1)) lsn rs"

lemma wal_scan_records:
  assumes "f_bytes f = pre @ concat (map encode_record rs) @ rest"
    and "\<forall>r \<in> set rs. wf_page (rp_page r)"
  shows "wal_scan f (length pre) lsn recs =
    wal_scan f (length pre + length rs * WAL_RECORD_SIZE) (lsn_after lsn rs) (recs @ rs)"
  using assms
proof (induction rs arbitrary: pre lsn recs)
  case Nil
  then show ?case by (simp add: lsn_after_def)
next
  case (Cons r rs)
  from Cons.prems have wf: "wf_page (rp_page r)" by simp
  have raw: "pread f WAL_RECORD_SIZE (length pre) = encode_record r"
    using Cons.prems(1) wf by (simp add: pread_def seg_def)
  have bytes: "f_bytes f = (pre @ encode_record r) @ concat (map encode_record rs) @ rest"
    using Cons.prems(1) by simp
  have "wal_scan f (length pre) lsn recs =
      wal_scan f (length (pre @ encode_record r)) (max lsn (rp_lsn r + 1)) (recs @ [r])"
    using wf by (subst wal_scan_step) (simp add: raw)
  also have "\<dots> = wal_scan f (length (pre @ encode_record r) + length rs * WAL_RECORD_SIZE)
      (lsn_after (max lsn (rp_lsn r + 1)) rs) ((recs @ [r]) @ rs)"
    using Cons.prems(2) by (intro Cons.IH [OF bytes]) simp
  finally show ?case using wf by (simp add: lsn_after_def add.assoc)
qed

lemma wal_scan_extends: "\<exists>more. snd (snd (wal_scan f offset lsn recs)) = recs @ more"
proof (induction f offset lsn recs rule: wal_scan.induct)
  case (1 f offset lsn recs)
  show ?case
  proof (cases "record_ok (pread f WAL_RECORD_SIZE offset)")
    case False
    then show ?thesis by (subst wal_scan_step) simp
  next
    case True
    then have "offset + WAL_RECORD_SIZE \<le> f_size f"
      by (auto simp: record_ok_def pread_def length_seg_le f_size_def layout_simps)
    with True 1 show ?thesis
      by (subst wal_scan_step)
        (force simp: record_ok_def decode_record_def header_of_bytes_def Let_def)
  qed
qed

lemma length_encoded:
  assumes "\<forall>r \<in> set rs. wf_page (rp_page r)"
  shows "length (concat (map encode_record rs)) = length rs * WAL_RECORD_SIZE"
  using assms by (induction rs) auto

text \<open>The file holds intact records, then bytes that are not one.\<close>
lemma wal_scan_intact_prefix:
  assumes "f_bytes f = concat (map encode_record rs) @ tail"
    and "\<forall>r \<in> set rs. wf_page (rp_page r)"
    and "\<not> record_ok (take WAL_RECORD_SIZE tail)"
  shows "wal_scan f 0 0 [] = (length rs * WAL_RECORD_SIZE, lsn_after 0 rs, rs)"
proof -
  have "length (concat (map encode_record rs)) = length rs * WAL_RECORD_SIZE"
    using assms(2) by (rule length_encoded)
  then have "pread f WAL_RECORD_SIZE (length rs * WAL_RECORD_SIZE) = take WAL_RECORD_SIZE tail"
    using assms(1) by (simp add: pread_def seg_def)
  with assms(3) have "wal_scan f (length rs * WAL_RECORD_SIZE) (lsn_after 0 rs) rs =
      (length rs * WAL_RECORD_SIZE, lsn_after 0 rs, rs)"
    by (subst wal_scan_step) simp
  then show ?thesis using wal_scan_records [of f "[]" rs tail 0 "[]"] assms by simp
qed

section \<open>The log's invariant\<close>

text \<open>
  Up to \<open>next_offset\<close> the file is exactly the encoded valid records, whose LSNs strictly
  increase and lie below \<open>next_lsn\<close>.
\<close>
definition wal_inv :: "WALManager \<Rightarrow> bool" where
  "wal_inv w \<longleftrightarrow>
     next_offset w = length (valid_records w) * WAL_RECORD_SIZE
     \<and> take (next_offset w) (f_bytes (wal_file w)) = concat (map encode_record (valid_records w))
     \<and> (\<forall>r \<in> set (valid_records w). wf_page (rp_page r))
     \<and> sorted_wrt (<) (map rp_lsn (valid_records w))
     \<and> (\<forall>r \<in> set (valid_records w). rp_lsn r < next_lsn w)"

lemma word_less_inc: "a < b \<Longrightarrow> a < a + (1 :: 'a::len word)"
proof -
  assume "a < b"
  then have "unat a + 1 < 2 ^ LENGTH('a)" using unat_bound [of b] unfolding word_less_nat_alt by linarith
  then show ?thesis by (simp add: word_less_nat_alt unat_word_ariths)
qed

lemma lsn_after_Cons [simp]: "lsn_after lsn (r # rs) = lsn_after (max lsn (rp_lsn r + 1)) rs"
  by (simp add: lsn_after_def)

lemma lsn_after_Nil [simp]: "lsn_after lsn [] = lsn"
  by (simp add: lsn_after_def)

lemma lsn_after_ge: "lsn \<le> lsn_after lsn rs"
proof (induction rs arbitrary: lsn)
  case (Cons r rs)
  have "lsn \<le> max lsn (rp_lsn r + 1)" by simp
  also have "\<dots> \<le> lsn_after (max lsn (rp_lsn r + 1)) rs" by (rule Cons.IH)
  finally show ?case by simp
qed simp

lemma lsn_after_le: "lsn \<le> b \<Longrightarrow> \<forall>r \<in> set rs. rp_lsn r < b \<Longrightarrow> lsn_after lsn rs \<le> b"
proof (induction rs arbitrary: lsn)
  case (Cons r rs)
  then have "max lsn (rp_lsn r + 1) \<le> b" using inc_le [of "rp_lsn r" b] by simp
  with Cons show ?case by simp
qed simp

lemma lsn_after_greater:
  assumes "\<forall>r \<in> set rs. rp_lsn r < b" "r \<in> set rs"
  shows "rp_lsn r < lsn_after lsn rs"
  using assms
proof (induction rs arbitrary: lsn)
  case Nil
  then show ?case by simp
next
  case (Cons s rs)
  let ?lsn = "max lsn (rp_lsn s + 1)"
  show ?case
  proof (cases "r \<in> set rs")
    case True
    with Cons show ?thesis by simp
  next
    case False
    with Cons.prems have "r = s" "rp_lsn s < b" by auto
    then have "rp_lsn r < ?lsn" using word_less_inc [of "rp_lsn s" b] by (simp add: less_max_iff_disj)
    then have "rp_lsn r < lsn_after ?lsn rs" using lsn_after_ge [of ?lsn rs] by (rule less_le_trans)
    then show ?thesis by simp
  qed
qed

text \<open>A fresh log, over an empty file.\<close>
definition empty_file :: os_file where
  "empty_file = \<lparr>f_bytes = [], f_cap = None, f_sync_ok = True\<rparr>"

lemma WAL_open_empty:
  "WAL_open empty_file = \<lparr>wal_file = empty_file, next_offset = 0, next_lsn = 0, valid_records = []\<rparr>"
  using wal_scan_intact_prefix [of empty_file "[]" "[]"]
  by (simp add: WAL_open_def empty_file_def record_ok_def layout_simps f_size_def lsn_after_def)

lemma wal_inv_empty [inv_intros]: "wal_inv (WAL_open empty_file)"
  by (simp add: WAL_open_empty wal_inv_def)

text \<open>Every append keeps the invariant, whether the write, the sync or neither fails.\<close>

lemma take_file_write: "take off (file_write off bs f) = take off f" if "off \<le> length f"
proof (cases "bs = []")
  case False
  with that show ?thesis by (intro nth_equalityI) (auto simp: nth_file_write)
qed (simp add: file_write_def)

lemma wal_inv_fits: "wal_inv w \<Longrightarrow> next_offset w \<le> length (f_bytes (wal_file w))"
proof -
  assume inv: "wal_inv w"
  then have "length (take (next_offset w) (f_bytes (wal_file w))) = next_offset w"
    using length_encoded [of "valid_records w"] unfolding wal_inv_def by metis
  then show ?thesis by simp
qed

text \<open>The record an append writes.\<close>
definition appended :: "WALManager \<Rightarrow> page_id_t \<Rightarrow> page \<Rightarrow> RecoveredPage" where
  "appended w i p = \<lparr>rp_page_id = i, rp_lsn = next_lsn w, rp_page = set_lsn (ucast (next_lsn w)) p\<rparr>"

lemma appended_sel [simp]:
  "rp_page_id (appended w i p) = i" "rp_lsn (appended w i p) = next_lsn w"
  "rp_page (appended w i p) = set_lsn (ucast (next_lsn w)) p"
  by (simp_all add: appended_def)

lemma append_bytes:
  "header_bytes (\<lparr>wh_magic = WAL_MAGIC, wh_lsn = next_lsn w, wh_page_id = i, wh_checksum = 0\<rparr>
      \<lparr>wh_checksum := ComputeRecordChecksum
         \<lparr>wh_magic = WAL_MAGIC, wh_lsn = next_lsn w, wh_page_id = i, wh_checksum = 0\<rparr>
         (set_lsn (ucast (next_lsn w)) p)\<rparr>) @ set_lsn (ucast (next_lsn w)) p =
   encode_record (appended w i p)"
  by (simp add: encode_record_def record_header_def Let_def)

lemma AppendRecord_eq:
  fixes w :: WALManager and i :: page_id_t and p :: page
  assumes "wf_page p"
  defines "n \<equiv> writable (wal_file w) (next_offset w) WAL_RECORD_SIZE"
  defines "f' \<equiv> (wal_file w)\<lparr>f_bytes := file_write (next_offset w)
     (take n (encode_record (appended w i p))) (f_bytes (wal_file w))\<rparr>"
  shows "AppendRecord w i p =
    (if n \<noteq> WAL_RECORD_SIZE
     then (Inl (RuntimeError ''WALManager: short write appending WAL record''),
           rp_page (appended w i p), w\<lparr>next_lsn := next_lsn w + 1, wal_file := f'\<rparr>)
     else if \<not> f_sync_ok (wal_file w)
     then (Inl (RuntimeError ''WALManager: fsync failed''),
           rp_page (appended w i p), w\<lparr>next_lsn := next_lsn w + 1, wal_file := f'\<rparr>)
     else (Inr (next_lsn w), rp_page (appended w i p),
           w\<lparr>next_lsn := next_lsn w + 1, wal_file := f',
             next_offset := next_offset w + WAL_RECORD_SIZE,
             valid_records := valid_records w @ [appended w i p]\<rparr>))"
proof -
  have len: "length (encode_record (appended w i p)) = WAL_RECORD_SIZE"
    using assms(1) by simp
  show ?thesis
    unfolding AppendRecord_def Let_def append_bytes pwrite_def len n_def f'_def
    by (simp add: appended_def)
qed

lemma take_appended:
  assumes "next_offset w \<le> length (f_bytes (wal_file w))" "wf_page p"
  shows "take (next_offset w + WAL_RECORD_SIZE)
      (file_write (next_offset w) (encode_record (appended w i p)) (f_bytes (wal_file w))) =
    take (next_offset w) (f_bytes (wal_file w)) @ encode_record (appended w i p)"
  using assms seg_file_write_same [of WAL_RECORD_SIZE "encode_record (appended w i p)"]
  by (simp add: take_add take_file_write seg_def)

lemma AppendRecord_inv [inv_intros]:
  assumes "wal_inv w" "wf_page p" "next_lsn w < - 1" "AppendRecord w i p = (r, p', w')"
  shows "wal_inv w'"
proof -
  have inc: "next_lsn w < next_lsn w + 1" using assms(3) by (rule word_less_inc)
  have fits: "next_offset w \<le> length (f_bytes (wal_file w))" using assms(1) by (rule wal_inv_fits)
  have lsns: "\<forall>r \<in> set (valid_records w). rp_lsn r < next_lsn w + 1"
    using assms(1) inc by (auto simp: wal_inv_def)
  have len: "length (encode_record (appended w i p)) = WAL_RECORD_SIZE" using assms(2) by simp
  show ?thesis
  proof (cases "writable (wal_file w) (next_offset w) WAL_RECORD_SIZE = WAL_RECORD_SIZE \<and> f_sync_ok (wal_file w)")
    case True
    then have w': "w' = w\<lparr>next_lsn := next_lsn w + 1,
        wal_file := (wal_file w)\<lparr>f_bytes := file_write (next_offset w) (encode_record (appended w i p)) (f_bytes (wal_file w))\<rparr>,
        next_offset := next_offset w + WAL_RECORD_SIZE, valid_records := valid_records w @ [appended w i p]\<rparr>"
      using assms(4) len by (simp add: AppendRecord_eq [OF assms(2)])
    from assms(1,2) lsns inc take_appended [OF fits assms(2), of i] show ?thesis
      by (auto simp: wal_inv_def w' sorted_wrt_append)
  next
    case False
    with assms lsns fits show ?thesis
      by (auto simp: wal_inv_def AppendRecord_eq [OF assms(2)] take_file_write split: if_splits)
  qed
qed

text \<open>Opening a file the log wrote finds every record it acknowledged, in order.\<close>

lemma reopen_keeps_records:
  assumes "wal_inv w"
  shows "\<exists>more. valid_records (WAL_open (wal_file w)) = valid_records w @ more"
proof -
  let ?f = "wal_file w"
  have bytes: "f_bytes ?f = [] @ concat (map encode_record (valid_records w)) @ drop (next_offset w) (f_bytes ?f)"
    using assms by (metis append_Nil append_take_drop_id wal_inv_def)
  have "wal_scan ?f 0 0 [] = wal_scan ?f (length (valid_records w) * WAL_RECORD_SIZE)
      (lsn_after 0 (valid_records w)) (valid_records w)"
    using wal_scan_records [OF bytes, of 0 "[]"] assms by (simp add: wal_inv_def)
  then have "\<exists>more. snd (snd (wal_scan ?f 0 0 [])) = valid_records w @ more"
    by (simp only: wal_scan_extends)
  then show ?thesis by (auto simp: WAL_open_def split: prod.splits)
qed

text \<open>With a torn tail behind them, exactly those records, and the tail is cut off.\<close>

lemma WAL_open_torn:
  assumes "wal_inv w" "\<not> record_ok (seg (next_offset w) WAL_RECORD_SIZE (f_bytes (wal_file w)))"
  shows "WAL_open (wal_file w) =
    \<lparr>wal_file = ftruncate (wal_file w) (next_offset w), next_offset = next_offset w,
     next_lsn = lsn_after 0 (valid_records w), valid_records = valid_records w\<rparr>"
proof -
  let ?f = "wal_file w"
  have "f_bytes ?f = concat (map encode_record (valid_records w)) @ drop (next_offset w) (f_bytes ?f)"
    using assms by (metis append_take_drop_id wal_inv_def)
  then have "wal_scan ?f 0 0 [] = (next_offset w, lsn_after 0 (valid_records w), valid_records w)"
    using wal_scan_intact_prefix assms by (simp add: wal_inv_def seg_def)
  then show ?thesis by (auto simp: WAL_open_def ftruncate_def f_size_def)
qed

lemma wal_inv_open_torn [inv_intros]:
  assumes "wal_inv w" "\<not> record_ok (seg (next_offset w) WAL_RECORD_SIZE (f_bytes (wal_file w)))"
  shows "wal_inv (WAL_open (wal_file w))"
  using assms lsn_after_greater [of "valid_records w" "next_lsn w"] length_encoded [of "valid_records w"]
  by (auto simp: WAL_open_torn wal_inv_def ftruncate_def)

section \<open>Corruption of one byte\<close>

text \<open>The record checksum as a function of the three byte ranges it hashes.\<close>
definition record_hash :: "byte list \<Rightarrow> byte list \<Rightarrow> byte list \<Rightarrow> u32" where
  "record_hash a b c = ((Fnv1a a * FNV_PRIME) XOR Fnv1a b) * FNV_PRIME XOR Fnv1a c"

lemma record_hash_inj:
  "record_hash a b c = record_hash a b' c \<Longrightarrow> Fnv1a b = Fnv1a b'"
  "record_hash a b c = record_hash a b c' \<Longrightarrow> Fnv1a c = Fnv1a c'"
proof -
  show "record_hash a b c = record_hash a b' c \<Longrightarrow> Fnv1a b = Fnv1a b'"
    unfolding record_hash_def xor.commute [of _ "Fnv1a c"]
    by (drule xor_left_inj, drule mult_fnv_prime_inj, drule xor_left_inj)
  show "record_hash a b c = record_hash a b c' \<Longrightarrow> Fnv1a c = Fnv1a c'"
    unfolding record_hash_def by (drule xor_left_inj)
qed

lemma Fnv1a_update: "i < length bs \<Longrightarrow> b \<noteq> bs ! i \<Longrightarrow> Fnv1a (bs[i := b]) \<noteq> Fnv1a bs"
  unfolding Fnv1a_def by (rule fnv.update_detected)

lemma record_ok_iff:
  "record_ok raw \<longleftrightarrow> length raw = WAL_RECORD_SIZE \<and> seg 0 4 raw = word_le 4 WAL_MAGIC
     \<and> seg 16 4 raw = word_le 4 (record_hash (seg 0 4 raw) (seg 4 12 raw) (seg 20 4096 raw))"
  (is "_ \<longleftrightarrow> ?rhs")
proof (cases "length raw = WAL_RECORD_SIZE")
  case False
  then show ?thesis by (simp add: record_ok_def)
next
  case True
  then have len: "length raw = 4116" by (simp add: layout_simps)
  have "seg 4 8 raw @ seg 12 4 raw = seg 4 12 raw"
    using take_add [of 8 4 "drop 4 raw"] by (simp add: seg_def)
  then have "ComputeRecordChecksum (header_of_bytes raw) (seg 20 4096 raw) =
      record_hash (seg 0 4 raw) (seg 4 12 raw) (seg 20 4096 raw)"
    using len by (simp add: ComputeRecordChecksum_def header_of_bytes_def word_le_get_field
        record_hash_def FNV_PRIME_def Let_def)
  then show ?thesis
    using True len
    by (auto simp: record_ok_def header_of_bytes_def decode_record_def layout_simps
        get_field_eq_iff eq_commute [of "record_hash _ _ _"])
qed

lemma record_ok_update:
  assumes "record_ok raw" "k < WAL_RECORD_SIZE" "b \<noteq> raw ! k"
  shows "\<not> record_ok (raw[k := b])"
proof
  assume upd: "record_ok (raw[k := b])"
  have len: "length raw = 4116" and k: "k < 4116"
    using assms(1,2) by (auto simp: record_ok_iff layout_simps)
  have changed: "(seg off n raw)[k - off := b] \<noteq> seg off n raw"
    if "off \<le> k" "k < off + n" "off + n \<le> 4116" for off n
    using that assms(3) len by (intro seg_update_changed) auto
  have fnv: "Fnv1a ((seg off n raw)[k - off := b]) \<noteq> Fnv1a (seg off n raw)"
    if "off \<le> k" "k < off + n" "off + n \<le> 4116" for off n
    using that assms(3) len by (intro Fnv1a_update) auto
  let ?H = "\<lambda>raw. record_hash (seg 0 4 raw) (seg 4 12 raw) (seg 20 4096 raw)"
  have old: "seg 0 4 raw = word_le 4 WAL_MAGIC" "seg 16 4 raw = word_le 4 (?H raw)"
    using assms(1) unfolding record_ok_iff by blast+
  have new: "seg 0 4 (raw[k := b]) = word_le 4 WAL_MAGIC"
    "seg 16 4 (raw[k := b]) = word_le 4 (?H (raw[k := b]))"
    using upd unfolding record_ok_iff by blast+
  have same: "?H (raw[k := b]) = ?H raw" if "seg 16 4 (raw[k := b]) = seg 16 4 raw"
  proof -
    have "word_le 4 (?H (raw[k := b])) = word_le 4 (?H raw)"
      using that old(2) new(2) by argo
    then show ?thesis by (subst (asm) word_le_inj) simp_all
  qed
  consider "k < 4" | "4 \<le> k" "k < 16" | "16 \<le> k" "k < 20" | "20 \<le> k" by linarith
  then show False
  proof cases
    case 1
    then have "seg 0 4 (raw[k := b]) \<noteq> seg 0 4 raw"
      using changed [of 0 4] seg_update [of k raw 0 4] len k by simp
    then show False using old(1) new(1) by simp
  next
    case 2
    then have "seg 16 4 (raw[k := b]) = seg 16 4 raw" "seg 0 4 (raw[k := b]) = seg 0 4 raw"
      "seg 4 12 (raw[k := b]) = (seg 4 12 raw)[k - 4 := b]" "seg 20 4096 (raw[k := b]) = seg 20 4096 raw"
      using len k by (simp_all add: seg_update)
    with same have "record_hash (seg 0 4 raw) ((seg 4 12 raw)[k - 4 := b]) (seg 20 4096 raw) = ?H raw"
      by argo
    then have "Fnv1a ((seg 4 12 raw)[k - 4 := b]) = Fnv1a (seg 4 12 raw)" by (rule record_hash_inj(1))
    moreover have "Fnv1a ((seg 4 12 raw)[k - 4 := b]) \<noteq> Fnv1a (seg 4 12 raw)" by (rule fnv) (use 2 in simp_all)
    ultimately show False by contradiction
  next
    case 3
    then have "?H (raw[k := b]) = ?H raw" using len k by (simp add: seg_update)
    moreover from 3 have "seg 16 4 (raw[k := b]) \<noteq> seg 16 4 raw"
      using changed [of 16 4] seg_update [of k raw 16 4] len k by simp
    ultimately show False using old(2) new(2) by simp
  next
    case 4
    then have "seg 16 4 (raw[k := b]) = seg 16 4 raw" "seg 0 4 (raw[k := b]) = seg 0 4 raw"
      "seg 4 12 (raw[k := b]) = seg 4 12 raw" "seg 20 4096 (raw[k := b]) = (seg 20 4096 raw)[k - 20 := b]"
      using len k by (simp_all add: seg_update)
    with same have "record_hash (seg 0 4 raw) (seg 4 12 raw) ((seg 20 4096 raw)[k - 20 := b]) = ?H raw"
      by argo
    then have "Fnv1a ((seg 20 4096 raw)[k - 20 := b]) = Fnv1a (seg 20 4096 raw)" by (rule record_hash_inj(2))
    moreover have "Fnv1a ((seg 20 4096 raw)[k - 20 := b]) \<noteq> Fnv1a (seg 20 4096 raw)"
      by (rule fnv) (use 4 k in simp_all)
    ultimately show False by contradiction
  qed
qed

end
