(* ===== verification/Recovery.thy ===== *)
theory Recovery
  imports Disk_Manager Wal "HOL-Library.AList"
begin

text \<open>
  Crash recovery (\<open>recovery.h\<close>, \<open>recovery.cpp\<close>): reduce the log to the newest record of each page
  and write those images to the data file. The \<open>unordered_map\<close> of the source is an association
  list here; that its iteration order does not matter is a lemma.
\<close>

definition note_latest ::
  "(page_id_t \<times> RecoveredPage) list \<Rightarrow> RecoveredPage \<Rightarrow> (page_id_t \<times> RecoveredPage) list" where
  "note_latest latest r =
     (case map_of latest (rp_page_id r) of
        None \<Rightarrow> AList.update (rp_page_id r) r latest
      | Some r0 \<Rightarrow> if rp_lsn r0 < rp_lsn r then AList.update (rp_page_id r) r latest else latest)"

definition latest_records :: "RecoveredPage list \<Rightarrow> (page_id_t \<times> RecoveredPage) list" where
  "latest_records rs = foldl note_latest [] rs"

definition RunRecovery :: "DiskManager \<Rightarrow> WALManager \<Rightarrow> unit res \<times> DiskManager" where
  "RunRecovery d w =
     (let latest = latest_records (valid_records w) in
      case write_pages WritePage (map (\<lambda>(i, r). (i, rp_page r)) latest) d of
        (Inl e, d') \<Rightarrow> (Inl e, d')
      | (Inr _, d') \<Rightarrow>
          (case Flush d' of
             Inl e \<Rightarrow> (Inl e, d')
           | Inr _ \<Rightarrow> (Inr (), RefreshNextPageIdAfterRecovery d')))"

section \<open>The newest image of a page\<close>

definition last_record :: "RecoveredPage list \<Rightarrow> page_id_t \<Rightarrow> RecoveredPage option" where
  "last_record rs i = map_of (rev (map (\<lambda>r. (rp_page_id r, r)) rs)) i"

definition last_image :: "RecoveredPage list \<Rightarrow> page_id_t \<Rightarrow> page option" where
  "last_image rs i = map_option rp_page (last_record rs i)"

lemma last_record_Nil [simp]: "last_record [] i = None"
  by (simp add: last_record_def)

lemma last_record_snoc [simp]:
  "last_record (rs @ [r]) i = (if i = rp_page_id r then Some r else last_record rs i)"
  by (simp add: last_record_def)

lemma last_image_snoc [simp]:
  "last_image (rs @ [r]) i = (if i = rp_page_id r then Some (rp_page r) else last_image rs i)"
  by (simp add: last_image_def)

lemma last_record_in: "last_record rs i = Some r \<Longrightarrow> r \<in> set rs \<and> rp_page_id r = i"
  by (auto simp: last_record_def dest: map_of_SomeD)

text \<open>In a log whose LSNs increase, the newest record by LSN is the last one in the file.\<close>

lemma latest_records_last:
  assumes "sorted_wrt (<) (map rp_lsn rs)"
  shows "map_of (latest_records rs) i = last_record rs i \<and> distinct (map fst (latest_records rs))"
  using assms
proof (induction rs arbitrary: i rule: rev_induct)
  case Nil
  then show ?case by (simp add: latest_records_def)
next
  case (snoc r rs)
  then have sorted: "sorted_wrt (<) (map rp_lsn rs)" and newer: "\<forall>s \<in> set rs. rp_lsn s < rp_lsn r"
    by (auto simp: sorted_wrt_append)
  have IH: "map_of (latest_records rs) j = last_record rs j" "distinct (map fst (latest_records rs))" for j
    using snoc.IH [OF sorted] by simp_all
  have "latest_records (rs @ [r]) = AList.update (rp_page_id r) r (latest_records rs)"
    using newer IH(1) last_record_in
    by (auto simp: latest_records_def note_latest_def split: option.splits)
  then show ?case using IH by (simp add: update_conv' distinct_update)
qed

lemma latest_records_mem:
  assumes "sorted_wrt (<) (map rp_lsn rs)"
  shows "(i, r) \<in> set (latest_records rs) \<longleftrightarrow> last_record rs i = Some r"
  using latest_records_last [OF assms] by (metis map_of_eq_Some_iff)

section \<open>What recovery restores\<close>

text \<open>
  Whatever the data file holds, after recovery every page in the log reads back as its newest
  logged image; pages that are not in the log and were readable keep their bytes.
\<close>

lemma RunRecovery_restores:
  assumes "dm_ok d" "wal_inv w"
  shows "\<exists>d'. RunRecovery d w = (Inr (), d') \<and> dm_ok d'
    \<and> (\<forall>i p. last_image (valid_records w) i = Some p \<longrightarrow> page_at d' i = Some (seal p))
    \<and> (\<forall>i q. last_image (valid_records w) i = None \<longrightarrow> page_at d i = Some q \<longrightarrow> page_at d' i = Some q)"
proof -
  let ?rs = "valid_records w"
  let ?ps = "map (\<lambda>(i, r). (i, rp_page r)) (latest_records ?rs)"
  have sorted: "sorted_wrt (<) (map rp_lsn ?rs)" and wf: "\<forall>r \<in> set ?rs. wf_page (rp_page r)"
    using assms(2) by (auto simp: wal_inv_def)
  have mem: "(i, r) \<in> set (latest_records ?rs) \<longleftrightarrow> last_record ?rs i = Some r" for i r
    using sorted by (rule latest_records_mem)
  have fsts: "map fst ?ps = map fst (latest_records ?rs)" by auto
  have "\<forall>(i, p) \<in> set ?ps. wf_page p" using wf mem last_record_in by fastforce
  moreover have "distinct (map fst ?ps)" unfolding fsts using latest_records_last [OF sorted] by blast
  ultimately obtain d1 where d1: "write_pages WritePage ?ps d = (Inr (), d1)" "dm_ok d1"
    "\<And>i p. (i, p) \<in> set ?ps \<Longrightarrow> page_at d1 i = Some (seal p)"
    "\<And>j q. j \<notin> fst ` set ?ps \<Longrightarrow> page_at d j = Some q \<Longrightarrow> page_at d1 j = Some q"
    using disk.write_pages_ok [OF assms(1)] by meson
  let ?d' = "RefreshNextPageIdAfterRecovery d1"
  have same: "page_at ?d' i = page_at d1 i" for i
    by (simp add: page_at_def ReadPage_def RefreshNextPageIdAfterRecovery_def)
  have "RunRecovery d w = (Inr (), ?d')"
    using d1 by (simp add: RunRecovery_def Flush_def dm_ok_def file_ok_def)
  moreover have "dm_ok ?d'" using d1(2) by (simp add: dm_ok_def RefreshNextPageIdAfterRecovery_def)
  moreover have "page_at ?d' i = Some (seal p)" if "last_image ?rs i = Some p" for i p
    using that mem d1(3) [of i p] same by (force simp: last_image_def)
  moreover have "page_at ?d' i = Some q" if "last_image ?rs i = None" "page_at d i = Some q" for i q
    using that mem d1(4) [of i q] same by (force simp: last_image_def)
  ultimately show ?thesis by blast
qed

end
