(* ===== verification/Buffer_Pool.thy ===== *)
theory Buffer_Pool
  imports Recovery
begin

text \<open>
  The buffer pool (\<open>buffer_pool.h\<close>, \<open>buffer_pool.cpp\<close>): frames, the page table, the free list, the
  LRU list and the pinned-page guards. \<open>lru_iters_\<close> only records where a frame sits in \<open>lru_list_\<close>,
  so the list alone carries both. A guard is the page id and the frame it points to; an invalid
  guard is \<open>None\<close>. The latch protects against other threads and has no counterpart here.
\<close>

section \<open>State\<close>

record Frame =
  fr_page :: page
  fr_page_id :: page_id_t
  pin_count :: int
  dirty :: bool

definition fresh_frame :: Frame where
  "fresh_frame = \<lparr>fr_page = zero_page, fr_page_id = INVALID_PAGE_ID, pin_count = 0, dirty = False\<rparr>"

record BufferPool =
  frames :: "Frame list"
  page_table :: "(page_id_t \<times> nat) list"
  free_list :: "nat list"
  lru_list :: "nat list"
  disk_manager :: DiskManager
  wal_manager :: "WALManager option"

record PageGuard =
  g_page_id :: page_id_t
  g_frame :: nat

definition BufferPool_new :: "nat \<Rightarrow> DiskManager \<Rightarrow> WALManager option \<Rightarrow> BufferPool" where
  "BufferPool_new pool_size d w =
     \<lparr>frames = replicate pool_size fresh_frame, page_table = [], free_list = [0..<pool_size],
      lru_list = [], disk_manager = d, wal_manager = w\<rparr>"

definition DiskPageCount :: "BufferPool \<Rightarrow> nat" where
  "DiskPageCount bp = NumPages (disk_manager bp)"

abbreviation frame_at :: "BufferPool \<Rightarrow> nat \<Rightarrow> Frame" where
  "frame_at bp f \<equiv> frames bp ! f"

definition set_frame :: "nat \<Rightarrow> Frame \<Rightarrow> BufferPool \<Rightarrow> BufferPool" where
  "set_frame f fr bp = bp\<lparr>frames := (frames bp)[f := fr]\<rparr>"

section \<open>Operations\<close>

definition TouchLRU :: "nat \<Rightarrow> BufferPool \<Rightarrow> BufferPool" where
  "TouchLRU f bp = bp\<lparr>lru_list := f # remove1 f (lru_list bp)\<rparr>"

definition RemoveFromLRU :: "nat \<Rightarrow> BufferPool \<Rightarrow> BufferPool" where
  "RemoveFromLRU f bp = bp\<lparr>lru_list := remove1 f (lru_list bp)\<rparr>"

text \<open>
  A free frame from the back of the free list, else the least recently used frame without a
  pin; a dirty victim is written back first, and a failing write leaves it out of the LRU list.
\<close>
definition FindVictimFrame :: "BufferPool \<Rightarrow> nat option res \<times> BufferPool" where
  "FindVictimFrame bp =
     (if free_list bp \<noteq> [] then
        (Inr (Some (last (free_list bp))), bp\<lparr>free_list := butlast (free_list bp)\<rparr>)
      else
        case find (\<lambda>c. pin_count (frame_at bp c) = 0) (rev (lru_list bp)) of
          None \<Rightarrow> (Inr None, bp)
        | Some c \<Rightarrow>
            (let fr = frame_at bp c;
                 bp1 = RemoveFromLRU c bp
             in if dirty fr then
                  (case WritePage (disk_manager bp1) (fr_page_id fr) (fr_page fr) of
                     (r, p', d') \<Rightarrow>
                       (let bp2 = set_frame c (fr\<lparr>fr_page := p'\<rparr>) (bp1\<lparr>disk_manager := d'\<rparr>)
                        in case r of
                             Inl e \<Rightarrow> (Inl e, bp2)
                           | Inr _ \<Rightarrow> (Inr (Some c), bp2\<lparr>page_table := AList.delete (fr_page_id fr) (page_table bp2)\<rparr>)))
                else (Inr (Some c), bp1\<lparr>page_table := AList.delete (fr_page_id fr) (page_table bp1)\<rparr>)))"

definition FetchPage :: "page_id_t \<Rightarrow> BufferPool \<Rightarrow> PageGuard option res \<times> BufferPool" where
  "FetchPage i bp =
     (case map_of (page_table bp) i of
        Some f \<Rightarrow>
          (let fr = frame_at bp f
           in (Inr (Some \<lparr>g_page_id = i, g_frame = f\<rparr>),
               TouchLRU f (set_frame f (fr\<lparr>pin_count := pin_count fr + 1\<rparr>) bp)))
      | None \<Rightarrow>
          (case FindVictimFrame bp of
             (Inl e, bp1) \<Rightarrow> (Inl e, bp1)
           | (Inr None, bp1) \<Rightarrow> (Inr None, bp1)
           | (Inr (Some f), bp1) \<Rightarrow>
               (let fr = frame_at bp1 f in
                case ReadPage (disk_manager bp1) i (fr_page fr) of
                  (Inl e, p') \<Rightarrow> (Inl e, set_frame f (fr\<lparr>fr_page := p'\<rparr>) bp1)
                | (Inr _, p') \<Rightarrow>
                    (let bp2 = set_frame f \<lparr>fr_page = p', fr_page_id = i, pin_count = 1, dirty = False\<rparr> bp1;
                         bp3 = bp2\<lparr>page_table := AList.update i f (page_table bp2)\<rparr>
                     in (Inr (Some \<lparr>g_page_id = i, g_frame = f\<rparr>), TouchLRU f bp3)))))"

definition NewPage :: "BufferPool \<Rightarrow> PageGuard option res \<times> BufferPool" where
  "NewPage bp =
     (case FindVictimFrame bp of
        (Inl e, bp1) \<Rightarrow> (Inl e, bp1)
      | (Inr None, bp1) \<Rightarrow> (Inr None, bp1)
      | (Inr (Some f), bp1) \<Rightarrow>
          (let (i, d') = AllocatePage (disk_manager bp1);
               bp2 = set_frame f \<lparr>fr_page = set_page_id i zero_page, fr_page_id = i, pin_count = 1, dirty = True\<rparr>
                       (bp1\<lparr>disk_manager := d'\<rparr>);
               bp3 = bp2\<lparr>page_table := AList.update i f (page_table bp2)\<rparr>
           in (Inr (Some \<lparr>g_page_id = i, g_frame = f\<rparr>), TouchLRU f bp3)))"

text \<open>
  Unpinning a dirty page logs it first. When the append throws, the exception leaves
  \<open>UnpinPage\<close> with the pin still held.
\<close>
definition UnpinPage :: "page_id_t \<Rightarrow> bool \<Rightarrow> BufferPool \<Rightarrow> unit res \<times> BufferPool" where
  "UnpinPage i is_dirty bp =
     (case map_of (page_table bp) i of
        None \<Rightarrow> (Inr (), bp)
      | Some f \<Rightarrow>
          (let fr = frame_at bp f;
               logged =
                 (if is_dirty then
                    (let fr1 = fr\<lparr>dirty := True\<rparr> in
                     case wal_manager bp of
                       None \<Rightarrow> (Inr (), set_frame f fr1 bp)
                     | Some w \<Rightarrow>
                         (case AppendRecord w i (fr_page fr1) of
                            (r, p', w') \<Rightarrow>
                              (case r of Inl e \<Rightarrow> Inl e | Inr _ \<Rightarrow> Inr (),
                               set_frame f (fr1\<lparr>fr_page := p'\<rparr>) (bp\<lparr>wal_manager := Some w'\<rparr>))))
                  else (Inr (), bp))
           in case logged of
                (Inl e, bp1) \<Rightarrow> (Inl e, bp1)
              | (Inr _, bp1) \<Rightarrow>
                  (let fr1 = frame_at bp1 f
                   in (Inr (), if 0 < pin_count fr1 then set_frame f (fr1\<lparr>pin_count := pin_count fr1 - 1\<rparr>) bp1
                               else bp1))))"

definition FlushPage :: "page_id_t \<Rightarrow> BufferPool \<Rightarrow> bool res \<times> BufferPool" where
  "FlushPage i bp =
     (case map_of (page_table bp) i of
        None \<Rightarrow> (Inr False, bp)
      | Some f \<Rightarrow>
          (let fr = frame_at bp f in
           case WritePage (disk_manager bp) i (fr_page fr) of
             (Inl e, p', d') \<Rightarrow> (Inl e, set_frame f (fr\<lparr>fr_page := p'\<rparr>) (bp\<lparr>disk_manager := d'\<rparr>))
           | (Inr _, p', d') \<Rightarrow>
               (Inr True, set_frame f (fr\<lparr>fr_page := p', dirty := False\<rparr>) (bp\<lparr>disk_manager := d'\<rparr>))))"

text \<open>The loop of \<open>FlushAll\<close> over the page table's entries.\<close>
fun flush_entries :: "(page_id_t \<times> nat) list \<Rightarrow> BufferPool \<Rightarrow> unit res \<times> BufferPool" where
  "flush_entries [] bp = (Inr (), bp)"
| "flush_entries ((i, f) # es) bp =
     (let fr = frame_at bp f in
      if dirty fr then
        (case WritePage (disk_manager bp) i (fr_page fr) of
           (Inl e, p', d') \<Rightarrow> (Inl e, set_frame f (fr\<lparr>fr_page := p'\<rparr>) (bp\<lparr>disk_manager := d'\<rparr>))
         | (Inr _, p', d') \<Rightarrow>
             flush_entries es (set_frame f (fr\<lparr>fr_page := p', dirty := False\<rparr>) (bp\<lparr>disk_manager := d'\<rparr>)))
      else flush_entries es bp)"

definition FlushAll :: "BufferPool \<Rightarrow> unit res \<times> BufferPool" where
  "FlushAll bp = flush_entries (page_table bp) bp"

section \<open>Guards\<close>

definition guard_page :: "PageGuard \<Rightarrow> BufferPool \<Rightarrow> page" where
  "guard_page g bp = fr_page (frame_at bp (g_frame g))"

definition write_guard :: "PageGuard \<Rightarrow> page \<Rightarrow> BufferPool \<Rightarrow> BufferPool" where
  "write_guard g p bp = set_frame (g_frame g) ((frame_at bp (g_frame g))\<lparr>fr_page := p\<rparr>) bp"

definition MarkDirty :: "PageGuard \<Rightarrow> BufferPool \<Rightarrow> BufferPool" where
  "MarkDirty g bp = set_frame (g_frame g) ((frame_at bp (g_frame g))\<lparr>dirty := True\<rparr>) bp"

text \<open>
  \<open>Release\<close>, as the destructor runs it: the frame's dirty flag decides whether the page is
  logged, and a destructor does not let an exception out: the process ends.
\<close>
definition Release :: "PageGuard \<Rightarrow> BufferPool \<Rightarrow> unit res \<times> BufferPool" where
  "Release g bp =
     (case UnpinPage (g_page_id g) (dirty (frame_at bp (g_frame g))) bp of
        (Inl e, bp') \<Rightarrow> (Inl StdTerminate, bp')
      | (Inr u, bp') \<Rightarrow> (Inr u, bp'))"

section \<open>Views\<close>

text \<open>
  What the page bytes mean to a client: everything but the LSN and the checksum, which the log
  and the disk manager stamp.
\<close>
definition content :: "page \<Rightarrow> page" where
  "content p = set_lsn 0 (set_checksum 0 p)"

definition view :: "BufferPool \<Rightarrow> page_id_t \<Rightarrow> page option" where
  "view bp i = (case map_of (page_table bp) i of
     Some f \<Rightarrow> Some (content (fr_page (frame_at bp f)))
   | None \<Rightarrow> map_option content (page_at (disk_manager bp) i))"

definition pins :: "BufferPool \<Rightarrow> page_id_t \<Rightarrow> nat" where
  "pins bp i = (case map_of (page_table bp) i of Some f \<Rightarrow> nat (pin_count (frame_at bp f)) | None \<Rightarrow> 0)"

text \<open>What the log holds of a page.\<close>
definition logged :: "BufferPool \<Rightarrow> page_id_t \<Rightarrow> page option" where
  "logged bp i = (case wal_manager bp of None \<Rightarrow> None | Some w \<Rightarrow> map_option content (last_image (valid_records w) i))"

end
