(* ===== verification/Pool_Invariant.thy ===== *)
theory Pool_Invariant
  imports Buffer_Pool
begin

text \<open>
  The invariant of the buffer pool and what each step does to it: the bookkeeping of frames,
  page table, free list and LRU list agrees; a clean frame agrees with the disk; a page without
  a pin agrees with the log (the write-ahead rule). \<open>F\<close> collects the frames that are in none of
  the pool's lists: empty in normal operation, one frame larger between choosing a victim and
  reusing it, and one frame larger for good after a read that failed.
\<close>

section \<open>Page contents\<close>

lemma wf_content [simp]: "wf_page p \<Longrightarrow> wf_page (content p)"
  by (simp add: content_def)

lemma content_set_lsn [simp]: "wf_page p \<Longrightarrow> content (set_lsn v p) = content p"
  by (simp add: content_def lsn_sum.put_commute [symmetric])

lemma content_set_checksum [simp]: "wf_page p \<Longrightarrow> content (set_checksum v p) = content p"
  by (simp add: content_def)

lemma content_seal [simp]: "wf_page p \<Longrightarrow> content (seal p) = content p"
  by (simp add: seal_def)

lemma content_content [simp]: "wf_page p \<Longrightarrow> content (content p) = content p"
  by (simp add: content_def lsn_sum.put_commute [symmetric])

lemma page_at_wf: "page_at d i = Some p \<Longrightarrow> wf_page p"
  by (simp add: page_at_iff)

section \<open>The invariant\<close>

abbreviation pt :: "BufferPool \<Rightarrow> page_id_t \<rightharpoonup> nat" where
  "pt bp \<equiv> map_of (page_table bp)"

definition struct_inv :: "nat set \<Rightarrow> BufferPool \<Rightarrow> bool" where
  "struct_inv F bp \<longleftrightarrow>
     distinct (map fst (page_table bp))
     \<and> (\<forall>i f. pt bp i = Some f \<longrightarrow> f < length (frames bp) \<and> fr_page_id (frame_at bp f) = i)
     \<and> distinct (lru_list bp) \<and> set (lru_list bp) = ran (pt bp)
     \<and> distinct (free_list bp) \<and> set (free_list bp) \<inter> ran (pt bp) = {}
     \<and> F \<inter> ran (pt bp) = {} \<and> F \<inter> set (free_list bp) = {}
     \<and> F \<union> set (free_list bp) \<union> ran (pt bp) = {..<length (frames bp)}
     \<and> (\<forall>f < length (frames bp). wf_page (fr_page (frame_at bp f)) \<and> 0 \<le> pin_count (frame_at bp f))"

definition disk_inv :: "BufferPool \<Rightarrow> bool" where
  "disk_inv bp \<longleftrightarrow>
     (let d = disk_manager bp in
      dm_ok d \<and> aligned d \<and> f_size (dm_file d) \<le> unat (next_page_id d) * PAGE_SIZE
      \<and> (\<forall>i f. pt bp i = Some f \<longrightarrow> i < next_page_id d)
      \<and> (\<forall>i f. pt bp i = Some f \<longrightarrow> \<not> dirty (frame_at bp f) \<longrightarrow>
           map_option content (page_at d i) = Some (content (fr_page (frame_at bp f)))))"

definition log_inv :: "BufferPool \<Rightarrow> bool" where
  "log_inv bp \<longleftrightarrow>
     (case wal_manager bp of None \<Rightarrow> True
      | Some w \<Rightarrow> wal_inv w \<and> file_ok (wal_file w)
         \<and> (\<forall>i f. pt bp i = Some f \<longrightarrow> dirty (frame_at bp f) \<longrightarrow> pin_count (frame_at bp f) = 0 \<longrightarrow>
              logged bp i = view bp i)
         \<and> (\<forall>i c. logged bp i = Some c \<longrightarrow>
              (\<exists>f. pt bp i = Some f \<and> dirty (frame_at bp f) \<and> 0 < pin_count (frame_at bp f)) \<or> view bp i = Some c))"

definition pool_inv :: "nat set \<Rightarrow> BufferPool \<Rightarrow> bool" where
  "pool_inv F bp \<longleftrightarrow> struct_inv F bp \<and> disk_inv bp \<and> log_inv bp"

lemma log_inv_logged:
  "log_inv bp \<Longrightarrow> logged bp i = Some c \<Longrightarrow>
     (\<exists>f. pt bp i = Some f \<and> dirty (frame_at bp f) \<and> 0 < pin_count (frame_at bp f)) \<or> view bp i = Some c"
  by (cases "wal_manager bp") (auto simp: log_inv_def logged_def [of bp i] split: option.splits)

lemma log_inv_unpinned:
  "log_inv bp \<Longrightarrow> wal_manager bp = Some w \<Longrightarrow> pt bp i = Some f \<Longrightarrow> dirty (frame_at bp f) \<Longrightarrow>
     pin_count (frame_at bp f) = 0 \<Longrightarrow> logged bp i = view bp i"
  by (auto simp: log_inv_def)

lemma log_invI:
  assumes "wal_manager bp = Some w" "wal_inv w" "file_ok (wal_file w)"
    and "\<And>i f. pt bp i = Some f \<Longrightarrow> dirty (frame_at bp f) \<Longrightarrow> pin_count (frame_at bp f) = 0 \<Longrightarrow>
      logged bp i = view bp i"
    and "\<And>i c. logged bp i = Some c \<Longrightarrow>
      (\<exists>f. pt bp i = Some f \<and> dirty (frame_at bp f) \<and> 0 < pin_count (frame_at bp f)) \<or> view bp i = Some c"
  shows "log_inv bp"
  using assms by (simp add: log_inv_def)

lemma pt_inj: "struct_inv F bp \<Longrightarrow> pt bp i = Some f \<Longrightarrow> pt bp j = Some f \<Longrightarrow> i = j"
  unfolding struct_inv_def by metis

lemma pt_other_frame: "struct_inv F bp \<Longrightarrow> pt bp i = Some f \<Longrightarrow> pt bp j = Some g \<Longrightarrow> i \<noteq> j \<Longrightarrow> f \<noteq> g"
  by (metis pt_inj)

lemma pt_bound: "struct_inv F bp \<Longrightarrow> pt bp i = Some f \<Longrightarrow> f < length (frames bp)"
  unfolding struct_inv_def by blast

lemma pt_id: "struct_inv F bp \<Longrightarrow> pt bp i = Some f \<Longrightarrow> fr_page_id (frame_at bp f) = i"
  unfolding struct_inv_def by blast

lemma pin_nonneg: "struct_inv F bp \<Longrightarrow> f < length (frames bp) \<Longrightarrow> 0 \<le> pin_count (frame_at bp f)"
  unfolding struct_inv_def by blast

lemma frame_wf: "struct_inv F bp \<Longrightarrow> f < length (frames bp) \<Longrightarrow> wf_page (fr_page (frame_at bp f))"
  unfolding struct_inv_def by blast

lemma ran_delete:
  assumes "m i = Some f" "\<And>j. m j = Some f \<Longrightarrow> j = i"
  shows "ran (m(i := None)) = ran m - {f}"
proof (intro set_eqI iffI)
  fix g assume "g \<in> ran (m(i := None))"
  then obtain j where "j \<noteq> i" "m j = Some g" by (auto simp: ran_def split: if_splits)
  then show "g \<in> ran m - {f}" using assms(2) [of j] by (auto simp: ran_def)
next
  fix g assume "g \<in> ran m - {f}"
  then obtain j where "m j = Some g" "g \<noteq> f" by (auto simp: ran_def)
  then have "(m(i := None)) j = Some g" using assms(1) by auto
  then show "g \<in> ran (m(i := None))" by (rule ranI)
qed

section \<open>Changing a frame in place\<close>

lemma set_frame_simps [simp]:
  "page_table (set_frame f fr bp) = page_table bp" "disk_manager (set_frame f fr bp) = disk_manager bp"
  "wal_manager (set_frame f fr bp) = wal_manager bp" "length (frames (set_frame f fr bp)) = length (frames bp)"
  "lru_list (set_frame f fr bp) = lru_list bp" "free_list (set_frame f fr bp) = free_list bp"
  "f < length (frames bp) \<Longrightarrow> frame_at (set_frame f fr bp) f = fr"
  "g \<noteq> f \<Longrightarrow> frame_at (set_frame f fr bp) g = frame_at bp g"
  by (simp_all add: set_frame_def)

text \<open>Frame \<open>f\<close> holds page \<open>i\<close> and gets new contents, pin count or dirty flag.\<close>

lemma view_set_frame:
  assumes "struct_inv F bp" "pt bp i = Some f"
  shows "view (set_frame f fr bp) = (view bp)(i \<mapsto> content (fr_page fr))"
proof
  fix j
  show "view (set_frame f fr bp) j = ((view bp)(i \<mapsto> content (fr_page fr))) j"
  proof (cases "j = i")
    case True
    then show ?thesis using assms(2) pt_bound [OF assms] by (simp add: view_def)
  next
    case False
    then have "pt bp j = Some g \<Longrightarrow> g \<noteq> f" for g using pt_other_frame [OF assms] by metis
    then show ?thesis using False by (simp add: view_def split: option.split)
  qed
qed

lemma pins_set_frame:
  assumes "struct_inv F bp" "pt bp i = Some f"
  shows "pins (set_frame f fr bp) = (pins bp)(i := nat (pin_count fr))"
proof
  fix j
  show "pins (set_frame f fr bp) j = ((pins bp)(i := nat (pin_count fr))) j"
  proof (cases "j = i")
    case True
    then show ?thesis using assms(2) pt_bound [OF assms] by (simp add: pins_def)
  next
    case False
    then have "pt bp j = Some g \<Longrightarrow> g \<noteq> f" for g using pt_other_frame [OF assms] by metis
    then show ?thesis using False by (simp add: pins_def split: option.split)
  qed
qed

lemma struct_inv_set_frame:
  assumes "struct_inv F bp" "pt bp i = Some f"
    and "fr_page_id fr = i" "wf_page (fr_page fr)" "0 \<le> pin_count fr"
  shows "struct_inv F (set_frame f fr bp)"
proof -
  have f: "f < length (frames bp)" by (rule pt_bound [OF assms(1,2)])
  have "fr_page_id (frame_at (set_frame f fr bp) g) = j" if "pt bp j = Some g" for j g
  proof (cases "g = f")
    case True
    then show ?thesis using pt_inj [OF assms(1,2), of j] that assms(3) f by simp
  next
    case False
    then show ?thesis using pt_id [OF assms(1) that] by simp
  qed
  moreover have "wf_page (fr_page (frame_at (set_frame f fr bp) g)) \<and> 0 \<le> pin_count (frame_at (set_frame f fr bp) g)"
    if "g < length (frames bp)" for g
    using frame_wf [OF assms(1) that] pin_nonneg [OF assms(1) that] assms(4,5) f by (cases "g = f") simp_all
  ultimately show ?thesis
    using assms(1) unfolding struct_inv_def set_frame_simps by (elim conjE, intro conjI) (assumption | simp)+
qed

lemma disk_inv_set_frame:
  assumes "struct_inv F bp" "disk_inv bp" "pt bp i = Some f"
    and "\<not> dirty fr \<Longrightarrow> map_option content (page_at (disk_manager bp) i) = Some (content (fr_page fr))"
  shows "disk_inv (set_frame f fr bp)"
proof -
  have "map_option content (page_at (disk_manager bp) j) = Some (content (fr_page (frame_at (set_frame f fr bp) g)))"
    if "pt bp j = Some g" "\<not> dirty (frame_at (set_frame f fr bp) g)" for j g
  proof (cases "g = f")
    case True
    then show ?thesis using pt_inj [OF assms(1,3), of j] pt_bound [OF assms(1,3)] that assms(4) by simp
  next
    case False
    then show ?thesis using that assms(2) unfolding disk_inv_def Let_def by simp
  qed
  then show ?thesis using assms(2) unfolding disk_inv_def Let_def set_frame_simps by blast
qed

lemma logged_cong: "wal_manager bp' = wal_manager bp \<Longrightarrow> logged bp' = logged bp"
  by (simp add: logged_def fun_eq_iff)

text \<open>
  The log side: a frame that stays or becomes pinned and dirty is free to differ from the log;
  otherwise it must agree with it.
\<close>
lemma log_inv_set_frame:
  assumes "struct_inv F bp" "log_inv bp" "pt bp i = Some f"
    and free: "dirty fr \<and> 0 < pin_count fr \<or>
      (wal_manager bp \<noteq> None \<longrightarrow> (dirty fr \<longrightarrow> logged bp i = Some (content (fr_page fr)))
        \<and> (\<forall>c. logged bp i = Some c \<longrightarrow> c = content (fr_page fr)))"
  shows "log_inv (set_frame f fr bp)"
proof (cases "wal_manager bp")
  case None
  then show ?thesis by (simp add: log_inv_def)
next
  case (Some w)
  let ?bp = "set_frame f fr bp"
  have logged: "logged ?bp = logged bp" by (rule logged_cong) simp
  have view: "view ?bp = (view bp)(i \<mapsto> content (fr_page fr))" by (rule view_set_frame [OF assms(1,3)])
  have f: "f < length (frames bp)" by (rule pt_bound [OF assms(1,3)])
  have A: "logged ?bp j = view ?bp j"
    if "pt ?bp j = Some g" "dirty (frame_at ?bp g)" "pin_count (frame_at ?bp g) = 0" for j g
  proof (cases "j = i")
    case True
    with that(1) assms(3) have "g = f" by simp
    with that(2,3) f have "dirty fr" "pin_count fr = 0" by simp_all
    with free Some have "logged bp i = Some (content (fr_page fr))"
      by (metis less_irrefl option.distinct(1))
    then show ?thesis using True by (simp add: logged view)
  next
    case False
    then have "g \<noteq> f" using pt_other_frame [OF assms(1)] that(1) assms(3) by auto
    then show ?thesis using that False log_inv_unpinned [OF assms(2) Some, of j g] by (simp add: logged view)
  qed
  have B: "(\<exists>g. pt ?bp j = Some g \<and> dirty (frame_at ?bp g) \<and> 0 < pin_count (frame_at ?bp g)) \<or> view ?bp j = Some c"
    if lc: "logged ?bp j = Some c" for j c
  proof (cases "j = i")
    case True
    then show ?thesis using lc assms(3) free f Some by (auto simp: logged view)
  next
    case False
    consider g where "pt bp j = Some g" "dirty (frame_at bp g)" "0 < pin_count (frame_at bp g)"
      | "view bp j = Some c"
      using log_inv_logged [OF assms(2), of j c] lc unfolding logged by blast
    then show ?thesis
    proof cases
      case 1
      then have "g \<noteq> f" using pt_other_frame [OF assms(1)] assms(3) False by auto
      with 1 show ?thesis by auto
    next
      case 2
      with False show ?thesis by (simp add: view)
    qed
  qed
  have "wal_inv w" "file_ok (wal_file w)" using assms(2) Some by (simp_all add: log_inv_def)
  then show ?thesis by (intro log_invI [of _ w] A B) (simp add: Some)
qed

section \<open>The LRU list\<close>

lemma TouchLRU_simps [simp]:
  "page_table (TouchLRU f bp) = page_table bp" "disk_manager (TouchLRU f bp) = disk_manager bp"
  "wal_manager (TouchLRU f bp) = wal_manager bp" "frames (TouchLRU f bp) = frames bp"
  "free_list (TouchLRU f bp) = free_list bp"
  by (simp_all add: TouchLRU_def)

lemma view_TouchLRU [simp]: "view (TouchLRU f bp) = view bp"
  by (rule ext) (simp add: view_def split: option.split)

lemma pins_TouchLRU [simp]: "pins (TouchLRU f bp) = pins bp"
  by (rule ext) (simp add: pins_def split: option.split)

lemma pool_inv_TouchLRU:
  assumes "pool_inv F bp" "f \<in> ran (pt bp)"
  shows "pool_inv F (TouchLRU f bp)"
proof -
  have s: "struct_inv F bp" "disk_inv bp" "log_inv bp" using assms(1) by (simp_all add: pool_inv_def)
  have lru: "distinct (lru_list bp)" "set (lru_list bp) = ran (pt bp)"
    using s(1) unfolding struct_inv_def by blast+
  have "distinct (lru_list (TouchLRU f bp))" "set (lru_list (TouchLRU f bp)) = ran (pt bp)"
    using lru assms(2) by (simp_all add: TouchLRU_def insert_absorb)
  with s(1) have "struct_inv F (TouchLRU f bp)" unfolding struct_inv_def TouchLRU_simps by blast
  moreover have "log_inv (TouchLRU f bp)"
    using s(3) logged_cong [of "TouchLRU f bp" bp] by (simp add: log_inv_def cong: option.case_cong)
  moreover have "disk_inv (TouchLRU f bp)" using s(2) by (simp add: disk_inv_def)
  ultimately show ?thesis by (simp add: pool_inv_def)
qed

end
