(* ===== verification/Page_Store.thy ===== *)
theory Page_Store
  imports Buffer_Pool
begin

text \<open>
  The interface between the buffer pool and the structures stored in pages. \<open>page_store_ops\<close> are
  the calls a client makes on \<open>BufferPool*\<close> and on guards; the locale \<open>page_store\<close> is the contract:
  an abstract store \<open>view\<close> from page ids to page contents, the pins held, the number of frames,
  and how much of the id and LSN ranges is left.
\<close>

record 's page_store_ops =
  ps_fetch :: "page_id_t \<Rightarrow> 's \<Rightarrow> PageGuard option res \<times> 's"
  ps_new :: "'s \<Rightarrow> PageGuard option res \<times> 's"
  ps_page :: "PageGuard \<Rightarrow> 's \<Rightarrow> page"
  ps_put :: "PageGuard \<Rightarrow> page \<Rightarrow> 's \<Rightarrow> 's"
  ps_release :: "PageGuard \<Rightarrow> 's \<Rightarrow> unit res \<times> 's"
  ps_count :: "'s \<Rightarrow> nat"

text \<open>Writing through \<open>guard.page()\<close> and calling \<open>MarkDirty\<close> before anything else happens.\<close>
definition put_dirty :: "PageGuard \<Rightarrow> page \<Rightarrow> BufferPool \<Rightarrow> BufferPool" where
  "put_dirty g p bp = MarkDirty g (write_guard g p bp)"

definition pool_ops :: "BufferPool page_store_ops" where
  "pool_ops = \<lparr>ps_fetch = FetchPage, ps_new = NewPage, ps_page = guard_page,
     ps_put = put_dirty, ps_release = Release, ps_count = DiskPageCount\<rparr>"

lemma pool_ops_sel [simp]:
  "ps_fetch pool_ops = FetchPage" "ps_new pool_ops = NewPage" "ps_page pool_ops = guard_page"
  "ps_put pool_ops = put_dirty" "ps_release pool_ops = Release" "ps_count pool_ops = DiskPageCount"
  by (simp_all add: pool_ops_def)

locale page_store =
  fixes ops :: "'s page_store_ops"
    and inv :: "'s \<Rightarrow> bool"
    and view :: "'s \<Rightarrow> page_id_t \<Rightarrow> page option"
    and pins :: "'s \<Rightarrow> page_id_t \<Rightarrow> nat"
    and guard_ok :: "'s \<Rightarrow> PageGuard \<Rightarrow> bool"
    and cap :: "'s \<Rightarrow> nat"
    and room :: "'s \<Rightarrow> nat"
  assumes view_content: "inv s \<Longrightarrow> view s i = Some c \<Longrightarrow> wf_page c \<and> content c = c"
    and view_bound: "inv s \<Longrightarrow> view s i = Some c \<Longrightarrow> unat i < ps_count ops s"
    and guard_pins: "inv s \<Longrightarrow> guard_ok s g \<Longrightarrow> 0 < pins s (g_page_id g)"
    and guard_view: "inv s \<Longrightarrow> guard_ok s g \<Longrightarrow>
      wf_page (ps_page ops g s) \<and> view s (g_page_id g) = Some (content (ps_page ops g s))"
    and fetch_ok: "inv s \<Longrightarrow> view s i = Some c \<Longrightarrow> card {j. 0 < pins s j} < cap s \<Longrightarrow>
      \<exists>g s'. ps_fetch ops i s = (Inr (Some g), s') \<and> inv s' \<and> g_page_id g = i \<and> guard_ok s' g
        \<and> view s' = view s \<and> pins s' = (pins s)(i := Suc (pins s i)) \<and> cap s' = cap s \<and> room s' = room s
        \<and> (\<forall>h. guard_ok s h \<longrightarrow> guard_ok s' h)"
    and new_ok: "inv s \<Longrightarrow> 0 < room s \<Longrightarrow> card {j. 0 < pins s j} < cap s \<Longrightarrow>
      \<exists>g s' i. ps_new ops s = (Inr (Some g), s') \<and> inv s' \<and> g_page_id g = i \<and> guard_ok s' g
        \<and> unat i = ps_count ops s \<and> view s i = None \<and> i \<noteq> INVALID_PAGE_ID \<and> ps_page ops g s' = set_page_id i zero_page
        \<and> view s' = (view s)(i \<mapsto> content (set_page_id i zero_page))
        \<and> pins s i = 0 \<and> pins s' = (pins s)(i := 1) \<and> cap s' = cap s \<and> room s \<le> Suc (room s')
        \<and> (\<forall>h. guard_ok s h \<longrightarrow> guard_ok s' h)"
    and put_ok: "inv s \<Longrightarrow> guard_ok s g \<Longrightarrow> wf_page p \<Longrightarrow>
      inv (ps_put ops g p s) \<and> ps_page ops g (ps_put ops g p s) = p
        \<and> view (ps_put ops g p s) = (view s)(g_page_id g \<mapsto> content p)
        \<and> pins (ps_put ops g p s) = pins s \<and> cap (ps_put ops g p s) = cap s \<and> room (ps_put ops g p s) = room s
        \<and> (\<forall>h. guard_ok s h \<longrightarrow> guard_ok (ps_put ops g p s) h)"
    and release_ok: "inv s \<Longrightarrow> guard_ok s g \<Longrightarrow> 0 < room s \<Longrightarrow>
      \<exists>s'. ps_release ops g s = (Inr (), s') \<and> inv s' \<and> view s' = view s
        \<and> pins s' = (pins s)(g_page_id g := pins s (g_page_id g) - 1) \<and> cap s' = cap s \<and> room s \<le> Suc (room s')
        \<and> (\<forall>h. guard_ok s h \<longrightarrow> g_page_id h \<noteq> g_page_id g \<or> 1 < pins s (g_page_id g) \<longrightarrow> guard_ok s' h)"

end
