(* ===== verification/Pool_Contract.thy ===== *)
theory Pool_Contract
  imports Pool_Invariant Page_Store
begin

text \<open>
  The buffer pool keeps its invariant and provides the \<open>page_store\<close> contract: fetching, allocating,
  writing and releasing pages act on the abstract store as a map would, evictions do not show,
  and the operations succeed while a frame without a pin exists and the files take writes.
\<close>

section \<open>Taking a frame out\<close>

definition detach :: "page_id_t \<Rightarrow> nat \<Rightarrow> page \<Rightarrow> DiskManager \<Rightarrow> BufferPool \<Rightarrow> BufferPool" where
  "detach i c p' d' bp = bp\<lparr>lru_list := remove1 c (lru_list bp),
     frames := (frames bp)[c := (frame_at bp c)\<lparr>fr_page := p'\<rparr>],
     disk_manager := d', page_table := AList.delete i (page_table bp)\<rparr>"

lemma struct_inv_detach:
  fixes bp :: BufferPool and i :: page_id_t and c :: nat and p' :: page and d' :: DiskManager
  assumes "struct_inv F bp" "pt bp i = Some c" "wf_page p'"
  defines "bp' \<equiv> detach i c p' d' bp"
  shows "struct_inv (insert c F) bp'"
proof -
  have c: "c < length (frames bp)" by (rule pt_bound [OF assms(1,2)])
  have cran: "c \<in> ran (pt bp)" using assms(2) by (rule ranI)
  have ran: "ran (pt bp') = ran (pt bp) - {c}"
  proof -
    have "ran ((pt bp)(i := None)) = ran (pt bp) - {c}"
      using assms(2) pt_inj [OF assms(1) _ assms(2)] by (intro ran_delete)
    then show ?thesis by (simp add: bp'_def detach_def delete_conv')
  qed
  note s = assms(1) [unfolded struct_inv_def]
  have "distinct (map fst (page_table bp'))" using s unfolding bp'_def detach_def by (simp add: distinct_delete)
  moreover have "g < length (frames bp') \<and> fr_page_id (frame_at bp' g) = j" if "pt bp' j = Some g" for j g
  proof -
    have j: "pt bp j = Some g" "j \<noteq> i"
      using that unfolding bp'_def detach_def by (auto simp: delete_conv' split: if_splits)
    then have "g \<noteq> c" using pt_other_frame [OF assms(1)] assms(2) by metis
    then show ?thesis using pt_bound [OF assms(1) j(1)] pt_id [OF assms(1) j(1)] by (simp add: bp'_def detach_def)
  qed
  moreover have "distinct (lru_list bp')" "set (lru_list bp') = ran (pt bp')"
  proof -
    have "distinct (lru_list bp)" "set (lru_list bp) = ran (pt bp)" using s by blast+
    then show "distinct (lru_list bp')" "set (lru_list bp') = ran (pt bp')"
      unfolding ran by (simp_all add: bp'_def detach_def set_remove1_eq)
  qed
  moreover have "distinct (free_list bp')" "set (free_list bp') \<inter> ran (pt bp') = {}"
    "insert c F \<inter> ran (pt bp') = {}" "insert c F \<inter> set (free_list bp') = {}"
    "insert c F \<union> set (free_list bp') \<union> ran (pt bp') = {..<length (frames bp')}"
  proof -
    have fl: "free_list bp' = free_list bp" "length (frames bp') = length (frames bp)" by (simp_all add: bp'_def detach_def)
    have "distinct (free_list bp)" "set (free_list bp) \<inter> ran (pt bp) = {}" "F \<inter> ran (pt bp) = {}"
      "F \<inter> set (free_list bp) = {}" "F \<union> set (free_list bp) \<union> ran (pt bp) = {..<length (frames bp)}"
      using s by blast+
    then show "distinct (free_list bp')" "set (free_list bp') \<inter> ran (pt bp') = {}"
      "insert c F \<inter> ran (pt bp') = {}" "insert c F \<inter> set (free_list bp') = {}"
      "insert c F \<union> set (free_list bp') \<union> ran (pt bp') = {..<length (frames bp')}"
      unfolding ran fl using cran by blast+
  qed
  moreover have "wf_page (fr_page (frame_at bp' g)) \<and> 0 \<le> pin_count (frame_at bp' g)"
    if "g < length (frames bp')" for g
  proof -
    have g: "g < length (frames bp)" using that by (simp add: bp'_def detach_def)
    show ?thesis
      using frame_wf [OF assms(1) g] pin_nonneg [OF assms(1) g] assms(3) c g
      by (cases "g = c") (simp_all add: bp'_def detach_def)
  qed
  ultimately show ?thesis unfolding struct_inv_def by blast
qed

lemma view_detach:
  fixes bp :: BufferPool and i :: page_id_t and c :: nat and p' :: page and d' :: DiskManager
  assumes "struct_inv F bp" "pt bp i = Some c"
    and "\<And>j. j \<noteq> i \<Longrightarrow> page_at d' j = page_at (disk_manager bp) j"
    and "map_option content (page_at d' i) = Some (content (fr_page (frame_at bp c)))"
  defines "bp' \<equiv> detach i c p' d' bp"
  shows "view bp' = view bp"
proof
  fix j
  have other: "c \<noteq> g" if "j \<noteq> i" "pt bp j = Some g" for g
    using that pt_other_frame [OF assms(1)] assms(2) by metis
  show "view bp' j = view bp j"
  proof (cases "j = i")
    case True
    then show ?thesis using assms(2,4) by (simp add: view_def bp'_def detach_def delete_conv')
  next
    case False
    then show ?thesis using other assms(3) by (simp add: view_def bp'_def detach_def delete_conv' split: option.split)
  qed
qed

lemma pins_detach:
  fixes bp :: BufferPool and i :: page_id_t and c :: nat and p' :: page and d' :: DiskManager
  assumes "struct_inv F bp" "pt bp i = Some c" "pin_count (frame_at bp c) = 0"
  defines "bp' \<equiv> detach i c p' d' bp"
  shows "pins bp' = pins bp"
proof
  fix j
  have other: "c \<noteq> g" if "j \<noteq> i" "pt bp j = Some g" for g
    using that pt_other_frame [OF assms(1)] assms(2) by metis
  show "pins bp' j = pins bp j"
    using assms(2,3) other by (cases "j = i") (simp_all add: pins_def bp'_def detach_def delete_conv' split: option.split)
qed

lemma pool_inv_detach:
  fixes bp :: BufferPool and i :: page_id_t and c :: nat and p' :: page and d' :: DiskManager
  assumes "pool_inv F bp" "pt bp i = Some c" "pin_count (frame_at bp c) = 0" "wf_page p'"
    and d': "dm_ok d'" "aligned d'" "next_page_id d' = next_page_id (disk_manager bp)"
      "f_size (dm_file d') \<le> unat (next_page_id d') * PAGE_SIZE"
    and same: "\<And>j. j \<noteq> i \<Longrightarrow> page_at d' j = page_at (disk_manager bp) j"
    and stored: "map_option content (page_at d' i) = Some (content (fr_page (frame_at bp c)))"
  defines "bp' \<equiv> detach i c p' d' bp"
  shows "pool_inv (insert c F) bp' \<and> view bp' = view bp \<and> pins bp' = pins bp"
proof -
  have s: "struct_inv F bp" "disk_inv bp" "log_inv bp" using assms(1) by (simp_all add: pool_inv_def)
  have view: "view bp' = view bp" unfolding bp'_def by (rule view_detach [OF s(1) assms(2) same stored])
  have entry: "pt bp j = Some g \<and> j \<noteq> i \<and> frame_at bp' g = frame_at bp g" if "pt bp' j = Some g" for j g
  proof -
    have j: "pt bp j = Some g" "j \<noteq> i"
      using that unfolding bp'_def detach_def by (auto simp: delete_conv' split: if_splits)
    then have "g \<noteq> c" using pt_other_frame [OF s(1)] assms(2) by metis
    with j show ?thesis by (simp add: bp'_def detach_def)
  qed
  have kept: "pt bp' j = Some g" if "pt bp j = Some g" "j \<noteq> i" for j g
    using that by (simp add: bp'_def detach_def delete_conv')
  have dm: "disk_manager bp' = d'" by (simp add: bp'_def detach_def)
  have "disk_inv bp'"
    using s(2) d' same entry unfolding disk_inv_def Let_def dm by metis
  moreover have "log_inv bp'"
  proof (cases "wal_manager bp")
    case None
    then show ?thesis by (simp add: log_inv_def bp'_def detach_def)
  next
    case (Some w)
    have logged: "logged bp' = logged bp" by (rule logged_cong) (simp add: bp'_def detach_def)
    have "wal_inv w" "file_ok (wal_file w)" using s(3) Some by (simp_all add: log_inv_def)
    then show ?thesis
    proof (rule log_invI [of _ w, rotated])
      show "wal_manager bp' = Some w" using Some by (simp add: bp'_def detach_def)
    next
      fix j g assume "pt bp' j = Some g" "dirty (frame_at bp' g)" "pin_count (frame_at bp' g) = 0"
      then show "logged bp' j = view bp' j"
        using entry log_inv_unpinned [OF s(3) Some, of j g] by (simp add: logged view)
    next
      fix j k assume "logged bp' j = Some k"
      then have "(\<exists>f. pt bp j = Some f \<and> dirty (frame_at bp f) \<and> 0 < pin_count (frame_at bp f)) \<or> view bp j = Some k"
        using log_inv_logged [OF s(3)] by (simp add: logged)
      then show "(\<exists>f. pt bp' j = Some f \<and> dirty (frame_at bp' f) \<and> 0 < pin_count (frame_at bp' f)) \<or> view bp' j = Some k"
        using kept entry assms(2,3) unfolding view by (metis less_irrefl option.inject)
    qed
  qed
  moreover have "struct_inv (insert c F) bp'" unfolding bp'_def by (rule struct_inv_detach [OF s(1) assms(2,4)])
  moreover have "pins bp' = pins bp" unfolding bp'_def by (rule pins_detach [OF s(1) assms(2,3)])
  ultimately show ?thesis using view by (simp add: pool_inv_def)
qed

section \<open>Choosing a victim\<close>

definition has_victim :: "BufferPool \<Rightarrow> bool" where
  "has_victim bp \<longleftrightarrow> free_list bp \<noteq> [] \<or> (\<exists>f \<in> set (lru_list bp). pin_count (frame_at bp f) = 0)"

text \<open>With fewer pinned pages than frames there is a victim.\<close>
lemma has_victim:
  assumes "struct_inv {} bp" "card {i. 0 < pins bp i} < length (frames bp)"
  shows "has_victim bp"
proof (rule ccontr)
  assume none: "\<not> has_victim bp"
  note s = assms(1) [unfolded struct_inv_def]
  have all: "ran (pt bp) = {..<length (frames bp)}" using s none by (auto simp: has_victim_def)
  have lru: "set (lru_list bp) = ran (pt bp)" using s by blast
  have pinned: "0 < pins bp i" if "pt bp i = Some f" for i f
  proof -
    have "f \<in> set (lru_list bp)" using that lru by (metis ranI)
    then have "pin_count (frame_at bp f) \<noteq> 0" using none by (auto simp: has_victim_def)
    then show ?thesis using pin_nonneg [OF assms(1) pt_bound [OF assms(1) that]] that by (simp add: pins_def)
  qed
  let ?D = "{i. 0 < pins bp i}"
  have dom: "?D = dom (pt bp)" using pinned by (auto simp: pins_def dom_def split: option.splits)
  have "finite ?D" unfolding dom by (rule finite_dom_map_of)
  then have "card ((\<lambda>i. the (pt bp i)) ` ?D) \<le> card ?D" by (rule card_image_le)
  moreover have "(\<lambda>i. the (pt bp i)) ` ?D = ran (pt bp)"
    unfolding dom by (force simp: ran_def dom_def)
  ultimately show False using assms(2) all by simp
qed

lemma WritePage_next: "WritePage d i p = (r, p', d') \<Longrightarrow> next_page_id d' = next_page_id d"
  by (auto simp: WritePage_def Let_def split: prod.splits if_splits)

lemma WritePage_size:
  assumes "dm_ok d" "wf_page p" "WritePage d i p = (r, p', d')"
    and "f_size (dm_file d) \<le> unat (next_page_id d) * PAGE_SIZE" "i < next_page_id d"
  shows "f_size (dm_file d') \<le> unat (next_page_id d') * PAGE_SIZE"
proof -
  have "Suc (unat i) * PAGE_SIZE \<le> unat (next_page_id d) * PAGE_SIZE"
    using assms(5) by (intro mult_le_mono1) (simp add: word_less_nat_alt)
  moreover have "length (seal p) = PAGE_SIZE" "seal p \<noteq> []"
    using wf_seal [OF assms(2)] wf_page_not_Nil by (auto simp: wf_page_def)
  ultimately show ?thesis
    using assms(3,4) WritePage_ok [OF assms(1,2)] WritePage_next [OF assms(3)]
    by (auto simp: f_size_def page_offset_def)
qed

lemma pool_inv_free:
  assumes "pool_inv F bp" "free_list bp = xs @ [f]"
  shows "pool_inv (insert f F) (bp\<lparr>free_list := xs\<rparr>) \<and> view (bp\<lparr>free_list := xs\<rparr>) = view bp
    \<and> pins (bp\<lparr>free_list := xs\<rparr>) = pins bp \<and> f \<notin> F \<and> f < length (frames bp)"
proof -
  let ?bp = "bp\<lparr>free_list := xs\<rparr>"
  have s: "struct_inv F bp" using assms(1) by (simp add: pool_inv_def)
  note s' = s [unfolded struct_inv_def]
  have f: "f \<in> set (free_list bp)" using assms(2) by simp
  have "struct_inv (insert f F) ?bp"
    unfolding struct_inv_def using s' assms(2) by simp
  moreover have "view ?bp = view bp" by (rule ext) (simp add: view_def split: option.split)
  moreover have "pins ?bp = pins bp" by (rule ext) (simp add: pins_def split: option.split)
  moreover have "logged ?bp = logged bp" by (rule logged_cong) simp
  moreover have "f \<notin> F" "f < length (frames bp)" using s' f by blast+
  ultimately show ?thesis
    using assms(1) by (simp add: pool_inv_def disk_inv_def log_inv_def cong: option.case_cong)
qed

definition keeps_pinned :: "BufferPool \<Rightarrow> BufferPool \<Rightarrow> bool" where
  "keeps_pinned bp bp1 \<longleftrightarrow>
     (\<forall>i g. pt bp i = Some g \<longrightarrow> 0 < pin_count (frame_at bp g) \<longrightarrow>
        pt bp1 i = Some g \<and> frame_at bp1 g = frame_at bp g)
     \<and> (\<forall>i. pt bp i = None \<longrightarrow> pt bp1 i = None)"

text \<open>A page that was chosen has been written back, so it reads from disk as it did from memory.\<close>
lemma FindVictimFrame_lru:
  assumes "pool_inv F bp" "free_list bp = []"
    and "find (\<lambda>c. pin_count (frame_at bp c) = 0) (rev (lru_list bp)) = Some c"
  shows "\<exists>i p' d'. pt bp i = Some c \<and> pin_count (frame_at bp c) = 0
    \<and> FindVictimFrame bp = (Inr (Some c), detach i c p' d' bp)
    \<and> wf_page p' \<and> dm_ok d' \<and> aligned d' \<and> next_page_id d' = next_page_id (disk_manager bp)
    \<and> f_size (dm_file d') \<le> unat (next_page_id d') * PAGE_SIZE
    \<and> (\<forall>j. j \<noteq> i \<longrightarrow> page_at d' j = page_at (disk_manager bp) j)
    \<and> map_option content (page_at d' i) = Some (content (fr_page (frame_at bp c)))"
proof -
  let ?d = "disk_manager bp" and ?fr = "frame_at bp c"
  have s: "struct_inv F bp" "disk_inv bp" using assms(1) by (simp_all add: pool_inv_def)
  have c: "c \<in> set (lru_list bp)" "pin_count ?fr = 0"
    using assms(3) by (auto simp: find_Some_iff) (metis length_rev nth_mem set_rev)
  have "set (lru_list bp) = ran (pt bp)" using s(1) unfolding struct_inv_def by blast
  then obtain i where i: "pt bp i = Some c" using c(1) by (auto simp: ran_def)
  have id: "fr_page_id ?fr = i" by (rule pt_id [OF s(1) i])
  have wf: "wf_page (fr_page ?fr)" by (rule frame_wf [OF s(1) pt_bound [OF s(1) i]])
  have d: "dm_ok ?d" "aligned ?d" "f_size (dm_file ?d) \<le> unat (next_page_id ?d) * PAGE_SIZE" "i < next_page_id ?d"
    using s(2) i unfolding disk_inv_def Let_def by blast+
  show ?thesis
  proof (cases "dirty ?fr")
    case True
    obtain d' where w: "WritePage ?d i (fr_page ?fr) = (Inr (), seal (fr_page ?fr), d')" "dm_ok d'"
      using disk.write_succeeds [OF d(1) wf] by blast
    have "FindVictimFrame bp = (Inr (Some c), detach i c (seal (fr_page ?fr)) d' bp)"
      using assms(2,3) True w(1) id
      by (simp add: FindVictimFrame_def RemoveFromLRU_def set_frame_def detach_def Let_def)
    then show ?thesis
      using i c(2) w wf aligned_WritePage [OF d(1,2) wf w(1)] WritePage_next [OF w(1)]
        WritePage_size [OF d(1) wf w(1) d(3,4)] page_at_WritePage [OF d(1,2) wf w(1)]
      by (intro exI [of _ i] exI [of _ "seal (fr_page ?fr)"] exI [of _ d']) simp
  next
    case False
    then have "map_option content (page_at ?d i) = Some (content (fr_page ?fr))"
      using s(2) i unfolding disk_inv_def Let_def by blast
    moreover have "FindVictimFrame bp = (Inr (Some c), detach i c (fr_page ?fr) ?d bp)"
      using assms(2,3) False id
      by (simp add: FindVictimFrame_def RemoveFromLRU_def set_frame_def detach_def Let_def)
    ultimately show ?thesis using i c(2) wf d by blast
  qed
qed

lemma FindVictimFrame_ok:
  assumes "pool_inv F bp" "has_victim bp"
  shows "\<exists>f bp1. FindVictimFrame bp = (Inr (Some f), bp1) \<and> pool_inv (insert f F) bp1
    \<and> f \<notin> F \<and> f < length (frames bp) \<and> length (frames bp1) = length (frames bp)
    \<and> view bp1 = view bp \<and> pins bp1 = pins bp \<and> wal_manager bp1 = wal_manager bp
    \<and> next_page_id (disk_manager bp1) = next_page_id (disk_manager bp) \<and> keeps_pinned bp bp1"
proof (cases "free_list bp" rule: rev_cases)
  case (snoc xs f)
  then have "FindVictimFrame bp = (Inr (Some f), bp\<lparr>free_list := xs\<rparr>)"
    by (simp add: FindVictimFrame_def)
  with pool_inv_free [OF assms(1) snoc] show ?thesis by (simp add: keeps_pinned_def)
next
  case Nil
  have s: "struct_inv F bp" using assms(1) by (simp add: pool_inv_def)
  obtain c where c: "find (\<lambda>c. pin_count (frame_at bp c) = 0) (rev (lru_list bp)) = Some c"
    using assms(2) Nil
    by (cases "find (\<lambda>c. pin_count (frame_at bp c) = 0) (rev (lru_list bp))")
      (auto simp: has_victim_def find_None_iff)
  obtain i p' d' where v: "pt bp i = Some c" "pin_count (frame_at bp c) = 0"
    "FindVictimFrame bp = (Inr (Some c), detach i c p' d' bp)" "wf_page p'" "dm_ok d'" "aligned d'"
    "next_page_id d' = next_page_id (disk_manager bp)" "f_size (dm_file d') \<le> unat (next_page_id d') * PAGE_SIZE"
    "\<And>j. j \<noteq> i \<Longrightarrow> page_at d' j = page_at (disk_manager bp) j"
    "map_option content (page_at d' i) = Some (content (fr_page (frame_at bp c)))"
    using FindVictimFrame_lru [OF assms(1) Nil c] by metis
  have "c \<in> ran (pt bp)" using v(1) by (rule ranI)
  then have "c \<notin> F" using s unfolding struct_inv_def by blast
  moreover have "keeps_pinned bp (detach i c p' d' bp)"
    using v(1,2) pt_other_frame [OF s] unfolding keeps_pinned_def
    by (simp add: detach_def delete_conv')
  ultimately show ?thesis
    using pool_inv_detach [OF assms(1) v(1,2) v(4) v(5,6,7,8) v(9,10)] v(3,7) pt_bound [OF s v(1)]
    by (simp add: detach_def)
qed

section \<open>Putting a frame to use\<close>

definition attach :: "page_id_t \<Rightarrow> nat \<Rightarrow> Frame \<Rightarrow> DiskManager \<Rightarrow> BufferPool \<Rightarrow> BufferPool" where
  "attach i f fr d' bp = TouchLRU f (bp\<lparr>disk_manager := d', frames := (frames bp)[f := fr],
     page_table := AList.update i f (page_table bp)\<rparr>)"

lemma struct_inv_attach:
  assumes "struct_inv (insert f F) bp" "f \<notin> F" "pt bp i = None"
    and "fr_page_id fr = i" "wf_page (fr_page fr)" "0 \<le> pin_count fr"
  shows "struct_inv F (attach i f fr d' bp)"
proof -
  let ?bp = "attach i f fr d' bp"
  note s = assms(1) [unfolded struct_inv_def]
  have f: "f < length (frames bp)" "f \<notin> ran (pt bp)" "f \<notin> set (free_list bp)" using s by blast+
  have lru: "set (lru_list bp) = ran (pt bp)" "distinct (lru_list bp)" using s by blast+
  have pt': "pt ?bp = (pt bp)(i \<mapsto> f)" by (simp add: attach_def update_conv')
  have ran: "ran (pt ?bp) = insert f (ran (pt bp))" using assms(3) by (simp add: pt')
  have simps: "free_list ?bp = free_list bp" "length (frames ?bp) = length (frames bp)"
    "lru_list ?bp = f # lru_list bp" "frames ?bp = (frames bp)[f := fr]"
    using lru f(2) by (simp_all add: attach_def TouchLRU_def remove1_idem)
  have "distinct (map fst (page_table ?bp))" using s by (simp add: attach_def distinct_update)
  moreover have "g < length (frames bp) \<and> fr_page_id (frame_at ?bp g) = j" if "pt ?bp j = Some g" for j g
  proof (cases "j = i")
    case True
    then have "g = f" using that by (simp add: pt')
    then show ?thesis unfolding simps(4) using True f(1) assms(4) by simp
  next
    case False
    then have j: "pt bp j = Some g" using that by (simp add: pt')
    then have "g \<noteq> f" using f(2) by (metis ranI)
    then show ?thesis using pt_bound [OF assms(1) j] pt_id [OF assms(1) j] by (simp add: simps)
  qed
  moreover have "distinct (lru_list ?bp)" "set (lru_list ?bp) = ran (pt ?bp)"
    using lru f(2) unfolding ran simps by simp_all
  moreover have "distinct (free_list bp)" "set (free_list bp) \<inter> ran (pt ?bp) = {}" "F \<inter> ran (pt ?bp) = {}"
    "F \<inter> set (free_list bp) = {}" "F \<union> set (free_list bp) \<union> ran (pt ?bp) = {..<length (frames bp)}"
    using s f assms(2) unfolding ran by blast+
  moreover have "wf_page (fr_page (frame_at ?bp g)) \<and> 0 \<le> pin_count (frame_at ?bp g)"
    if "g < length (frames bp)" for g
    using frame_wf [OF assms(1) that] pin_nonneg [OF assms(1) that] assms(5,6) that
    by (cases "g = f") (simp_all add: simps)
  ultimately show ?thesis unfolding struct_inv_def simps(1,2) by (intro conjI allI impI) (assumption | simp)+
qed

lemma pool_inv_attach:
  assumes "pool_inv (insert f F) bp" "f \<notin> F" "pt bp i = None"
    and fr: "fr_page_id fr = i" "wf_page (fr_page fr)" "pin_count fr = 1"
    and d': "dm_ok d'" "aligned d'" "f_size (dm_file d') \<le> unat (next_page_id d') * PAGE_SIZE"
      "i < next_page_id d'" "next_page_id (disk_manager bp) \<le> next_page_id d'"
    and same: "page_at d' = page_at (disk_manager bp)"
    and clean: "\<not> dirty fr \<Longrightarrow> map_option content (page_at (disk_manager bp) i) = Some (content (fr_page fr))"
  shows "pool_inv F (attach i f fr d' bp)
    \<and> view (attach i f fr d' bp) = (view bp)(i \<mapsto> content (fr_page fr))
    \<and> pins (attach i f fr d' bp) = (pins bp)(i := 1)"
proof -
  let ?bp = "attach i f fr d' bp"
  have s: "struct_inv (insert f F) bp" "disk_inv bp" "log_inv bp" using assms(1) by (simp_all add: pool_inv_def)
  have f: "f < length (frames bp)" "f \<notin> ran (pt bp)" using s(1) unfolding struct_inv_def by blast+
  have pt': "pt ?bp = (pt bp)(i \<mapsto> f)" and dm: "disk_manager ?bp = d'"
    by (simp_all add: attach_def update_conv')
  have old: "g \<noteq> f \<and> frame_at ?bp g = frame_at bp g" if "pt bp j = Some g" for j g
  proof -
    have "g \<noteq> f" using that f(2) by (metis ranI)
    then show ?thesis by (simp add: attach_def)
  qed
  have new: "frame_at ?bp f = fr" using f(1) by (simp add: attach_def)
  have struct: "struct_inv F ?bp" by (rule struct_inv_attach [OF s(1) assms(2,3) fr(1,2)]) (simp add: fr)
  have view: "view ?bp = (view bp)(i \<mapsto> content (fr_page fr))"
    using old new same by (intro ext) (simp add: view_def pt' dm split: option.split)
  have pins: "pins ?bp = (pins bp)(i := 1)"
    using old new fr(3) by (intro ext) (simp add: pins_def pt' split: option.split)
  have "disk_inv ?bp"
    unfolding disk_inv_def Let_def dm
  proof (intro conjI allI impI d')
    fix j g assume j: "pt ?bp j = Some g"
    show "j < next_page_id d'"
      using j s(2) d'(4,5) unfolding disk_inv_def Let_def pt' by (metis fun_upd_apply less_le_trans)
    assume "\<not> dirty (frame_at ?bp g)"
    then show "map_option content (page_at d' j) = Some (content (fr_page (frame_at ?bp g)))"
      using j s(2) old new clean unfolding disk_inv_def Let_def pt' same
      by (metis fun_upd_apply option.inject)
  qed
  moreover have "log_inv ?bp"
  proof (cases "wal_manager bp")
    case None
    then show ?thesis by (simp add: log_inv_def attach_def)
  next
    case (Some w)
    have logged: "logged ?bp = logged bp" by (rule logged_cong) (simp add: attach_def)
    have "wal_inv w" "file_ok (wal_file w)" using s(3) Some by (simp_all add: log_inv_def)
    then show ?thesis
    proof (rule log_invI [of _ w, rotated])
      show "wal_manager ?bp = Some w" using Some by (simp add: attach_def)
    next
      fix j g assume j: "pt ?bp j = Some g" "dirty (frame_at ?bp g)" "pin_count (frame_at ?bp g) = 0"
      then have "j \<noteq> i" using new fr(3) by (auto simp: pt')
      then show "logged ?bp j = view ?bp j"
        using j old log_inv_unpinned [OF s(3) Some, of j g] by (simp add: logged view pt')
    next
      fix j k assume k: "logged ?bp j = Some k"
      then have "(\<exists>f. pt bp j = Some f \<and> dirty (frame_at bp f) \<and> 0 < pin_count (frame_at bp f)) \<or> view bp j = Some k"
        using log_inv_logged [OF s(3)] by (simp add: logged)
      then show "(\<exists>f. pt ?bp j = Some f \<and> dirty (frame_at ?bp f) \<and> 0 < pin_count (frame_at ?bp f)) \<or> view ?bp j = Some k"
      proof (cases "j = i")
        case True
        have "view bp i = map_option content (page_at (disk_manager bp) i)" using assms(3) by (simp add: view_def)
        then show ?thesis
          using True k log_inv_logged [OF s(3), of i k] assms(3) clean new fr(3)
          by (cases "dirty fr") (auto simp: logged view pt')
      next
        case False
        then show ?thesis
          using k log_inv_logged [OF s(3), of j k] old unfolding logged view pt' by fastforce
      qed
    qed
  qed
  ultimately show ?thesis using struct view pins by (simp add: pool_inv_def)
qed

section \<open>The operations\<close>

definition guard_ok :: "BufferPool \<Rightarrow> PageGuard \<Rightarrow> bool" where
  "guard_ok bp g \<longleftrightarrow> pt bp (g_page_id g) = Some (g_frame g) \<and> 0 < pin_count (frame_at bp (g_frame g))"

definition cap :: "BufferPool \<Rightarrow> nat" where
  "cap bp = length (frames bp)"

text \<open>How many more page ids and LSNs there are before a counter would run out.\<close>
definition room :: "BufferPool \<Rightarrow> nat" where
  "room bp = min (2 ^ 32 - 1 - unat (next_page_id (disk_manager bp)))
     (case wal_manager bp of None \<Rightarrow> 2 ^ 64 | Some w \<Rightarrow> 2 ^ 64 - 1 - unat (next_lsn w))"

lemma guard_ok_keeps: "keeps_pinned bp bp1 \<Longrightarrow> guard_ok bp h \<Longrightarrow> guard_ok bp1 h"
  by (auto simp: keeps_pinned_def guard_ok_def)

lemma guard_ok_attach:
  assumes "pool_inv (insert f F) bp" "pt bp i = None" "guard_ok bp h"
  shows "guard_ok (attach i f fr d' bp) h"
proof -
  have "f \<notin> ran (pt bp)" using assms(1) unfolding pool_inv_def struct_inv_def by blast
  then have "g_frame h \<noteq> f" "g_page_id h \<noteq> i" using assms(2,3) by (auto simp: guard_ok_def ran_def)
  then show ?thesis using assms(3) by (simp add: guard_ok_def attach_def update_conv')
qed

lemma FetchPage_cached:
  assumes "pool_inv F bp" "pt bp i = Some f"
  shows "\<exists>bp'. FetchPage i bp = (Inr (Some \<lparr>g_page_id = i, g_frame = f\<rparr>), bp') \<and> pool_inv F bp'
    \<and> guard_ok bp' \<lparr>g_page_id = i, g_frame = f\<rparr> \<and> view bp' = view bp
    \<and> pins bp' = (pins bp)(i := Suc (pins bp i)) \<and> cap bp' = cap bp \<and> room bp' = room bp
    \<and> (\<forall>h. guard_ok bp h \<longrightarrow> guard_ok bp' h)"
proof -
  let ?fr = "(frame_at bp f)\<lparr>pin_count := pin_count (frame_at bp f) + 1\<rparr>"
  let ?bp = "set_frame f ?fr bp"
  have s: "struct_inv F bp" "disk_inv bp" "log_inv bp" using assms(1) by (simp_all add: pool_inv_def)
  have f: "f < length (frames bp)" by (rule pt_bound [OF s(1) assms(2)])
  have pin: "0 \<le> pin_count (frame_at bp f)" by (rule pin_nonneg [OF s(1) f])
  have vi: "view bp i = Some (content (fr_page (frame_at bp f)))" using assms(2) by (simp add: view_def)
  have "struct_inv F ?bp"
    by (rule struct_inv_set_frame [OF s(1) assms(2)]) (use pt_id [OF s(1) assms(2)] frame_wf [OF s(1) f] pin in simp_all)
  moreover have "disk_inv ?bp"
    by (rule disk_inv_set_frame [OF s(1,2) assms(2)]) (use s(2) assms(2) in \<open>simp add: disk_inv_def Let_def\<close>)
  moreover have "log_inv ?bp"
  proof (rule log_inv_set_frame [OF s(1,3) assms(2)], cases "dirty (frame_at bp f)")
    case False
    then have "c = content (fr_page ?fr)" if "logged bp i = Some c" for c
      using log_inv_logged [OF s(3) that] assms(2) vi by auto
    with False show "dirty ?fr \<and> 0 < pin_count ?fr \<or> (wal_manager bp \<noteq> None \<longrightarrow>
        (dirty ?fr \<longrightarrow> logged bp i = Some (content (fr_page ?fr))) \<and> (\<forall>c. logged bp i = Some c \<longrightarrow> c = content (fr_page ?fr)))"
      by simp
  qed (use pin in simp)
  ultimately have inv: "pool_inv F ?bp" by (simp add: pool_inv_def)
  have "f \<in> ran (pt ?bp)" using assms(2) by (auto intro: ranI)
  with inv have "pool_inv F (TouchLRU f ?bp)" by (rule pool_inv_TouchLRU)
  moreover have "view ?bp = view bp" using view_set_frame [OF s(1) assms(2), of ?fr] vi by auto
  moreover have "pins ?bp = (pins bp)(i := Suc (pins bp i))"
    using pins_set_frame [OF s(1) assms(2), of ?fr] assms(2) pin by (simp add: pins_def nat_add_distrib)
  moreover have "guard_ok ?bp h" if "guard_ok bp h" for h
    using that f by (cases "g_frame h = f") (simp_all add: guard_ok_def)
  ultimately show ?thesis
    using assms(2) f pin by (simp add: FetchPage_def Let_def cap_def room_def guard_ok_def)
qed

lemma FetchPage_miss:
  assumes "pool_inv F bp" "pt bp i = None" "view bp i = Some c" "has_victim bp"
  shows "\<exists>g bp'. FetchPage i bp = (Inr (Some g), bp') \<and> pool_inv F bp' \<and> g_page_id g = i
    \<and> guard_ok bp' g \<and> view bp' = view bp
    \<and> pins bp' = (pins bp)(i := Suc (pins bp i)) \<and> cap bp' = cap bp \<and> room bp' = room bp
    \<and> (\<forall>h. guard_ok bp h \<longrightarrow> guard_ok bp' h)"
proof -
  obtain f bp1 where v: "FindVictimFrame bp = (Inr (Some f), bp1)" "pool_inv (insert f F) bp1" "f \<notin> F"
    "f < length (frames bp)" "length (frames bp1) = length (frames bp)" "view bp1 = view bp" "pins bp1 = pins bp"
    "wal_manager bp1 = wal_manager bp" "next_page_id (disk_manager bp1) = next_page_id (disk_manager bp)"
    "keeps_pinned bp bp1"
    using FindVictimFrame_ok [OF assms(1,4)] by blast
  let ?d = "disk_manager bp1"
  have s: "struct_inv (insert f F) bp1" "disk_inv bp1" using v(2) by (simp_all add: pool_inv_def)
  have none: "pt bp1 i = None" using v(10) assms(2) by (simp add: keeps_pinned_def)
  then have "map_option content (page_at ?d i) = Some c" using assms(3) v(6) by (metis view_def option.case(1))
  then obtain p where p: "page_at ?d i = Some p" "content p = c" by auto
  have wf: "wf_page (fr_page (frame_at bp1 f))" using frame_wf [OF s(1)] v(4,5) by simp
  have read: "ReadPage ?d i (fr_page (frame_at bp1 f)) = (Inr (), p)" by (rule ReadPage_page_at [OF wf p(1)])
  let ?fr = "\<lparr>fr_page = p, fr_page_id = i, pin_count = 1, dirty = False\<rparr>"
  have fetch: "FetchPage i bp = (Inr (Some \<lparr>g_page_id = i, g_frame = f\<rparr>), attach i f ?fr ?d bp1)"
    using assms(2) v(1) read by (simp add: FetchPage_def Let_def attach_def set_frame_def)
  have d: "dm_ok ?d" "aligned ?d" "f_size (dm_file ?d) \<le> unat (next_page_id ?d) * PAGE_SIZE"
    using s(2) unfolding disk_inv_def Let_def by blast+
  have "page_offset i + PAGE_SIZE \<le> unat (next_page_id ?d) * PAGE_SIZE"
    using page_at_bound [OF p(1)] d(3) by simp
  then have lt: "i < next_page_id ?d" by (simp add: page_offset_def PAGE_SIZE_def word_less_nat_alt)
  have "pool_inv F (attach i f ?fr ?d bp1) \<and> view (attach i f ?fr ?d bp1) = (view bp1)(i \<mapsto> content p)
      \<and> pins (attach i f ?fr ?d bp1) = (pins bp1)(i := 1)"
    using pool_inv_attach [OF v(2,3) none _ _ _ d lt, of ?fr] page_at_wf [OF p(1)] p(1) by simp
  moreover have "(view bp1)(i \<mapsto> content p) = view bp" using v(6) p(2) assms(3) by auto
  moreover have "pins bp i = 0" using assms(2) by (simp add: pins_def)
  moreover have "guard_ok (attach i f ?fr ?d bp1) h" if "guard_ok bp h" for h
    using guard_ok_attach [OF v(2) none guard_ok_keeps [OF v(10) that]] .
  moreover have "guard_ok (attach i f ?fr ?d bp1) \<lparr>g_page_id = i, g_frame = f\<rparr>"
    using v(4,5) by (simp add: guard_ok_def attach_def update_conv')
  ultimately show ?thesis
    using fetch v(5,7,8,9) by (simp add: cap_def room_def attach_def)
qed

lemma page_at_next [simp]: "page_at (d\<lparr>next_page_id := n\<rparr>) = page_at d"
  by (rule ext) (simp add: page_at_def ReadPage_def)

lemma view_below_next:
  assumes "disk_inv bp" "view bp i \<noteq> None"
  shows "i < next_page_id (disk_manager bp)"
proof (cases "pt bp i")
  case None
  with assms(2) obtain p where "page_at (disk_manager bp) i = Some p" by (auto simp: view_def)
  then have "page_offset i + PAGE_SIZE \<le> unat (next_page_id (disk_manager bp)) * PAGE_SIZE"
    using page_at_bound assms(1) unfolding disk_inv_def Let_def by (meson order_trans)
  then show ?thesis by (simp add: page_offset_def PAGE_SIZE_def word_less_nat_alt)
next
  case (Some f)
  then show ?thesis using assms(1) unfolding disk_inv_def Let_def by blast
qed

lemma NewPage_ok:
  assumes "pool_inv F bp" "0 < room bp" "has_victim bp"
  defines "i \<equiv> next_page_id (disk_manager bp)"
  shows "\<exists>g bp'. NewPage bp = (Inr (Some g), bp') \<and> pool_inv F bp' \<and> g_page_id g = i \<and> guard_ok bp' g
    \<and> view bp i = None \<and> i \<noteq> INVALID_PAGE_ID \<and> guard_page g bp' = set_page_id i zero_page
    \<and> view bp' = (view bp)(i \<mapsto> content (set_page_id i zero_page)) \<and> pins bp i = 0
    \<and> pins bp' = (pins bp)(i := 1) \<and> cap bp' = cap bp \<and> room bp \<le> Suc (room bp')
    \<and> (\<forall>h. guard_ok bp h \<longrightarrow> guard_ok bp' h)"
proof -
  obtain f bp1 where v: "FindVictimFrame bp = (Inr (Some f), bp1)" "pool_inv (insert f F) bp1" "f \<notin> F"
    "f < length (frames bp)" "length (frames bp1) = length (frames bp)" "view bp1 = view bp" "pins bp1 = pins bp"
    "wal_manager bp1 = wal_manager bp" "next_page_id (disk_manager bp1) = next_page_id (disk_manager bp)"
    "keeps_pinned bp bp1"
    using FindVictimFrame_ok [OF assms(1,3)] by blast
  let ?d = "disk_manager bp1"
  let ?d' = "?d\<lparr>next_page_id := next_page_id ?d + 1\<rparr>"
  let ?fr = "\<lparr>fr_page = set_page_id i zero_page, fr_page_id = i, pin_count = 1, dirty = True\<rparr>"
  let ?g = "\<lparr>g_page_id = i, g_frame = f\<rparr>"
  have new: "NewPage bp = (Inr (Some ?g), attach i f ?fr ?d' bp1)"
    using v(1,9) by (simp add: NewPage_def AllocatePage_def Let_def attach_def set_frame_def i_def)
  have dinv: "disk_inv bp" "disk_inv bp1" using assms(1) v(2) by (simp_all add: pool_inv_def)
  have viewi: "view bp i = None" using view_below_next [OF dinv(1), of i] unfolding i_def by (meson less_irrefl)
  then have none: "pt bp1 i = None" using v(6) by (metis view_def option.case_eq_if option.distinct(1))
  have lt: "unat i + 1 < 2 ^ 32" using assms(2) by (simp add: room_def i_def)
  then have suc: "unat (i + 1) = unat i + 1" by (simp add: unat_word_ariths)
  have ii: "i < i + 1" by (simp add: word_less_nat_alt suc)
  have valid: "i \<noteq> INVALID_PAGE_ID"
  proof
    assume "i = INVALID_PAGE_ID"
    then have "unat i = 2 ^ 32 - 1" by (simp add: INVALID_PAGE_ID_def unsigned_minus_1_eq_mask mask_eq_exp_minus_1)
    with lt show False by simp
  qed
  have d: "dm_ok ?d'" "aligned ?d'" "f_size (dm_file ?d') \<le> unat (next_page_id ?d') * PAGE_SIZE"
    using dinv(2) v(9) suc unfolding disk_inv_def Let_def dm_ok_def aligned_def i_def by simp_all
  have "pool_inv F (attach i f ?fr ?d' bp1)
      \<and> view (attach i f ?fr ?d' bp1) = (view bp1)(i \<mapsto> content (set_page_id i zero_page))
      \<and> pins (attach i f ?fr ?d' bp1) = (pins bp1)(i := 1)"
    using pool_inv_attach [OF v(2,3) none _ _ _ d, of ?fr] ii v(9) by (simp add: i_def)
  moreover have "pins bp i = 0"
    using viewi by (auto simp: pins_def view_def split: option.splits)
  moreover have "guard_ok (attach i f ?fr ?d' bp1) h" if "guard_ok bp h" for h
    using guard_ok_attach [OF v(2) none guard_ok_keeps [OF v(10) that]] .
  moreover have "guard_ok (attach i f ?fr ?d' bp1) ?g" "guard_page ?g (attach i f ?fr ?d' bp1) = set_page_id i zero_page"
    using v(4,5) by (simp_all add: guard_ok_def attach_def update_conv' guard_page_def)
  moreover have "room bp \<le> Suc (room (attach i f ?fr ?d' bp1))"
    using v(8,9) suc by (simp add: room_def attach_def i_def split: option.split)
  ultimately show ?thesis
    using new v(5,6,7) viewi valid by (simp add: cap_def attach_def)
qed

lemma put_dirty_ok:
  assumes "pool_inv F bp" "guard_ok bp g" "wf_page p"
  shows "pool_inv F (put_dirty g p bp) \<and> guard_page g (put_dirty g p bp) = p
    \<and> view (put_dirty g p bp) = (view bp)(g_page_id g \<mapsto> content p) \<and> pins (put_dirty g p bp) = pins bp
    \<and> cap (put_dirty g p bp) = cap bp \<and> room (put_dirty g p bp) = room bp
    \<and> (\<forall>h. guard_ok bp h \<longrightarrow> guard_ok (put_dirty g p bp) h)"
proof -
  let ?i = "g_page_id g" and ?f = "g_frame g"
  let ?fr = "(frame_at bp ?f)\<lparr>fr_page := p, dirty := True\<rparr>"
  have s: "struct_inv F bp" "disk_inv bp" "log_inv bp" using assms(1) by (simp_all add: pool_inv_def)
  have i: "pt bp ?i = Some ?f" "0 < pin_count (frame_at bp ?f)" using assms(2) by (simp_all add: guard_ok_def)
  have f: "?f < length (frames bp)" by (rule pt_bound [OF s(1) i(1)])
  have put: "put_dirty g p bp = set_frame ?f ?fr bp"
    using f by (simp add: put_dirty_def MarkDirty_def write_guard_def set_frame_def)
  have "struct_inv F (set_frame ?f ?fr bp)"
    by (rule struct_inv_set_frame [OF s(1) i(1)]) (use pt_id [OF s(1) i(1)] i(2) assms(3) in simp_all)
  moreover have "disk_inv (set_frame ?f ?fr bp)" by (rule disk_inv_set_frame [OF s(1,2) i(1)]) simp
  moreover have "log_inv (set_frame ?f ?fr bp)" by (rule log_inv_set_frame [OF s(1,3) i(1)]) (use i(2) in simp)
  moreover have "pins (set_frame ?f ?fr bp) = pins bp"
    using pins_set_frame [OF s(1) i(1), of ?fr] i(1) by (auto simp: pins_def)
  moreover have "guard_ok (set_frame ?f ?fr bp) h" if "guard_ok bp h" for h
    using that f i(2) by (cases "g_frame h = ?f") (simp_all add: guard_ok_def)
  ultimately show ?thesis
    using view_set_frame [OF s(1) i(1), of ?fr] f
    by (simp add: put pool_inv_def guard_page_def cap_def room_def)
qed

text \<open>Releasing a guard. A dirty page goes to the log first, and that is when it agrees with it again.\<close>

lemma AppendRecord_ok:
  assumes "wal_inv w" "file_ok (wal_file w)" "wf_page p" "next_lsn w < - 1"
  shows "\<exists>w'. AppendRecord w i p = (Inr (next_lsn w), set_lsn (ucast (next_lsn w)) p, w')
    \<and> wal_inv w' \<and> file_ok (wal_file w') \<and> next_lsn w' = next_lsn w + 1
    \<and> valid_records w' = valid_records w @ [appended w i p]"
proof -
  have "writable (wal_file w) (next_offset w) WAL_RECORD_SIZE = WAL_RECORD_SIZE" "f_sync_ok (wal_file w)"
    using assms(2) by (simp_all add: file_ok_def writable_def)
  then have "\<exists>w'. AppendRecord w i p = (Inr (next_lsn w), set_lsn (ucast (next_lsn w)) p, w')
    \<and> file_ok (wal_file w') \<and> next_lsn w' = next_lsn w + 1 \<and> valid_records w' = valid_records w @ [appended w i p]"
    using assms(2) by (simp add: AppendRecord_eq [OF assms(3)] file_ok_def)
  then show ?thesis using AppendRecord_inv [OF assms(1,3,4)] by blast
qed

lemma log_inv_append:
  assumes "struct_inv F bp" "log_inv bp" "pt bp i = Some f" "wal_manager bp = Some w"
    and w': "wal_inv w'" "file_ok (wal_file w')" "valid_records w' = valid_records w @ [r]" "rp_page_id r = i"
    and fr: "content (fr_page fr) = content (rp_page r)"
  shows "log_inv (set_frame f fr (bp\<lparr>wal_manager := Some w'\<rparr>))"
proof -
  let ?bp = "set_frame f fr (bp\<lparr>wal_manager := Some w'\<rparr>)"
  have s1: "struct_inv F (bp\<lparr>wal_manager := Some w'\<rparr>)" using assms(1) by (simp add: struct_inv_def)
  have "view (bp\<lparr>wal_manager := Some w'\<rparr>) = view bp" by (rule ext) (simp add: view_def split: option.split)
  then have view: "view ?bp = (view bp)(i \<mapsto> content (rp_page r))"
    using view_set_frame [OF s1, of i f fr] assms(3) fr by simp
  have logged: "logged ?bp = (logged bp)(i \<mapsto> content (rp_page r))"
    using assms(4) w' by (intro ext) (simp add: logged_def)
  have other: "frame_at ?bp g = frame_at bp g" if "j \<noteq> i" "pt bp j = Some g" for j g
    using pt_other_frame [OF assms(1,3) that(2)] that(1) by (simp add: set_frame_def)
  show ?thesis
  proof (rule log_invI [of _ w'])
    fix j g assume "pt ?bp j = Some g" "dirty (frame_at ?bp g)" "pin_count (frame_at ?bp g) = 0"
    then show "logged ?bp j = view ?bp j"
      using other [of j g] log_inv_unpinned [OF assms(2,4), of j g] by (cases "j = i") (simp_all add: logged view)
  next
    fix j c assume "logged ?bp j = Some c"
    then show "(\<exists>f. pt ?bp j = Some f \<and> dirty (frame_at ?bp f) \<and> 0 < pin_count (frame_at ?bp f)) \<or> view ?bp j = Some c"
      using log_inv_logged [OF assms(2), of j c] other [of j] unfolding logged view
      by (cases "j = i") auto
  qed (use w' in simp_all)
qed

lemma guard_ok_unpin:
  assumes "struct_inv F bp" "guard_ok bp g" "guard_ok bp h" "g_page_id h \<noteq> g_page_id g \<or> 1 < pins bp (g_page_id g)"
    and "pin_count fr = pin_count (frame_at bp (g_frame g)) - 1"
  shows "guard_ok (set_frame (g_frame g) fr bp) h"
proof (cases "g_page_id h = g_page_id g")
  case True
  then have "g_frame h = g_frame g" using assms(2,3) by (simp add: guard_ok_def)
  then show ?thesis
    using True assms pt_bound [OF assms(1), of "g_page_id g"] by (simp add: guard_ok_def pins_def)
next
  case False
  then have "g_frame h \<noteq> g_frame g"
    using assms(2,3) pt_other_frame [OF assms(1), of "g_page_id h" _ "g_page_id g"] by (auto simp: guard_ok_def)
  then show ?thesis using assms(3) by (simp add: guard_ok_def)
qed

lemma room_lsn:
  assumes "0 < room bp" "wal_manager bp = Some w"
  shows "next_lsn w < - 1" "unat (next_lsn w + 1) = unat (next_lsn w) + 1"
proof -
  have lt: "unat (next_lsn w) < 2 ^ 64 - 1" using assms by (simp add: room_def)
  then show "next_lsn w < - 1" by (simp add: word_less_nat_alt unsigned_minus_1_eq_mask mask_eq_exp_minus_1)
  from lt show "unat (next_lsn w + 1) = unat (next_lsn w) + 1" by (simp add: unat_word_ariths)
qed

lemma Release_ok:
  assumes "pool_inv F bp" "guard_ok bp g" "0 < room bp"
  shows "\<exists>bp'. Release g bp = (Inr (), bp') \<and> pool_inv F bp' \<and> view bp' = view bp
    \<and> pins bp' = (pins bp)(g_page_id g := pins bp (g_page_id g) - 1) \<and> cap bp' = cap bp \<and> room bp \<le> Suc (room bp')
    \<and> (\<forall>h. guard_ok bp h \<longrightarrow> g_page_id h \<noteq> g_page_id g \<or> 1 < pins bp (g_page_id g) \<longrightarrow> guard_ok bp' h)"
proof -
  let ?i = "g_page_id g" and ?f = "g_frame g"
  let ?fr = "frame_at bp ?f"
  have s: "struct_inv F bp" "disk_inv bp" "log_inv bp" using assms(1) by (simp_all add: pool_inv_def)
  have i: "pt bp ?i = Some ?f" "0 < pin_count ?fr" using assms(2) by (simp_all add: guard_ok_def)
  have f: "?f < length (frames bp)" by (rule pt_bound [OF s(1) i(1)])
  have fr: "fr_page_id ?fr = ?i" "wf_page (fr_page ?fr)" using pt_id [OF s(1) i(1)] frame_wf [OF s(1) f] by simp_all
  have v: "view bp ?i = Some (content (fr_page ?fr))" "pins bp ?i = nat (pin_count ?fr)"
    using i(1) by (simp_all add: view_def pins_def)
  show ?thesis
  proof (cases "dirty ?fr \<and> wal_manager bp \<noteq> None")
    case False
    let ?fr' = "?fr\<lparr>pin_count := pin_count ?fr - 1\<rparr>"
    have frd: "?fr\<lparr>dirty := True, pin_count := k\<rparr> = ?fr\<lparr>pin_count := k\<rparr>" if "dirty ?fr" for k using that by simp
    have rel: "Release g bp = (Inr (), set_frame ?f ?fr' bp)"
      using False i f by (cases "dirty ?fr") (auto simp: Release_def UnpinPage_def Let_def set_frame_def frd)
    have "struct_inv F (set_frame ?f ?fr' bp)"
      by (rule struct_inv_set_frame [OF s(1) i(1)]) (use fr i(2) in simp_all)
    moreover have "disk_inv (set_frame ?f ?fr' bp)"
      by (rule disk_inv_set_frame [OF s(1,2) i(1)]) (use s(2) i(1) in \<open>simp add: disk_inv_def Let_def\<close>)
    moreover have "log_inv (set_frame ?f ?fr' bp)"
    proof (rule log_inv_set_frame [OF s(1,3) i(1)], rule disjI2, rule impI)
      assume "wal_manager bp \<noteq> None"
      with False have "\<not> dirty ?fr" by blast
      then have "c = content (fr_page ?fr)" if "logged bp ?i = Some c" for c
        using log_inv_logged [OF s(3) that] i(1) v(1) by auto
      with \<open>\<not> dirty ?fr\<close> show "(dirty ?fr' \<longrightarrow> logged bp ?i = Some (content (fr_page ?fr')))
          \<and> (\<forall>c. logged bp ?i = Some c \<longrightarrow> c = content (fr_page ?fr'))" by simp
    qed
    moreover have "view (set_frame ?f ?fr' bp) = view bp" using view_set_frame [OF s(1) i(1), of ?fr'] v(1) by auto
    moreover have "pins (set_frame ?f ?fr' bp) = (pins bp)(?i := pins bp ?i - 1)"
      using pins_set_frame [OF s(1) i(1), of ?fr'] v(2) i(2) by (simp add: nat_diff_distrib)
    moreover note guard_ok_unpin [OF s(1) assms(2), of _ ?fr']
    ultimately show ?thesis using rel by (simp add: pool_inv_def cap_def room_def)
  next
    case True
    then obtain w where w: "wal_manager bp = Some w" and d: "dirty ?fr" by auto
    have wi: "wal_inv w" "file_ok (wal_file w)" using s(3) w by (simp_all add: log_inv_def)
    obtain w' where w': "AppendRecord w ?i (fr_page ?fr) = (Inr (next_lsn w), set_lsn (ucast (next_lsn w)) (fr_page ?fr), w')"
      "wal_inv w'" "file_ok (wal_file w')" "next_lsn w' = next_lsn w + 1"
      "valid_records w' = valid_records w @ [appended w ?i (fr_page ?fr)]"
      using AppendRecord_ok [OF wi fr(2) room_lsn(1) [OF assms(3) w]] by blast
    let ?p = "set_lsn (ucast (next_lsn w)) (fr_page ?fr)"
    let ?fr' = "?fr\<lparr>fr_page := ?p, pin_count := pin_count ?fr - 1\<rparr>"
    let ?bp = "bp\<lparr>wal_manager := Some w'\<rparr>"
    let ?r = "appended w ?i (fr_page ?fr)"
    have frd: "?fr\<lparr>dirty := True\<rparr> = ?fr" using d by simp
    have rel: "Release g bp = (Inr (), set_frame ?f ?fr' ?bp)"
      using d w i f w'(1) by (simp add: Release_def UnpinPage_def Let_def set_frame_def frd)
    have s': "struct_inv F ?bp" using s(1) by (simp add: struct_inv_def)
    have d': "disk_inv ?bp" using s(2) by (simp add: disk_inv_def)
    have i': "pt ?bp ?i = Some ?f" using i(1) by simp
    have vw: "view ?bp = view bp" by (rule ext) (simp add: view_def split: option.split)
    have pn: "pins ?bp = pins bp" by (rule ext) (simp add: pins_def split: option.split)
    have g': "guard_ok ?bp h = guard_ok bp h" for h by (simp add: guard_ok_def)
    have "struct_inv F (set_frame ?f ?fr' ?bp)"
      by (rule struct_inv_set_frame [OF s' i']) (use fr i(2) in simp_all)
    moreover have "disk_inv (set_frame ?f ?fr' ?bp)" by (rule disk_inv_set_frame [OF s' d' i']) (use d in simp)
    moreover have "log_inv (set_frame ?f ?fr' ?bp)"
      by (rule log_inv_append [OF s(1,3) i(1) w w'(2,3,5)]) simp_all
    moreover have "view (set_frame ?f ?fr' ?bp) = view bp"
      using view_set_frame [OF s' i', of ?fr'] v(1) fr(2) vw by auto
    moreover have "pins (set_frame ?f ?fr' ?bp) = (pins bp)(?i := pins bp ?i - 1)"
      using pins_set_frame [OF s' i', of ?fr'] v(2) i(2) pn by (simp add: nat_diff_distrib)
    moreover have "guard_ok (set_frame ?f ?fr' ?bp) h"
      if "guard_ok bp h" "g_page_id h \<noteq> ?i \<or> 1 < pins bp ?i" for h
      by (rule guard_ok_unpin [OF s']) (use that assms(2) g' pn in simp_all)
    moreover have "room bp \<le> Suc (room (set_frame ?f ?fr' ?bp))"
      using w w'(4) room_lsn(2) [OF assms(3) w] by (simp add: room_def)
    ultimately show ?thesis using rel by (simp add: pool_inv_def cap_def)
  qed
qed

section \<open>The pool is a page store\<close>

lemma has_victim_card:
  "pool_inv {} bp \<Longrightarrow> card {j. 0 < pins bp j} < cap bp \<Longrightarrow> has_victim bp"
  by (rule has_victim) (simp_all add: pool_inv_def cap_def)

lemma FetchPage_ok:
  assumes "pool_inv {} bp" "view bp i = Some c" "card {j. 0 < pins bp j} < cap bp"
  shows "\<exists>g bp'. FetchPage i bp = (Inr (Some g), bp') \<and> pool_inv {} bp' \<and> g_page_id g = i \<and> guard_ok bp' g
        \<and> view bp' = view bp \<and> pins bp' = (pins bp)(i := Suc (pins bp i)) \<and> cap bp' = cap bp \<and> room bp' = room bp
        \<and> (\<forall>h. guard_ok bp h \<longrightarrow> guard_ok bp' h)"
proof (cases "pt bp i")
  case None
  then show ?thesis using FetchPage_miss [OF assms(1) _ assms(2) has_victim_card [OF assms(1,3)]] by blast
next
  case (Some f)
  then show ?thesis using FetchPage_cached [OF assms(1) Some] by (metis PageGuard.select_convs(1))
qed

lemma view_content_pool:
  assumes "pool_inv {} bp" "view bp i = Some c"
  shows "wf_page c \<and> content c = c"
proof -
  have s: "struct_inv {} bp" using assms(1) by (simp add: pool_inv_def)
  show ?thesis
  proof (cases "pt bp i")
    case None
    then show ?thesis using assms(2) page_at_wf by (auto simp: view_def)
  next
    case (Some f)
    then show ?thesis using assms(2) frame_wf [OF s pt_bound [OF s Some]] by (auto simp: view_def)
  qed
qed

interpretation bp: page_store pool_ops "pool_inv {}" view pins guard_ok cap room
proof (unfold_locales, goal_cases)
  case (1 s i c)
  then show ?case by (rule view_content_pool)
next
  case (2 s i c)
  then show ?case using view_below_next [of s i] by (simp add: pool_inv_def DiskPageCount_def NumPages_def word_less_nat_alt)
next
  case (3 s g)
  then show ?case by (simp add: guard_ok_def pins_def)
next
  case (4 s g)
  then have s: "struct_inv {} s" by (simp add: pool_inv_def)
  from 4 have "pt s (g_page_id g) = Some (g_frame g)" by (simp add: guard_ok_def)
  then show ?case using frame_wf [OF s pt_bound [OF s]] by (simp add: guard_page_def view_def)
next
  case (5 s i c)
  then show ?case using FetchPage_ok by simp
next
  case (6 s)
  then show ?case using NewPage_ok [OF 6(1,2) has_victim_card [OF 6(1,3)]]
    unfolding pool_ops_sel DiskPageCount_def NumPages_def by blast
next
  case (7 s g p)
  then show ?case using put_dirty_ok by simp
next
  case (8 s g)
  then show ?case using Release_ok by simp
qed

end
