(* ===== verification/Durability.thy ===== *)
theory Durability
  imports Pool_Contract
begin

text \<open>
  What the storage layer promises across a crash: the page contents a client saw once no guard
  is open are what the log and the data file give back after a restart, whatever the crash left
  in the data file at the pages the log covers.
\<close>

section \<open>A restart\<close>

lemma dm_ok_put_page [simp]: "dm_ok (put_page ip d) = dm_ok d"
  by (simp add: put_page_def dm_ok_def file_ok_def)

lemma aligned_fold_put_page:
  assumes "aligned d" "\<forall>(i, p) \<in> set ps. wf_page p"
  shows "aligned (fold put_page ps d)"
  using assms
proof (induction ps arbitrary: d)
  case (Cons ip ps)
  have len: "length (seal (snd ip)) = PAGE_SIZE" "seal (snd ip) \<noteq> []"
    using Cons.prems(2) wf_seal wf_page_not_Nil by (auto simp: case_prod_beta wf_page_def [symmetric])
  moreover have "PAGE_SIZE dvd page_offset (fst ip) + PAGE_SIZE" by (simp add: page_offset_def)
  ultimately have "aligned (put_page ip d)"
    using Cons.prems(1) by (simp add: put_page_def aligned_def f_size_def max_def)
  then show ?case using Cons by simp
qed simp

lemma f_size_fold_put_page:
  assumes "\<forall>(i, p) \<in> set ps. wf_page p \<and> page_offset i + PAGE_SIZE \<le> b" "f_size (dm_file d) \<le> b"
  shows "f_size (dm_file (fold put_page ps d)) \<le> b"
  using assms
proof (induction ps arbitrary: d)
  case (Cons ip ps)
  have len: "length (seal (snd ip)) = PAGE_SIZE" "seal (snd ip) \<noteq> []"
    using Cons.prems(1) wf_seal wf_page_not_Nil by (auto simp: case_prod_beta wf_page_def [symmetric])
  then have "f_size (dm_file (put_page ip d)) \<le> b"
    using Cons.prems by (auto simp: put_page_def f_size_def)
  then show ?case using Cons by simp
qed simp

text \<open>A pool over an intact file, with no frame in use yet, satisfies the invariant.\<close>

lemma pool_inv_new:
  assumes "dm_ok d" "aligned d" "f_size (dm_file d) \<le> unat (next_page_id d) * PAGE_SIZE"
    and "\<And>w. wl = Some w \<Longrightarrow> wal_inv w \<and> file_ok (wal_file w)
      \<and> (\<forall>i p. last_image (valid_records w) i = Some p \<longrightarrow> map_option content (page_at d i) = Some (content p))"
  shows "pool_inv {} (BufferPool_new n d wl)"
proof -
  have "struct_inv {} (BufferPool_new n d wl)"
    by (auto simp: struct_inv_def BufferPool_new_def fresh_frame_def)
  moreover have "disk_inv (BufferPool_new n d wl)"
    using assms by (simp add: disk_inv_def BufferPool_new_def Let_def)
  moreover have "log_inv (BufferPool_new n d wl)"
  proof (cases wl)
    case (Some w)
    then show ?thesis using assms(4) [OF Some]
      by (auto simp: log_inv_def logged_def view_def BufferPool_new_def)
  qed (simp add: log_inv_def BufferPool_new_def)
  ultimately show ?thesis by (simp add: pool_inv_def)
qed

lemma view_new [simp]: "view (BufferPool_new n d wl) i = map_option content (page_at d i)"
  by (simp add: view_def BufferPool_new_def)

lemma pins_new [simp]: "pins (BufferPool_new n d wl) = (\<lambda>_. 0)"
  by (simp add: pins_def BufferPool_new_def fun_eq_iff)

lemma cap_new [simp]: "cap (BufferPool_new n d wl) = n"
  by (simp add: cap_def BufferPool_new_def)

section \<open>Nothing a client has released is lost\<close>

text \<open>With no guard open, the log and the disk together determine every page.\<close>

lemma view_logged_or_disk:
  assumes "pool_inv {} bp" "wal_manager bp = Some w" "pins bp i = 0"
  shows "view bp i = (case logged bp i of Some c \<Rightarrow> Some c | None \<Rightarrow> map_option content (page_at (disk_manager bp) i))"
proof -
  have s: "struct_inv {} bp" "disk_inv bp" "log_inv bp" using assms(1) by (simp_all add: pool_inv_def)
  have unpinned: "pin_count (frame_at bp f) = 0" if "pt bp i = Some f" for f
    using assms(3) that pin_nonneg [OF s(1) pt_bound [OF s(1) that]] by (simp add: pins_def)
  show ?thesis
  proof (cases "logged bp i")
    case (Some c)
    then show ?thesis using log_inv_logged [OF s(3) Some] unpinned by auto
  next
    case None
    show ?thesis
    proof (cases "pt bp i")
      case None
      then show ?thesis using \<open>logged bp i = None\<close> by (simp add: view_def)
    next
      case (Some f)
      have "view bp i \<noteq> None" using Some by (simp add: view_def)
      then have "\<not> dirty (frame_at bp f)"
        using log_inv_unpinned [OF s(3) assms(2) Some _ unpinned [OF Some]] None by auto
      then have "map_option content (page_at (disk_manager bp) i) = Some (content (fr_page (frame_at bp f)))"
        using s(2) Some unfolding disk_inv_def Let_def by blast
      then show ?thesis using None Some by (auto simp: view_def)
    qed
  qed
qed

lemma restart_restores:
  assumes "pool_inv {} bp" "wal_manager bp = Some w" "\<forall>i. pins bp i = 0"
    and f: "take (next_offset w) (f_bytes f) = take (next_offset w) (f_bytes (wal_file w))"
    and torn: "\<not> record_ok (seg (next_offset w) WAL_RECORD_SIZE (f_bytes f))"
    and d: "dm_ok d" "\<forall>i. logged bp i = None \<longrightarrow> page_at d i = page_at (disk_manager bp) i"
  shows "\<exists>d'. RunRecovery d (WAL_open f) = (Inr (), d') \<and> dm_ok d'
    \<and> (\<forall>i c. view bp i = Some c \<longrightarrow> map_option content (page_at d' i) = Some c)"
proof -
  have wi: "wal_inv w" using assms(1,2) by (simp add: pool_inv_def log_inv_def)
  let ?v = "w\<lparr>wal_file := f\<rparr>" and ?w = "WAL_open f"
  have wi0: "wal_inv ?v" using wi f unfolding wal_inv_def by (elim conjE) simp
  have recs: "valid_records ?w = valid_records w" using WAL_open_torn [OF wi0] torn by simp
  have "wal_inv ?w" using wal_inv_open_torn [OF wi0] torn by simp
  then obtain d' where d': "RunRecovery d ?w = (Inr (), d')" "dm_ok d'"
    "\<And>i p. last_image (valid_records w) i = Some p \<Longrightarrow> page_at d' i = Some (seal p)"
    "\<And>i q. last_image (valid_records w) i = None \<Longrightarrow> page_at d i = Some q \<Longrightarrow> page_at d' i = Some q"
    using RunRecovery_restores [OF d(1)] unfolding recs [symmetric] by blast
  have wf: "wf_page p" if "last_image (valid_records w) i = Some p" for i p
    using that wi last_record_in by (force simp: last_image_def wal_inv_def)
  have "map_option content (page_at d' i) = Some c" if c: "view bp i = Some c" for i c
  proof (cases "last_image (valid_records w) i")
    case (Some p)
    then have "logged bp i = Some (content p)" using assms(2) by (simp add: logged_def)
    then have "c = content p" using c view_logged_or_disk [OF assms(1,2)] assms(3) by simp
    then show ?thesis using d'(3) [OF Some] wf [OF Some] by simp
  next
    case None
    then have n: "logged bp i = None" using assms(2) by (simp add: logged_def)
    then have "map_option content (page_at d i) = Some c"
      using c view_logged_or_disk [OF assms(1,2)] assms(3) d(2) by simp
    then show ?thesis using d'(4) [OF None] by auto
  qed
  then show ?thesis using d' by blast
qed

section \<open>Writing everything back\<close>

text \<open>One page written back and marked clean, when no guard is open.\<close>

lemma pool_inv_write_back:
  fixes bp :: BufferPool and f :: nat
  assumes "pool_inv {} bp" "pt bp i = Some f" "pins bp i = 0"
  defines "p \<equiv> fr_page (frame_at bp f)"
  assumes w: "WritePage (disk_manager bp) i p = (r, p', d')"
  defines "bp' \<equiv> set_frame f ((frame_at bp f)\<lparr>fr_page := p', dirty := False\<rparr>) (bp\<lparr>disk_manager := d'\<rparr>)"
  shows "r = Inr () \<and> pool_inv {} bp' \<and> view bp' = view bp \<and> pins bp' = pins bp"
proof -
  have s: "struct_inv {} bp" "disk_inv bp" "log_inv bp" using assms(1) by (simp_all add: pool_inv_def)
  let ?d = "disk_manager bp" and ?b = "bp\<lparr>disk_manager := d'\<rparr>"
  let ?fr = "(frame_at bp f)\<lparr>fr_page := p', dirty := False\<rparr>"
  have f: "f < length (frames bp)" by (rule pt_bound [OF s(1) assms(2)])
  have wf: "wf_page p" unfolding p_def by (rule frame_wf [OF s(1) f])
  have d: "dm_ok ?d" "aligned ?d" "f_size (dm_file ?d) \<le> unat (next_page_id ?d) * PAGE_SIZE" "i < next_page_id ?d"
    using s(2) assms(2) unfolding disk_inv_def Let_def by blast+
  have w': "r = Inr ()" "p' = seal p" "dm_ok d'" using w disk.write_succeeds [OF d(1) wf, of i] by auto
  have at: "page_at d' j = (if j = i then Some (seal p) else page_at ?d j)" for j
    by (rule page_at_WritePage [OF d(1,2) wf w])
  have pti: "pt ?b i = Some f" using assms(2) by simp
  have sb: "struct_inv {} ?b" using s(1) by (simp add: struct_inv_def)
  have viewi: "view bp i = Some (content p)" using assms(2) by (simp add: view_def p_def)
  have viewb: "view bp' = (view ?b)(i \<mapsto> content p)"
    using view_set_frame [OF sb pti, of ?fr] wf w'(2) by (simp add: bp'_def)
  have view: "view bp' = view bp"
  proof
    fix j show "view bp' j = view bp j"
      unfolding viewb using viewi at by (cases "j = i") (simp_all add: view_def split: option.split)
  qed
  have fr: "frame_at bp' g = (if g = f then ?fr else frame_at bp g)" for g
    using f by (simp add: bp'_def set_frame_def)
  have "struct_inv {} bp'" unfolding bp'_def
    by (rule struct_inv_set_frame [OF sb pti])
      (use pt_id [OF s(1) assms(2)] wf w'(2) pin_nonneg [OF s(1) f] in simp_all)
  moreover have "disk_inv bp'"
  proof -
    have "map_option content (page_at d' j) = Some (content (fr_page (frame_at bp' g)))"
      if j: "pt bp j = Some g" "\<not> dirty (frame_at bp' g)" for j g
    proof (cases "j = i")
      case True
      then show ?thesis using j(1) assms(2) at wf w'(2) by (simp add: fr)
    next
      case False
      then have "g \<noteq> f" using pt_other_frame [OF s(1) assms(2) j(1)] by metis
      then show ?thesis using s(2) j False at unfolding disk_inv_def Let_def fr by simp
    qed
    moreover have "page_table bp' = page_table bp" "disk_manager bp' = d'" by (simp_all add: bp'_def)
    ultimately show ?thesis
      using s(2) w'(3) aligned_WritePage [OF d(1,2) wf w] WritePage_next [OF w] WritePage_size [OF d(1) wf w d(3,4)]
      unfolding disk_inv_def Let_def by metis
  qed
  moreover have "log_inv bp'"
  proof (cases "wal_manager bp")
    case (Some w0)
    have logged: "logged bp' = logged bp" by (rule logged_cong) (simp add: bp'_def)
    have pt': "page_table bp' = page_table bp" by (simp add: bp'_def)
    have unpinned: "pin_count (frame_at bp f) = 0"
      using assms(2,3) pin_nonneg [OF s(1) f] by (simp add: pins_def)
    have "wal_inv w0" "file_ok (wal_file w0)" using s(3) Some by (simp_all add: log_inv_def)
    then show ?thesis
    proof (rule log_invI [of _ w0, rotated])
      fix j g assume j: "pt bp' j = Some g" "dirty (frame_at bp' g)" "pin_count (frame_at bp' g) = 0"
      then show "logged bp' j = view bp' j"
        using log_inv_unpinned [OF s(3) Some, of j g] by (simp add: logged view pt' fr split: if_splits)
    next
      fix j c assume "logged bp' j = Some c"
      then show "(\<exists>f. pt bp' j = Some f \<and> dirty (frame_at bp' f) \<and> 0 < pin_count (frame_at bp' f)) \<or> view bp' j = Some c"
        using log_inv_logged [OF s(3), of j c] unpinned unfolding logged view pt' fr by fastforce
    qed (simp add: Some bp'_def)
  qed (simp add: log_inv_def bp'_def)
  moreover have "pins bp' = pins bp"
    unfolding pins_def bp'_def using f by (intro ext) (simp add: set_frame_def nth_list_update split: option.split)
  ultimately show ?thesis using w' view by (simp add: pool_inv_def)
qed

lemma flush_entries_ok:
  assumes "pool_inv {} bp" "\<And>i. pins bp i = 0" "\<forall>(i, f) \<in> set es. pt bp i = Some f"
  shows "\<exists>bp'. flush_entries es bp = (Inr (), bp') \<and> pool_inv {} bp' \<and> view bp' = view bp \<and> pins bp' = pins bp
    \<and> page_table bp' = page_table bp \<and> (\<forall>f. \<not> dirty (frame_at bp f) \<longrightarrow> \<not> dirty (frame_at bp' f))
    \<and> (\<forall>(i, f) \<in> set es. \<not> dirty (frame_at bp' f))"
  using assms
proof (induction es arbitrary: bp)
  case Nil
  show ?case using Nil(1) by simp
next
  case (Cons e es)
  obtain i f where e: "e = (i, f)" by (cases e)
  then have i: "pt bp i = Some f" using Cons.prems(3) by simp
  show ?case
  proof (cases "dirty (frame_at bp f)")
    case False
    obtain bp' where bp': "flush_entries es bp = (Inr (), bp')" "pool_inv {} bp'" "view bp' = view bp"
      "pins bp' = pins bp" "page_table bp' = page_table bp"
      "\<And>f. \<not> dirty (frame_at bp f) \<Longrightarrow> \<not> dirty (frame_at bp' f)" "\<forall>(i, f) \<in> set es. \<not> dirty (frame_at bp' f)"
      using Cons.IH [OF Cons.prems(1,2)] Cons.prems(3) by auto
    then show ?thesis using False e by (intro exI [of _ bp']) auto
  next
    case True
    obtain r p' d' where w: "WritePage (disk_manager bp) i (fr_page (frame_at bp f)) = (r, p', d')"
      by (metis prod_cases3)
    let ?b = "set_frame f ((frame_at bp f)\<lparr>fr_page := p', dirty := False\<rparr>) (bp\<lparr>disk_manager := d'\<rparr>)"
    have b: "r = Inr ()" "pool_inv {} ?b" "view ?b = view bp" "pins ?b = pins bp"
      using pool_inv_write_back [OF Cons.prems(1) i Cons.prems(2) w] by blast+
    have f: "f < length (frames bp)" using Cons.prems(1) i pt_bound by (auto simp: pool_inv_def)
    have clean: "\<not> dirty (frame_at ?b g)" if "g = f \<or> \<not> dirty (frame_at bp g)" for g
      using that f by (auto simp: set_frame_def nth_list_update)
    have pt': "page_table ?b = page_table bp" by simp
    obtain bp' where bp': "flush_entries es ?b = (Inr (), bp')" "pool_inv {} bp'" "view bp' = view ?b"
      "pins bp' = pins ?b" "page_table bp' = page_table ?b"
      "\<And>f. \<not> dirty (frame_at ?b f) \<Longrightarrow> \<not> dirty (frame_at bp' f)" "\<forall>(i, f) \<in> set es. \<not> dirty (frame_at bp' f)"
      using Cons.IH [OF b(2)] Cons.prems(2,3) b(4) pt' by fastforce
    have "flush_entries (e # es) bp = (Inr (), bp')"
      using True e w b(1) bp'(1) by (simp add: Let_def)
    then show ?thesis using bp' b clean e pt' by (intro exI [of _ bp']) (auto dest: bp'(6) [OF clean])
  qed
qed

lemma FlushAll_ok:
  assumes "pool_inv {} bp" "\<And>i. pins bp i = 0"
  shows "\<exists>bp'. FlushAll bp = (Inr (), bp') \<and> pool_inv {} bp' \<and> view bp' = view bp \<and> pins bp' = pins bp
    \<and> (\<forall>i. map_option content (page_at (disk_manager bp') i) = view bp i)"
proof -
  have "distinct (map fst (page_table bp))" using assms(1) unfolding pool_inv_def struct_inv_def by blast
  then have es: "\<forall>(i, f) \<in> set (page_table bp). pt bp i = Some f" by auto
  obtain bp' where bp': "FlushAll bp = (Inr (), bp')" "pool_inv {} bp'" "view bp' = view bp" "pins bp' = pins bp"
    "page_table bp' = page_table bp" "\<forall>(i, f) \<in> set (page_table bp). \<not> dirty (frame_at bp' f)"
    using flush_entries_ok [OF assms es] unfolding FlushAll_def by blast
  have "map_option content (page_at (disk_manager bp') i) = view bp' i" for i
  proof (cases "pt bp' i")
    case None
    then show ?thesis by (simp add: view_def)
  next
    case (Some f)
    then have "\<not> dirty (frame_at bp' f)" using bp'(5,6) map_of_SomeD by fastforce
    then have "map_option content (page_at (disk_manager bp') i) = Some (content (fr_page (frame_at bp' f)))"
      using bp'(2) Some unfolding pool_inv_def disk_inv_def Let_def by blast
    also have "\<dots> = view bp' i" using Some by (simp add: view_def)
    finally show ?thesis .
  qed
  then show ?thesis using bp' by auto
qed

end
