(* ===== verification/Storage_Properties.thy ===== *)
theory Storage_Properties
  imports Durability
begin

text \<open>
  What the storage layer guarantees: pages and log records that read back as written, damage that
  is noticed, recovery, and the buffer pool. Each property is followed by an instance of it.
\<close>

section \<open>Pages on disk\<close>

lemma checksum_detects_byte:
  assumes "wf_page p" "hdr_checksum p = ComputeChecksum p" "k < PAGE_SIZE" "b \<noteq> p ! k"
  shows "hdr_checksum (p[k := b]) \<noteq> ComputeChecksum (p[k := b])"
proof -
  have wf: "wf_page (p[k := b])" and len: "length p = 4096" "k < 4096"
    using assms(1,3) by (simp_all add: wf_page_def PAGE_SIZE_def)
  consider "13 \<le> k" "k < 17" | "k < 13" | "17 \<le> k" by linarith
  then show ?thesis
  proof cases
    case 1
    then have "take 13 (p[k := b]) = take 13 p" "drop 17 (p[k := b]) = drop 17 p" by simp_all
    then have "ComputeChecksum (p[k := b]) = ComputeChecksum p"
      using wf assms(1) by (simp add: ComputeChecksum_eq_fnv)
    moreover have "seg 13 4 (p[k := b]) \<noteq> seg 13 4 p"
      using 1 len assms(4) seg_update_changed [of 13 k 4 p b] by (simp add: seg_update)
    then have "hdr_checksum (p[k := b]) \<noteq> hdr_checksum p"
      using len by (simp add: hdr_checksum_def get_field_eq_iff word_le_get_field)
    ultimately show ?thesis using assms(2) by simp
  next
    case 2
    let ?l = "take 13 p @ drop 17 p"
    have "take 13 (p[k := b]) @ drop 17 (p[k := b]) = ?l[k := b]"
      using 2 len by (simp add: take_update_swap list_update_append)
    moreover have "foldl fnv_step FNV_OFFSET (?l[k := b]) \<noteq> foldl fnv_step FNV_OFFSET ?l"
      by (rule fnv.update_detected) (use 2 len assms(4) in \<open>auto simp: nth_append\<close>)
    ultimately have "ComputeChecksum (p[k := b]) \<noteq> ComputeChecksum p"
      using wf assms(1) by (simp add: ComputeChecksum_eq_fnv)
    then show ?thesis using 2 len assms by (simp add: PAGE_SIZE_def)
  next
    case 3
    let ?l = "take 13 p @ drop 17 p"
    have "take 13 (p[k := b]) @ drop 17 (p[k := b]) = ?l[k - 4 := b]"
      using 3 len by (auto simp: list_update_append drop_update_swap)
    moreover have "foldl fnv_step FNV_OFFSET (?l[k - 4 := b]) \<noteq> foldl fnv_step FNV_OFFSET ?l"
      by (rule fnv.update_detected) (use 3 len assms(4) in \<open>auto simp: nth_append\<close>)
    ultimately have "ComputeChecksum (p[k := b]) \<noteq> ComputeChecksum p"
      using wf assms(1) by (simp add: ComputeChecksum_eq_fnv)
    then show ?thesis using 3 len assms by (simp add: PAGE_SIZE_def)
  qed
qed

text \<open>The disk manager of an empty data file.\<close>
definition fresh_disk :: DiskManager where
  "fresh_disk = DiskManager_open empty_file"

lemma fresh_disk_ok [simp]: "dm_ok fresh_disk" "aligned fresh_disk" "next_page_id fresh_disk = 0"
  "f_bytes (dm_file fresh_disk) = []"
  by (simp_all add: fresh_disk_def DiskManager_open_def empty_file_def dm_ok_def file_ok_def aligned_def f_size_def)

text \<open>
  C25. On a data file of whole pages whose writes succeed, a page written with \<open>WritePage\<close> is what
  \<open>ReadPage\<close> returns at that page id, with its checksum stamped; what can be read at every other
  page id, including pages that could not be read before, is unchanged.
\<close>
theorem ReadPage_WritePage:
  assumes "dm_ok d" "aligned d" "wf_page p" "wf_page buf"
  shows "\<exists>d'. WritePage d i p = (Inr (), set_checksum (ComputeChecksum p) p, d')
    \<and> ReadPage d' i buf = (Inr (), set_checksum (ComputeChecksum p) p)
    \<and> (\<forall>j q. j \<noteq> i \<longrightarrow> (ReadPage d' j buf = (Inr (), q)) = (ReadPage d j buf = (Inr (), q)))
    \<and> dm_ok d' \<and> aligned d'"
proof -
  obtain d' where d': "WritePage d i p = (Inr (), seal p, d')" "dm_ok d'"
    using disk.write_succeeds [OF assms(1,3)] by blast
  show ?thesis
    using d' page_at_WritePage [OF assms(1-3) d'(1)] aligned_WritePage [OF assms(1-3) d'(1)]
    by (simp add: ReadPage_Inr [OF assms(4)] seal_def [symmetric])
qed

theorem ReadPage_WritePage_witness:
  "\<exists>d'. WritePage fresh_disk 3 zero_page = (Inr (), set_checksum (ComputeChecksum zero_page) zero_page, d')
    \<and> ReadPage d' 3 zero_page = (Inr (), set_checksum (ComputeChecksum zero_page) zero_page)"
  using ReadPage_WritePage [of fresh_disk zero_page zero_page 3] by auto

text \<open>
  C26. If one byte of a page on disk is changed to any other value, wherever it is, \<open>ReadPage\<close>
  of that page reports a checksum mismatch.
\<close>
theorem ReadPage_detects_corruption:
  assumes "ReadPage d i buf = (Inr (), p)" "wf_page buf" "k < PAGE_SIZE" "b \<noteq> p ! k"
  shows "fst (ReadPage (d\<lparr>dm_file := (dm_file d)\<lparr>f_bytes := (f_bytes (dm_file d))[page_offset i + k := b]\<rparr>\<rparr>) i buf)
    = Inl (RuntimeError ''DiskManager: checksum mismatch'')"
proof -
  have p: "page_at d i = Some p" using assms(1,2) ReadPage_Inr by blast
  then have seg: "seg (page_offset i) PAGE_SIZE (f_bytes (dm_file d)) = p"
    and q: "wf_page p" "hdr_checksum p = ComputeChecksum p" by (auto simp: page_at_iff)
  have fits: "page_offset i + PAGE_SIZE \<le> length (f_bytes (dm_file d))"
    using page_at_bound [OF p] by (simp add: f_size_def)
  have "seg (page_offset i) PAGE_SIZE ((f_bytes (dm_file d))[page_offset i + k := b]) = p[k := b]"
    using fits assms(3) seg by (simp add: seg_update)
  moreover have "patch 0 (p[k := b]) buf = p[k := b]"
    using assms(2) q(1) by (simp add: patch_all wf_page_def)
  ultimately show ?thesis
    using checksum_detects_byte [OF q assms(3,4)] q(1)
    by (simp add: ReadPage_def Let_def pread_def wf_page_def)
qed

lemma readable_page_exists: "\<exists>d p. ReadPage d 0 zero_page = (Inr (), p) \<and> wf_page p"
  using disk.write_succeeds [of fresh_disk zero_page 0] disk.read_written [of fresh_disk zero_page 0]
  by (force simp: ReadPage_Inr)

theorem ReadPage_detects_corruption_witness:
  "\<exists>d p. ReadPage d 0 zero_page = (Inr (), p)
    \<and> fst (ReadPage (d\<lparr>dm_file := (dm_file d)\<lparr>f_bytes := (f_bytes (dm_file d))[page_offset 0 + 100 := p ! 100 + 1]\<rparr>\<rparr>) 0 zero_page)
      = Inl (RuntimeError ''DiskManager: checksum mismatch'')"
proof -
  obtain d p where p: "ReadPage d 0 zero_page = (Inr (), p)" using readable_page_exists by blast
  have "p ! 100 + 1 \<noteq> p ! 100" by simp
  with p ReadPage_detects_corruption [OF p wf_zero_page, of 100 "p ! 100 + 1"] show ?thesis
    by (intro exI [of _ d] exI [of _ p]) (simp add: PAGE_SIZE_def)
qed

section \<open>The log\<close>

text \<open>A run of appends, as the buffer pool makes them.\<close>
definition append_all :: "(page_id_t \<times> page) list \<Rightarrow> WALManager \<Rightarrow> WALManager" where
  "append_all ops w = foldl (\<lambda>w (i, p). snd (snd (AppendRecord w i p))) w ops"

text \<open>The records those appends make, numbered from \<open>n\<close>.\<close>
definition numbered :: "nat \<Rightarrow> (page_id_t \<times> page) list \<Rightarrow> RecoveredPage list" where
  "numbered n ops = map (\<lambda>(k, i, p). \<lparr>rp_page_id = i, rp_lsn = of_nat k, rp_page = set_lsn (ucast (of_nat k :: u64)) p\<rparr>)
     (zip [n..<n + length ops] ops)"

lemma numbered_Nil [simp]: "numbered n [] = []"
  by (simp add: numbered_def)

lemma numbered_Cons [simp]:
  "numbered n ((i, p) # ops) =
     \<lparr>rp_page_id = i, rp_lsn = of_nat n, rp_page = set_lsn (ucast (of_nat n :: u64)) p\<rparr> # numbered (Suc n) ops"
  by (simp add: numbered_def upt_conv_Cons del: upt_Suc)

text \<open>A log whose file ends where its last record does.\<close>
definition tight :: "WALManager \<Rightarrow> bool" where
  "tight w \<longleftrightarrow> wal_inv w \<and> file_ok (wal_file w) \<and> f_size (wal_file w) = next_offset w"

lemma AppendRecord_tight:
  assumes "tight w" "wf_page p" "next_lsn w < - 1"
  shows "\<exists>w'. AppendRecord w i p = (Inr (next_lsn w), set_lsn (ucast (next_lsn w)) p, w') \<and> tight w'
    \<and> next_lsn w' = next_lsn w + 1 \<and> valid_records w' = valid_records w @ [appended w i p]"
proof -
  have w: "wal_inv w" "file_ok (wal_file w)" "f_size (wal_file w) = next_offset w"
    using assms(1) by (simp_all add: tight_def)
  obtain w' where w': "AppendRecord w i p = (Inr (next_lsn w), set_lsn (ucast (next_lsn w)) p, w')"
    "wal_inv w'" "file_ok (wal_file w')" "next_lsn w' = next_lsn w + 1"
    "valid_records w' = valid_records w @ [appended w i p]"
    using AppendRecord_ok [OF w(1,2) assms(2,3)] by blast
  have "length (encode_record (appended w i p)) = WAL_RECORD_SIZE" using assms(2) by simp
  then have "f_size (wal_file w') = next_offset w'"
    using w(2,3) w'(1) by (auto simp: AppendRecord_eq [OF assms(2)] f_size_def file_ok_def writable_def split: if_splits)
  then show ?thesis using w' by (simp add: tight_def)
qed

lemma append_all_tight:
  assumes "tight w" "\<forall>(i, p) \<in> set ops. wf_page p" "next_lsn w = of_nat n" "n + length ops < 2 ^ 64"
  shows "tight (append_all ops w) \<and> valid_records (append_all ops w) = valid_records w @ numbered n ops"
  using assms
proof (induction ops arbitrary: w n)
  case Nil
  then show ?case by (simp add: append_all_def)
next
  case (Cons ip ops)
  obtain i p where ip: "ip = (i, p)" by (cases ip)
  have "unat (next_lsn w) = n" using Cons.prems(3,4) by (simp add: unat_of_nat)
  then have "next_lsn w < - 1"
    using Cons.prems(4) by (simp add: word_less_nat_alt unsigned_minus_1_eq_mask mask_eq_exp_minus_1)
  then obtain w' where w': "AppendRecord w i p = (Inr (next_lsn w), set_lsn (ucast (next_lsn w)) p, w')" "tight w'"
    "next_lsn w' = next_lsn w + 1" "valid_records w' = valid_records w @ [appended w i p]"
    using AppendRecord_tight [OF Cons.prems(1)] Cons.prems(2) ip by (metis case_prodD list.set_intros(1))
  have "next_lsn w' = of_nat (Suc n)" using w'(3) Cons.prems(3) by simp
  with Cons.IH [OF w'(2), of "Suc n"] Cons.prems(2,4)
  have "tight (append_all ops w') \<and> valid_records (append_all ops w') = valid_records w' @ numbered (Suc n) ops" by simp
  moreover have "append_all (ip # ops) w = append_all ops w'" using ip w'(1) by (simp add: append_all_def)
  ultimately show ?case using ip w'(4) Cons.prems(3) by (simp add: appended_def)
qed

lemma tight_empty [simp]: "tight (WAL_open empty_file)" "next_lsn (WAL_open empty_file) = 0"
  "valid_records (WAL_open empty_file) = []"
  using wal_inv_empty by (simp_all add: tight_def WAL_open_empty) (simp add: empty_file_def file_ok_def f_size_def)

text \<open>
  C22. Appending any sequence of page images to a fresh log, on a file whose writes and syncs
  succeed, and opening the file again yields exactly those images in order, under the LSNs
  \<open>0, 1, 2, ...\<close>, each page stamped with its LSN.
\<close>
theorem wal_append_reopen:
  assumes "\<forall>(i, p) \<in> set ops. wf_page p" "length ops < 2 ^ 64"
  shows "valid_records (WAL_open (wal_file (append_all ops (WAL_open empty_file)))) = numbered 0 ops"
proof -
  let ?w = "append_all ops (WAL_open empty_file)"
  have w: "tight ?w" "valid_records ?w = numbered 0 ops"
    using append_all_tight [of "WAL_open empty_file" ops 0] assms by simp_all
  then have inv: "wal_inv ?w" and "seg (next_offset ?w) WAL_RECORD_SIZE (f_bytes (wal_file ?w)) = []"
    by (auto simp: tight_def f_size_def seg_def)
  moreover have "\<not> record_ok []" by (simp add: record_ok_def layout_simps)
  ultimately show ?thesis using WAL_open_torn [OF inv] w(2) by simp
qed

theorem wal_append_reopen_witness:
  "valid_records (WAL_open (wal_file (append_all [(5, zero_page), (5, set_page_id 5 zero_page)] (WAL_open empty_file))))
     = numbered 0 [(5, zero_page), (5, set_page_id 5 zero_page)]"
  using wal_append_reopen [of "[(5, zero_page), (5, set_page_id 5 zero_page)]"] by simp

lemma wal_prefix_bytes:
  assumes "wal_inv w" "m \<le> length (valid_records w)"
  shows "take (m * WAL_RECORD_SIZE) (f_bytes (wal_file w)) = concat (map encode_record (take m (valid_records w)))"
    "m < length (valid_records w) \<Longrightarrow>
       seg (m * WAL_RECORD_SIZE) WAL_RECORD_SIZE (f_bytes (wal_file w)) = encode_record (valid_records w ! m)"
proof -
  let ?rs = "valid_records w"
  have inv: "take (length ?rs * WAL_RECORD_SIZE) (f_bytes (wal_file w)) = concat (map encode_record ?rs)"
    "\<forall>r \<in> set ?rs. wf_page (rp_page r)"
    using assms(1) by (auto simp: wal_inv_def)
  have split: "concat (map encode_record ?rs) =
      concat (map encode_record (take m ?rs)) @ concat (map encode_record (drop m ?rs))"
    by (metis append_take_drop_id concat_append map_append)
  have wf: "\<forall>r \<in> set (take m ?rs). wf_page (rp_page r)" using inv(2) by (meson in_set_takeD)
  have len: "length (concat (map encode_record (take m ?rs))) = m * WAL_RECORD_SIZE"
    using length_encoded [OF wf] assms(2) by simp
  have le: "m * WAL_RECORD_SIZE \<le> length ?rs * WAL_RECORD_SIZE" using assms(2) by simp
  have "take (m * WAL_RECORD_SIZE) (f_bytes (wal_file w)) = take (m * WAL_RECORD_SIZE) (concat (map encode_record ?rs))"
    using inv(1) le by (metis min.absorb1 take_take)
  then show "take (m * WAL_RECORD_SIZE) (f_bytes (wal_file w)) = concat (map encode_record (take m ?rs))"
    using split len by simp
  assume m: "m < length ?rs"
  then have "Suc m * WAL_RECORD_SIZE \<le> length ?rs * WAL_RECORD_SIZE" by (simp only: Suc_leI mult_le_mono1)
  then have "seg (m * WAL_RECORD_SIZE) WAL_RECORD_SIZE (f_bytes (wal_file w)) =
      seg (m * WAL_RECORD_SIZE) WAL_RECORD_SIZE (concat (map encode_record ?rs))"
    using inv(1) by (simp add: seg_def take_drop flip: inv(1))
  also have "\<dots> = take WAL_RECORD_SIZE (concat (map encode_record (drop m ?rs)))"
    using split len by (simp add: seg_def)
  also have "\<dots> = encode_record (?rs ! m)"
    using m inv(2) by (simp add: Cons_nth_drop_Suc [symmetric] del: append_take_drop_id)
  finally show "seg (m * WAL_RECORD_SIZE) WAL_RECORD_SIZE (f_bytes (wal_file w)) = encode_record (?rs ! m)" .
qed

lemma WAL_open_damaged:
  assumes "wal_inv w" "m \<le> length (valid_records w)"
    and "take (m * WAL_RECORD_SIZE) (f_bytes f) = take (m * WAL_RECORD_SIZE) (f_bytes (wal_file w))"
    and "\<not> record_ok (seg (m * WAL_RECORD_SIZE) WAL_RECORD_SIZE (f_bytes f))"
  shows "valid_records (WAL_open f) = take m (valid_records w)" "next_offset (WAL_open f) = m * WAL_RECORD_SIZE"
    "f_bytes (wal_file (WAL_open f)) = take (m * WAL_RECORD_SIZE) (f_bytes f)"
proof -
  have wf: "\<forall>r \<in> set (take m (valid_records w)). wf_page (rp_page r)"
    using assms(1) by (meson in_set_takeD wal_inv_def)
  have "f_bytes f = concat (map encode_record (take m (valid_records w))) @ drop (m * WAL_RECORD_SIZE) (f_bytes f)"
    using assms(3) wal_prefix_bytes(1) [OF assms(1,2)] by (metis append_take_drop_id)
  from wal_scan_intact_prefix [OF this wf] assms(2,4)
  have "wal_scan f 0 0 [] = (m * WAL_RECORD_SIZE, lsn_after 0 (take m (valid_records w)), take m (valid_records w))"
    by (simp add: seg_def min_absorb2)
  then show "valid_records (WAL_open f) = take m (valid_records w)" "next_offset (WAL_open f) = m * WAL_RECORD_SIZE"
    "f_bytes (wal_file (WAL_open f)) = take (m * WAL_RECORD_SIZE) (f_bytes f)"
    by (simp_all add: WAL_open_def ftruncate_def f_size_def)
qed

text \<open>
  C23. Whatever byte a crash cuts the log off at, opening it yields exactly the records that lie
  completely before the cut, and truncates the file to them.
\<close>
theorem wal_torn_tail:
  assumes "wal_inv w" "n \<le> next_offset w"
  shows "valid_records (WAL_open (ftruncate (wal_file w) n)) = take (n div WAL_RECORD_SIZE) (valid_records w)
    \<and> f_bytes (wal_file (WAL_open (ftruncate (wal_file w) n))) =
        take (n div WAL_RECORD_SIZE * WAL_RECORD_SIZE) (f_bytes (wal_file w))"
proof (cases "n = next_offset w")
  case True
  let ?m = "length (valid_records w)"
  have off: "next_offset w = ?m * WAL_RECORD_SIZE" using assms(1) by (simp add: wal_inv_def)
  have "\<not> record_ok (seg (?m * WAL_RECORD_SIZE) WAL_RECORD_SIZE (f_bytes (ftruncate (wal_file w) n)))"
    using True off by (simp add: ftruncate_def seg_def record_ok_def layout_simps)
  note d = WAL_open_damaged [OF assms(1) order_refl _ this]
  have "take (?m * WAL_RECORD_SIZE) (f_bytes (ftruncate (wal_file w) n)) = take (?m * WAL_RECORD_SIZE) (f_bytes (wal_file w))"
    using True off by (simp add: ftruncate_def)
  with d True off show ?thesis by (simp add: WAL_RECORD_SIZE_def WALRecordHeader_size_def)
next
  case False
  let ?m = "n div WAL_RECORD_SIZE"
  have pos: "0 < WAL_RECORD_SIZE" by (simp add: layout_simps)
  have off: "next_offset w = length (valid_records w) * WAL_RECORD_SIZE" using assms(1) by (simp add: wal_inv_def)
  then have m: "?m < length (valid_records w)" using False assms(2) pos by (simp add: less_mult_imp_div_less)
  have le: "?m * WAL_RECORD_SIZE \<le> n" "n < ?m * WAL_RECORD_SIZE + WAL_RECORD_SIZE"
    using pos by (simp_all add: div_times_less_eq_dividend) (metis add.commute dividend_less_div_times)
  have "length (seg (?m * WAL_RECORD_SIZE) WAL_RECORD_SIZE (f_bytes (ftruncate (wal_file w) n))) < WAL_RECORD_SIZE"
    using le pos by (auto simp: ftruncate_def seg_def)
  then have "\<not> record_ok (seg (?m * WAL_RECORD_SIZE) WAL_RECORD_SIZE (f_bytes (ftruncate (wal_file w) n)))"
    by (auto simp: record_ok_def)
  note d = WAL_open_damaged [OF assms(1) less_imp_le [OF m] _ this]
  have "take (?m * WAL_RECORD_SIZE) (f_bytes (ftruncate (wal_file w) n)) = take (?m * WAL_RECORD_SIZE) (f_bytes (wal_file w))"
    using le by (simp add: ftruncate_def min_absorb1)
  with d show ?thesis by simp
qed

text \<open>A log with two records, for the instances below.\<close>
definition two_record_log :: WALManager where
  "two_record_log = append_all [(5, zero_page), (6, zero_page)] (WAL_open empty_file)"

lemma two_record_log [simp]: "wal_inv two_record_log" "file_ok (wal_file two_record_log)"
  "valid_records two_record_log = numbered 0 [(5, zero_page), (6, zero_page)]" "next_offset two_record_log = 2 * WAL_RECORD_SIZE"
proof -
  have t: "tight two_record_log" and r: "valid_records two_record_log = numbered 0 [(5, zero_page), (6, zero_page)]"
    using append_all_tight [of "WAL_open empty_file" "[(5, zero_page), (6, zero_page)]" 0]
    by (simp_all add: two_record_log_def)
  from t show inv: "wal_inv two_record_log" and "file_ok (wal_file two_record_log)" by (simp_all add: tight_def)
  from inv r show "next_offset two_record_log = 2 * WAL_RECORD_SIZE" by (simp add: wal_inv_def)
qed (simp add: append_all_tight [of "WAL_open empty_file" _ 0] two_record_log_def)

theorem wal_torn_tail_witness:
  "length (valid_records (WAL_open (ftruncate (wal_file two_record_log) (2 * WAL_RECORD_SIZE - 1)))) = 1"
  using wal_torn_tail [of two_record_log "2 * WAL_RECORD_SIZE - 1"] by (simp add: layout_simps)

text \<open>
  C24. If one byte of the log is changed to any other value, opening it yields exactly the records
  before the one that byte belongs to: the damaged record and everything after it is dropped, and
  nothing before it is.
\<close>
theorem wal_detects_corruption:
  assumes "wal_inv w" "k < next_offset w" "b \<noteq> f_bytes (wal_file w) ! k"
  shows "valid_records (WAL_open ((wal_file w)\<lparr>f_bytes := (f_bytes (wal_file w))[k := b]\<rparr>)) =
    take (k div WAL_RECORD_SIZE) (valid_records w)"
proof -
  let ?m = "k div WAL_RECORD_SIZE" and ?S = WAL_RECORD_SIZE and ?bs = "f_bytes (wal_file w)"
  have pos: "0 < ?S" by (simp add: layout_simps)
  have off: "next_offset w = length (valid_records w) * ?S" using assms(1) by (simp add: wal_inv_def)
  then have m: "?m < length (valid_records w)" using assms(2) by (simp add: less_mult_imp_div_less)
  have fits: "next_offset w \<le> length ?bs" by (rule wal_inv_fits [OF assms(1)])
  have k: "?m * ?S \<le> k" "k < ?m * ?S + ?S"
    using pos by (simp_all add: div_times_less_eq_dividend) (metis add.commute dividend_less_div_times)
  then have j: "k - ?m * ?S < ?S" by linarith
  have slot: "seg (?m * ?S) ?S ?bs = encode_record (valid_records w ! ?m)"
    by (rule wal_prefix_bytes(2) [OF assms(1) less_imp_le [OF m] m])
  have end_le: "?m * ?S + ?S \<le> length ?bs"
    using m off fits mult_le_mono1 [OF Suc_leI [OF m], of ?S] by simp
  have "wf_page (rp_page (valid_records w ! ?m))" using assms(1) m by (simp add: wal_inv_def)
  then have ok: "record_ok (seg (?m * ?S) ?S ?bs)" by (simp add: slot)
  have "seg (?m * ?S) ?S (?bs[k := b]) = (seg (?m * ?S) ?S ?bs)[k - ?m * ?S := b]"
    using k end_le by (simp add: seg_update)
  moreover have "b \<noteq> seg (?m * ?S) ?S ?bs ! (k - ?m * ?S)"
    using nth_seg [OF end_le j] k(1) assms(3) by simp
  ultimately have "\<not> record_ok (seg (?m * ?S) ?S (?bs[k := b]))"
    using record_ok_update [OF ok j, of b] by simp
  then show ?thesis
    using WAL_open_damaged(1) [OF assms(1) less_imp_le [OF m], of "(wal_file w)\<lparr>f_bytes := ?bs[k := b]\<rparr>"] k(1) by simp
qed

theorem wal_detects_corruption_witness:
  "length (valid_records (WAL_open ((wal_file two_record_log)\<lparr>f_bytes := (f_bytes (wal_file two_record_log))
     [WAL_RECORD_SIZE + 7 := f_bytes (wal_file two_record_log) ! (WAL_RECORD_SIZE + 7) + 1]\<rparr>))) = 1"
  using wal_detects_corruption [of two_record_log "WAL_RECORD_SIZE + 7"
      "f_bytes (wal_file two_record_log) ! (WAL_RECORD_SIZE + 7) + 1"]
  by (simp add: layout_simps)

section \<open>Recovery\<close>

text \<open>
  C21. Whatever the data file holds, recovery on files that take writes succeeds, and afterwards
  \<open>ReadPage\<close> returns for every page in the log its last logged image (checksummed), and for every
  page not in the log what it returned before.
\<close>
theorem recovery_restores_logged_pages:
  assumes "dm_ok d" "wal_inv w" "wf_page buf"
  shows "\<exists>d'. RunRecovery d w = (Inr (), d')
    \<and> (\<forall>i p. last_image (valid_records w) i = Some p \<longrightarrow>
         ReadPage d' i buf = (Inr (), set_checksum (ComputeChecksum p) p))
    \<and> (\<forall>i q. last_image (valid_records w) i = None \<longrightarrow> ReadPage d i buf = (Inr (), q) \<longrightarrow>
         ReadPage d' i buf = (Inr (), q))"
  using RunRecovery_restores [OF assms(1,2)] unfolding ReadPage_Inr [OF assms(3)] seal_def by blast

theorem recovery_restores_logged_pages_witness:
  "\<exists>d' p. RunRecovery fresh_disk two_record_log = (Inr (), d')
    \<and> last_image (valid_records two_record_log) 6 = Some p
    \<and> ReadPage d' 6 zero_page = (Inr (), set_checksum (ComputeChecksum p) p)"
  using recovery_restores_logged_pages [of fresh_disk two_record_log zero_page]
  by (auto simp: last_image_def last_record_def)

text \<open>
  C34. The iteration order of the \<open>unordered_map\<close> that recovery collects the newest images in does
  not matter: writing them in any order has the same result, file contents included.
\<close>
theorem recovery_order_irrelevant:
  assumes "dm_ok d" "wal_inv w"
    and "mset order = mset (map (\<lambda>(i, r). (i, rp_page r)) (latest_records (valid_records w)))"
  shows "write_pages WritePage order d =
    write_pages WritePage (map (\<lambda>(i, r). (i, rp_page r)) (latest_records (valid_records w))) d"
proof -
  let ?ps = "map (\<lambda>(i, r). (i, rp_page r)) (latest_records (valid_records w))"
  have rs: "sorted_wrt (<) (map rp_lsn (valid_records w))" "\<forall>r \<in> set (valid_records w). wf_page (rp_page r)"
    using assms(2) by (simp_all add: wal_inv_def)
  have fsts: "map fst ?ps = map fst (latest_records (valid_records w))" by auto
  have dist: "distinct (map fst ?ps)" unfolding fsts using latest_records_last [OF rs(1)] by blast
  have "\<forall>(i, p) \<in> set ?ps. wf_page p" using rs(2) latest_records_mem [OF rs(1)] last_record_in by fastforce
  then show ?thesis using write_pages_order_irrelevant [OF assms(1) _ dist assms(3) [symmetric]] by simp
qed

theorem recovery_order_irrelevant_witness:
  "write_pages WritePage (rev (map (\<lambda>(i, r). (i, rp_page r)) (latest_records (valid_records two_record_log)))) fresh_disk =
    write_pages WritePage (map (\<lambda>(i, r). (i, rp_page r)) (latest_records (valid_records two_record_log))) fresh_disk"
  by (rule recovery_order_irrelevant) simp_all

section \<open>The buffer pool\<close>

definition fresh_pool :: "nat \<Rightarrow> BufferPool" where
  "fresh_pool n = BufferPool_new n fresh_disk (Some (WAL_open empty_file))"

lemma fresh_pool [simp]: "pool_inv {} (fresh_pool n)" "pins (fresh_pool n) i = 0" "cap (fresh_pool n) = n"
  "room (fresh_pool n) = 2 ^ 32 - 1" "next_page_id (disk_manager (fresh_pool n)) = 0"
  "wal_manager (fresh_pool n) = Some (WAL_open empty_file)" "length (frames (fresh_pool n)) = n"
proof -
  show "pool_inv {} (fresh_pool n)" unfolding fresh_pool_def
  proof (rule pool_inv_new)
    fix w assume "Some (WAL_open empty_file) = Some w"
    then show "wal_inv w \<and> file_ok (wal_file w) \<and>
        (\<forall>i p. last_image (valid_records w) i = Some p \<longrightarrow> map_option content (page_at fresh_disk i) = Some (content p))"
      using tight_empty by (auto simp: tight_def last_image_def)
  qed (simp_all add: f_size_def)
  show "room (fresh_pool n) = 2 ^ 32 - 1" by (simp add: fresh_pool_def BufferPool_new_def room_def)
  show "next_page_id (disk_manager (fresh_pool n)) = 0" "length (frames (fresh_pool n)) = n"
    "wal_manager (fresh_pool n) = Some (WAL_open empty_file)" by (simp_all add: fresh_pool_def BufferPool_new_def)
qed (simp_all add: fresh_pool_def)

lemma FindVictimFrame_wal: "wal_manager (snd (FindVictimFrame bp)) = wal_manager bp"
  by (simp add: FindVictimFrame_def Let_def RemoveFromLRU_def set_frame_def split: option.split prod.split sum.split)

lemma NewPage_wal: "wal_manager (snd (NewPage bp)) = wal_manager bp"
  using FindVictimFrame_wal [of bp]
  by (auto simp: NewPage_def Let_def set_frame_def AllocatePage_def split: option.split prod.split sum.split)

lemma Release_wal: "wal_manager (snd (Release g bp)) = None \<longleftrightarrow> wal_manager bp = None"
proof (cases "pt bp (g_page_id g)")
  case (Some f)
  then show ?thesis
    by (cases "wal_manager bp")
      (auto simp: Release_def UnpinPage_def Let_def set_frame_def split: prod.split sum.split)
qed (simp add: Release_def UnpinPage_def)

text \<open>A pool holding one released page, page 0.\<close>
lemma released_pool:
  "\<exists>bp. pool_inv {} bp \<and> (\<forall>i. pins bp i = 0) \<and> cap bp = 2 \<and> 0 < room bp
    \<and> view bp 0 = Some (content (set_page_id 0 zero_page)) \<and> wal_manager bp \<noteq> None"
proof -
  have "has_victim (fresh_pool 2)" by (rule has_victim_card) simp_all
  then obtain g s where s: "NewPage (fresh_pool 2) = (Inr (Some g), s)" "pool_inv {} s" "g_page_id g = 0" "guard_ok s g"
    "view s = (view (fresh_pool 2))(0 \<mapsto> content (set_page_id 0 zero_page))" "pins s = (pins (fresh_pool 2))(0 := 1)"
    "cap s = 2" "room (fresh_pool 2) \<le> Suc (room s)" "guard_page g s = set_page_id 0 zero_page"
    using NewPage_ok [of "{}" "fresh_pool 2"] by auto
  have "0 < room s" using s(8) by simp
  then obtain t where t: "Release g s = (Inr (), t)" "pool_inv {} t" "view t = view s"
    "pins t = (pins s)(0 := pins s 0 - 1)" "cap t = 2" "room s \<le> Suc (room t)"
    using Release_ok [OF s(2,4)] s(3,7) by auto
  have "wal_manager t \<noteq> None"
    using NewPage_wal [of "fresh_pool 2"] Release_wal [of g s] s(1) t(1) by (simp add: fresh_pool_def BufferPool_new_def)
  moreover have "0 < room t" using s(8) t(6) by simp
  ultimately show ?thesis using t s by (intro exI [of _ t]) simp
qed

text \<open>
  C18. While fewer pages are pinned than there are frames, fetching a page that exists, cached or
  not, with or without an eviction, returns a guard on it whose bytes are the page's current
  contents (LSN and checksum apart); no page's contents change, exactly that page's pin count
  rises by one, the guards open before stay valid, and the pool's invariant is kept.
\<close>
theorem FetchPage_returns_contents:
  assumes "pool_inv {} bp" "view bp i = Some c" "card {j. 0 < pins bp j} < length (frames bp)"
  shows "\<exists>g bp'. FetchPage i bp = (Inr (Some g), bp') \<and> pool_inv {} bp' \<and> guard_ok bp' g
    \<and> content (guard_page g bp') = c \<and> view bp' = view bp
    \<and> pins bp' = (pins bp)(i := Suc (pins bp i)) \<and> (\<forall>h. guard_ok bp h \<longrightarrow> guard_ok bp' h)"
proof -
  obtain g bp' where f: "FetchPage i bp = (Inr (Some g), bp')" "pool_inv {} bp'" "g_page_id g = i" "guard_ok bp' g"
    "view bp' = view bp" "pins bp' = (pins bp)(i := Suc (pins bp i))" "\<And>h. guard_ok bp h \<Longrightarrow> guard_ok bp' h"
    using FetchPage_ok [of bp i c] assms by (auto simp: cap_def)
  then show ?thesis using bp.guard_view [OF f(2,4)] assms(2) by (intro exI [of _ g] exI [of _ bp']) simp
qed

theorem FetchPage_returns_contents_witness:
  "\<exists>bp g bp'. FetchPage 0 bp = (Inr (Some g), bp') \<and> content (guard_page g bp') = content (set_page_id 0 zero_page)
    \<and> pins bp' 0 = 1"
proof -
  obtain bp where "pool_inv {} bp" "\<forall>i. pins bp i = 0" "cap bp = 2" "view bp 0 = Some (content (set_page_id 0 zero_page))"
    using released_pool by blast
  then show ?thesis using FetchPage_returns_contents [of bp 0] by (fastforce simp: cap_def)
qed

text \<open>
  C20. While fewer pages are pinned than there are frames and the 32-bit id counter has not run
  out, \<open>NewPage\<close> returns a pinned, zeroed page that carries its own id, an id no page had before;
  every other page keeps its contents and every open guard stays valid.
\<close>
theorem NewPage_allocates:
  assumes "pool_inv {} bp" "unat (next_page_id (disk_manager bp)) < 2 ^ 32 - 1"
    "\<forall>w. wal_manager bp = Some w \<longrightarrow> unat (next_lsn w) < 2 ^ 64 - 1"
    "card {j. 0 < pins bp j} < length (frames bp)"
  defines "i \<equiv> next_page_id (disk_manager bp)"
  shows "\<exists>g bp'. NewPage bp = (Inr (Some g), bp') \<and> pool_inv {} bp' \<and> g_page_id g = i \<and> guard_ok bp' g
    \<and> i \<noteq> INVALID_PAGE_ID \<and> view bp i = None \<and> guard_page g bp' = set_page_id i zero_page
    \<and> view bp' = (view bp)(i \<mapsto> content (set_page_id i zero_page)) \<and> pins bp' = (pins bp)(i := 1)
    \<and> (\<forall>h. guard_ok bp h \<longrightarrow> guard_ok bp' h)"
proof -
  have "0 < room bp" using assms(2,3) by (auto simp: room_def split: option.split)
  then show ?thesis
    using NewPage_ok [OF assms(1) _ has_victim_card [OF assms(1)]] assms(4) unfolding cap_def i_def by blast
qed

theorem NewPage_allocates_witness:
  "\<exists>g bp'. NewPage (fresh_pool 1) = (Inr (Some g), bp') \<and> g_page_id g = 0 \<and> guard_page g bp' = set_page_id 0 zero_page"
  using NewPage_allocates [of "fresh_pool 1"] by auto

text \<open>
  C19. Writing a page through a guard, marking it dirty and releasing the guard changes exactly
  that page's contents, gives up exactly one pin and keeps the invariant, which says that a
  dirty page without a pin has been logged; the log append cannot fail while the file takes
  writes and LSNs are left.
\<close>
theorem write_and_release:
  assumes "pool_inv {} bp" "guard_ok bp g" "wf_page p" "0 < room bp"
  shows "\<exists>bp'. Release g (MarkDirty g (write_guard g p bp)) = (Inr (), bp') \<and> pool_inv {} bp'
    \<and> view bp' = (view bp)(g_page_id g \<mapsto> content p)
    \<and> pins bp' = (pins bp)(g_page_id g := pins bp (g_page_id g) - 1)"
proof -
  have p: "pool_inv {} (put_dirty g p bp)" "guard_ok (put_dirty g p bp) g"
    "view (put_dirty g p bp) = (view bp)(g_page_id g \<mapsto> content p)" "pins (put_dirty g p bp) = pins bp"
    "room (put_dirty g p bp) = room bp"
    using put_dirty_ok [OF assms(1-3)] assms(2) by blast+
  then show ?thesis using Release_ok [OF p(1,2)] assms(4) unfolding put_dirty_def by auto
qed

theorem write_and_release_witness:
  "\<exists>bp g bp'. guard_ok bp g \<and> Release g (MarkDirty g (write_guard g (set_num_slots 7 zero_page) bp)) = (Inr (), bp')
    \<and> view bp' (g_page_id g) = Some (content (set_num_slots 7 zero_page))"
proof -
  obtain g bp where "pool_inv {} bp" "guard_ok bp g" "room (fresh_pool 1) \<le> Suc (room bp)"
    using NewPage_ok [of "{}" "fresh_pool 1"] has_victim_card [of "fresh_pool 1"] by auto
  then show ?thesis
    using write_and_release [of bp g "set_num_slots 7 zero_page"]
    by (intro exI [of _ bp], intro exI [of _ g]) fastforce
qed

text \<open>
  C17. Durability. When no guard is open, the process may stop at any moment: restarting from a
  log file that starts with the acknowledged records (behind them there may be anything but a
  complete record) and from any data file that still holds the pages the log does not cover (what
  it holds at the others is arbitrary), opening the log and running recovery succeeds, and every
  page then reads back with the contents clients last saw in the pool.
\<close>
theorem crash_recovery_restores_pool:
  assumes "pool_inv {} bp" "wal_manager bp = Some w" "\<forall>i. pins bp i = 0"
    and "take (next_offset w) (f_bytes f) = take (next_offset w) (f_bytes (wal_file w))"
    and "\<not> record_ok (seg (next_offset w) WAL_RECORD_SIZE (f_bytes f))"
    and "dm_ok d" "\<forall>i. logged bp i = None \<longrightarrow> page_at d i = page_at (disk_manager bp) i"
  shows "\<exists>d'. RunRecovery d (WAL_open f) = (Inr (), d')
    \<and> (\<forall>i c. view bp i = Some c \<longrightarrow> view (BufferPool_new n d' (Some (WAL_open f))) i = Some c)"
  using restart_restores [OF assms] unfolding view_new by blast

theorem crash_recovery_restores_pool_witness:
  "\<exists>bp f d'. view bp 0 = Some (content (set_page_id 0 zero_page))
    \<and> RunRecovery (disk_manager bp) (WAL_open f) = (Inr (), d')
    \<and> view (BufferPool_new 2 d' (Some (WAL_open f))) 0 = Some (content (set_page_id 0 zero_page))"
proof -
  obtain bp w where bp: "pool_inv {} bp" "wal_manager bp = Some w" "\<forall>i. pins bp i = 0"
    "view bp 0 = Some (content (set_page_id 0 zero_page))"
    using released_pool by (metis not_Some_eq)
  have d: "dm_ok (disk_manager bp)" using bp(1) by (simp add: pool_inv_def disk_inv_def Let_def)
  let ?f = "ftruncate (wal_file w) (next_offset w)"
  have f: "take (next_offset w) (f_bytes ?f) = take (next_offset w) (f_bytes (wal_file w))"
    "\<not> record_ok (seg (next_offset w) WAL_RECORD_SIZE (f_bytes ?f))"
    by (simp_all add: ftruncate_def seg_def record_ok_def layout_simps)
  show ?thesis using crash_recovery_restores_pool [OF bp(1-3) f d, of 2] bp(4) by blast
qed

text \<open>
  C28. With no guard open, \<open>FlushAll\<close> on files that take writes succeeds, leaves every page's
  contents as they were, and afterwards the data file alone holds all of them.
\<close>
theorem FlushAll_writes_everything_back:
  assumes "pool_inv {} bp" "\<forall>i. pins bp i = 0"
  shows "\<exists>bp'. FlushAll bp = (Inr (), bp') \<and> pool_inv {} bp' \<and> view bp' = view bp
    \<and> (\<forall>i. map_option content (page_at (disk_manager bp') i) = view bp i)"
  using FlushAll_ok [of bp] assms by blast

theorem FlushAll_writes_everything_back_witness:
  "\<exists>bp bp'. FlushAll bp = (Inr (), bp')
    \<and> map_option content (page_at (disk_manager bp') 0) = Some (content (set_page_id 0 zero_page))"
  using FlushAll_writes_everything_back released_pool by metis

section \<open>A full pool\<close>

text \<open>Three frames, three pages, all pinned; the frame of page 0 is the least recently used one.\<close>

lemma NewPage_free_frame:
  assumes "free_list bp = fs @ [f]"
  shows "\<exists>bp'. NewPage bp = (Inr (Some \<lparr>g_page_id = next_page_id (disk_manager bp), g_frame = f\<rparr>), bp') \<and> free_list bp' = fs
    \<and> lru_list bp' = f # remove1 f (lru_list bp) \<and> page_table bp' = AList.update (next_page_id (disk_manager bp)) f (page_table bp)
    \<and> next_page_id (disk_manager bp') = next_page_id (disk_manager bp) + 1"
  using assms by (simp add: NewPage_def FindVictimFrame_def AllocatePage_def set_frame_def TouchLRU_def Let_def)

lemma NewPage_free_ok:
  assumes "free_list bp = fs @ [f]" "pool_inv {} bp" "0 < room bp" "next_page_id (disk_manager bp) = i"
  shows "\<exists>bp'. NewPage bp = (Inr (Some \<lparr>g_page_id = i, g_frame = f\<rparr>), bp') \<and> free_list bp' = fs
    \<and> lru_list bp' = f # remove1 f (lru_list bp) \<and> page_table bp' = AList.update i f (page_table bp) \<and> next_page_id (disk_manager bp') = i + 1
    \<and> pool_inv {} bp' \<and> pins bp' = (pins bp)(i := 1) \<and> room bp \<le> Suc (room bp') \<and> cap bp' = cap bp"
proof -
  obtain bp' where n: "NewPage bp = (Inr (Some \<lparr>g_page_id = i, g_frame = f\<rparr>), bp')" "free_list bp' = fs" "lru_list bp' = f # remove1 f (lru_list bp)"
    "page_table bp' = AList.update i f (page_table bp)" "next_page_id (disk_manager bp') = i + 1"
    using NewPage_free_frame [OF assms(1)] assms(4) by auto
  have "has_victim bp" using assms(1) by (simp add: has_victim_def)
  then show ?thesis using NewPage_ok [OF assms(2,3)] n assms(4) by auto
qed

lemma pinned_pool:
  "\<exists>bp. pool_inv {} bp \<and> free_list bp = [] \<and> lru_list bp = [0, 1, 2] \<and> page_table bp = [(0, 2), (1, 1), (2, 0)]
    \<and> pins bp = (\<lambda>_. 0)(0 := 1, 1 := 1, 2 := 1) \<and> cap bp = 3 \<and> 2 < room bp"
proof -
  have e: "pins (fresh_pool 3) = (\<lambda>_. 0)" "free_list (fresh_pool 3) = [0, 1] @ [2]" "lru_list (fresh_pool 3) = []" "page_table (fresh_pool 3) = []"
    by (simp_all add: fun_eq_iff) (simp_all add: fresh_pool_def BufferPool_new_def upt_rec)
  obtain a where a: "free_list a = [0] @ [1]" "lru_list a = [2]" "page_table a = [(0, 2)]" "pool_inv {} a" "pins a = (\<lambda>_. 0)(0 := 1)"
    "room (fresh_pool 3) \<le> Suc (room a)" "cap a = 3" "next_page_id (disk_manager a) = 1"
    using NewPage_free_ok [OF e(2), of 0] e(1,3,4) by auto
  obtain b where b: "free_list b = [] @ [0]" "lru_list b = [1, 2]" "page_table b = [(0, 2), (1, 1)]" "pool_inv {} b" "pins b = (\<lambda>_. 0)(0 := 1, 1 := 1)"
    "room a \<le> Suc (room b)" "cap b = 3" "next_page_id (disk_manager b) = 2"
    using NewPage_free_ok [OF a(1,4) _ a(8)] a(2,3,5-7) by auto
  obtain c where c: "free_list c = []" "lru_list c = [0, 1, 2]" "page_table c = [(0, 2), (1, 1), (2, 0)]" "pool_inv {} c"
    "pins c = (\<lambda>_. 0)(0 := 1, 1 := 1, 2 := 1)" "room b \<le> Suc (room c)" "cap c = 3"
    using NewPage_free_ok [OF b(1,4) _ b(8)] a(6) b(2,3,5-7) by auto
  have "2 < room c" using a(6) b(6) c(6) by simp
  then show ?thesis using c by blast
qed

lemma pool_pin_count:
  assumes "pool_inv {} bp" "pt bp i = Some f" "pins bp i = n"
  shows "pin_count (frame_at bp f) = int n"
proof -
  have s: "struct_inv {} bp" using assms(1) by (simp add: pool_inv_def)
  have "0 \<le> pin_count (frame_at bp f)" using pin_nonneg [OF s pt_bound [OF s assms(2)]] .
  then show ?thesis using assms(2,3) by (simp add: pins_def)
qed

lemma Release_lists:
  "free_list (snd (Release g bp)) = free_list bp \<and> lru_list (snd (Release g bp)) = lru_list bp \<and> page_table (snd (Release g bp)) = page_table bp"
proof (cases "pt bp (g_page_id g)")
  case (Some f)
  then show ?thesis
    by (cases "wal_manager bp") (auto simp: Release_def UnpinPage_def Let_def set_frame_def split: prod.split sum.split)
qed (simp add: Release_def UnpinPage_def)

text \<open>Releasing pages 1 and 2 leaves page 0 pinned, the oldest in the LRU list, and page 1 the next.\<close>

lemma partly_pinned_pool:
  "\<exists>bp. pool_inv {} bp \<and> free_list bp = [] \<and> lru_list bp = [0, 1, 2] \<and> page_table bp = [(0, 2), (1, 1), (2, 0)]
    \<and> pin_count (frame_at bp 0) = 0 \<and> pin_count (frame_at bp 1) = 0 \<and> pin_count (frame_at bp 2) = 1"
proof -
  obtain a where a: "pool_inv {} a" "free_list a = []" "lru_list a = [0, 1, 2]" "page_table a = [(0, 2), (1, 1), (2, 0)]"
    "pins a = (\<lambda>_. 0)(0 := 1, 1 := 1, 2 := 1)" "2 < room a" using pinned_pool by blast
  let ?g = "\<lparr>g_page_id = 1, g_frame = 1\<rparr>" and ?h = "\<lparr>g_page_id = 2, g_frame = 0\<rparr>"
  have g: "guard_ok a ?g" using pool_pin_count [OF a(1), of 1 1] a(4,5) by (simp add: guard_ok_def)
  obtain b where b: "Release ?g a = (Inr (), b)" "pool_inv {} b" "pins b = (pins a)(1 := 0)" "room a \<le> Suc (room b)"
    using Release_ok [OF a(1) g] a(5,6) by auto
  have bl: "free_list b = []" "lru_list b = [0, 1, 2]" "page_table b = [(0, 2), (1, 1), (2, 0)]"
    using Release_lists [of ?g a] b(1) a(2-4) by simp_all
  have h: "guard_ok b ?h" using pool_pin_count [OF b(2), of 2 0] a(5) b(3) bl(3) by (simp add: guard_ok_def)
  obtain c where c: "Release ?h b = (Inr (), c)" "pool_inv {} c" "pins c = (pins b)(2 := 0)"
    using Release_ok [OF b(2) h] a(5,6) b(3,4) by auto
  have cl: "free_list c = []" "lru_list c = [0, 1, 2]" "page_table c = [(0, 2), (1, 1), (2, 0)]"
    using Release_lists [of ?h b] c(1) bl by simp_all
  then show ?thesis
    using c(2,3) a(5) b(3) pool_pin_count [OF c(2), of 2 0] pool_pin_count [OF c(2), of 1 1] pool_pin_count [OF c(2), of 0 2] by auto
qed

text \<open>
  C33. A page that is not cached can be fetched only by reusing a frame: with no free frame and
  every cached page pinned, \<open>FetchPage\<close> and \<open>NewPage\<close> return an invalid guard and change nothing.
\<close>
theorem pool_exhausted:
  assumes "free_list bp = []" "\<forall>f \<in> set (lru_list bp). pin_count (frame_at bp f) \<noteq> 0"
    and "map_of (page_table bp) i = None"
  shows "FetchPage i bp = (Inr None, bp) \<and> NewPage bp = (Inr None, bp)"
proof -
  have "find (\<lambda>c. pin_count (frame_at bp c) = 0) (rev (lru_list bp)) = None"
    using assms(2) by (simp add: find_None_iff)
  then have "FindVictimFrame bp = (Inr None, bp)" using assms(1) by (simp add: FindVictimFrame_def)
  then show ?thesis using assms(3) by (simp add: FetchPage_def NewPage_def)
qed

theorem pool_exhausted_witness:
  "\<exists>bp. pool_inv {} bp \<and> lru_list bp = [0, 1, 2] \<and> (\<forall>f \<in> {0, 1, 2}. pin_count (frame_at bp f) = 1)
    \<and> FetchPage 3 bp = (Inr None, bp) \<and> NewPage bp = (Inr None, bp)"
proof -
  obtain bp where bp: "pool_inv {} bp" "free_list bp = []" "lru_list bp = [0, 1, 2]" "page_table bp = [(0, 2), (1, 1), (2, 0)]"
    "pins bp = (\<lambda>_. 0)(0 := 1, 1 := 1, 2 := 1)" using pinned_pool by blast
  have pin: "\<forall>f \<in> {0, 1, 2}. pin_count (frame_at bp f) = 1"
    using pool_pin_count [OF bp(1), of 2 0] pool_pin_count [OF bp(1), of 1 1] pool_pin_count [OF bp(1), of 0 2] bp(4,5) by simp
  then show ?thesis using pool_exhausted [OF bp(2), of 3] bp(1,3,4) by auto
qed

lemma find_append_None: "find P xs = None \<Longrightarrow> find P (xs @ ys) = find P ys"
  by (induction xs) (auto split: if_splits)

text \<open>
  C27. Eviction is least-recently-used among the pages without a pin: the frame \<open>FindVictimFrame\<close>
  picks has no pin, every frame used less recently (further back in the LRU list) is pinned, the
  victim's page leaves the page table, and its contents are still what a later fetch finds.
\<close>
theorem eviction_is_lru:
  assumes "pool_inv {} bp" "free_list bp = []" "lru_list bp = newer @ f # older"
    and "pin_count (frame_at bp f) = 0" "\<forall>g \<in> set older. pin_count (frame_at bp g) \<noteq> 0"
  shows "\<exists>bp'. FindVictimFrame bp = (Inr (Some f), bp') \<and> view bp' = view bp
    \<and> map_of (page_table bp) (fr_page_id (frame_at bp f)) = Some f
    \<and> map_of (page_table bp') (fr_page_id (frame_at bp f)) = None"
proof -
  have s: "struct_inv {} bp" using assms(1) by (simp add: pool_inv_def)
  have "find (\<lambda>c. pin_count (frame_at bp c) = 0) (rev older) = None"
    using assms(5) by (simp add: find_None_iff)
  then have find: "find (\<lambda>c. pin_count (frame_at bp c) = 0) (rev (lru_list bp)) = Some f"
    using assms(3,4) by (simp add: find_append_None)
  obtain i p' d' where v: "pt bp i = Some f" "FindVictimFrame bp = (Inr (Some f), detach i f p' d' bp)" "wf_page p'"
    "dm_ok d'" "aligned d'" "next_page_id d' = next_page_id (disk_manager bp)"
    "f_size (dm_file d') \<le> unat (next_page_id d') * PAGE_SIZE"
    "\<And>j. j \<noteq> i \<Longrightarrow> page_at d' j = page_at (disk_manager bp) j"
    "map_option content (page_at d' i) = Some (content (fr_page (frame_at bp f)))"
    using FindVictimFrame_lru [OF assms(1,2) find] by metis
  have "pt (detach i f p' d' bp) i = None" by (simp add: detach_def delete_conv')
  then show ?thesis
    using v pool_inv_detach [OF assms(1) v(1) assms(4) v(3-9)] pt_id [OF s v(1)] by auto
qed

theorem eviction_is_lru_witness:
  "\<exists>bp bp'. free_list bp = [] \<and> lru_list bp = [0] @ 1 # [2] \<and> pin_count (frame_at bp 0) = 0 \<and> pin_count (frame_at bp 2) = 1
    \<and> FindVictimFrame bp = (Inr (Some 1), bp') \<and> view bp' = view bp \<and> map_of (page_table bp) 1 = Some 1 \<and> map_of (page_table bp') 1 = None"
proof -
  obtain bp where bp: "pool_inv {} bp" "free_list bp = []" "lru_list bp = [0, 1, 2]" "page_table bp = [(0, 2), (1, 1), (2, 0)]"
    "pin_count (frame_at bp 0) = 0" "pin_count (frame_at bp 1) = 0" "pin_count (frame_at bp 2) = 1" using partly_pinned_pool by blast
  have s: "struct_inv {} bp" using bp(1) by (simp add: pool_inv_def)
  have "fr_page_id (frame_at bp 1) = 1" using pt_id [OF s, of 1 1] bp(4) by simp
  then show ?thesis using eviction_is_lru [OF bp(1,2), of "[0]" 1 "[2]"] bp by auto
qed

end
