(* ===== verification/Ast.thy ===== *)
theory Ast
  imports Prelude
begin

text \<open>
  The data the SQL front end and the executor share: syntax trees (\<open>ast.h\<close>), runtime values
  (\<open>value.h\<close>) and table schemas (\<open>schema.h\<close>). A tagged struct of the sources, one kind field and
  one field per kind, is a datatype with one constructor per kind; a nullable pointer or a
  \<open>std::optional\<close> is an option.
\<close>

section \<open>Syntax trees\<close>

datatype ColumnType = kInteger | kText

definition ColumnTypeName :: "ColumnType \<Rightarrow> string" where
  "ColumnTypeName t = (case t of kInteger \<Rightarrow> ''INTEGER'' | kText \<Rightarrow> ''TEXT'')"

datatype Literal = LitInteger i64 | LitText string

datatype ComparisonOp = kEq | kNeq | kLt | kLte | kGt | kGte

datatype Expr =
    ColumnRefExpr "string option" string
  | LiteralExpr Literal
  | ComparisonExpr ComparisonOp Expr Expr
  | AndExpr Expr Expr
  | OrExpr Expr Expr

record ColumnDef =
  cd_name :: string
  cd_type :: ColumnType
  is_primary_key :: bool

record TableRef =
  tr_table :: string
  tr_alias :: "string option"

record JoinClause =
  jc_table :: TableRef
  on_condition :: Expr

record SelectItem =
  si_table :: "string option"
  si_column :: string
  si_alias :: "string option"

record CreateTableStmt =
  ct_table_name :: string
  ct_columns :: "ColumnDef list"

record InsertStmt =
  ins_table_name :: string
  ins_columns :: "string list"
  ins_values :: "Literal list"

record SelectStmt =
  is_star :: bool
  select_items :: "SelectItem list"
  from_table :: TableRef
  sel_joins :: "JoinClause list"
  sel_where :: "Expr option"

datatype Statement =
    CreateTable CreateTableStmt
  | Insert InsertStmt
  | Select SelectStmt

section \<open>Values\<close>

datatype Value = IntV i64 | TextV string

definition value_type :: "Value \<Rightarrow> ColumnType" where
  "value_type v = (case v of IntV _ \<Rightarrow> kInteger | TextV _ \<Rightarrow> kText)"

lemma value_type_simps [simp]: "value_type (IntV i) = kInteger" "value_type (TextV t) = kText"
  by (simp_all add: value_type_def)

lemma value_type_iff: "value_type v = kInteger \<longleftrightarrow> (\<exists>i. v = IntV i)" "value_type v = kText \<longleftrightarrow> (\<exists>t. v = TextV t)"
  by (cases v; simp)+

text \<open>\<open>std::string\<close> compares its characters as unsigned bytes.\<close>
fun text_less :: "string \<Rightarrow> string \<Rightarrow> bool" where
  "text_less _ [] \<longleftrightarrow> False"
| "text_less [] (_ # _) \<longleftrightarrow> True"
| "text_less (a # as) (b # bs) \<longleftrightarrow>
     (of_char a :: nat) < of_char b \<or> (a = b \<and> text_less as bs)"

lemma text_less_irrefl [simp]: "\<not> text_less a a"
  by (induction a) simp_all

lemma text_less_trans: "text_less a b \<Longrightarrow> text_less b c \<Longrightarrow> text_less a c"
proof (induction a c arbitrary: b rule: text_less.induct)
  case (1 a)
  then show ?case by (cases b) simp_all
next
  case (2 c cs)
  then show ?case by simp
next
  case (3 a as c cs)
  then show ?case by (cases b) (auto dest: less_trans)
qed

lemma text_less_linear: "text_less a b \<or> a = b \<or> text_less b a"
proof (induction a b rule: text_less.induct)
  case (1 a)
  then show ?case by (cases a) simp_all
next
  case (3 a as b bs)
  then show ?case using linorder_less_linear [of "of_char a :: nat" "of_char b"] by auto
qed simp

lemma text_less_asym: "text_less a b \<Longrightarrow> \<not> text_less b a"
  using text_less_trans [of a b a] by auto

section \<open>Schemas\<close>

record TableSchema =
  table_name :: string
  columns :: "ColumnDef list"

text \<open>The index of the first element that satisfies a test.\<close>
fun index_where :: "('a \<Rightarrow> bool) \<Rightarrow> 'a list \<Rightarrow> nat option" where
  "index_where P [] = None"
| "index_where P (x # xs) = (if P x then Some 0 else map_option Suc (index_where P xs))"

lemma index_where_Some:
  "index_where P xs = Some i \<longleftrightarrow> i < length xs \<and> P (xs ! i) \<and> (\<forall>j < i. \<not> P (xs ! j))"
proof (induction xs arbitrary: i)
  case (Cons x xs)
  show ?case
  proof (cases "P x")
    case True
    then show ?thesis by auto
  next
    case False
    then show ?thesis using Cons by (cases i) (auto simp: less_Suc_eq_0_disj)
  qed
qed simp

lemma index_where_None: "index_where P xs = None \<longleftrightarrow> (\<forall>x \<in> set xs. \<not> P x)"
  by (induction xs) auto

definition PrimaryKeyIndex :: "TableSchema \<Rightarrow> int" where
  "PrimaryKeyIndex s = (case index_where is_primary_key (columns s) of None \<Rightarrow> - 1 | Some i \<Rightarrow> int i)"

definition ColumnIndex :: "TableSchema \<Rightarrow> string \<Rightarrow> int" where
  "ColumnIndex s name = (case index_where (\<lambda>c. cd_name c = name) (columns s) of None \<Rightarrow> - 1 | Some i \<Rightarrow> int i)"

end
