(* ===== verification/Row_Codec.thy ===== *)
theory Row_Codec
  imports Ast
begin

text \<open>
  The row codec (\<open>row_codec.h\<close>, \<open>row_codec.cpp\<close>): the non-key columns of a row as one
  fixed-layout blob, and back.
\<close>

section \<open>Operations\<close>

definition TEXT_COLUMN_CAPACITY :: nat where
  "TEXT_COLUMN_CAPACITY = 16"

definition byte_of_char :: "char \<Rightarrow> byte" where
  "byte_of_char c = of_nat (of_char c)"

definition char_of_byte :: "byte \<Rightarrow> char" where
  "char_of_byte b = char_of (unat b)"

definition ColumnWidth :: "ColumnDef \<Rightarrow> nat" where
  "ColumnWidth c = (if cd_type c = kInteger then 8 else TEXT_COLUMN_CAPACITY)"

text \<open>The loop of the constructor, from column \<open>i\<close> on; \<open>pk\<close> is \<open>pk_index_\<close>.\<close>
fun encoded_size_from :: "int \<Rightarrow> nat \<Rightarrow> ColumnDef list \<Rightarrow> nat" where
  "encoded_size_from pk i [] = 0"
| "encoded_size_from pk i (c # cs) =
     (if int i = pk then encoded_size_from pk (Suc i) cs
      else ColumnWidth c + encoded_size_from pk (Suc i) cs)"

definition EncodedSize :: "TableSchema \<Rightarrow> nat" where
  "EncodedSize s = encoded_size_from (PrimaryKeyIndex s) 0 (columns s)"

text \<open>The loop of \<open>Encode\<close>, from column \<open>i\<close> on, writing at \<open>offset\<close>.\<close>
fun encode_from :: "int \<Rightarrow> nat \<Rightarrow> ColumnDef list \<Rightarrow> Value list \<Rightarrow> nat \<Rightarrow> byte list \<Rightarrow> byte list res" where
  "encode_from pk i (c # cs) (v # vs) offset blob =
     (if int i = pk then encode_from pk (Suc i) cs vs offset blob
      else if cd_type c = kInteger then
        (case v of
           TextV _ \<Rightarrow> Inl (RowEncodingError ''expects an INTEGER value'')
         | IntV n \<Rightarrow> encode_from pk (Suc i) cs vs (offset + 8) (patch offset (word_le 8 n) blob))
      else
        (case v of
           IntV _ \<Rightarrow> Inl (RowEncodingError ''expects a TEXT value'')
         | TextV t \<Rightarrow>
             if TEXT_COLUMN_CAPACITY - 1 < length t
             then Inl (RowEncodingError ''exceeding the byte limit for this column'')
             else encode_from pk (Suc i) cs vs (offset + TEXT_COLUMN_CAPACITY)
                    (patch (offset + 1) (map byte_of_char t) (patch offset [of_nat (length t)] blob))))"
| "encode_from pk i _ _ offset blob = Inr blob"

definition Encode :: "TableSchema \<Rightarrow> Value list \<Rightarrow> byte list res" where
  "Encode s values =
     (if length values \<noteq> length (columns s) then Inl (RowEncodingError ''wrong number of values'')
      else encode_from (PrimaryKeyIndex s) 0 (columns s) values 0 (replicate (EncodedSize s) 0))"

text \<open>
  The loop of \<open>Decode\<close>. Reading an integer past the end of the blob is undefined; \<open>blob[offset]\<close>
  is the terminating zero at the end of the blob and undefined behind it; \<open>substr\<close> throws when it
  starts behind the end and stops at the end otherwise.
\<close>
fun decode_from :: "int \<Rightarrow> nat \<Rightarrow> ColumnDef list \<Rightarrow> i64 \<Rightarrow> nat \<Rightarrow> byte list \<Rightarrow> Value list res" where
  "decode_from pk i [] key offset blob = Inr []"
| "decode_from pk i (c # cs) key offset blob =
     (if int i = pk then map_sum id (\<lambda>vs. IntV key # vs) (decode_from pk (Suc i) cs key offset blob)
      else if cd_type c = kInteger then
        if length blob < offset + 8 then Inl (UndefinedBehaviour ''memcpy past the end of the blob'')
        else map_sum id (\<lambda>vs. IntV (get_field offset 8 blob) # vs) (decode_from pk (Suc i) cs key (offset + 8) blob)
      else if length blob < offset then Inl (UndefinedBehaviour ''blob[offset] past the end'')
      else if length blob < offset + 1 then Inl (OutOfRange ''basic_string::substr'')
      else
        map_sum id (\<lambda>vs. TextV (map char_of_byte (seg (offset + 1) (unat (blob ! offset)) blob)) # vs)
          (decode_from pk (Suc i) cs key (offset + TEXT_COLUMN_CAPACITY) blob))"

definition Decode :: "TableSchema \<Rightarrow> i64 \<Rightarrow> byte list \<Rightarrow> Value list res" where
  "Decode s key blob = decode_from (PrimaryKeyIndex s) 0 (columns s) key 0 blob"

section \<open>Which rows can be stored\<close>

text \<open>A value a column can hold.\<close>
definition fits_column :: "ColumnDef \<Rightarrow> Value \<Rightarrow> bool" where
  "fits_column c v \<longleftrightarrow> (case v of IntV _ \<Rightarrow> cd_type c = kInteger | TextV t \<Rightarrow> cd_type c = kText \<and> length t < TEXT_COLUMN_CAPACITY)"

definition storable_from :: "int \<Rightarrow> nat \<Rightarrow> ColumnDef list \<Rightarrow> Value list \<Rightarrow> bool" where
  "storable_from pk i cs vs \<longleftrightarrow> length vs = length cs
     \<and> (\<forall>k < length cs. int (i + k) \<noteq> pk \<longrightarrow> fits_column (cs ! k) (vs ! k))"

definition storable :: "TableSchema \<Rightarrow> Value list \<Rightarrow> bool" where
  "storable s vs \<longleftrightarrow> storable_from (PrimaryKeyIndex s) 0 (columns s) vs"

lemma storable_from_Nil [simp]: "storable_from pk i [] vs \<longleftrightarrow> vs = []"
  by (simp add: storable_from_def)

lemma storable_from_Cons [simp]:
  "storable_from pk i (c # cs) (v # vs) \<longleftrightarrow>
     (int i = pk \<or> fits_column c v) \<and> storable_from pk (Suc i) cs vs"
  by (auto simp: storable_from_def less_Suc_eq_0_disj)

lemma char_of_byte_of_char [simp]: "char_of_byte (byte_of_char c) = c"
proof -
  have "(of_char c :: nat) < 256" by simp
  then show ?thesis by (simp add: char_of_byte_def byte_of_char_def unat_of_nat)
qed

text \<open>What a column's bytes are: an integer, or a length byte, the characters and zero padding.\<close>
definition cell_bytes :: "Value \<Rightarrow> byte list" where
  "cell_bytes v = (case v of
     IntV n \<Rightarrow> word_le 8 n
   | TextV t \<Rightarrow> of_nat (length t) # map byte_of_char t @ replicate (TEXT_COLUMN_CAPACITY - 1 - length t) 0)"

fun row_bytes :: "int \<Rightarrow> nat \<Rightarrow> Value list \<Rightarrow> byte list" where
  "row_bytes pk i [] = []"
| "row_bytes pk i (v # vs) = (if int i = pk then [] else cell_bytes v) @ row_bytes pk (Suc i) vs"

lemma length_cell_bytes: "fits_column c v \<Longrightarrow> length (cell_bytes v) = ColumnWidth c"
  by (auto simp: fits_column_def cell_bytes_def ColumnWidth_def TEXT_COLUMN_CAPACITY_def split: Value.splits)

lemma length_row_bytes: "storable_from pk i cs vs \<Longrightarrow> length (row_bytes pk i vs) = encoded_size_from pk i cs"
proof (induction cs arbitrary: i vs)
  case Nil
  then show ?case by simp
next
  case (Cons c cs)
  then obtain v vs' where "vs = v # vs'" by (cases vs) (auto simp: storable_from_def)
  then show ?case using Cons length_cell_bytes [of c v] by auto
qed

lemma patch_zeros: "length ys = n \<Longrightarrow> patch (length pre) ys (pre @ replicate (n + m) 0) = (pre @ ys) @ replicate m 0"
  by (simp add: patch_def)

lemma encode_text_cell:
  assumes "length t < TEXT_COLUMN_CAPACITY"
  shows "patch (length pre + 1) (map byte_of_char t)
      (patch (length pre) [of_nat (length t)] (pre @ replicate (TEXT_COLUMN_CAPACITY + m) 0)) =
    (pre @ cell_bytes (TextV t)) @ replicate m 0"
proof -
  obtain k where k: "15 = length t + k"
    using assms le_Suc_ex [of "length t" 15] by (auto simp: TEXT_COLUMN_CAPACITY_def)
  let ?x = "of_nat (length t) :: byte"
  have size: "TEXT_COLUMN_CAPACITY + m = 1 + (length t + (k + m))" using k by (simp add: TEXT_COLUMN_CAPACITY_def)
  have a: "patch (length pre) [?x] (pre @ replicate (TEXT_COLUMN_CAPACITY + m) 0) =
      (pre @ [?x]) @ replicate (length t + (k + m)) 0"
    unfolding size by (rule patch_zeros) simp
  have b: "patch (length (pre @ [?x])) (map byte_of_char t) ((pre @ [?x]) @ replicate (length t + (k + m)) 0) =
      ((pre @ [?x]) @ map byte_of_char t) @ replicate (k + m) 0"
    by (rule patch_zeros) simp
  have "TEXT_COLUMN_CAPACITY - 1 - length t = k" using k by (simp add: TEXT_COLUMN_CAPACITY_def)
  then show ?thesis unfolding a using b by (simp add: cell_bytes_def replicate_add)
qed

lemma encode_from_storable:
  "storable_from pk i cs vs \<Longrightarrow>
   encode_from pk i cs vs (length pre) (pre @ replicate (encoded_size_from pk i cs) 0) = Inr (pre @ row_bytes pk i vs)"
proof (induction cs arbitrary: i vs pre)
  case Nil
  then show ?case by simp
next
  case (Cons c cs)
  then obtain v vs' where vs: "vs = v # vs'" by (cases vs) (auto simp: storable_from_def)
  let ?m = "encoded_size_from pk (Suc i) cs"
  show ?case
  proof (cases "int i = pk")
    case True
    then show ?thesis using Cons.IH [of "Suc i" vs' pre] Cons.prems vs by simp
  next
    case False
    then have fits: "fits_column c v" using Cons.prems vs by simp
    have IH: "encode_from pk (Suc i) cs vs' (length pre + ColumnWidth c) ((pre @ cell_bytes v) @ replicate ?m 0) =
        Inr (pre @ cell_bytes v @ row_bytes pk (Suc i) vs')"
      using Cons.IH [of "Suc i" vs' "pre @ cell_bytes v"] Cons.prems vs length_cell_bytes [OF fits] by simp
    show ?thesis
    proof (cases v)
      case (IntV n)
      then have c: "cd_type c = kInteger" "ColumnWidth c = 8" using fits by (simp_all add: fits_column_def ColumnWidth_def)
      have "patch (length pre) (word_le 8 n) (pre @ replicate (8 + ?m) 0) = (pre @ cell_bytes v) @ replicate ?m 0"
        using IntV by (simp add: patch_zeros cell_bytes_def del: append_assoc)
      with IH c IntV False vs show ?thesis by simp
    next
      case (TextV t)
      then have c: "cd_type c = kText" "ColumnWidth c = TEXT_COLUMN_CAPACITY" "length t < TEXT_COLUMN_CAPACITY"
        using fits by (simp_all add: fits_column_def ColumnWidth_def)
      then have "\<not> TEXT_COLUMN_CAPACITY - 1 < length t" by simp
      with IH c TextV False vs encode_text_cell [OF c(3), of pre ?m] show ?thesis by simp
    qed
  qed
qed

lemma encode_from_unstorable:
  "length vs = length cs \<Longrightarrow> \<not> storable_from pk i cs vs \<Longrightarrow>
   \<exists>msg. encode_from pk i cs vs offset blob = Inl (RowEncodingError msg)"
proof (induction cs arbitrary: i vs offset blob)
  case Nil
  then show ?case by simp
next
  case (Cons c cs)
  then obtain v vs' where vs: "vs = v # vs'" by (cases vs) auto
  show ?case
  proof (cases "storable_from pk (Suc i) cs vs'")
    case True
    then have "int i \<noteq> pk" "\<not> fits_column c v" using Cons.prems vs by auto
    then show ?thesis using vs
      by (cases v; cases "cd_type c") (auto simp: fits_column_def TEXT_COLUMN_CAPACITY_def)
  next
    case False
    then have "\<exists>msg. encode_from pk (Suc i) cs vs' off b = Inl (RowEncodingError msg)" for off b
      using Cons vs by simp
    then show ?thesis using vs by (cases v) simp_all
  qed
qed

lemma unat_of_nat_length: "length t < TEXT_COLUMN_CAPACITY \<Longrightarrow> unat (of_nat (length t) :: byte) = length t"
  by (simp add: TEXT_COLUMN_CAPACITY_def unat_of_nat)

lemma decode_from_row_bytes:
  "storable_from pk i cs vs \<Longrightarrow> (\<And>k. k < length cs \<Longrightarrow> int (i + k) = pk \<Longrightarrow> vs ! k = IntV key) \<Longrightarrow>
   decode_from pk i cs key (length pre) (pre @ row_bytes pk i vs @ post) = Inr vs"
proof (induction cs arbitrary: i vs pre)
  case Nil
  then show ?case by simp
next
  case (Cons c cs)
  then obtain v vs' where vs: "vs = v # vs'" by (cases vs) (auto simp: storable_from_def)
  have st: "storable_from pk (Suc i) cs vs'" using Cons.prems(1) vs by simp
  have key: "vs' ! k = IntV key" if "k < length cs" "int (Suc i + k) = pk" for k
    using Cons.prems(2) [of "Suc k"] that vs by simp
  show ?case
  proof (cases "int i = pk")
    case True
    then have "v = IntV key" using Cons.prems(2) [of 0] vs by simp
    then show ?thesis using True Cons.IH [OF st key, of pre] vs by simp
  next
    case False
    then have fits: "fits_column c v" using Cons.prems vs by simp
    have IH: "decode_from pk (Suc i) cs key (length pre + ColumnWidth c)
        (pre @ cell_bytes v @ row_bytes pk (Suc i) vs' @ post) = Inr vs'"
      using Cons.IH [OF st key, of "pre @ cell_bytes v"] length_cell_bytes [OF fits] by simp
    show ?thesis
    proof (cases v)
      case (IntV n)
      then have c: "cd_type c = kInteger" "ColumnWidth c = 8" using fits by (simp_all add: fits_column_def ColumnWidth_def)
      have "get_field (length pre) 8 (pre @ word_le 8 n @ r) = n" for r
        by (simp add: get_field_def seg_def le_word_word_le)
      with IH c IntV False vs show ?thesis by (simp add: cell_bytes_def)
    next
      case (TextV t)
      then have c: "cd_type c = kText" "ColumnWidth c = TEXT_COLUMN_CAPACITY" "length t < TEXT_COLUMN_CAPACITY"
        using fits by (simp_all add: fits_column_def ColumnWidth_def)
      have "seg (length pre + 1) (length t) (pre @ b # map byte_of_char t @ r) = map byte_of_char t" for b r
        by (simp add: seg_def)
      with IH c TextV False vs show ?thesis
        by (simp add: cell_bytes_def unat_of_nat_length nth_append comp_def)
    qed
  qed
qed

section \<open>The codec\<close>

lemma Encode_storable:
  "storable s vs \<Longrightarrow> Encode s vs = Inr (row_bytes (PrimaryKeyIndex s) 0 vs)"
  using encode_from_storable [of "PrimaryKeyIndex s" 0 "columns s" vs "[]"]
  by (simp add: storable_def Encode_def EncodedSize_def storable_from_def)

lemma Decode_row_bytes:
  assumes "storable s vs" "\<And>k. int k = PrimaryKeyIndex s \<Longrightarrow> vs ! k = IntV key"
  shows "Decode s key (row_bytes (PrimaryKeyIndex s) 0 vs @ post) = Inr vs"
  using decode_from_row_bytes [of "PrimaryKeyIndex s" 0 "columns s" vs key "[]" post] assms
  by (simp add: Decode_def storable_def)

lemma Encode_accepts: "storable s vs \<or> (\<exists>msg. Encode s vs = Inl (RowEncodingError msg))"
  using encode_from_unstorable [of vs "columns s" "PrimaryKeyIndex s" 0]
  by (cases "storable s vs") (auto simp: Encode_def storable_def)

text \<open>
  C35. \<open>Encode\<close> accepts exactly the rows that have one value per column, of the column's type, with
  texts of at most 15 bytes (the primary key's own value is not looked at); every other row is
  rejected with a \<open>RowEncodingError\<close>, never truncated.
\<close>
theorem Encode_accepts_iff_storable:
  "(\<exists>blob. Encode s vs = Inr blob \<and> length blob = EncodedSize s \<and> storable s vs)
     \<or> (\<exists>msg. Encode s vs = Inl (RowEncodingError msg)) \<and> (storable s vs = False)"
proof (cases "storable s vs")
  case True
  then have "length (row_bytes (PrimaryKeyIndex s) 0 vs) = EncodedSize s"
    unfolding storable_def EncodedSize_def by (rule length_row_bytes)
  then show ?thesis using True Encode_storable by blast
next
  case False
  then show ?thesis using Encode_accepts [of s vs] by blast
qed

text \<open>
  C31. Decoding what \<open>Encode\<close> produced, with the key the row was stored under, gives back every
  column's value, whatever bytes follow the blob.
\<close>
theorem Decode_Encode:
  assumes "Encode s vs = Inr blob"
    and "\<And>k. int k = PrimaryKeyIndex s \<Longrightarrow> vs ! k = IntV key"
  shows "Decode s key (blob @ post) = Inr vs"
proof -
  have st: "storable s vs"
    using assms(1) Encode_accepts [of s vs] by auto
  then have blob: "blob = row_bytes (PrimaryKeyIndex s) 0 vs" using assms(1) Encode_storable by auto
  show ?thesis using Decode_row_bytes [OF st assms(2)] blob by simp
qed

definition users_schema :: TableSchema where
  "users_schema = \<lparr>table_name = ''users'',
     columns = [\<lparr>cd_name = ''id'', cd_type = kInteger, is_primary_key = True\<rparr>,
                \<lparr>cd_name = ''name'', cd_type = kText, is_primary_key = False\<rparr>,
                \<lparr>cd_name = ''age'', cd_type = kInteger, is_primary_key = False\<rparr>]\<rparr>"

lemma users_pk [simp]: "PrimaryKeyIndex users_schema = 0"
  by (simp add: PrimaryKeyIndex_def users_schema_def)

lemma storable_users: "length t < 16 \<Longrightarrow> storable users_schema [IntV k, TextV t, IntV a]"
  by (simp add: storable_def users_pk) (simp add: users_schema_def fits_column_def TEXT_COLUMN_CAPACITY_def)

theorem Decode_Encode_witness:
  "\<exists>blob. Encode users_schema [IntV 7, TextV ''ann'', IntV (- 3)] = Inr blob
    \<and> Decode users_schema 7 (blob @ [1, 2, 3]) = Inr [IntV 7, TextV ''ann'', IntV (- 3)]"
  using Encode_storable [OF storable_users, of "''ann''" 7 "- 3"]
    Decode_Encode [of users_schema "[IntV 7, TextV ''ann'', IntV (- 3)]" _ 7 "[1, 2, 3]"] by simp

end
