(* ===== verification/Expr_Eval.thy ===== *)
theory Expr_Eval
  imports Ast
begin

text \<open>
  Rows in the executor (\<open>exec_row.h\<close>, \<open>exec_row.cpp\<close>) and the evaluation of expressions over
  them (\<open>expr_eval.h\<close>, \<open>expr_eval.cpp\<close>).
\<close>

section \<open>Rows\<close>

record Field =
  fd_table :: string
  fd_column :: string
  fd_value :: Value

type_synonym ExecRow = "Field list"

text \<open>The loop of the unqualified lookup; \<open>found\<close> is the pointer to the match so far.\<close>
fun find_unqualified :: "string \<Rightarrow> ExecRow \<Rightarrow> Value option \<Rightarrow> Value res" where
  "find_unqualified column [] found =
     (case found of None \<Rightarrow> Inl (ColumnResolutionError ''no column in this row'') | Some v \<Rightarrow> Inr v)"
| "find_unqualified column (f # fs) found =
     (if fd_column f = column then
        (if found \<noteq> None then Inl (ColumnResolutionError ''column is ambiguous'')
         else find_unqualified column fs (Some (fd_value f)))
      else find_unqualified column fs found)"

fun find_qualified :: "string \<Rightarrow> string \<Rightarrow> ExecRow \<Rightarrow> Value res" where
  "find_qualified table column [] = Inl (ColumnResolutionError ''no qualified column in this row'')"
| "find_qualified table column (f # fs) =
     (if fd_table f = table \<and> fd_column f = column then Inr (fd_value f)
      else find_qualified table column fs)"

definition Find :: "ExecRow \<Rightarrow> string option \<Rightarrow> string \<Rightarrow> Value res" where
  "Find row table column =
     (case table of
        Some t \<Rightarrow> find_qualified t column row
      | None \<Rightarrow> find_unqualified column row None)"

section \<open>Evaluation\<close>

definition LiteralToValue :: "Literal \<Rightarrow> Value" where
  "LiteralToValue l = (case l of LitInteger i \<Rightarrow> IntV i | LitText t \<Rightarrow> TextV t)"

definition CompareValues :: "Value \<Rightarrow> Value \<Rightarrow> int res" where
  "CompareValues a b =
     (case (a, b) of
        (IntV x, IntV y) \<Rightarrow> Inr (if sint x < sint y then - 1 else if sint x > sint y then 1 else 0)
      | (TextV x, TextV y) \<Rightarrow> Inr (if text_less x y then - 1 else if text_less y x then 1 else 0)
      | _ \<Rightarrow> Inl (EvalError ''cannot compare an INTEGER value with a TEXT value''))"

definition EvalValue :: "Expr \<Rightarrow> ExecRow \<Rightarrow> Value res" where
  "EvalValue e row =
     (case e of
        ColumnRefExpr table column \<Rightarrow> Find row table column
      | LiteralExpr l \<Rightarrow> Inr (LiteralToValue l)
      | _ \<Rightarrow> Inl (EvalError ''EvalValue: expected a value expression''))"

definition op_holds :: "ComparisonOp \<Rightarrow> int \<Rightarrow> bool" where
  "op_holds op c =
     (case op of kEq \<Rightarrow> c = 0 | kNeq \<Rightarrow> c \<noteq> 0 | kLt \<Rightarrow> c < 0 | kLte \<Rightarrow> c \<le> 0 | kGt \<Rightarrow> c > 0 | kGte \<Rightarrow> c \<ge> 0)"

fun EvalBool :: "Expr \<Rightarrow> ExecRow \<Rightarrow> bool res" where
  "EvalBool (ComparisonExpr op l r) row =
     (case EvalValue l row of
        Inl e \<Rightarrow> Inl e
      | Inr left \<Rightarrow>
          (case EvalValue r row of
             Inl e \<Rightarrow> Inl e
           | Inr right \<Rightarrow>
               (case CompareValues left right of
                  Inl e \<Rightarrow> Inl e
                | Inr c \<Rightarrow> Inr (op_holds op c))))"
| "EvalBool (AndExpr l r) row =
     (case EvalBool l row of Inl e \<Rightarrow> Inl e | Inr False \<Rightarrow> Inr False | Inr True \<Rightarrow> EvalBool r row)"
| "EvalBool (OrExpr l r) row =
     (case EvalBool l row of Inl e \<Rightarrow> Inl e | Inr True \<Rightarrow> Inr True | Inr False \<Rightarrow> EvalBool r row)"
| "EvalBool _ row = Inl (EvalError ''EvalBool: expected a boolean expression'')"

section \<open>Column resolution\<close>

definition named :: "string \<Rightarrow> ExecRow \<Rightarrow> ExecRow" where
  "named column row = filter (\<lambda>f. fd_column f = column) row"

lemma find_unqualified_named:
  "find_unqualified column row found =
     (case (found, named column row) of
        (None, []) \<Rightarrow> Inl (ColumnResolutionError ''no column in this row'')
      | (None, [f]) \<Rightarrow> Inr (fd_value f)
      | (Some v, []) \<Rightarrow> Inr v
      | _ \<Rightarrow> Inl (ColumnResolutionError ''column is ambiguous''))"
proof (induction row arbitrary: found)
  case Nil
  then show ?case by (simp add: named_def split: option.split)
next
  case (Cons f row)
  then show ?case by (auto simp: named_def split: option.split list.split)
qed

lemma find_qualified_filter:
  "find_qualified t c row = (case filter (\<lambda>f. fd_table f = t \<and> fd_column f = c) row of
     [] \<Rightarrow> Inl (ColumnResolutionError ''no qualified column in this row'') | f # _ \<Rightarrow> Inr (fd_value f))"
  by (induction row) auto

section \<open>Comparison\<close>

lemma CompareValues_types: "(\<exists>c. CompareValues a b = Inr c) \<longleftrightarrow> value_type a = value_type b"
  by (cases a; cases b) (simp_all add: CompareValues_def)

lemma CompareValues_eq: "CompareValues a b = Inr 0 \<longleftrightarrow> a = b"
proof (cases a; cases b)
  fix x y assume "a = IntV x" "b = IntV y"
  moreover have "x = y" if "\<not> sint x < sint y" "\<not> sint y < sint x"
    using that by (intro signed_word_eqI) simp
  ultimately show ?thesis by (auto simp: CompareValues_def)
next
  fix x y assume "a = TextV x" "b = TextV y"
  moreover have "x = y" if "\<not> text_less x y" "\<not> text_less y x"
    using that text_less_linear by blast
  ultimately show ?thesis by (auto simp: CompareValues_def)
qed (simp_all add: CompareValues_def)

definition three_way :: "int \<Rightarrow> int \<Rightarrow> int" where
  "three_way i j = (if i < j then - 1 else if i > j then 1 else 0)"

lemma three_way_swap: "three_way j i = - three_way i j"
  by (simp add: three_way_def)

lemma three_way_trans: "three_way i j = - 1 \<Longrightarrow> three_way j k = - 1 \<Longrightarrow> three_way i k = - 1"
  by (simp add: three_way_def split: if_splits)

lemma CompareValues_int: "CompareValues (IntV x) (IntV y) = Inr (three_way (sint x) (sint y))"
  unfolding CompareValues_def three_way_def by (simp only: prod.case Value.case)

lemma CompareValues_swap: "CompareValues a b = Inr c \<Longrightarrow> CompareValues b a = Inr (- c)"
proof (cases a; cases b)
  fix x y assume *: "CompareValues a b = Inr c" "a = TextV x" "b = TextV y"
  then show ?thesis
    using text_less_asym [of x y]
    by (cases "text_less x y"; cases "text_less y x") (simp_all add: CompareValues_def)
next
  fix x y assume *: "CompareValues a b = Inr c" "a = IntV x" "b = IntV y"
  then show ?thesis using three_way_swap [of "sint y" "sint x"] by (simp add: CompareValues_int)
qed (simp_all add: CompareValues_def)

lemma CompareValues_less_trans:
  assumes "CompareValues a b = Inr (- 1)" "CompareValues b c = Inr (- 1)"
  shows "CompareValues a c = Inr (- 1)"
proof (cases b)
  case (IntV y)
  then obtain x z where "a = IntV x" "c = IntV z" using assms by (cases a; cases c) (simp_all add: CompareValues_def)
  then show ?thesis using assms IntV three_way_trans [of "sint x" "sint y" "sint z"] by (simp add: CompareValues_int)
next
  case (TextV y)
  then obtain x z where "a = TextV x" "c = TextV z" using assms by (cases a; cases c) (simp_all add: CompareValues_def)
  then show ?thesis using assms TextV text_less_trans [of x y z] by (simp add: CompareValues_def split: if_splits)
qed

lemma CompareValues_range: "CompareValues a b = Inr c \<Longrightarrow> c = - 1 \<or> c = 0 \<or> c = 1"
  by (cases a; cases b) (auto simp: CompareValues_int three_way_def, auto simp: CompareValues_def split: if_splits)

text \<open>
  The orders of SQL, stated without the code's comparison: integers as signed numbers, texts
  lexicographically by their bytes. Values of different types are not ordered.
\<close>
definition value_less :: "Value \<Rightarrow> Value \<Rightarrow> bool" where
  "value_less a b =
     (case (a, b) of
        (IntV i, IntV j) \<Rightarrow> sint i < sint j
      | (TextV s, TextV t) \<Rightarrow> (map of_char s, map of_char t) \<in> lexord {(m, n). m < (n :: nat)}
      | _ \<Rightarrow> False)"

lemma text_less_lexord: "text_less s t \<longleftrightarrow> (map of_char s, map of_char t) \<in> lexord {(m, n). m < (n :: nat)}"
  by (induction s t rule: text_less.induct) (auto simp: neq_Nil_conv)

lemma value_less_simps [simp]:
  "value_less (IntV i) (IntV j) \<longleftrightarrow> sint i < sint j" "value_less (TextV s) (TextV t) \<longleftrightarrow> text_less s t"
  "\<not> value_less (IntV i) (TextV t)" "\<not> value_less (TextV s) (IntV j)"
  by (simp_all add: value_less_def text_less_lexord)

lemma CompareValues_less: "CompareValues a b = Inr (- 1) \<longleftrightarrow> value_less a b"
  by (cases a; cases b) (simp_all add: CompareValues_def)

lemma CompareValues_greater: "CompareValues a b = Inr 1 \<longleftrightarrow> value_less b a"
  using CompareValues_less [of b a] CompareValues_swap [of a b 1] CompareValues_swap [of b a "- 1"] by auto

text \<open>
  C36. \<open>CompareValues\<close> decides the order of SQL values: it answers -1 exactly when the first value is
  less (as a signed number, or lexicographically by bytes), 0 exactly when the values are equal, 1
  exactly when the second is less, and throws the \<open>EvalError\<close> exactly when the types differ. On values of one type that is a total
  order: one of the three holds, and \<open>less\<close> is transitive.
\<close>
theorem CompareValues_total_order:
  "(CompareValues a b = Inr (- 1) \<longleftrightarrow> value_less a b) \<and> (CompareValues a b = Inr 0 \<longleftrightarrow> a = b)
   \<and> (CompareValues a b = Inr 1 \<longleftrightarrow> value_less b a)
   \<and> (value_type a = value_type b \<longleftrightarrow> CompareValues a b \<in> {Inr (- 1), Inr 0, Inr 1})
   \<and> (value_type a \<noteq> value_type b \<longleftrightarrow> CompareValues a b = Inl (EvalError ''cannot compare an INTEGER value with a TEXT value''))
   \<and> {c. value_less a b \<and> value_less b c} \<subseteq> {c. value_less a c}"
proof (intro conjI)
  show "value_type a = value_type b \<longleftrightarrow> CompareValues a b \<in> {Inr (- 1), Inr 0, Inr 1}"
    using CompareValues_types [of a b] CompareValues_range [of a b] by auto
  show "value_type a \<noteq> value_type b \<longleftrightarrow>
      CompareValues a b = Inl (EvalError ''cannot compare an INTEGER value with a TEXT value'')"
    by (cases a; cases b) (simp_all add: CompareValues_def)
  show "{c. value_less a b \<and> value_less b c} \<subseteq> {c. value_less a c}"
    using CompareValues_less_trans [of a b] unfolding CompareValues_less by blast
qed (rule CompareValues_less CompareValues_eq CompareValues_greater)+

text \<open>
  C37. Column resolution: an unqualified name resolves exactly when one field of the row has it, and
  then to that field's value; with none or several it throws. A qualified name resolves to the
  first field with that table and column, and throws when there is none.
\<close>
theorem Find_resolution:
  "(Find row None column = Inr v \<longleftrightarrow> (\<exists>f. filter (\<lambda>f. fd_column f = column) row = [f] \<and> fd_value f = v))
   \<and> (Find row (Some table) column = Inr v \<longleftrightarrow>
        (\<exists>f fs. filter (\<lambda>f. fd_table f = table \<and> fd_column f = column) row = f # fs \<and> fd_value f = v))
   \<and> (\<exists>msg. Find row q column = Inl (ColumnResolutionError msg) \<or> (\<exists>v. Find row q column = Inr v))"
proof (intro conjI)
  show "Find row None column = Inr v \<longleftrightarrow> (\<exists>f. filter (\<lambda>f. fd_column f = column) row = [f] \<and> fd_value f = v)"
    by (auto simp: Find_def find_unqualified_named named_def split: list.split)
  show "Find row (Some table) column = Inr v \<longleftrightarrow>
        (\<exists>f fs. filter (\<lambda>f. fd_table f = table \<and> fd_column f = column) row = f # fs \<and> fd_value f = v)"
    by (auto simp: Find_def find_qualified_filter split: list.split)
  show "\<exists>msg. Find row q column = Inl (ColumnResolutionError msg) \<or> (\<exists>v. Find row q column = Inr v)"
    by (cases q) (auto simp: Find_def find_unqualified_named find_qualified_filter split: list.split)
qed

section \<open>Expressions that cannot fail\<close>

text \<open>The type of a value expression, given the types column references resolve to.\<close>
fun value_expr_type :: "(string option \<Rightarrow> string \<Rightarrow> ColumnType option) \<Rightarrow> Expr \<Rightarrow> ColumnType option" where
  "value_expr_type env (ColumnRefExpr t c) = env t c"
| "value_expr_type env (LiteralExpr l) = Some (value_type (LiteralToValue l))"
| "value_expr_type env _ = None"

text \<open>A condition whose operands resolve and have the same types.\<close>
fun well_typed :: "(string option \<Rightarrow> string \<Rightarrow> ColumnType option) \<Rightarrow> Expr \<Rightarrow> bool" where
  "well_typed env (ComparisonExpr op l r) \<longleftrightarrow>
     value_expr_type env l \<noteq> None \<and> value_expr_type env l = value_expr_type env r"
| "well_typed env (AndExpr l r) \<longleftrightarrow> well_typed env l \<and> well_typed env r"
| "well_typed env (OrExpr l r) \<longleftrightarrow> well_typed env l \<and> well_typed env r"
| "well_typed env _ \<longleftrightarrow> False"

text \<open>The types a row gives to column references.\<close>
definition row_env :: "ExecRow \<Rightarrow> string option \<Rightarrow> string \<Rightarrow> ColumnType option" where
  "row_env row t c = (case Find row t c of Inl _ \<Rightarrow> None | Inr v \<Rightarrow> Some (value_type v))"

lemma EvalValue_typed: "value_expr_type (row_env row) e = Some ty \<Longrightarrow> \<exists>v. EvalValue e row = Inr v \<and> value_type v = ty"
  by (cases e) (auto simp: EvalValue_def row_env_def split: sum.splits)

section \<open>The meaning of a condition\<close>

text \<open>
  What a condition says of a row, without errors: a column is the first of its qualified name, or the only one of
  its unqualified name; a comparison holds when both sides are values in that relation, AND and OR are those of logic.
\<close>

definition column_value :: "ExecRow \<Rightarrow> string option \<Rightarrow> string \<Rightarrow> Value option" where
  "column_value row table column =
     (case filter (\<lambda>f. fd_column f = column \<and> (table = None \<or> table = Some (fd_table f))) row of
        [] \<Rightarrow> None
      | f # fs \<Rightarrow> if table = None \<and> fs \<noteq> [] then None else Some (fd_value f))"

fun operand_value :: "Expr \<Rightarrow> ExecRow \<Rightarrow> Value option" where
  "operand_value (ColumnRefExpr table column) row = column_value row table column"
| "operand_value (LiteralExpr (LitInteger i)) row = Some (IntV i)"
| "operand_value (LiteralExpr (LitText t)) row = Some (TextV t)"
| "operand_value _ row = None"

fun compares :: "ComparisonOp \<Rightarrow> Value \<Rightarrow> Value \<Rightarrow> bool" where
  "compares kEq a b \<longleftrightarrow> a = b"
| "compares kNeq a b \<longleftrightarrow> value_less a b \<or> value_less b a"
| "compares kLt a b \<longleftrightarrow> value_less a b"
| "compares kLte a b \<longleftrightarrow> value_less a b \<or> a = b"
| "compares kGt a b \<longleftrightarrow> value_less b a"
| "compares kGte a b \<longleftrightarrow> value_less b a \<or> a = b"

fun cond_holds :: "Expr \<Rightarrow> ExecRow \<Rightarrow> bool" where
  "cond_holds (ComparisonExpr op l r) row \<longleftrightarrow>
     (\<exists>a \<in> set_option (operand_value l row). \<exists>b \<in> set_option (operand_value r row). compares op a b)"
| "cond_holds (AndExpr l r) row \<longleftrightarrow> cond_holds l row \<and> cond_holds r row"
| "cond_holds (OrExpr l r) row \<longleftrightarrow> cond_holds l row \<or> cond_holds r row"
| "cond_holds _ row \<longleftrightarrow> False"

lemma op_holds_compares:
  assumes "CompareValues a b = Inr c"
  shows "op_holds op c \<longleftrightarrow> compares op a b"
proof -
  consider "c = - 1" | "c = 0" | "c = 1" using CompareValues_range [OF assms] by blast
  then show ?thesis
  proof cases
    case 1
    then have "value_less a b" "\<not> value_less b a" "a \<noteq> b"
      using assms CompareValues_less [of a b] CompareValues_greater [of a b] CompareValues_eq [of a b] by simp_all
    then show ?thesis using 1 by (cases op) (simp_all add: op_holds_def)
  next
    case 2
    then have "\<not> value_less a b" "\<not> value_less b a" "a = b"
      using assms CompareValues_less [of a b] CompareValues_greater [of a b] CompareValues_eq [of a b] by simp_all
    then show ?thesis using 2 by (cases op) (simp_all add: op_holds_def)
  next
    case 3
    then have "\<not> value_less a b" "value_less b a" "a \<noteq> b"
      using assms CompareValues_less [of a b] CompareValues_greater [of a b] CompareValues_eq [of a b] by simp_all
    then show ?thesis using 3 by (cases op) (simp_all add: op_holds_def)
  qed
qed

lemma column_value_Find: "column_value row t c = Some v \<longleftrightarrow> Find row t c = Inr v"
proof (cases t)
  case None
  then show ?thesis by (auto simp: column_value_def Find_def find_unqualified_named named_def split: list.split)
next
  case (Some a)
  have "filter (\<lambda>f. fd_column f = c \<and> (t = None \<or> t = Some (fd_table f))) row = filter (\<lambda>f. fd_table f = a \<and> fd_column f = c) row"
    by (rule filter_cong) (auto simp: Some)
  then show ?thesis using Some by (auto simp: column_value_def Find_def find_qualified_filter split: list.split)
qed

lemma operand_value_EvalValue: "operand_value e row = Some v \<longleftrightarrow> EvalValue e row = Inr v"
  by (cases "(e, row)" rule: operand_value.cases) (auto simp: EvalValue_def LiteralToValue_def column_value_Find)

text \<open>When evaluation does not throw, it computes the meaning.\<close>

lemma EvalBool_cond_holds: "EvalBool e row = Inr b \<Longrightarrow> b = cond_holds e row"
proof (induction e arbitrary: b)
  case (ComparisonExpr op l r)
  then obtain x y c where xy: "EvalValue l row = Inr x" "EvalValue r row = Inr y" "CompareValues x y = Inr c" "b = op_holds op c"
    by (auto split: sum.splits)
  then have "operand_value l row = Some x" "operand_value r row = Some y" by (simp_all add: operand_value_EvalValue)
  then show ?case using op_holds_compares [OF xy(3)] xy(4) by simp
next
  case (AndExpr l r)
  then show ?case by (auto split: sum.splits bool.splits)
next
  case (OrExpr l r)
  then show ?case by (auto split: sum.splits bool.splits)
qed simp_all

lemma well_typed_no_throw: "well_typed (row_env row) e \<Longrightarrow> \<exists>b. EvalBool e row = Inr b"
proof (induction e)
  case (ComparisonExpr op l r)
  then have eq: "value_expr_type (row_env row) l = value_expr_type (row_env row) r" by simp
  from ComparisonExpr obtain ty where "value_expr_type (row_env row) l = Some ty" unfolding well_typed.simps by blast
  with eq have "value_expr_type (row_env row) l = Some ty" "value_expr_type (row_env row) r = Some ty" by simp_all
  then obtain a b where ab: "EvalValue l row = Inr a" "EvalValue r row = Inr b" "value_type a = value_type b"
    using EvalValue_typed by metis
  then obtain c where "CompareValues a b = Inr c" using CompareValues_types by blast
  then show ?case using ab by simp
next
  case (AndExpr l r)
  then obtain a b where "EvalBool l row = Inr a" "EvalBool r row = Inr b" by auto
  then show ?case by (cases a) auto
next
  case (OrExpr l r)
  then obtain a b where "EvalBool l row = Inr a" "EvalBool r row = Inr b" by auto
  then show ?case by (cases a) auto
qed simp_all

text \<open>
  C32. Type soundness: on a row where every column of a condition resolves and the operands of every
  comparison have the same type, evaluation does not throw, and its answer is the condition's
  meaning: comparisons are those of signed numbers and of texts, AND and OR are the logical ones, so
  the order of evaluation does not show.
\<close>
theorem EvalBool_type_sound:
  assumes "well_typed (row_env row) e"
  shows "EvalBool e row = Inr (cond_holds e row)"
  using well_typed_no_throw [OF assms] EvalBool_cond_holds by fastforce

theorem EvalBool_type_sound_witness:
  "EvalBool (OrExpr (ComparisonExpr kLt (ColumnRefExpr None ''a'') (LiteralExpr (LitInteger 5)))
              (ComparisonExpr kEq (ColumnRefExpr (Some ''t'') ''b'') (LiteralExpr (LitText ''x''))))
     [\<lparr>fd_table = ''t'', fd_column = ''a'', fd_value = IntV 9\<rparr>, \<lparr>fd_table = ''t'', fd_column = ''b'', fd_value = TextV ''x''\<rparr>]
   = Inr True"
  using EvalBool_type_sound [of
    "[\<lparr>fd_table = ''t'', fd_column = ''a'', fd_value = IntV 9\<rparr>, \<lparr>fd_table = ''t'', fd_column = ''b'', fd_value = TextV ''x''\<rparr>]"
    "OrExpr (ComparisonExpr kLt (ColumnRefExpr None ''a'') (LiteralExpr (LitInteger 5)))
              (ComparisonExpr kEq (ColumnRefExpr (Some ''t'') ''b'') (LiteralExpr (LitText ''x'')))"]
  by (simp add: row_env_def Find_def LiteralToValue_def column_value_def)

end
