(* ===== verification/Token.thy ===== *)
theory Token
  imports Prelude
begin

text \<open>
  Tokens (\<open>token.h\<close>, \<open>token.cpp\<close>) and the classification of characters the lexer takes from the
  C library, in the "C" locale the engine runs in.
\<close>

section \<open>Tokens\<close>

datatype TokenType =
    CREATE | TABLE | INSERT | INTO | VALUES | SELECT | FROM | WHERE | JOIN | ON | AS | AND | OR
  | PRIMARY | KEY | INTEGER_TYPE | TEXT_TYPE
  | IDENTIFIER | INTEGER_LITERAL | STRING_LITERAL
  | STAR | COMMA | DOT | SEMICOLON | LPAREN | RPAREN | EQ | NEQ | LT | LTE | GT | GTE
  | END_OF_INPUT

record Token =
  tok_type :: TokenType
  tok_text :: string
  tok_int :: i64
  tok_string :: string
  tok_line :: int
  tok_column :: int

fun TokenTypeName :: "TokenType \<Rightarrow> string" where
  "TokenTypeName CREATE = ''CREATE''"
| "TokenTypeName TABLE = ''TABLE''"
| "TokenTypeName INSERT = ''INSERT''"
| "TokenTypeName INTO = ''INTO''"
| "TokenTypeName VALUES = ''VALUES''"
| "TokenTypeName SELECT = ''SELECT''"
| "TokenTypeName FROM = ''FROM''"
| "TokenTypeName WHERE = ''WHERE''"
| "TokenTypeName JOIN = ''JOIN''"
| "TokenTypeName ON = ''ON''"
| "TokenTypeName AS = ''AS''"
| "TokenTypeName AND = ''AND''"
| "TokenTypeName OR = ''OR''"
| "TokenTypeName PRIMARY = ''PRIMARY''"
| "TokenTypeName KEY = ''KEY''"
| "TokenTypeName INTEGER_TYPE = ''INTEGER''"
| "TokenTypeName TEXT_TYPE = ''TEXT''"
| "TokenTypeName IDENTIFIER = ''identifier''"
| "TokenTypeName INTEGER_LITERAL = ''integer literal''"
| "TokenTypeName STRING_LITERAL = ''string literal''"
| "TokenTypeName STAR = [CHR 0x27, CHR ''*'', CHR 0x27]"
| "TokenTypeName COMMA = [CHR 0x27, CHR '','', CHR 0x27]"
| "TokenTypeName DOT = [CHR 0x27, CHR ''.'', CHR 0x27]"
| "TokenTypeName SEMICOLON = [CHR 0x27, CHR '';'', CHR 0x27]"
| "TokenTypeName LPAREN = [CHR 0x27, CHR ''('', CHR 0x27]"
| "TokenTypeName RPAREN = [CHR 0x27, CHR '')'', CHR 0x27]"
| "TokenTypeName EQ = [CHR 0x27, CHR ''='', CHR 0x27]"
| "TokenTypeName NEQ = [CHR 0x27, CHR ''!'', CHR ''='', CHR 0x27]"
| "TokenTypeName LT = [CHR 0x27, CHR ''<'', CHR 0x27]"
| "TokenTypeName LTE = [CHR 0x27, CHR ''<'', CHR ''='', CHR 0x27]"
| "TokenTypeName GT = [CHR 0x27, CHR ''>'', CHR 0x27]"
| "TokenTypeName GTE = [CHR 0x27, CHR ''>'', CHR ''='', CHR 0x27]"
| "TokenTypeName END_OF_INPUT = ''end of input''"

section \<open>Characters\<close>

definition code :: "char \<Rightarrow> nat" where
  "code c = of_char c"

definition isdigit :: "char \<Rightarrow> bool" where
  "isdigit c \<longleftrightarrow> 48 \<le> code c \<and> code c \<le> 57"

definition islower :: "char \<Rightarrow> bool" where
  "islower c \<longleftrightarrow> 97 \<le> code c \<and> code c \<le> 122"

definition isupper :: "char \<Rightarrow> bool" where
  "isupper c \<longleftrightarrow> 65 \<le> code c \<and> code c \<le> 90"

definition isalpha :: "char \<Rightarrow> bool" where
  "isalpha c \<longleftrightarrow> islower c \<or> isupper c"

definition isalnum :: "char \<Rightarrow> bool" where
  "isalnum c \<longleftrightarrow> isalpha c \<or> isdigit c"

definition isspace :: "char \<Rightarrow> bool" where
  "isspace c \<longleftrightarrow> code c = 32 \<or> (9 \<le> code c \<and> code c \<le> 13)"

definition toupper :: "char \<Rightarrow> char" where
  "toupper c = (if islower c then char_of (code c - 32) else c)"

definition ToUpper :: "string \<Rightarrow> string" where
  "ToUpper s = map toupper s"

lemmas char_class_defs = isdigit_def islower_def isupper_def isalpha_def isalnum_def isspace_def

end
