(* ===== verification/Lexer.thy ===== *)
theory Lexer
  imports Token
begin

text \<open>
  The lexer (\<open>lexer.h\<close>, \<open>lexer.cpp\<close>). Its state is the part of the source that is left (the
  suffix at \<open>pos_\<close>), the line and the column. \<open>Tokenize\<close> terminates on every input.
\<close>

section \<open>State and character access\<close>

record Lexer =
  lx_rest :: string
  lx_line :: int
  lx_column :: int

definition Lexer_new :: "string \<Rightarrow> Lexer" where
  "Lexer_new source = \<lparr>lx_rest = source, lx_line = 1, lx_column = 1\<rparr>"

definition IsAtEnd :: "Lexer \<Rightarrow> bool" where
  "IsAtEnd lx \<longleftrightarrow> lx_rest lx = []"

definition Peek :: "Lexer \<Rightarrow> char" where
  "Peek lx = (case lx_rest lx of [] \<Rightarrow> CHR 0x00 | c # _ \<Rightarrow> c)"

text \<open>\<open>Advance\<close> is only called when a character is left.\<close>
definition Advance :: "Lexer \<Rightarrow> Lexer" where
  "Advance lx = (case lx_rest lx of
     [] \<Rightarrow> lx
   | c # cs \<Rightarrow>
       if c = CHR 0x0A then \<lparr>lx_rest = cs, lx_line = lx_line lx + 1, lx_column = 1\<rparr>
       else \<lparr>lx_rest = cs, lx_line = lx_line lx, lx_column = lx_column lx + 1\<rparr>)"

lemma rest_Advance [simp]: "lx_rest (Advance lx) = tl (lx_rest lx)"
  by (simp add: Advance_def split: list.split)

lemma Peek_some: "Peek lx = c \<Longrightarrow> c \<noteq> CHR 0x00 \<Longrightarrow> \<exists>cs. lx_rest lx = c # cs"
  by (auto simp: Peek_def split: list.splits)

lemma Peek_Cons [simp]: "lx_rest lx = c # cs \<Longrightarrow> Peek lx = c"
  by (simp add: Peek_def)

function advance_while :: "(char \<Rightarrow> bool) \<Rightarrow> Lexer \<Rightarrow> string \<Rightarrow> string \<times> Lexer" where
  "advance_while P lx acc =
     (if \<not> IsAtEnd lx \<and> P (Peek lx) then advance_while P (Advance lx) (acc @ [Peek lx]) else (acc, lx))"
  by pat_completeness auto
termination
  by (relation "measure (\<lambda>(P, lx, acc). length (lx_rest lx))") (auto simp: IsAtEnd_def)

declare advance_while.simps [simp del]

definition SkipWhitespace :: "Lexer \<Rightarrow> Lexer" where
  "SkipWhitespace lx = snd (advance_while isspace lx [])"

section \<open>One token\<close>

definition KeywordTable :: "(string \<times> TokenType) list" where
  "KeywordTable =
     [(''CREATE'', CREATE), (''TABLE'', TABLE), (''INSERT'', INSERT), (''INTO'', INTO), (''VALUES'', VALUES),
      (''SELECT'', SELECT), (''FROM'', FROM), (''WHERE'', WHERE), (''JOIN'', JOIN), (''ON'', ON), (''AS'', AS),
      (''AND'', AND), (''OR'', OR), (''PRIMARY'', PRIMARY), (''KEY'', KEY), (''INTEGER'', INTEGER_TYPE),
      (''TEXT'', TEXT_TYPE)]"

definition MakeToken :: "TokenType \<Rightarrow> string \<Rightarrow> Lexer \<Rightarrow> Token" where
  "MakeToken ty acc lx =
     \<lparr>tok_type = ty, tok_text = acc, tok_int = 0, tok_string = [], tok_line = lx_line lx,
      tok_column = lx_column lx - int (length acc)\<rparr>"

definition LexIdentifierOrKeyword :: "Lexer \<Rightarrow> Token \<times> Lexer" where
  "LexIdentifierOrKeyword lx =
     (let (acc, lx') = advance_while (\<lambda>c. isalnum c \<or> c = CHR ''_'') lx []
      in (\<lparr>tok_type = (case map_of KeywordTable (ToUpper acc) of Some ty \<Rightarrow> ty | None \<Rightarrow> IDENTIFIER),
           tok_text = acc, tok_int = 0, tok_string = [], tok_line = lx_line lx, tok_column = lx_column lx\<rparr>, lx'))"

text \<open>\<open>std::stoll\<close> on a string of digits.\<close>
definition digits_value :: "string \<Rightarrow> nat" where
  "digits_value acc = foldl (\<lambda>n c. 10 * n + (code c - 48)) 0 acc"

definition stoll :: "string \<Rightarrow> i64 res" where
  "stoll acc = (if digits_value acc < 2 ^ 63 then Inr (of_nat (digits_value acc)) else Inl (OutOfRange ''stoll''))"

definition LexNumber :: "Lexer \<Rightarrow> (Token \<times> Lexer) res" where
  "LexNumber lx =
     (let (acc, lx') = advance_while isdigit lx []
      in case stoll acc of
           Inl e \<Rightarrow> Inl e
         | Inr v \<Rightarrow> Inr (\<lparr>tok_type = INTEGER_LITERAL, tok_text = acc, tok_int = v, tok_string = [],
                          tok_line = lx_line lx, tok_column = lx_column lx\<rparr>, lx'))"

text \<open>The loop of \<open>LexString\<close>, behind the opening quote; \<open>sl\<close> and \<open>sc\<close> are the start position.\<close>
function lex_string_loop :: "int \<Rightarrow> int \<Rightarrow> Lexer \<Rightarrow> string \<Rightarrow> (string \<times> Lexer) res" where
  "lex_string_loop sl sc lx val =
     (if IsAtEnd lx then Inl (LexError ''unterminated string literal'' sl sc)
      else if Peek lx = CHR 0x27 then
        (let lx1 = Advance lx in
         if Peek lx1 = CHR 0x27 then lex_string_loop sl sc (Advance lx1) (val @ [CHR 0x27])
         else Inr (val, lx1))
      else lex_string_loop sl sc (Advance lx) (val @ [Peek lx]))"
  by pat_completeness auto
termination
  by (relation "measure (\<lambda>(sl, sc, lx, val). length (lx_rest lx))") (auto simp: IsAtEnd_def neq_Nil_conv dest: Peek_some)

declare lex_string_loop.simps [simp del]

definition LexString :: "Lexer \<Rightarrow> (Token \<times> Lexer) res" where
  "LexString lx =
     (case lex_string_loop (lx_line lx) (lx_column lx) (Advance lx) [] of
        Inl e \<Rightarrow> Inl e
      | Inr (val, lx') \<Rightarrow>
          Inr (\<lparr>tok_type = STRING_LITERAL, tok_text = val, tok_int = 0, tok_string = val,
                tok_line = lx_line lx, tok_column = lx_column lx\<rparr>, lx'))"

text \<open>The punctuation branches of the loop of \<open>Tokenize\<close>.\<close>
definition lex_punctuation :: "Lexer \<Rightarrow> (Token \<times> Lexer) res" where
  "lex_punctuation lx =
     (let c = Peek lx; lx1 = Advance lx;
          one = (\<lambda>ty. Inr (MakeToken ty [c] lx1, lx1));
          eq = (Peek lx1 = CHR ''=''); lx2 = Advance lx1;
          two = (\<lambda>ty. Inr (MakeToken ty [c, CHR ''=''] lx2, lx2))
      in if c = CHR ''*'' then one STAR
         else if c = CHR '','' then one COMMA
         else if c = CHR ''.'' then one DOT
         else if c = CHR '';'' then one SEMICOLON
         else if c = CHR ''('' then one LPAREN
         else if c = CHR '')'' then one RPAREN
         else if c = CHR ''='' then one EQ
         else if c = CHR ''<'' then (if eq then two LTE else one LT)
         else if c = CHR ''>'' then (if eq then two GTE else one GT)
         else if c = CHR ''!'' then
           (if eq then two NEQ
            else Inl (LexError ''unexpected character ! (did you mean !=?)'' (lx_line lx) (lx_column lx)))
         else Inl (LexError ''unexpected character'' (lx_line lx) (lx_column lx)))"

definition lex_token :: "Lexer \<Rightarrow> (Token \<times> Lexer) res" where
  "lex_token lx =
     (if isalpha (Peek lx) \<or> Peek lx = CHR ''_'' then Inr (LexIdentifierOrKeyword lx)
      else if isdigit (Peek lx) then LexNumber lx
      else if Peek lx = CHR 0x27 then LexString lx
      else lex_punctuation lx)"

lemma advance_while_shorter: "length (lx_rest (snd (advance_while P lx acc))) \<le> length (lx_rest lx)"
proof (induction P lx acc rule: advance_while.induct)
  case (1 P lx acc)
  then show ?case by (subst advance_while.simps) (auto simp: IsAtEnd_def)
qed

lemma advance_while_consumes:
  "lx_rest lx \<noteq> [] \<Longrightarrow> P (Peek lx) \<Longrightarrow> length (lx_rest (snd (advance_while P lx acc))) < length (lx_rest lx)"
  using advance_while_shorter [of P "Advance lx" "acc @ [Peek lx]"]
  by (subst advance_while.simps) (auto simp: IsAtEnd_def neq_Nil_conv)

lemma lex_string_loop_shorter:
  "lex_string_loop sl sc lx val = Inr (v, lx') \<Longrightarrow> length (lx_rest lx') \<le> length (lx_rest lx)"
proof (induction sl sc lx val rule: lex_string_loop.induct)
  case (1 sl sc lx val)
  show ?case using 1(3) 1(1,2)
    by (subst (asm) (1) lex_string_loop.simps) (fastforce simp: Let_def split: if_splits)
qed

lemma lex_token_consumes:
  assumes "lx_rest lx \<noteq> []" "lex_token lx = Inr (t, lx')"
  shows "length (lx_rest lx') < length (lx_rest lx)"
proof -
  obtain c cs where r: "lx_rest lx = c # cs" using assms(1) by (auto simp: neq_Nil_conv)
  have ident: "length (lx_rest lx') < length (lx_rest lx)" if "LexIdentifierOrKeyword lx = (t, lx')" "isalpha c \<or> c = CHR ''_''"
    using that advance_while_consumes [OF assms(1), of "\<lambda>c. isalnum c \<or> c = CHR ''_''" "[]"] r
    by (auto simp: LexIdentifierOrKeyword_def isalnum_def split: prod.splits)
  have number: "length (lx_rest lx') < length (lx_rest lx)" if "LexNumber lx = Inr (t, lx')" "isdigit c"
    using that advance_while_consumes [OF assms(1), of isdigit "[]"] r
    by (auto simp: LexNumber_def split: prod.splits sum.splits)
  have string: "length (lx_rest lx') < length (lx_rest lx)" if "LexString lx = Inr (t, lx')"
    using that lex_string_loop_shorter [of "lx_line lx" "lx_column lx" "Advance lx" "[]"] r
    by (fastforce simp: LexString_def split: prod.splits sum.splits)
  have punct: "length (lx_rest lx') < length (lx_rest lx)" if "lex_punctuation lx = Inr (t, lx')"
    using that r by (auto simp: lex_punctuation_def Let_def split: if_splits)
  show ?thesis using assms(2) r ident number string punct by (auto simp: lex_token_def split: if_splits)
qed

section \<open>The whole input\<close>

function tokenize_loop :: "Lexer \<Rightarrow> Token list \<Rightarrow> Token list res" where
  "tokenize_loop lx tokens =
     (let lx1 = SkipWhitespace lx in
      if IsAtEnd lx1 then
        Inr (tokens @ [\<lparr>tok_type = END_OF_INPUT, tok_text = [], tok_int = 0, tok_string = [],
                        tok_line = lx_line lx1, tok_column = lx_column lx1\<rparr>])
      else case lex_token lx1 of
             Inl e \<Rightarrow> Inl e
           | Inr (t, lx2) \<Rightarrow> tokenize_loop lx2 (tokens @ [t]))"
  by pat_completeness auto
termination
proof (relation "measure (\<lambda>(lx, tokens). length (lx_rest lx))", goal_cases)
  case (2 lx tokens lx1 b t lx2)
  have "length (lx_rest (SkipWhitespace lx)) \<le> length (lx_rest lx)"
    unfolding SkipWhitespace_def by (rule advance_while_shorter)
  moreover have "length (lx_rest lx2) < length (lx_rest lx1)"
    by (rule lex_token_consumes [of _ t]) (use 2 in \<open>auto simp: IsAtEnd_def\<close>)
  ultimately show ?case using 2 by simp
qed simp

declare tokenize_loop.simps [simp del]

definition Tokenize :: "Lexer \<Rightarrow> Token list res" where
  "Tokenize lx = tokenize_loop lx []"

end
