(* ===== verification/Parser.thy ===== *)
theory Parser
  imports Lexer Ast
begin

text \<open>
  The recursive-descent parser (\<open>parser.h\<close>, \<open>parser.cpp\<close>). Its state is the list of tokens from
  \<open>pos_\<close> on, which is never empty; \<open>Advance\<close> does not move past the last token. A grammar rule is
  a function from that state to a result and the new state, or to a parse error. The loops and
  the recursion of the rules carry a bound on their depth, and \<open>None\<close> means the bound was too
  small: on a token list that ends with \<open>END_OF_INPUT\<close>, as every list \<open>Tokenize\<close> returns does, the
  bound \<open>ParseSQL\<close> passes is shown to be enough.
\<close>

section \<open>Token access\<close>

type_synonym 'a parser = "Token list \<Rightarrow> ('a \<times> Token list) res option"

definition ret :: "'a \<Rightarrow> 'a parser" where
  "ret x ts = Some (Inr (x, ts))"

definition pbind :: "'a parser \<Rightarrow> ('a \<Rightarrow> 'b parser) \<Rightarrow> 'b parser" where
  "pbind p f ts =
     (case p ts of None \<Rightarrow> None | Some (Inl e) \<Rightarrow> Some (Inl e) | Some (Inr (x, ts')) \<Rightarrow> f x ts')"

definition PeekToken :: "Token list \<Rightarrow> Token" where
  "PeekToken ts = hd ts"

definition AdvanceToken :: "Token list \<Rightarrow> Token list" where
  "AdvanceToken ts = (if length ts \<le> 1 then ts else tl ts)"

definition Check :: "TokenType \<Rightarrow> Token list \<Rightarrow> bool" where
  "Check ty ts \<longleftrightarrow> tok_type (PeekToken ts) = ty"

definition Match :: "TokenType \<Rightarrow> bool parser" where
  "Match ty ts = (if Check ty ts then ret True (AdvanceToken ts) else ret False ts)"

definition Error :: "string \<Rightarrow> 'a parser" where
  "Error what ts = Some (Inl (ParseError what (tok_line (PeekToken ts)) (tok_column (PeekToken ts))))"

definition Expect :: "TokenType \<Rightarrow> string \<Rightarrow> Token parser" where
  "Expect ty what ts = (if \<not> Check ty ts then Error (''expected '' @ what) ts else ret (PeekToken ts) (AdvanceToken ts))"

text \<open>The choice a rule makes on the type of the next token.\<close>
definition if_check :: "TokenType \<Rightarrow> 'a parser \<Rightarrow> 'a parser \<Rightarrow> 'a parser" where
  "if_check ty p q ts = (if Check ty ts then p ts else q ts)"

section \<open>Identifiers, literals, types\<close>

definition ParseIdent :: "string parser" where
  "ParseIdent = pbind (Expect IDENTIFIER ''an identifier'') (\<lambda>t. ret (tok_text t))"

definition advance_get :: "Token parser" where
  "advance_get ts = ret (PeekToken ts) (AdvanceToken ts)"

definition ParseLiteral :: "Literal parser" where
  "ParseLiteral =
     if_check INTEGER_LITERAL (pbind advance_get (\<lambda>t. ret (LitInteger (tok_int t))))
     (if_check STRING_LITERAL (pbind advance_get (\<lambda>t. ret (LitText (tok_string t))))
      (Error ''expected a literal value (an integer or a quoted string)''))"

definition ParseTypeName :: "ColumnType parser" where
  "ParseTypeName =
     pbind (Match INTEGER_TYPE) (\<lambda>b. if b then ret kInteger else
       pbind (Match TEXT_TYPE) (\<lambda>b. if b then ret kText else
         Error ''expected a column type (INTEGER or TEXT)''))"

definition ParseColumnDef :: "ColumnDef parser" where
  "ParseColumnDef =
     pbind ParseIdent (\<lambda>name. pbind ParseTypeName (\<lambda>ty. pbind (Match PRIMARY) (\<lambda>b.
       if b then pbind (Expect KEY ''KEY after PRIMARY'')
                   (\<lambda>_. ret \<lparr>cd_name = name, cd_type = ty, is_primary_key = True\<rparr>)
       else ret \<lparr>cd_name = name, cd_type = ty, is_primary_key = False\<rparr>)))"

text \<open>\<open>while (Match(COMMA)) xs.push_back(p())\<close>\<close>
fun comma_loop :: "nat \<Rightarrow> 'a parser \<Rightarrow> 'a list \<Rightarrow> 'a list parser" where
  "comma_loop 0 p xs = (\<lambda>ts. None)"
| "comma_loop (Suc n) p xs =
     pbind (Match COMMA) (\<lambda>b. if b then pbind p (\<lambda>x. comma_loop n p (xs @ [x])) else ret xs)"

definition comma_list :: "nat \<Rightarrow> 'a parser \<Rightarrow> 'a list parser" where
  "comma_list n p = pbind p (\<lambda>x. comma_loop n p [x])"

section \<open>Expressions\<close>

definition ParseComparisonOp :: "ComparisonOp parser" where
  "ParseComparisonOp =
     if_check EQ (pbind advance_get (\<lambda>_. ret kEq))
     (if_check NEQ (pbind advance_get (\<lambda>_. ret kNeq))
     (if_check LT (pbind advance_get (\<lambda>_. ret kLt))
     (if_check LTE (pbind advance_get (\<lambda>_. ret kLte))
     (if_check GT (pbind advance_get (\<lambda>_. ret kGt))
     (if_check GTE (pbind advance_get (\<lambda>_. ret kGte))
      (Error ''expected a comparison operator (=, !=, <, <=, >, or >=)''))))))"

text \<open>\<open>(ident ".")? ident\<close>\<close>
definition ParseColumnRef :: "(string option \<times> string) parser" where
  "ParseColumnRef =
     pbind ParseIdent (\<lambda>first. pbind (Match DOT) (\<lambda>b.
       if b then pbind ParseIdent (\<lambda>column. ret (Some first, column)) else ret (None, first)))"

definition ParseValue :: "Expr parser" where
  "ParseValue =
     if_check IDENTIFIER (pbind ParseColumnRef (\<lambda>(table, column). ret (ColumnRefExpr table column)))
     (if_check INTEGER_LITERAL (pbind ParseLiteral (\<lambda>l. ret (LiteralExpr l)))
     (if_check STRING_LITERAL (pbind ParseLiteral (\<lambda>l. ret (LiteralExpr l)))
      (Error ''expected a column reference or a literal value'')))"

definition ParseComparison :: "Expr parser" where
  "ParseComparison =
     pbind ParseValue (\<lambda>left. pbind ParseComparisonOp (\<lambda>op. pbind ParseValue (\<lambda>right.
       ret (ComparisonExpr op left right))))"

fun ParseExpr :: "nat \<Rightarrow> Expr parser"
  and or_loop :: "nat \<Rightarrow> Expr \<Rightarrow> Expr parser"
  and ParseAndExpr :: "nat \<Rightarrow> Expr parser"
  and and_loop :: "nat \<Rightarrow> Expr \<Rightarrow> Expr parser"
  and ParsePrimaryExpr :: "nat \<Rightarrow> Expr parser"
where
  "ParseExpr 0 = (\<lambda>ts. None)"
| "ParseExpr (Suc n) = pbind (ParseAndExpr n) (\<lambda>left. or_loop n left)"
| "or_loop 0 left = (\<lambda>ts. None)"
| "or_loop (Suc n) left =
     pbind (Match OR) (\<lambda>b. if b then pbind (ParseAndExpr n) (\<lambda>right. or_loop n (OrExpr left right)) else ret left)"
| "ParseAndExpr 0 = (\<lambda>ts. None)"
| "ParseAndExpr (Suc n) = pbind (ParsePrimaryExpr n) (\<lambda>left. and_loop n left)"
| "and_loop 0 left = (\<lambda>ts. None)"
| "and_loop (Suc n) left =
     pbind (Match AND) (\<lambda>b. if b then pbind (ParsePrimaryExpr n) (\<lambda>right. and_loop n (AndExpr left right)) else ret left)"
| "ParsePrimaryExpr 0 = (\<lambda>ts. None)"
| "ParsePrimaryExpr (Suc n) =
     pbind (Match LPAREN) (\<lambda>b.
       if b then pbind (ParseExpr n) (\<lambda>inner.
         pbind (Expect RPAREN ''closing parenthesis of the expression'') (\<lambda>_. ret inner))
       else ParseComparison)"

section \<open>Statements\<close>

definition ParseCreateTable :: "nat \<Rightarrow> Statement parser" where
  "ParseCreateTable n =
     pbind (Expect CREATE ''CREATE'') (\<lambda>_. pbind (Expect TABLE ''TABLE'') (\<lambda>_. pbind ParseIdent (\<lambda>name.
       pbind (Expect LPAREN ''start of the column list'') (\<lambda>_. pbind (comma_list n ParseColumnDef) (\<lambda>cols.
         pbind (Expect RPAREN ''end of the column list'') (\<lambda>_.
           ret (CreateTable \<lparr>ct_table_name = name, ct_columns = cols\<rparr>)))))))"

definition ParseInsert :: "nat \<Rightarrow> Statement parser" where
  "ParseInsert n =
     pbind (Expect INSERT ''INSERT'') (\<lambda>_. pbind (Expect INTO ''INTO'') (\<lambda>_. pbind ParseIdent (\<lambda>name.
       pbind (pbind (Match LPAREN) (\<lambda>b.
         if b then pbind (comma_list n ParseIdent) (\<lambda>cols. pbind (Expect RPAREN ''end of the column list'') (\<lambda>_. ret cols))
         else ret [])) (\<lambda>cols.
           pbind (Expect VALUES ''VALUES'') (\<lambda>_. pbind (Expect LPAREN ''start of the value list'') (\<lambda>_.
             pbind (comma_list n ParseLiteral) (\<lambda>vals. pbind (Expect RPAREN ''end of the value list'') (\<lambda>_.
               ret (Insert \<lparr>ins_table_name = name, ins_columns = cols, ins_values = vals\<rparr>)))))))))"

text \<open>\<open>("AS" ident)?\<close>\<close>
definition ParseAlias :: "string option parser" where
  "ParseAlias = pbind (Match AS) (\<lambda>b. if b then pbind ParseIdent (\<lambda>a. ret (Some a)) else ret None)"

definition ParseSelectItem :: "SelectItem parser" where
  "ParseSelectItem =
     pbind ParseColumnRef (\<lambda>(table, column). pbind ParseAlias (\<lambda>alias.
       ret \<lparr>si_table = table, si_column = column, si_alias = alias\<rparr>))"

definition ParseTableRef :: "TableRef parser" where
  "ParseTableRef = pbind ParseIdent (\<lambda>name. pbind ParseAlias (\<lambda>alias. ret \<lparr>tr_table = name, tr_alias = alias\<rparr>))"

definition ParseJoinClause :: "nat \<Rightarrow> JoinClause parser" where
  "ParseJoinClause n =
     pbind (Expect JOIN ''JOIN'') (\<lambda>_. pbind ParseTableRef (\<lambda>t. pbind (Expect ON ''ON'') (\<lambda>_.
       pbind (ParseExpr n) (\<lambda>e. ret \<lparr>jc_table = t, on_condition = e\<rparr>))))"

text \<open>\<open>while (Check(JOIN)) joins.push_back(ParseJoinClause())\<close>\<close>
fun join_loop :: "nat \<Rightarrow> JoinClause list \<Rightarrow> JoinClause list parser" where
  "join_loop 0 js = (\<lambda>ts. None)"
| "join_loop (Suc n) js = if_check JOIN (pbind (ParseJoinClause n) (\<lambda>j. join_loop n (js @ [j]))) (ret js)"

definition ParseSelect :: "nat \<Rightarrow> Statement parser" where
  "ParseSelect n =
     pbind (Expect SELECT ''SELECT'') (\<lambda>_. pbind (Match STAR) (\<lambda>star.
       pbind (if star then ret [] else comma_list n ParseSelectItem) (\<lambda>items.
         pbind (Expect FROM ''FROM'') (\<lambda>_. pbind ParseTableRef (\<lambda>from. pbind (join_loop n []) (\<lambda>joins.
           pbind (pbind (Match WHERE) (\<lambda>b. if b then pbind (ParseExpr n) (\<lambda>e. ret (Some e)) else ret None)) (\<lambda>wh.
             ret (Select \<lparr>is_star = star, select_items = items, from_table = from, sel_joins = joins, sel_where = wh\<rparr>))))))))"

definition ParseStatement :: "nat \<Rightarrow> Statement parser" where
  "ParseStatement n =
     pbind (if_check CREATE (ParseCreateTable n)
           (if_check INSERT (ParseInsert n)
           (if_check SELECT (ParseSelect n)
            (Error ''expected a statement starting with CREATE, INSERT, or SELECT'')))) (\<lambda>stmt.
       pbind (Match SEMICOLON) (\<lambda>_. pbind (Expect END_OF_INPUT ''end of statement'') (\<lambda>_. ret stmt)))"

text \<open>The depth bound that is always enough (see the termination property).\<close>
definition parse_fuel :: "Token list \<Rightarrow> nat" where
  "parse_fuel ts = 3 * length ts + 3"

definition ParseTokens :: "Token list \<Rightarrow> Statement res option" where
  "ParseTokens ts = map_option (map_sum id fst) (ParseStatement (parse_fuel ts) ts)"

definition ParseSQL :: "string \<Rightarrow> Statement res option" where
  "ParseSQL sql = (case Tokenize (Lexer_new sql) of Inl e \<Rightarrow> Some (Inl e) | Inr ts \<Rightarrow> ParseTokens ts)"

end
