(* ===== verification/Parser_Termination.thy ===== *)
theory Parser_Termination
  imports Parser
begin

text \<open>
  Parsing terminates on every token list that ends with \<open>END_OF_INPUT\<close>, within the depth bound
  \<open>ParseSQL\<close> uses. The argument is compositional: \<open>progress L p\<close> says that on such a list of at most
  \<open>L\<close> tokens the rule \<open>p\<close> finishes and consumes at least one token when it succeeds, \<open>finishes L p\<close>
  that it finishes and un-reads nothing.
\<close>

section \<open>Progress\<close>

definition terminated :: "Token list \<Rightarrow> bool" where
  "terminated ts \<longleftrightarrow> ts \<noteq> [] \<and> tok_type (last ts) = END_OF_INPUT"

definition finishes :: "nat \<Rightarrow> 'a parser \<Rightarrow> bool" where
  "finishes L p \<longleftrightarrow> (\<forall>ts. terminated ts \<longrightarrow> length ts \<le> L \<longrightarrow> p ts \<noteq> None
     \<and> (\<forall>x ts'. p ts = Some (Inr (x, ts')) \<longrightarrow> terminated ts' \<and> length ts' \<le> length ts))"

definition progress :: "nat \<Rightarrow> 'a parser \<Rightarrow> bool" where
  "progress L p \<longleftrightarrow> (\<forall>ts. terminated ts \<longrightarrow> length ts \<le> L \<longrightarrow> p ts \<noteq> None
     \<and> (\<forall>x ts'. p ts = Some (Inr (x, ts')) \<longrightarrow> terminated ts' \<and> length ts' < length ts))"

lemma progress_finishes: "progress L p \<Longrightarrow> finishes L p"
  unfolding progress_def finishes_def by (meson less_imp_le)

lemma finishes_mono: "finishes L p \<Longrightarrow> K \<le> L \<Longrightarrow> finishes K p"
  unfolding finishes_def by (meson order_trans)

lemma progress_mono: "progress L p \<Longrightarrow> K \<le> L \<Longrightarrow> progress K p"
  unfolding progress_def by (meson order_trans)

lemma AdvanceToken_terminated:
  assumes "terminated ts" "Check ty ts" "ty \<noteq> END_OF_INPUT"
  shows "terminated (AdvanceToken ts) \<and> length (AdvanceToken ts) < length ts"
proof -
  obtain t us where ts: "ts = t # us" using assms(1) by (cases ts) (auto simp: terminated_def)
  have "us \<noteq> []" using assms ts by (auto simp: terminated_def Check_def PeekToken_def)
  then show ?thesis using assms(1) ts by (auto simp: terminated_def AdvanceToken_def Suc_le_eq)
qed

lemma AdvanceToken_finishes: "terminated ts \<Longrightarrow> terminated (AdvanceToken ts) \<and> length (AdvanceToken ts) \<le> length ts"
  by (cases ts; cases "tl ts") (auto simp: terminated_def AdvanceToken_def)

lemma finishes_ret [simp]: "finishes L (ret x)"
  by (simp add: finishes_def ret_def)

lemma progress_Error [simp]: "progress L (Error w)"
  by (simp add: progress_def Error_def)

lemma progress_Expect [simp]: "ty \<noteq> END_OF_INPUT \<Longrightarrow> progress L (Expect ty w)"
  using AdvanceToken_terminated [of _ ty] by (auto simp: progress_def Expect_def Error_def ret_def split: if_splits)

lemma finishes_Expect [simp]: "finishes L (Expect ty w)"
  using AdvanceToken_finishes by (auto simp: finishes_def Expect_def Error_def ret_def split: if_splits)

lemma finishes_Match [simp]: "finishes L (Match ty)"
  using AdvanceToken_finishes by (auto simp: finishes_def Match_def ret_def split: if_splits)

lemma progress_bind1:
  assumes "progress (Suc L) p" "\<And>x. finishes L (f x)"
  shows "progress (Suc L) (pbind p f)"
  unfolding progress_def
proof (intro allI impI)
  fix ts :: "Token list" assume ts: "terminated ts" "length ts \<le> Suc L"
  then have p: "p ts \<noteq> None" "\<And>x ts'. p ts = Some (Inr (x, ts')) \<Longrightarrow> terminated ts' \<and> length ts' < length ts"
    using assms(1) unfolding progress_def by auto
  have f: "f x ts' \<noteq> None \<and> (\<forall>y us. f x ts' = Some (Inr (y, us)) \<longrightarrow> terminated us \<and> length us \<le> length ts')"
    if "p ts = Some (Inr (x, ts'))" for x ts'
    using p(2) [OF that] ts(2) assms(2) [of x] unfolding finishes_def by auto
  show "pbind p f ts \<noteq> None \<and> (\<forall>x ts'. pbind p f ts = Some (Inr (x, ts')) \<longrightarrow> terminated ts' \<and> length ts' < length ts)"
    using p f by (fastforce simp: pbind_def split: option.splits sum.splits prod.splits)
qed

lemma progress_bind:
  "progress L p \<Longrightarrow> (\<And>x. finishes (L - 1) (f x)) \<Longrightarrow> progress L (pbind p f)"
proof (cases L)
  case 0
  then show ?thesis by (auto simp: progress_def terminated_def)
qed (simp add: progress_bind1)

lemma finishes_bind:
  assumes "finishes L p" "\<And>x. finishes L (f x)"
  shows "finishes L (pbind p f)"
  unfolding finishes_def
proof (intro allI impI)
  fix ts :: "Token list" assume ts: "terminated ts" "length ts \<le> L"
  then have p: "p ts \<noteq> None" "\<And>x ts'. p ts = Some (Inr (x, ts')) \<Longrightarrow> terminated ts' \<and> length ts' \<le> length ts"
    using assms(1) unfolding finishes_def by auto
  have f: "f x ts' \<noteq> None \<and> (\<forall>y us. f x ts' = Some (Inr (y, us)) \<longrightarrow> terminated us \<and> length us \<le> length ts')"
    if "p ts = Some (Inr (x, ts'))" for x ts'
    using p(2) [OF that] ts(2) assms(2) [of x] unfolding finishes_def by auto
  show "pbind p f ts \<noteq> None \<and> (\<forall>x ts'. pbind p f ts = Some (Inr (x, ts')) \<longrightarrow> terminated ts' \<and> length ts' \<le> length ts)"
    using p f by (fastforce simp: pbind_def split: option.splits sum.splits prod.splits)
qed

text \<open>A test that consumes its token guards what follows it.\<close>
lemma Match_then:
  "pbind (Match ty) (\<lambda>b. if b then p else q) ts = (if Check ty ts then p (AdvanceToken ts) else q ts)"
  by (simp add: pbind_def Match_def ret_def)

lemma finishes_Match_then:
  assumes "ty \<noteq> END_OF_INPUT" "finishes (L - 1) p" "finishes L q"
  shows "finishes L (pbind (Match ty) (\<lambda>b. if b then p else q))"
  unfolding finishes_def Match_then
proof (intro allI impI)
  fix ts :: "Token list" assume ts: "terminated ts" "length ts \<le> L"
  show "(if Check ty ts then p (AdvanceToken ts) else q ts) \<noteq> None
    \<and> (\<forall>x ts'. (if Check ty ts then p (AdvanceToken ts) else q ts) = Some (Inr (x, ts')) \<longrightarrow>
         terminated ts' \<and> length ts' \<le> length ts)"
  proof (cases "Check ty ts")
    case True
    have adv: "terminated (AdvanceToken ts)" "length (AdvanceToken ts) < length ts"
      using AdvanceToken_terminated [OF ts(1) True assms(1)] by auto
    then have "length (AdvanceToken ts) \<le> L - 1" using ts(2) by simp
    with adv assms(2) [unfolded finishes_def, rule_format, OF adv(1)] True show ?thesis by force
  next
    case False
    then show ?thesis using assms(3) [unfolded finishes_def, rule_format, OF ts] by simp
  qed
qed

lemma progress_Match_then:
  assumes "ty \<noteq> END_OF_INPUT" "finishes (L - 1) p" "progress L q"
  shows "progress L (pbind (Match ty) (\<lambda>b. if b then p else q))"
  unfolding progress_def Match_then
proof (intro allI impI)
  fix ts :: "Token list" assume ts: "terminated ts" "length ts \<le> L"
  show "(if Check ty ts then p (AdvanceToken ts) else q ts) \<noteq> None
    \<and> (\<forall>x ts'. (if Check ty ts then p (AdvanceToken ts) else q ts) = Some (Inr (x, ts')) \<longrightarrow>
         terminated ts' \<and> length ts' < length ts)"
  proof (cases "Check ty ts")
    case True
    have adv: "terminated (AdvanceToken ts)" "length (AdvanceToken ts) < length ts"
      using AdvanceToken_terminated [OF ts(1) True assms(1)] by auto
    then have "length (AdvanceToken ts) \<le> L - 1" using ts(2) by simp
    with adv assms(2) [unfolded finishes_def, rule_format, OF adv(1)] True show ?thesis by force
  next
    case False
    then show ?thesis using assms(3) [unfolded progress_def, rule_format, OF ts] by simp
  qed
qed

lemma progress_choice: "progress L p \<Longrightarrow> progress L q \<Longrightarrow> (\<And>ts. r ts = p ts \<or> r ts = q ts) \<Longrightarrow> progress L r"
  unfolding progress_def by metis

lemma finishes_choice: "finishes L p \<Longrightarrow> finishes L q \<Longrightarrow> (\<And>ts. r ts = p ts \<or> r ts = q ts) \<Longrightarrow> finishes L r"
  unfolding finishes_def by metis

lemma progress_if_check: "progress L p \<Longrightarrow> progress L q \<Longrightarrow> progress L (if_check ty p q)"
  by (erule (1) progress_choice) (simp add: if_check_def)

lemma finishes_if_check: "finishes L p \<Longrightarrow> finishes L q \<Longrightarrow> finishes L (if_check ty p q)"
  by (erule (1) finishes_choice) (simp add: if_check_def)

lemma progress_if_check_get:
  assumes "ty \<noteq> END_OF_INPUT" "\<And>x. finishes (L - 1) (f x)" "progress L q"
  shows "progress L (if_check ty (pbind advance_get f) q)"
proof -
  have "if_check ty (pbind advance_get f) q ts = if_check ty (pbind (Expect ty w) f) q ts" for ts w
    by (simp add: if_check_def pbind_def advance_get_def Expect_def)
  then have "if_check ty (pbind advance_get f) q = if_check ty (pbind (Expect ty w) f) q" for w by blast
  then show ?thesis using assms by (metis progress_if_check progress_bind progress_Expect)
qed

section \<open>The rules\<close>

lemma progress_ParseIdent [simp]: "progress L ParseIdent"
  unfolding ParseIdent_def by (rule progress_bind) simp_all

lemma progress_ParseLiteral [simp]: "progress L ParseLiteral"
  unfolding ParseLiteral_def by (intro progress_if_check_get) simp_all

lemma finishes_if: "finishes L p \<Longrightarrow> finishes L q \<Longrightarrow> finishes L (if b then p else q)"
  by simp

lemma progress_ParseTypeName [simp]: "progress L ParseTypeName"
  unfolding ParseTypeName_def by (intro progress_Match_then) simp_all

lemmas finishes_rules = finishes_bind finishes_if finishes_if_check

lemma progress_ParseColumnDef [simp]: "progress L ParseColumnDef"
  unfolding ParseColumnDef_def by (intro progress_bind finishes_rules) (simp_all add: progress_finishes)

lemma progress_ParseComparisonOp [simp]: "progress L ParseComparisonOp"
  unfolding ParseComparisonOp_def by (intro progress_if_check_get) simp_all

lemma progress_ParseColumnRef [simp]: "progress L ParseColumnRef"
  unfolding ParseColumnRef_def by (intro progress_bind finishes_rules) (simp_all add: progress_finishes finishes_bind)

lemma progress_ParseValue [simp]: "progress L ParseValue"
  unfolding ParseValue_def
  by (intro progress_if_check progress_bind) (simp_all split: prod.split)

lemma progress_ParseComparison [simp]: "progress L ParseComparison"
  unfolding ParseComparison_def by (intro progress_bind finishes_bind) (simp_all add: progress_finishes)

lemma finishes_ParseAlias [simp]: "finishes L ParseAlias"
  unfolding ParseAlias_def by (intro finishes_bind finishes_if) (simp_all add: progress_finishes)

lemma progress_ParseSelectItem [simp]: "progress L ParseSelectItem"
  unfolding ParseSelectItem_def by (intro progress_bind) (simp_all add: finishes_bind split: prod.split)

lemma progress_ParseTableRef [simp]: "progress L ParseTableRef"
  unfolding ParseTableRef_def by (intro progress_bind finishes_bind) simp_all

lemma finishes_comma_loop: "(\<And>L. progress L p) \<Longrightarrow> L < n \<Longrightarrow> finishes L (comma_loop n p xs)"
proof (induction n arbitrary: L xs)
  case (Suc n)
  show ?case
  proof (cases L)
    case 0
    then show ?thesis by (auto simp: finishes_def terminated_def)
  next
    case (Suc K)
    then have "finishes (L - 1) (pbind p (\<lambda>x. comma_loop n p (xs @ [x])))"
      using Suc.IH [OF Suc.prems(1)] Suc.prems by (intro finishes_bind) (auto simp: progress_finishes)
    then show ?thesis by (simp add: finishes_Match_then)
  qed
qed simp

lemma progress_comma_list: "(\<And>L. progress L p) \<Longrightarrow> L \<le> n \<Longrightarrow> progress L (comma_list n p)"
proof (cases L)
  case 0
  then show ?thesis by (auto simp: progress_def terminated_def)
next
  case (Suc K)
  assume "\<And>L. progress L p" "L \<le> n"
  then show ?thesis unfolding comma_list_def by (intro progress_bind finishes_comma_loop) (use Suc in auto)
qed

lemma expr_progress:
  "(3 * L + 3 \<le> n \<longrightarrow> progress L (ParseExpr n)) \<and> (3 * L + 1 \<le> n \<longrightarrow> finishes L (or_loop n e))
   \<and> (3 * L + 2 \<le> n \<longrightarrow> progress L (ParseAndExpr n)) \<and> (3 * L + 1 \<le> n \<longrightarrow> finishes L (and_loop n e))
   \<and> (3 * L + 1 \<le> n \<longrightarrow> progress L (ParsePrimaryExpr n))"
proof (induction n arbitrary: L e)
  case 0
  then show ?case by simp
next
  case (Suc n)
  show ?case
  proof (cases L)
    case 0
    then show ?thesis by (auto simp: progress_def finishes_def terminated_def)
  next
    case (Suc K)
    note IH = Suc.IH
    show ?thesis
    proof (intro conjI impI)
      assume "3 * L + 3 \<le> Suc n"
      then show "progress L (ParseExpr (Suc n))"
        using IH [of L] IH [of K] Suc by (simp, intro progress_bind) auto
    next
      assume "3 * L + 1 \<le> Suc n"
      then have "finishes (L - 1) (pbind (ParseAndExpr n) (\<lambda>right. or_loop n (OrExpr e right)))"
        using IH [of K] Suc by (intro finishes_bind) (auto simp: progress_finishes)
      then show "finishes L (or_loop (Suc n) e)" by (simp add: finishes_Match_then)
    next
      assume "3 * L + 2 \<le> Suc n"
      then show "progress L (ParseAndExpr (Suc n))"
        using IH [of L] IH [of K] Suc by (simp, intro progress_bind) auto
    next
      assume "3 * L + 1 \<le> Suc n"
      then have "finishes (L - 1) (pbind (ParsePrimaryExpr n) (\<lambda>right. and_loop n (AndExpr e right)))"
        using IH [of K] Suc by (intro finishes_bind) (auto simp: progress_finishes)
      then show "finishes L (and_loop (Suc n) e)" by (simp add: finishes_Match_then)
    next
      assume "3 * L + 1 \<le> Suc n"
      then have "progress (L - 1) (ParseExpr n)" using IH [of K] Suc by simp
      then have "finishes (L - 1) (pbind (ParseExpr n) (\<lambda>inner.
          pbind (Expect RPAREN ''closing parenthesis of the expression'') (\<lambda>_. ret inner)))"
        by (intro finishes_bind) (simp_all add: progress_finishes)
      then show "progress L (ParsePrimaryExpr (Suc n))" by (simp add: progress_Match_then)
    qed
  qed
qed

lemma progress_ParseExpr: "3 * L + 3 \<le> n \<Longrightarrow> progress L (ParseExpr n)"
  using expr_progress by blast

lemma no_tokens [simp]: "progress 0 p" "finishes 0 p"
  by (simp_all add: progress_def finishes_def terminated_def)

lemma progress_ParseJoinClause: "3 * L \<le> n \<Longrightarrow> progress L (ParseJoinClause n)"
  unfolding ParseJoinClause_def
  by (cases L) (simp, intro progress_bind finishes_bind, simp_all add: progress_finishes progress_ParseExpr)

lemma finishes_join_loop: "3 * L + 1 \<le> n \<Longrightarrow> finishes L (join_loop n js)"
proof (induction n arbitrary: L js)
  case (Suc n)
  show ?case
  proof (cases L)
    case 0
    then show ?thesis by simp
  next
    case (Suc K)
    then have "progress L (pbind (ParseJoinClause n) (\<lambda>j. join_loop n (js @ [j])))"
      using Suc.prems Suc.IH by (intro progress_bind progress_ParseJoinClause) simp_all
    then show ?thesis by (simp add: finishes_if_check progress_finishes)
  qed
qed simp

lemma progress_ParseCreateTable: "L \<le> n \<Longrightarrow> progress L (ParseCreateTable n)"
  unfolding ParseCreateTable_def
  by (intro progress_bind finishes_rules) (simp_all add: progress_finishes progress_comma_list)

lemma progress_ParseInsert: "L \<le> n \<Longrightarrow> progress L (ParseInsert n)"
  unfolding ParseInsert_def
  by (intro progress_bind finishes_rules) (simp_all add: progress_finishes progress_comma_list)

lemma progress_ParseSelect:
  assumes "3 * L + 3 \<le> n"
  shows "progress L (ParseSelect n)"
proof -
  have "L - 1 \<le> n" "3 * (L - 1) + 1 \<le> n" "3 * (L - 1) + 3 \<le> n" using assms by simp_all
  then show ?thesis unfolding ParseSelect_def
    by (intro progress_bind finishes_rules)
      (simp_all add: progress_finishes progress_comma_list progress_ParseExpr finishes_join_loop)
qed

lemma finishes_ParseStatement: "3 * L + 3 \<le> n \<Longrightarrow> finishes L (ParseStatement n)"
  unfolding ParseStatement_def
  by (intro finishes_rules)
    (simp_all add: progress_finishes progress_ParseCreateTable progress_ParseInsert progress_ParseSelect)

section \<open>Every token list of the lexer is terminated\<close>

lemma tokenize_loop_terminated: "tokenize_loop lx tokens = Inr ts \<Longrightarrow> terminated ts"
proof (induction lx tokens rule: tokenize_loop.induct)
  case (1 lx tokens)
  show ?case
  proof (cases "IsAtEnd (SkipWhitespace lx)")
    case True
    then show ?thesis using 1(2) by (subst (asm) tokenize_loop.simps) (auto simp: terminated_def Let_def)
  next
    case False
    then obtain t lx2 where t: "lex_token (SkipWhitespace lx) = Inr (t, lx2)"
      using 1(2) by (subst (asm) tokenize_loop.simps) (auto simp: Let_def split: sum.splits)
    have "tokenize_loop lx2 (tokens @ [t]) = Inr ts"
      using 1(2) False t by (subst (asm) tokenize_loop.simps) simp
    then show ?thesis using 1(1) [OF refl False t refl] by simp
  qed
qed

lemma ParseTokens_Some: "terminated ts \<Longrightarrow> ParseTokens ts \<noteq> None"
  using finishes_ParseStatement [of "length ts" "parse_fuel ts"]
  by (simp add: ParseTokens_def parse_fuel_def finishes_def)

lemma ParseSQL_returns: "\<exists>r. ParseSQL sql = Some r"
proof (cases "Tokenize (Lexer_new sql)")
  case (Inl e)
  then show ?thesis by (simp add: ParseSQL_def)
next
  case (Inr ts)
  then have "terminated ts" unfolding Tokenize_def by (rule tokenize_loop_terminated)
  then show ?thesis using Inr ParseTokens_Some by (auto simp: ParseSQL_def)
qed

text \<open>
  C30. Parsing terminates: on every input string, lexing and parsing end with a statement or an
  error, within the depth bound.
\<close>
theorem ParseSQL_terminates:
  "\<exists>r. ParseSQL sql = Some r"
  by (rule ParseSQL_returns)

end
