(* ===== verification/Parser_Roundtrip.thy ===== *)
theory Parser_Roundtrip
  imports Parser_Termination
begin

text \<open>
  The parser is the inverse of printing: every statement of the grammar, printed as tokens, parses
  back to itself. Operator precedence and left association show in the printer, which puts
  parentheses exactly where the grammar needs them.
\<close>

section \<open>Printing\<close>

text \<open>What the parser reads of a token.\<close>
type_synonym core = "TokenType \<times> string \<times> i64 \<times> string"

definition core :: "Token \<Rightarrow> core" where
  "core t = (tok_type t, if tok_type t = IDENTIFIER then tok_text t else [],
     if tok_type t = INTEGER_LITERAL then tok_int t else 0, if tok_type t = STRING_LITERAL then tok_string t else [])"

definition kw :: "TokenType \<Rightarrow> core" where
  "kw ty = (ty, [], 0, [])"

definition ident :: "string \<Rightarrow> core" where
  "ident s = (IDENTIFIER, s, 0, [])"

fun print_literal :: "Literal \<Rightarrow> core" where
  "print_literal (LitInteger i) = (INTEGER_LITERAL, [], i, [])"
| "print_literal (LitText s) = (STRING_LITERAL, [], 0, s)"

fun op_token :: "ComparisonOp \<Rightarrow> TokenType" where
  "op_token kEq = EQ" | "op_token kNeq = NEQ" | "op_token kLt = LT"
| "op_token kLte = LTE" | "op_token kGt = GT" | "op_token kGte = GTE"

definition print_column :: "string option \<Rightarrow> string \<Rightarrow> core list" where
  "print_column t c = (case t of None \<Rightarrow> [ident c] | Some t \<Rightarrow> [ident t, kw DOT, ident c])"

fun print_value :: "Expr \<Rightarrow> core list" where
  "print_value (ColumnRefExpr t c) = print_column t c"
| "print_value (LiteralExpr l) = [print_literal l]"
| "print_value _ = []"

text \<open>Level 0 is a whole expression, 1 an operand of OR, 2 an operand of AND.\<close>
fun print_expr :: "nat \<Rightarrow> Expr \<Rightarrow> core list" where
  "print_expr k (ComparisonExpr op l r) = print_value l @ kw (op_token op) # print_value r"
| "print_expr k (AndExpr l r) =
     (let s = print_expr 1 l @ kw AND # print_expr 2 r in if k > 1 then kw LPAREN # s @ [kw RPAREN] else s)"
| "print_expr k (OrExpr l r) =
     (let s = print_expr 0 l @ kw OR # print_expr 1 r in if k > 0 then kw LPAREN # s @ [kw RPAREN] else s)"
| "print_expr k _ = []"

fun value_shaped :: "Expr \<Rightarrow> bool" where
  "value_shaped (ColumnRefExpr t c) = True"
| "value_shaped (LiteralExpr l) = True"
| "value_shaped _ = False"

text \<open>The conditions the grammar can express.\<close>
fun grammatical :: "Expr \<Rightarrow> bool" where
  "grammatical (ComparisonExpr op l r) \<longleftrightarrow> value_shaped l \<and> value_shaped r"
| "grammatical (AndExpr l r) \<longleftrightarrow> grammatical l \<and> grammatical r"
| "grammatical (OrExpr l r) \<longleftrightarrow> grammatical l \<and> grammatical r"
| "grammatical _ \<longleftrightarrow> False"

definition sep :: "core list list \<Rightarrow> core list" where
  "sep xs = (case xs of [] \<Rightarrow> [] | y # ys \<Rightarrow> y @ concat (map (\<lambda>z. kw COMMA # z) ys))"

definition print_column_def :: "ColumnDef \<Rightarrow> core list" where
  "print_column_def c = [ident (cd_name c), kw (case cd_type c of kInteger \<Rightarrow> INTEGER_TYPE | kText \<Rightarrow> TEXT_TYPE)]
     @ (if is_primary_key c then [kw PRIMARY, kw KEY] else [])"

definition print_alias :: "string option \<Rightarrow> core list" where
  "print_alias a = (case a of None \<Rightarrow> [] | Some s \<Rightarrow> [kw AS, ident s])"

definition print_table_ref :: "TableRef \<Rightarrow> core list" where
  "print_table_ref r = ident (tr_table r) # print_alias (tr_alias r)"

definition print_select_item :: "SelectItem \<Rightarrow> core list" where
  "print_select_item i = print_column (si_table i) (si_column i) @ print_alias (si_alias i)"

definition print_join :: "JoinClause \<Rightarrow> core list" where
  "print_join j = kw JOIN # print_table_ref (jc_table j) @ kw ON # print_expr 0 (on_condition j)"

fun print_stmt :: "Statement \<Rightarrow> core list" where
  "print_stmt (CreateTable s) =
     [kw CREATE, kw TABLE, ident (ct_table_name s), kw LPAREN] @ sep (map print_column_def (ct_columns s)) @ [kw RPAREN]"
| "print_stmt (Insert s) =
     [kw INSERT, kw INTO, ident (ins_table_name s)]
     @ (if ins_columns s = [] then [] else kw LPAREN # sep (map (\<lambda>c. [ident c]) (ins_columns s)) @ [kw RPAREN])
     @ [kw VALUES, kw LPAREN] @ sep (map (\<lambda>l. [print_literal l]) (ins_values s)) @ [kw RPAREN]"
| "print_stmt (Select s) =
     kw SELECT # (if is_star s then [kw STAR] else sep (map print_select_item (select_items s)))
     @ kw FROM # print_table_ref (from_table s) @ concat (map print_join (sel_joins s))
     @ (case sel_where s of None \<Rightarrow> [] | Some e \<Rightarrow> kw WHERE # print_expr 0 e)"

text \<open>The statements the grammar can express.\<close>
fun grammatical_statement :: "Statement \<Rightarrow> bool" where
  "grammatical_statement (CreateTable s) \<longleftrightarrow> ct_columns s \<noteq> []"
| "grammatical_statement (Insert s) \<longleftrightarrow> ins_values s \<noteq> []"
| "grammatical_statement (Select s) \<longleftrightarrow>
     (if is_star s then select_items s = [] else select_items s \<noteq> [])
     \<and> (\<forall>j \<in> set (sel_joins s). grammatical (on_condition j))
     \<and> (case sel_where s of None \<Rightarrow> True | Some e \<Rightarrow> grammatical e)"

section \<open>More depth does not change a result\<close>

definition more :: "'a parser \<Rightarrow> 'a parser \<Rightarrow> bool" where
  "more p q \<longleftrightarrow> (\<forall>ts r. p ts = Some r \<longrightarrow> q ts = Some r)"

lemma more_refl [simp]: "more p p"
  by (simp add: more_def)

lemma more_None [simp]: "more (\<lambda>ts. None) p"
  by (simp add: more_def)

lemma more_bind: "more p q \<Longrightarrow> (\<And>x. more (f x) (g x)) \<Longrightarrow> more (pbind p f) (pbind q g)"
  by (fastforce simp: more_def pbind_def split: option.splits sum.splits)

lemma more_if: "more p p' \<Longrightarrow> more q q' \<Longrightarrow> more (if b then p else q) (if b then p' else q')"
  by simp

lemma more_if_check: "more p p' \<Longrightarrow> more q q' \<Longrightarrow> more (if_check ty p q) (if_check ty p' q')"
  by (simp add: more_def if_check_def)

lemma more_comma_loop: "more (comma_loop n p xs) (comma_loop (Suc n) p xs)"
proof (induction n arbitrary: xs)
  case (Suc n)
  show ?case by (subst (1 2) comma_loop.simps) (intro more_bind more_if Suc more_refl)
qed simp

lemma more_comma_list: "more (comma_list n p) (comma_list (Suc n) p)"
  unfolding comma_list_def by (intro more_bind more_comma_loop more_refl)

lemma more_exprs:
  "more (ParseExpr n) (ParseExpr (Suc n)) \<and> more (or_loop n e) (or_loop (Suc n) e)
   \<and> more (ParseAndExpr n) (ParseAndExpr (Suc n)) \<and> more (and_loop n e) (and_loop (Suc n) e)
   \<and> more (ParsePrimaryExpr n) (ParsePrimaryExpr (Suc n))"
proof (induction n arbitrary: e)
  case (Suc n)
  have IH: "more (ParseExpr n) (ParseExpr (Suc n))" "\<And>e. more (or_loop n e) (or_loop (Suc n) e)"
    "more (ParseAndExpr n) (ParseAndExpr (Suc n))" "\<And>e. more (and_loop n e) (and_loop (Suc n) e)"
    "more (ParsePrimaryExpr n) (ParsePrimaryExpr (Suc n))"
    using Suc by blast+
  show ?case
    unfolding ParseExpr.simps(2) [of "Suc n"] or_loop.simps(2) [of "Suc n"] ParseAndExpr.simps(2) [of "Suc n"]
      and_loop.simps(2) [of "Suc n"] ParsePrimaryExpr.simps(2) [of "Suc n"]
      ParseExpr.simps(2) [of n] or_loop.simps(2) [of n] ParseAndExpr.simps(2) [of n]
      and_loop.simps(2) [of n] ParsePrimaryExpr.simps(2) [of n]
    by (intro conjI more_bind more_if more_refl IH [unfolded ParseExpr.simps or_loop.simps ParseAndExpr.simps and_loop.simps ParsePrimaryExpr.simps])
qed simp

lemma more_ParseExpr: "more (ParseExpr n) (ParseExpr (Suc n))"
  using more_exprs by blast

lemma more_join_loop: "more (join_loop n js) (join_loop (Suc n) js)"
proof (induction n arbitrary: js)
  case (Suc n)
  show ?case
    unfolding join_loop.simps(2) [of "Suc n"] unfolding join_loop.simps(2) [of n]
    by (subst (1) join_loop.simps(2) [of n, symmetric])
      (intro more_if_check more_bind Suc more_refl; simp only: ParseJoinClause_def; intro more_bind more_refl more_ParseExpr)
qed simp

lemma more_ParseStatement: "more (ParseStatement n) (ParseStatement (Suc n))"
  unfolding ParseStatement_def ParseCreateTable_def ParseInsert_def ParseSelect_def
  by (intro more_bind more_if_check more_if more_refl more_comma_list more_ParseExpr more_join_loop)

lemma ParseStatement_mono: "ParseStatement n ts = Some r \<Longrightarrow> ParseStatement (n + k) ts = Some r"
  using more_ParseStatement by (induction k) (auto simp: more_def)

section \<open>Parsing with enough depth\<close>

definition parses :: "(nat \<Rightarrow> 'a parser) \<Rightarrow> Token list \<Rightarrow> 'a \<times> Token list \<Rightarrow> bool" where
  "parses p ts r \<longleftrightarrow> (\<exists>m. \<forall>n \<ge> m. p n ts = Some (Inr r))"

lemma parses_ret: "parses (\<lambda>n. ret x) ts (x, ts)"
  by (simp add: parses_def ret_def)

lemma parses_Suc: "parses (\<lambda>n. p (Suc n)) ts r \<Longrightarrow> parses p ts r"
  unfolding parses_def by (metis Suc_le_D Suc_le_mono)

lemma parses_bind:
  assumes "parses p ts (x, us)" "parses (\<lambda>n. f n x) us r"
  shows "parses (\<lambda>n. pbind (p n) (f n)) ts r"
proof -
  obtain a b where "\<forall>n \<ge> a. p n ts = Some (Inr (x, us))" "\<forall>n \<ge> b. f n x us = Some (Inr r)"
    using assms by (auto simp: parses_def)
  then have "\<forall>n \<ge> max a b. pbind (p n) (f n) ts = Some (Inr r)" by (simp add: pbind_def)
  then show ?thesis unfolding parses_def by blast
qed

lemma parses_Expect:
  "tok_type t = ty \<Longrightarrow> us \<noteq> [] \<Longrightarrow> parses (\<lambda>n. f n t) us r \<Longrightarrow> parses (\<lambda>n. pbind (Expect ty w) (f n)) (t # us) r"
  by (rule parses_bind [where p = "\<lambda>n. Expect ty w" and x = t and us = us])
    (auto simp: parses_def Expect_def Check_def PeekToken_def AdvanceToken_def ret_def Suc_le_eq)

lemma parses_Match:
  "tok_type t = ty \<Longrightarrow> us \<noteq> [] \<Longrightarrow> parses (\<lambda>n. f n True) us r \<Longrightarrow> parses (\<lambda>n. pbind (Match ty) (f n)) (t # us) r"
  by (rule parses_bind [where p = "\<lambda>n. Match ty" and x = True and us = us])
    (auto simp: parses_def Match_def Check_def PeekToken_def AdvanceToken_def ret_def Suc_le_eq)

lemma parses_no_Match:
  "tok_type (hd us) \<noteq> ty \<Longrightarrow> parses (\<lambda>n. f n False) us r \<Longrightarrow> parses (\<lambda>n. pbind (Match ty) (f n)) us r"
  by (rule parses_bind [where p = "\<lambda>n. Match ty" and x = False and us = us])
    (auto simp: parses_def Match_def Check_def PeekToken_def ret_def)

lemma parses_if_check:
  "(if tok_type (hd us) = ty then parses p us r else parses q us r) \<Longrightarrow> parses (\<lambda>n. if_check ty (p n) (q n)) us r"
  by (auto simp: parses_def if_check_def Check_def PeekToken_def split: if_splits)

lemma parses_get:
  "us \<noteq> [] \<Longrightarrow> parses (\<lambda>n. f n t) us r \<Longrightarrow> parses (\<lambda>n. pbind advance_get (f n)) (t # us) r"
  by (rule parses_bind [where p = "\<lambda>n. advance_get" and x = t and us = us])
    (auto simp: parses_def advance_get_def PeekToken_def AdvanceToken_def ret_def Suc_le_eq)

lemma core_appendE:
  assumes "map core ts = xs @ ys"
  obtains us vs where "ts = us @ vs" "map core us = xs" "map core vs = ys"
  using assms by (auto simp: map_eq_append_conv)

lemma core_kw: "core t = kw ty \<Longrightarrow> tok_type t = ty"
  by (simp add: core_def kw_def)

lemma core_ident: "core t = ident s \<Longrightarrow> tok_type t = IDENTIFIER" "core t = ident s \<Longrightarrow> tok_text t = s"
  by (auto simp: core_def ident_def split: if_splits)

lemma core_literal:
  "core t = print_literal (LitInteger i) \<Longrightarrow> tok_type t = INTEGER_LITERAL \<and> tok_int t = i"
  "core t = print_literal (LitText s) \<Longrightarrow> tok_type t = STRING_LITERAL \<and> tok_string t = s"
  by (auto simp: core_def split: if_splits)

lemma parses_ident:
  "core t = ident s \<Longrightarrow> us \<noteq> [] \<Longrightarrow> parses (\<lambda>n. f n s) us r \<Longrightarrow> parses (\<lambda>n. pbind ParseIdent (f n)) (t # us) r"
  by (rule parses_bind [where p = "\<lambda>n. ParseIdent" and x = s and us = us])
    (auto simp: ParseIdent_def core_ident intro!: parses_Expect, auto simp: core_ident intro: parses_ret)

lemma parses_ParseIdent: "core t = ident s \<Longrightarrow> us \<noteq> [] \<Longrightarrow> parses (\<lambda>n. ParseIdent) (t # us) (s, us)"
  unfolding ParseIdent_def by (rule parses_Expect) (auto simp: core_ident intro: parses_ret)

lemma parses_const: "p ts = Some (Inr r) \<Longrightarrow> parses (\<lambda>n. p) ts r"
  by (simp add: parses_def)

lemma core_literal_type: "core t = print_literal l \<Longrightarrow>
    tok_type t = (case l of LitInteger i \<Rightarrow> INTEGER_LITERAL | LitText s \<Rightarrow> STRING_LITERAL)"
  by (cases l) (auto simp: core_def split: if_splits)

lemma ParseLiteral_core:
  assumes "core t = print_literal l" "us \<noteq> []"
  shows "ParseLiteral (t # us) = Some (Inr (l, us))"
proof (cases l)
  case (LitInteger i)
  then have "tok_type t = INTEGER_LITERAL" "tok_int t = i" using core_literal(1) assms(1) by blast+
  then show ?thesis using assms(2) LitInteger
    by (simp add: ParseLiteral_def if_check_def Check_def PeekToken_def pbind_def advance_get_def AdvanceToken_def ret_def)
next
  case (LitText s)
  then have "tok_type t = STRING_LITERAL" "tok_string t = s" using core_literal(2) assms(1) by blast+
  then show ?thesis using assms(2) LitText
    by (simp add: ParseLiteral_def if_check_def Check_def PeekToken_def pbind_def advance_get_def AdvanceToken_def ret_def)
qed

lemma parses_ParseLiteral: "core t = print_literal l \<Longrightarrow> us \<noteq> [] \<Longrightarrow> parses (\<lambda>n. ParseLiteral) (t # us) (l, us)"
  by (rule parses_const, rule ParseLiteral_core)

lemma parses_ParseColumnRef:
  assumes "map core ts = print_column t c" "rest \<noteq> []" "tok_type (hd rest) \<noteq> DOT"
  shows "parses (\<lambda>n. ParseColumnRef) (ts @ rest) ((t, c), rest)"
proof (cases t)
  case None
  then obtain a where "ts = [a]" "core a = ident c" using assms(1) by (auto simp: print_column_def)
  then show ?thesis unfolding ParseColumnRef_def
    using None assms by (auto intro!: parses_ident parses_no_Match parses_ret)
next
  case (Some u)
  then obtain a b d where ts: "ts = [a, b, d]" "core a = ident u" "core b = kw DOT" "core d = ident c"
    using assms(1) by (auto simp: print_column_def)
  have "parses (\<lambda>n. ParseColumnRef) (a # b # d # rest) ((Some u, c), rest)"
    unfolding ParseColumnRef_def
    by (rule parses_ident [OF ts(2)], simp, rule parses_Match [OF core_kw [OF ts(3)]], simp,
        simp, rule parses_ident [OF ts(4) assms(2)], rule parses_ret)
  then show ?thesis using ts Some by simp
qed

lemma parses_ParseValue:
  assumes "map core ts = print_value e" "value_shaped e" "rest \<noteq> []" "tok_type (hd rest) \<noteq> DOT"
  shows "parses (\<lambda>n. ParseValue) (ts @ rest) (e, rest)"
proof (cases e)
  case (ColumnRefExpr t c)
  then have core: "map core ts = print_column t c" using assms(1) by simp
  then have "tok_type (hd (ts @ rest)) = IDENTIFIER"
    by (auto simp: print_column_def core_ident split: option.splits)
  moreover have "parses (\<lambda>n. pbind ParseColumnRef (\<lambda>(table, column). ret (ColumnRefExpr table column))) (ts @ rest)
      (ColumnRefExpr t c, rest)"
    by (rule parses_bind [OF parses_ParseColumnRef [OF core assms(3,4)]]) (simp add: parses_ret)
  ultimately show ?thesis unfolding ParseValue_def ColumnRefExpr by (intro parses_if_check) simp
next
  case (LiteralExpr l)
  then obtain a where ts: "ts = [a]" "core a = print_literal l" using assms(1) by auto
  have "ParseValue (a # rest) = Some (Inr (LiteralExpr l, rest))"
    using core_literal_type [OF ts(2)] ParseLiteral_core [OF ts(2) assms(3)]
    by (cases l) (simp_all add: ParseValue_def if_check_def Check_def PeekToken_def pbind_def ret_def)
  then show ?thesis using ts(1) LiteralExpr by (simp add: parses_const)
qed (use assms in simp_all)

lemma parses_ParseComparisonOp:
  assumes "core t = kw (op_token op)" "us \<noteq> []"
  shows "parses (\<lambda>n. ParseComparisonOp) (t # us) (op, us)"
proof (rule parses_const)
  show "ParseComparisonOp (t # us) = Some (Inr (op, us))"
    using core_kw [OF assms(1)] assms(2)
    by (cases op) (simp_all add: ParseComparisonOp_def if_check_def Check_def PeekToken_def pbind_def advance_get_def AdvanceToken_def ret_def)
qed

lemma op_token_not_DOT [simp]: "op_token op \<noteq> DOT"
  by (cases op) simp_all

lemma parses_ParseComparison:
  assumes "map core ts = print_value l @ kw (op_token op) # print_value r" "value_shaped l" "value_shaped r"
    and "rest \<noteq> []" "tok_type (hd rest) \<noteq> DOT"
  shows "parses (\<lambda>n. ParseComparison) (ts @ rest) (ComparisonExpr op l r, rest)"
proof -
  obtain xs t ys where ts: "ts = xs @ t # ys" "map core xs = print_value l" "core t = kw (op_token op)" "map core ys = print_value r"
    using assms(1) by (auto simp: map_eq_append_conv map_eq_Cons_conv)
  have "parses (\<lambda>n. ParseComparison) (xs @ t # ys @ rest) (ComparisonExpr op l r, rest)"
    unfolding ParseComparison_def
    by (rule parses_bind [OF parses_ParseValue [OF ts(2) assms(2)]], simp, simp add: core_kw [OF ts(3)],
        rule parses_bind [OF parses_ParseComparisonOp [OF ts(3)]], simp add: assms(4),
        rule parses_bind [OF parses_ParseValue [OF ts(4) assms(3-5)]], rule parses_ret)
  then show ?thesis using ts(1) by simp
qed

section \<open>Expressions\<close>

text \<open>What may follow a condition.\<close>
definition ends_expr :: "Token list \<Rightarrow> bool" where
  "ends_expr rest \<longleftrightarrow> rest \<noteq> [] \<and> tok_type (hd rest) \<notin> {DOT, AND, OR}"

lemma parses_or_loop_end: "tok_type (hd rest) \<noteq> OR \<Longrightarrow> parses (\<lambda>n. or_loop n e) rest (e, rest)"
  by (rule parses_Suc) (simp, rule parses_no_Match, simp_all add: parses_ret)

lemma parses_and_loop_end: "tok_type (hd rest) \<noteq> AND \<Longrightarrow> parses (\<lambda>n. and_loop n e) rest (e, rest)"
  by (rule parses_Suc) (simp, rule parses_no_Match, simp_all add: parses_ret)

definition reads0 :: "Expr \<Rightarrow> bool" where
  "reads0 e \<longleftrightarrow> (\<forall>ts rest r. map core ts = print_expr 0 e \<longrightarrow> rest \<noteq> [] \<longrightarrow> tok_type (hd rest) \<notin> {DOT, AND} \<longrightarrow>
     parses (\<lambda>n. or_loop n e) rest r \<longrightarrow> parses ParseExpr (ts @ rest) r)"

definition reads1 :: "Expr \<Rightarrow> bool" where
  "reads1 e \<longleftrightarrow> (\<forall>ts rest r. map core ts = print_expr 1 e \<longrightarrow> rest \<noteq> [] \<longrightarrow> tok_type (hd rest) \<noteq> DOT \<longrightarrow>
     parses (\<lambda>n. and_loop n e) rest r \<longrightarrow> parses ParseAndExpr (ts @ rest) r)"

definition reads2 :: "Expr \<Rightarrow> bool" where
  "reads2 e \<longleftrightarrow> (\<forall>ts rest. map core ts = print_expr 2 e \<longrightarrow> rest \<noteq> [] \<longrightarrow> tok_type (hd rest) \<noteq> DOT \<longrightarrow>
     parses ParsePrimaryExpr (ts @ rest) (e, rest))"

lemma reads1I: "reads2 e \<Longrightarrow> print_expr 1 e = print_expr 2 e \<Longrightarrow> reads1 e"
  unfolding reads1_def reads2_def
proof (intro allI impI)
  fix ts rest :: "Token list" and r
  assume "\<forall>ts rest. map core ts = print_expr 2 e \<longrightarrow> rest \<noteq> [] \<longrightarrow> tok_type (hd rest) \<noteq> DOT \<longrightarrow>
      parses ParsePrimaryExpr (ts @ rest) (e, rest)" "print_expr 1 e = print_expr 2 e"
    "map core ts = print_expr 1 e" "rest \<noteq> []" "tok_type (hd rest) \<noteq> DOT" "parses (\<lambda>n. and_loop n e) rest r"
  then have "parses ParsePrimaryExpr (ts @ rest) (e, rest)" "parses (\<lambda>n. and_loop n e) rest r" by simp_all
  then show "parses ParseAndExpr (ts @ rest) r"
    by - (rule parses_Suc, simp, rule parses_bind [where p = ParsePrimaryExpr])
qed

lemma reads0I: "reads1 e \<Longrightarrow> print_expr 0 e = print_expr 1 e \<Longrightarrow> reads0 e"
  unfolding reads0_def reads1_def
proof (intro allI impI)
  fix ts rest :: "Token list" and r
  assume *: "\<forall>ts rest r. map core ts = print_expr 1 e \<longrightarrow> rest \<noteq> [] \<longrightarrow> tok_type (hd rest) \<noteq> DOT \<longrightarrow>
      parses (\<lambda>n. and_loop n e) rest r \<longrightarrow> parses ParseAndExpr (ts @ rest) r" "print_expr 0 e = print_expr 1 e"
    "map core ts = print_expr 0 e" "rest \<noteq> []" "tok_type (hd rest) \<notin> {DOT, AND}" "parses (\<lambda>n. or_loop n e) rest r"
  then have "parses ParseAndExpr (ts @ rest) (e, rest)" using parses_and_loop_end by simp
  with *(6) show "parses ParseExpr (ts @ rest) r"
    by - (rule parses_Suc, simp, rule parses_bind [where p = ParseAndExpr])
qed

text \<open>In parentheses, a whole expression is an operand.\<close>
lemma reads2_paren:
  assumes "reads0 e" "print_expr 2 e = kw LPAREN # print_expr 0 e @ [kw RPAREN]"
  shows "reads2 e"
  unfolding reads2_def
proof (intro allI impI)
  fix ts rest :: "Token list"
  assume ts: "map core ts = print_expr 2 e" and rest: "rest \<noteq> []" "tok_type (hd rest) \<noteq> DOT"
  obtain a us b where split: "ts = a # us @ [b]" "core a = kw LPAREN" "map core us = print_expr 0 e" "core b = kw RPAREN"
    using ts assms(2) by (auto simp: map_eq_append_conv map_eq_Cons_conv)
  have b: "tok_type b = RPAREN" using split(4) by (rule core_kw)
  have "parses (\<lambda>n. or_loop n e) (b # rest) (e, b # rest)" by (rule parses_or_loop_end) (simp add: b)
  then have "parses ParseExpr (us @ b # rest) (e, b # rest)"
    using assms(1) split(3) b by (auto simp: reads0_def)
  then have "parses ParsePrimaryExpr (a # us @ b # rest) (e, rest)"
    by - (rule parses_Suc, simp, rule parses_Match [OF core_kw [OF split(2)]], simp, simp, rule parses_bind [where p = ParseExpr], assumption,
       rule parses_Expect [OF b rest(1)], rule parses_ret)
  then show "parses ParsePrimaryExpr (ts @ rest) (e, rest)" using split(1) by simp
qed

lemma print_value_head:
  assumes "value_shaped e" "map core ts = print_value e"
  shows "ts \<noteq> [] \<and> tok_type (hd ts) \<in> {IDENTIFIER, INTEGER_LITERAL, STRING_LITERAL}"
proof (cases e)
  case (ColumnRefExpr t c)
  then show ?thesis using assms by (auto simp: print_column_def core_ident split: option.splits)
next
  case (LiteralExpr l)
  then obtain a where "ts = [a]" "core a = print_literal l" using assms by auto
  then show ?thesis using core_literal_type [of a l] by (cases l) auto
qed (use assms in simp_all)

lemma reads2_comparison:
  assumes "value_shaped l" "value_shaped r"
  shows "reads2 (ComparisonExpr op l r)"
  unfolding reads2_def
proof (intro allI impI)
  fix ts rest :: "Token list"
  assume ts: "map core ts = print_expr 2 (ComparisonExpr op l r)" and rest: "rest \<noteq> []" "tok_type (hd rest) \<noteq> DOT"
  then have core: "map core ts = print_value l @ kw (op_token op) # print_value r" by simp
  then obtain xs ys where "ts = xs @ ys" "map core xs = print_value l" by (auto simp: map_eq_append_conv)
  then have "tok_type (hd (ts @ rest)) \<noteq> LPAREN" using print_value_head [OF assms(1), of xs] by auto
  then show "parses ParsePrimaryExpr (ts @ rest) (ComparisonExpr op l r, rest)"
    using parses_ParseComparison [OF core assms rest]
    by - (rule parses_Suc, simp, rule parses_no_Match, simp_all)
qed

lemma reads1_and:
  assumes "reads1 l" "reads2 r"
  shows "reads1 (AndExpr l r)"
  unfolding reads1_def
proof (intro allI impI)
  fix ts rest :: "Token list" and res
  assume ts: "map core ts = print_expr 1 (AndExpr l r)" and rest: "rest \<noteq> []" "tok_type (hd rest) \<noteq> DOT"
    and loop: "parses (\<lambda>n. and_loop n (AndExpr l r)) rest res"
  obtain xs a ys where split: "ts = xs @ a # ys" "map core xs = print_expr 1 l" "core a = kw AND" "map core ys = print_expr 2 r"
    using ts by (auto simp: map_eq_append_conv map_eq_Cons_conv)
  have a: "tok_type a = AND" using split(3) by (rule core_kw)
  have r: "parses ParsePrimaryExpr (ys @ rest) (r, rest)" using assms(2) split(4) rest by (simp add: reads2_def)
  have "parses (\<lambda>n. and_loop n l) (a # ys @ rest) res"
    by (rule parses_Suc, simp, rule parses_Match [OF a], simp add: rest(1), simp)
      (rule parses_bind [where p = ParsePrimaryExpr, OF r], rule loop)
  then show "parses ParseAndExpr (ts @ rest) res"
    using assms(1) [unfolded reads1_def, rule_format, OF split(2), of "a # ys @ rest" res] split(1) a by simp
qed

lemma reads0_or:
  assumes "reads0 l" "reads1 r"
  shows "reads0 (OrExpr l r)"
  unfolding reads0_def
proof (intro allI impI)
  fix ts rest :: "Token list" and res
  assume ts: "map core ts = print_expr 0 (OrExpr l r)" and rest: "rest \<noteq> []" "tok_type (hd rest) \<notin> {DOT, AND}"
    and loop: "parses (\<lambda>n. or_loop n (OrExpr l r)) rest res"
  obtain xs a ys where split: "ts = xs @ a # ys" "map core xs = print_expr 0 l" "core a = kw OR" "map core ys = print_expr 1 r"
    using ts by (auto simp: map_eq_append_conv map_eq_Cons_conv)
  have a: "tok_type a = OR" using split(3) by (rule core_kw)
  have r: "parses ParseAndExpr (ys @ rest) (r, rest)"
    using assms(2) split(4) rest parses_and_loop_end [of rest r] by (auto simp: reads1_def)
  have "parses (\<lambda>n. or_loop n l) (a # ys @ rest) res"
    by (rule parses_Suc, simp, rule parses_Match [OF a], simp add: rest(1), simp)
      (rule parses_bind [where p = ParseAndExpr, OF r], rule loop)
  then show "parses ParseExpr (ts @ rest) res"
    using assms(1) [unfolded reads0_def, rule_format, OF split(2), of "a # ys @ rest" res] split(1) a by simp
qed

lemma reads_grammatical: "grammatical e \<Longrightarrow> reads0 e \<and> reads1 e \<and> reads2 e"
proof (induction e)
  case (ComparisonExpr op l r)
  then have "reads2 (ComparisonExpr op l r)" by (simp add: reads2_comparison)
  then show ?case using reads1I [of "ComparisonExpr op l r"] reads0I [of "ComparisonExpr op l r"] by simp
next
  case (AndExpr l r)
  then have "reads1 (AndExpr l r)" by (simp add: reads1_and)
  then show ?case using reads0I [of "AndExpr l r"] reads2_paren [of "AndExpr l r"] by (simp add: Let_def)
next
  case (OrExpr l r)
  then have "reads0 (OrExpr l r)" by (simp add: reads0_or)
  moreover from this have "reads2 (OrExpr l r)" by (rule reads2_paren) (simp add: Let_def)
  ultimately show ?case using reads1I [of "OrExpr l r"] by (simp add: Let_def)
qed simp_all

lemma parses_ParseExpr:
  assumes "grammatical e" "map core ts = print_expr 0 e" "ends_expr rest"
  shows "parses ParseExpr (ts @ rest) (e, rest)"
  using reads_grammatical [OF assms(1)] assms(2,3) parses_or_loop_end [of rest e]
  by (auto simp: reads0_def ends_expr_def)

section \<open>Lists\<close>

text \<open>\<open>reads p pr F\<close>: the rule \<open>p\<close> reads what \<open>pr\<close> prints when a token of a type in \<open>F\<close> follows.\<close>
definition reads :: "'a parser \<Rightarrow> ('a \<Rightarrow> core list) \<Rightarrow> TokenType set \<Rightarrow> bool" where
  "reads p pr F \<longleftrightarrow> (\<forall>x ts rest. map core ts = pr x \<longrightarrow> rest \<noteq> [] \<longrightarrow> tok_type (hd rest) \<in> F \<longrightarrow>
     parses (\<lambda>n. p) (ts @ rest) (x, rest))"

lemma parses_comma_loop:
  assumes "reads p pr F" "COMMA \<in> F" "rest \<noteq> []" "tok_type (hd rest) \<in> F" "tok_type (hd rest) \<noteq> COMMA"
  shows "map core ts = concat (map (\<lambda>z. kw COMMA # z) (map pr xs)) \<Longrightarrow>
    parses (\<lambda>n. comma_loop n p acc) (ts @ rest) (acc @ xs, rest)"
proof (induction xs arbitrary: ts acc)
  case Nil
  then show ?case using assms(5)
    by - (rule parses_Suc, simp, rule parses_no_Match, simp_all add: parses_ret)
next
  case (Cons x xs)
  then obtain a us vs where split: "ts = a # us @ vs" "core a = kw COMMA" "map core us = pr x"
    "map core vs = concat (map (\<lambda>z. kw COMMA # z) (map pr xs))"
    by (auto simp: map_eq_append_conv map_eq_Cons_conv)
  have hd: "tok_type (hd (vs @ rest)) \<in> F" "vs @ rest \<noteq> []"
  proof -
    show "tok_type (hd (vs @ rest)) \<in> F"
    proof (cases xs)
      case Nil
      then show ?thesis using split(4) assms(4) by simp
    next
      case (Cons y ys)
      then obtain b ws where "vs = b # ws" "core b = kw COMMA" using split(4) by (auto simp: map_eq_Cons_conv)
      then show ?thesis using core_kw [of b COMMA] assms(2) by simp
    qed
  qed (use assms(3) in simp)
  have x: "parses (\<lambda>n. p) (us @ vs @ rest) (x, vs @ rest)" using assms(1) split(3) hd by (simp add: reads_def)
  have "parses (\<lambda>n. comma_loop n p acc) (a # us @ vs @ rest) (acc @ x # xs, rest)"
    by (rule parses_Suc, simp, rule parses_Match [OF core_kw [OF split(2)]], simp add: assms(3), simp)
      (rule parses_bind [OF x], use Cons.IH [OF split(4), of "acc @ [x]"] in simp)
  then show ?case using split(1) by simp
qed

lemma parses_comma_list:
  assumes "reads p pr F" "COMMA \<in> F" "rest \<noteq> []" "tok_type (hd rest) \<in> F" "tok_type (hd rest) \<noteq> COMMA"
    and "xs \<noteq> []" "map core ts = sep (map pr xs)"
  shows "parses (\<lambda>n. comma_list n p) (ts @ rest) (xs, rest)"
proof -
  obtain y ys where xs: "xs = y # ys" using assms(6) by (auto simp: neq_Nil_conv)
  obtain us vs where split: "ts = us @ vs" "map core us = pr y" "map core vs = concat (map (\<lambda>z. kw COMMA # z) (map pr ys))"
    using assms(7) xs by (auto simp: sep_def map_eq_append_conv)
  have hd: "tok_type (hd (vs @ rest)) \<in> F"
  proof (cases ys)
    case Nil
    then show ?thesis using split(3) assms(4) by simp
  next
    case (Cons z zs)
    then obtain b ws where "vs = b # ws" "core b = kw COMMA" using split(3) by (auto simp: map_eq_Cons_conv)
    then show ?thesis using core_kw [of b COMMA] assms(2) by simp
  qed
  have y: "parses (\<lambda>n. p) (us @ vs @ rest) (y, vs @ rest)" using assms(1,3) split(2) hd by (simp add: reads_def)
  have "parses (\<lambda>n. comma_list n p) (us @ vs @ rest) (xs, rest)"
    unfolding comma_list_def
    by (rule parses_bind [OF y]) (use parses_comma_loop [OF assms(1-5) split(3), of "[y]"] xs in simp)
  then show ?thesis using split(1) by simp
qed

section \<open>Statements\<close>

lemma reads_ident: "reads ParseIdent (\<lambda>s. [ident s]) UNIV"
  unfolding reads_def by (auto intro: parses_ParseIdent)

lemma reads_literal: "reads ParseLiteral (\<lambda>l. [print_literal l]) UNIV"
  unfolding reads_def by (auto intro: parses_ParseLiteral)

lemma parses_ParseTypeName:
  assumes "core t = kw (case ty of kInteger \<Rightarrow> INTEGER_TYPE | kText \<Rightarrow> TEXT_TYPE)" "us \<noteq> []"
  shows "parses (\<lambda>n. ParseTypeName) (t # us) (ty, us)"
proof (rule parses_const)
  show "ParseTypeName (t # us) = Some (Inr (ty, us))"
    using core_kw [OF assms(1)] assms(2)
    by (cases ty) (simp_all add: ParseTypeName_def pbind_def Match_def Check_def PeekToken_def AdvanceToken_def ret_def)
qed

lemma reads_column_def: "reads ParseColumnDef print_column_def (- {PRIMARY})"
  unfolding reads_def
proof (intro allI impI)
  fix c :: ColumnDef and ts rest :: "Token list"
  assume *: "map core ts = print_column_def c" "rest \<noteq> []" "tok_type (hd rest) \<in> - {PRIMARY}"
  obtain a b us where split: "ts = a # b # us" "core a = ident (cd_name c)"
    "core b = kw (case cd_type c of kInteger \<Rightarrow> INTEGER_TYPE | kText \<Rightarrow> TEXT_TYPE)"
    "map core us = (if is_primary_key c then [kw PRIMARY, kw KEY] else [])"
    using *(1) by (auto simp: print_column_def_def map_eq_Cons_conv)
  have ty: "parses (\<lambda>n. ParseTypeName) (b # us @ rest) (cd_type c, us @ rest)"
    by (rule parses_ParseTypeName [OF split(3)]) (simp add: *(2))
  have "parses (\<lambda>n. ParseColumnDef) (a # b # us @ rest) (c, rest)"
  proof (cases "is_primary_key c")
    case True
    then obtain x y where us: "us = [x, y]" "core x = kw PRIMARY" "core y = kw KEY" using split(4) by auto
    have c: "\<lparr>cd_name = cd_name c, cd_type = cd_type c, is_primary_key = True\<rparr> = c" using True by simp
    show ?thesis unfolding ParseColumnDef_def
      by (rule parses_ident [OF split(2)], simp, rule parses_bind [OF ty], unfold us append.simps,
          rule parses_Match [OF core_kw [OF us(2)]], simp, simp, rule parses_Expect [OF core_kw [OF us(3)] *(2)])
        (unfold c, rule parses_ret)
  next
    case False
    have c: "\<lparr>cd_name = cd_name c, cd_type = cd_type c, is_primary_key = False\<rparr> = c" using False by simp
    have us: "us = []" using False split(4) by simp
    show ?thesis unfolding ParseColumnDef_def
      by (rule parses_ident [OF split(2)], simp, rule parses_bind [OF ty], rule parses_no_Match)
        (use us * in simp, simp only: if_False us append.simps c parses_ret)
  qed
  then show "parses (\<lambda>n. ParseColumnDef) (ts @ rest) (c, rest)" using split(1) by simp
qed

lemma parses_ParseAlias:
  assumes "map core ts = print_alias a" "rest \<noteq> []" "tok_type (hd rest) \<noteq> AS"
  shows "parses (\<lambda>n. ParseAlias) (ts @ rest) (a, rest)"
proof (cases a)
  case None
  then show ?thesis using assms unfolding ParseAlias_def
    by (intro parses_no_Match) (simp_all add: print_alias_def parses_ret)
next
  case (Some s)
  then obtain x y where ts: "ts = [x, y]" "core x = kw AS" "core y = ident s" using assms(1) by (auto simp: print_alias_def)
  have "parses (\<lambda>n. ParseAlias) (x # y # rest) (Some s, rest)" unfolding ParseAlias_def
    by (rule parses_Match [OF core_kw [OF ts(2)]], simp, simp, rule parses_ident [OF ts(3) assms(2)], rule parses_ret)
  then show ?thesis using ts(1) Some by simp
qed

lemma alias_head: "map core ts = print_alias a \<Longrightarrow> tok_type (hd rest) \<noteq> DOT \<Longrightarrow> tok_type (hd (ts @ rest)) \<noteq> DOT"
  using core_kw [of _ AS] by (cases a) (auto simp: print_alias_def)

lemma reads_table_ref: "reads ParseTableRef print_table_ref (- {AS})"
  unfolding reads_def
proof (intro allI impI)
  fix r :: TableRef and ts rest :: "Token list"
  assume *: "map core ts = print_table_ref r" "rest \<noteq> []" "tok_type (hd rest) \<in> - {AS}"
  obtain a us where split: "ts = a # us" "core a = ident (tr_table r)" "map core us = print_alias (tr_alias r)"
    using *(1) by (auto simp: print_table_ref_def)
  have al: "parses (\<lambda>n. ParseAlias) (us @ rest) (tr_alias r, rest)" by (rule parses_ParseAlias) (use * split in auto)
  have r: "\<lparr>tr_table = tr_table r, tr_alias = tr_alias r\<rparr> = r" by simp
  have "parses (\<lambda>n. ParseTableRef) (a # us @ rest) (r, rest)" unfolding ParseTableRef_def
    by (rule parses_ident [OF split(2)], simp add: *(2), rule parses_bind [OF al]) (unfold r, rule parses_ret)
  then show "parses (\<lambda>n. ParseTableRef) (ts @ rest) (r, rest)" using split(1) by simp
qed

lemma reads_select_item: "reads ParseSelectItem print_select_item (- {AS, DOT})"
  unfolding reads_def
proof (intro allI impI)
  fix i :: SelectItem and ts rest :: "Token list"
  assume *: "map core ts = print_select_item i" "rest \<noteq> []" "tok_type (hd rest) \<in> - {AS, DOT}"
  obtain us vs where split: "ts = us @ vs" "map core us = print_column (si_table i) (si_column i)"
    "map core vs = print_alias (si_alias i)"
    using *(1) by (auto simp: print_select_item_def map_eq_append_conv)
  have al: "parses (\<lambda>n. ParseAlias) (vs @ rest) (si_alias i, rest)" by (rule parses_ParseAlias) (use * split in auto)
  have column: "parses (\<lambda>n. ParseColumnRef) (us @ vs @ rest) ((si_table i, si_column i), vs @ rest)"
    by (rule parses_ParseColumnRef [OF split(2)]) (use * alias_head [OF split(3), of rest] in auto)
  have i: "\<lparr>si_table = si_table i, si_column = si_column i, si_alias = si_alias i\<rparr> = i" by simp
  have "parses (\<lambda>n. ParseSelectItem) (us @ vs @ rest) (i, rest)" unfolding ParseSelectItem_def
    by (rule parses_bind [OF column], unfold prod.case, rule parses_bind [OF al]) (unfold i, rule parses_ret)
  then show "parses (\<lambda>n. ParseSelectItem) (ts @ rest) (i, rest)" using split(1) by simp
qed

lemma parses_ParseJoinClause:
  assumes "map core ts = print_join j" "grammatical (on_condition j)" "ends_expr rest"
  shows "parses ParseJoinClause (ts @ rest) (j, rest)"
proof -
  obtain a us b vs where split: "ts = a # us @ b # vs" "core a = kw JOIN" "map core us = print_table_ref (jc_table j)"
    "core b = kw ON" "map core vs = print_expr 0 (on_condition j)"
    using assms(1) by (auto simp: print_join_def map_eq_append_conv map_eq_Cons_conv)
  have tr: "parses (\<lambda>n. ParseTableRef) (us @ b # vs @ rest) (jc_table j, b # vs @ rest)"
    using reads_table_ref split(3) core_kw [OF split(4)] unfolding reads_def by simp
  have on: "parses ParseExpr (vs @ rest) (on_condition j, rest)" by (rule parses_ParseExpr [OF assms(2) split(5) assms(3)])
  have j: "\<lparr>jc_table = jc_table j, on_condition = on_condition j\<rparr> = j" by simp
  have rest: "rest \<noteq> []" using assms(3) by (simp add: ends_expr_def)
  have "parses (\<lambda>n. ParseJoinClause n) (a # us @ b # vs @ rest) (j, rest)" unfolding ParseJoinClause_def
    by (rule parses_Expect [OF core_kw [OF split(2)]], simp, rule parses_bind [OF tr],
        rule parses_Expect [OF core_kw [OF split(4)]], simp add: rest, rule parses_bind [where p = ParseExpr, OF on])
      (unfold j, rule parses_ret)
  then show ?thesis using split(1) by simp
qed

lemma parses_join_loop:
  assumes "rest \<noteq> []" "tok_type (hd rest) \<notin> {DOT, AND, OR, JOIN}"
  shows "map core ts = concat (map print_join js) \<Longrightarrow> (\<forall>j \<in> set js. grammatical (on_condition j)) \<Longrightarrow>
    parses (\<lambda>n. join_loop n acc) (ts @ rest) (acc @ js, rest)"
proof (induction js arbitrary: ts acc)
  case Nil
  then show ?case using assms by - (rule parses_Suc, simp, rule parses_if_check, simp add: parses_ret)
next
  case (Cons j js)
  then obtain us vs where split: "ts = us @ vs" "map core us = print_join j" "map core vs = concat (map print_join js)"
    by (auto simp: map_eq_append_conv)
  obtain a us' where a: "us = a # us'" "core a = kw JOIN" using split(2) by (auto simp: print_join_def)
  have "ends_expr (vs @ rest)"
  proof (cases js)
    case Nil
    then show ?thesis using split(3) assms by (simp add: ends_expr_def)
  next
    case (Cons k ks)
    then obtain b ws where "vs = b # ws" "core b = kw JOIN" using split(3) by (auto simp: print_join_def map_eq_Cons_conv)
    then show ?thesis using core_kw [of b JOIN] by (simp add: ends_expr_def)
  qed
  then have "parses ParseJoinClause (us @ vs @ rest) (j, vs @ rest)"
    using Cons.prems(2) by (intro parses_ParseJoinClause [OF split(2)]) simp_all
  moreover have "parses (\<lambda>n. join_loop n (acc @ [j])) (vs @ rest) (acc @ j # js, rest)"
    using Cons.IH [OF split(3), of "acc @ [j]"] Cons.prems(2) by simp
  ultimately have "parses (\<lambda>n. pbind (ParseJoinClause n) (\<lambda>j. join_loop n (acc @ [j]))) (us @ vs @ rest) (acc @ j # js, rest)"
    by (rule parses_bind)
  then have "parses (\<lambda>n. join_loop n acc) (us @ vs @ rest) (acc @ j # js, rest)"
    using a core_kw [OF a(2)] by - (rule parses_Suc, simp, rule parses_if_check, simp)
  then show ?case using split(1) by simp
qed

text \<open>What may follow a statement.\<close>
definition ends_stmt :: "Token list \<Rightarrow> bool" where
  "ends_stmt rest \<longleftrightarrow> rest \<noteq> [] \<and> tok_type (hd rest) \<in> {SEMICOLON, END_OF_INPUT}"

lemma parses_ParseCreateTable:
  assumes "map core ts = print_stmt (CreateTable s)" "ct_columns s \<noteq> []" "ends_stmt rest"
  shows "parses ParseCreateTable (ts @ rest) (CreateTable s, rest)"
proof -
  obtain a b c d us e where split: "ts = a # b # c # d # us @ [e]" "core a = kw CREATE" "core b = kw TABLE"
    "core c = ident (ct_table_name s)" "core d = kw LPAREN" "map core us = sep (map print_column_def (ct_columns s))"
    "core e = kw RPAREN"
    using assms(1) by (auto simp: map_eq_append_conv map_eq_Cons_conv)
  have rest: "rest \<noteq> []" using assms(3) by (simp add: ends_stmt_def)
  have cols: "parses (\<lambda>n. comma_list n ParseColumnDef) (us @ e # rest) (ct_columns s, e # rest)"
    by (rule parses_comma_list [OF reads_column_def _ _ _ _ assms(2) split(6)])
      (simp_all add: core_kw [OF split(7)])
  have s: "\<lparr>ct_table_name = ct_table_name s, ct_columns = ct_columns s\<rparr> = s" by simp
  have "parses (\<lambda>n. ParseCreateTable n) (a # b # c # d # us @ e # rest) (CreateTable s, rest)"
    unfolding ParseCreateTable_def
    by (rule parses_Expect [OF core_kw [OF split(2)]], simp, rule parses_Expect [OF core_kw [OF split(3)]], simp,
        rule parses_ident [OF split(4)], simp, rule parses_Expect [OF core_kw [OF split(5)]], simp,
        rule parses_bind [OF cols], rule parses_Expect [OF core_kw [OF split(7)] rest])
      (unfold s, rule parses_ret)
  then show ?thesis using split(1) by simp
qed

lemma parses_insert_columns:
  assumes "map core ts = (if cols = [] then [] else kw LPAREN # sep (map (\<lambda>c. [ident c]) cols) @ [kw RPAREN])"
    and "rest \<noteq> []" "tok_type (hd rest) = VALUES"
  shows "parses (\<lambda>n. pbind (Match LPAREN) (\<lambda>b.
         if b then pbind (comma_list n ParseIdent) (\<lambda>cols. pbind (Expect RPAREN ''end of the column list'') (\<lambda>_. ret cols))
         else ret [])) (ts @ rest) (cols, rest)"
proof (cases "cols = []")
  case True
  then have "ts = []" using assms(1) by simp
  then show ?thesis using True assms(3) by (intro parses_no_Match) (simp_all add: parses_ret)
next
  case False
  then obtain a us b where split: "ts = a # us @ [b]" "core a = kw LPAREN" "map core us = sep (map (\<lambda>c. [ident c]) cols)" "core b = kw RPAREN"
    using assms(1) by (auto simp: map_eq_append_conv map_eq_Cons_conv)
  have cols: "parses (\<lambda>n. comma_list n ParseIdent) (us @ b # rest) (cols, b # rest)"
    by (rule parses_comma_list [OF reads_ident _ _ _ _ False split(3)]) (simp_all add: core_kw [OF split(4)])
  have "parses (\<lambda>n. pbind (Match LPAREN) (\<lambda>b.
         if b then pbind (comma_list n ParseIdent) (\<lambda>cols. pbind (Expect RPAREN ''end of the column list'') (\<lambda>_. ret cols))
         else ret [])) (a # us @ b # rest) (cols, rest)"
    by (rule parses_Match [OF core_kw [OF split(2)]], simp, unfold if_True, rule parses_bind [OF cols],
        rule parses_Expect [OF core_kw [OF split(4)] assms(2)], rule parses_ret)
  then show ?thesis using split(1) by simp
qed

lemma parses_ParseInsert:
  assumes "map core ts = print_stmt (Insert s)" "ins_values s \<noteq> []" "ends_stmt rest"
  shows "parses ParseInsert (ts @ rest) (Insert s, rest)"
proof -
  define cs where "cs = (if ins_columns s = [] then [] else kw LPAREN # sep (map (\<lambda>c. [ident c]) (ins_columns s)) @ [kw RPAREN])"
  define ls where "ls = sep (map (\<lambda>l. [print_literal l]) (ins_values s))"
  have "map core ts = kw INSERT # kw INTO # ident (ins_table_name s) # cs @ kw VALUES # kw LPAREN # ls @ [kw RPAREN]"
    using assms(1) by (simp add: cs_def ls_def)
  then have "map core ts = (kw INSERT # kw INTO # ident (ins_table_name s) # cs) @ (kw VALUES # kw LPAREN # ls @ [kw RPAREN])"
    by simp
  then obtain xs ws where 0: "ts = xs @ ws" "map core xs = kw INSERT # kw INTO # ident (ins_table_name s) # cs"
    "map core ws = kw VALUES # kw LPAREN # ls @ [kw RPAREN]" by (rule core_appendE)
  obtain a b c us where 1: "xs = a # b # c # us" "core a = kw INSERT" "core b = kw INTO"
    "core c = ident (ins_table_name s)" "map core us = cs"
    using 0(2) by (auto simp: map_eq_Cons_conv)
  obtain d e vs f where 2: "ws = d # e # vs @ [f]" "core d = kw VALUES" "core e = kw LPAREN" "map core vs = ls" "core f = kw RPAREN"
    using 0(3) by (auto simp: map_eq_append_conv map_eq_Cons_conv)
  have split: "ts = a # b # c # us @ d # e # vs @ [f]" "core a = kw INSERT" "core b = kw INTO"
    "core c = ident (ins_table_name s)"
    "map core us = (if ins_columns s = [] then [] else kw LPAREN # sep (map (\<lambda>c. [ident c]) (ins_columns s)) @ [kw RPAREN])"
    "core d = kw VALUES" "core e = kw LPAREN" "map core vs = sep (map (\<lambda>l. [print_literal l]) (ins_values s))" "core f = kw RPAREN"
    using 0(1) 1 2 by (simp_all add: cs_def ls_def)
  have rest: "rest \<noteq> []" using assms(3) by (simp add: ends_stmt_def)
  have cols: "parses (\<lambda>n. pbind (Match LPAREN) (\<lambda>b.
         if b then pbind (comma_list n ParseIdent) (\<lambda>cols. pbind (Expect RPAREN ''end of the column list'') (\<lambda>_. ret cols))
         else ret [])) (us @ d # e # vs @ f # rest) (ins_columns s, d # e # vs @ f # rest)"
    by (rule parses_insert_columns [OF split(5)]) (simp_all add: core_kw [OF split(6)])
  have vals: "parses (\<lambda>n. comma_list n ParseLiteral) (vs @ f # rest) (ins_values s, f # rest)"
    by (rule parses_comma_list [OF reads_literal _ _ _ _ assms(2) split(8)]) (simp_all add: core_kw [OF split(9)])
  have s: "\<lparr>ins_table_name = ins_table_name s, ins_columns = ins_columns s, ins_values = ins_values s\<rparr> = s" by simp
  have "parses (\<lambda>n. ParseInsert n) (a # b # c # us @ d # e # vs @ f # rest) (Insert s, rest)"
    unfolding ParseInsert_def
    by (rule parses_Expect [OF core_kw [OF split(2)]], simp, rule parses_Expect [OF core_kw [OF split(3)]], simp,
        rule parses_ident [OF split(4)], simp, rule parses_bind [OF cols],
        rule parses_Expect [OF core_kw [OF split(6)]], simp, rule parses_Expect [OF core_kw [OF split(7)]], simp,
        rule parses_bind [OF vals], rule parses_Expect [OF core_kw [OF split(9)] rest])
      (unfold s, rule parses_ret)
  then show ?thesis using split(1) by simp
qed

lemma parses_where:
  assumes "map core ts = (case w of None \<Rightarrow> [] | Some e \<Rightarrow> kw WHERE # print_expr 0 e)"
    and "case w of None \<Rightarrow> True | Some e \<Rightarrow> grammatical e" "ends_stmt rest"
  shows "parses (\<lambda>n. pbind (Match WHERE) (\<lambda>b. if b then pbind (ParseExpr n) (\<lambda>e. ret (Some e)) else ret None)) (ts @ rest) (w, rest)"
proof (cases w)
  case None
  then have "ts = []" using assms(1) by simp
  then show ?thesis using None assms(3) by (intro parses_no_Match) (auto simp: parses_ret ends_stmt_def)
next
  case (Some e)
  then obtain a us where split: "ts = a # us" "core a = kw WHERE" "map core us = print_expr 0 e" using assms(1) by auto
  have "ends_expr rest" using assms(3) by (auto simp: ends_expr_def ends_stmt_def)
  then have e: "parses ParseExpr (us @ rest) (e, rest)" using Some assms(2) split(3) by (intro parses_ParseExpr) simp_all
  have "parses (\<lambda>n. pbind (Match WHERE) (\<lambda>b. if b then pbind (ParseExpr n) (\<lambda>e. ret (Some e)) else ret None)) (a # us @ rest) (Some e, rest)"
    by (rule parses_Match [OF core_kw [OF split(2)]], use assms(3) in \<open>simp add: ends_stmt_def\<close>, unfold if_True,
        rule parses_bind [where p = ParseExpr, OF e], rule parses_ret)
  then show ?thesis using split(1) Some by simp
qed

text \<open>The select list, behind the decision on the star.\<close>
lemma parses_select_list:
  assumes "map core ts = (if star then [kw STAR] else sep (map print_select_item items))"
    and "if star then items = [] else items \<noteq> []" "rest \<noteq> []" "tok_type (hd rest) = FROM"
    and "parses (\<lambda>n. f n star items) rest r"
  shows "parses (\<lambda>n. pbind (Match STAR) (\<lambda>star. pbind (if star then ret [] else comma_list n ParseSelectItem) (f n star))) (ts @ rest) r"
proof (cases star)
  case True
  then obtain a where "ts = [a]" "core a = kw STAR" using assms(1) by auto
  then show ?thesis using True assms(2,3,5)
    by (auto intro!: parses_Match parses_bind [where x = items and us = rest] simp: core_kw parses_ret)
next
  case False
  then have core: "map core ts = sep (map print_select_item items)" and ne: "items \<noteq> []" using assms(1,2) by simp_all
  have items: "parses (\<lambda>n. comma_list n ParseSelectItem) (ts @ rest) (items, rest)"
    by (rule parses_comma_list [OF reads_select_item _ assms(3) _ _ ne core]) (simp_all add: assms(4))
  obtain i js where i: "items = i # js" using ne by (auto simp: neq_Nil_conv)
  obtain c us where "ts = c # us" "tok_type c = IDENTIFIER"
    using core unfolding i
    by (auto simp: sep_def print_select_item_def print_column_def map_eq_append_conv map_eq_Cons_conv
        dest: core_ident(1) [OF sym] split: option.splits)
  then have "tok_type (hd (ts @ rest)) \<noteq> STAR" by simp
  then show ?thesis using False assms(5)
    by - (rule parses_no_Match, assumption, simp, rule parses_bind [OF items], simp)
qed

lemma parses_ParseSelect:
  assumes "map core ts = print_stmt (Select s)" "grammatical_statement (Select s)" "ends_stmt rest"
  shows "parses ParseSelect (ts @ rest) (Select s, rest)"
proof -
  define ls where "ls = (if is_star s then [kw STAR] else sep (map print_select_item (select_items s)))"
  define js where "js = concat (map print_join (sel_joins s))"
  define wh where "wh = (case sel_where s of None \<Rightarrow> [] | Some e \<Rightarrow> kw WHERE # print_expr 0 e)"
  have "map core ts = (kw SELECT # ls) @ (kw FROM # print_table_ref (from_table s)) @ js @ wh"
    using assms(1) by (simp add: ls_def js_def wh_def)
  then obtain x1 y1 where 1: "ts = x1 @ y1" "map core x1 = kw SELECT # ls"
    "map core y1 = (kw FROM # print_table_ref (from_table s)) @ js @ wh" by (rule core_appendE)
  from 1(3) obtain x2 y2 where 2: "y1 = x2 @ y2" "map core x2 = kw FROM # print_table_ref (from_table s)" "map core y2 = js @ wh"
    by (rule core_appendE)
  from 2(3) obtain us vs where 3: "y2 = us @ vs" "map core us = js" "map core vs = wh" by (rule core_appendE)
  obtain a as where 4: "x1 = a # as" "core a = kw SELECT" "map core as = ls" using 1(2) by auto
  obtain b bs where 5: "x2 = b # bs" "core b = kw FROM" "map core bs = print_table_ref (from_table s)" using 2(2) by auto
  have rest: "rest \<noteq> []" using assms(3) by (simp add: ends_stmt_def)
  have g: "if is_star s then select_items s = [] else select_items s \<noteq> []"
    "\<forall>j \<in> set (sel_joins s). grammatical (on_condition j)" "case sel_where s of None \<Rightarrow> True | Some e \<Rightarrow> grammatical e"
    using assms(2) unfolding grammatical_statement.simps by blast+
  have vs_hd: "tok_type (hd (vs @ rest)) \<in> {WHERE, SEMICOLON, END_OF_INPUT}"
    using 3(3) assms(3) core_kw [of _ WHERE] by (auto simp: wh_def ends_stmt_def split: option.splits)
  have us_hd: "tok_type (hd (us @ vs @ rest)) \<in> {JOIN, WHERE, SEMICOLON, END_OF_INPUT}"
  proof (cases us)
    case Nil
    then show ?thesis using vs_hd by auto
  next
    case (Cons c cs)
    then have "core c = kw JOIN" using 3(2) by (cases "sel_joins s") (auto simp: js_def print_join_def)
    then show ?thesis using Cons core_kw [of c JOIN] by simp
  qed
  have fr: "parses (\<lambda>n. ParseTableRef) (bs @ us @ vs @ rest) (from_table s, us @ vs @ rest)"
    using reads_table_ref 5(3) us_hd rest unfolding reads_def by auto
  have joins: "parses (\<lambda>n. join_loop n []) (us @ vs @ rest) (sel_joins s, vs @ rest)"
    using parses_join_loop [of "vs @ rest" us "sel_joins s" "[]"] vs_hd rest g(2) 3(2) by (auto simp: js_def)
  have wh: "parses (\<lambda>n. pbind (Match WHERE) (\<lambda>b. if b then pbind (ParseExpr n) (\<lambda>e. ret (Some e)) else ret None))
      (vs @ rest) (sel_where s, rest)"
    by (rule parses_where [OF _ g(3) assms(3)]) (use 3(3) in \<open>simp add: wh_def\<close>)
  have s: "\<lparr>is_star = is_star s, select_items = select_items s, from_table = from_table s, sel_joins = sel_joins s,
      sel_where = sel_where s\<rparr> = s" by simp
  have "parses (\<lambda>n. ParseSelect n) (a # as @ b # bs @ us @ vs @ rest) (Select s, rest)"
    unfolding ParseSelect_def
    by (rule parses_Expect [OF core_kw [OF 4(2)]], simp, rule parses_select_list [OF 4(3) [unfolded ls_def] g(1)],
        simp, simp add: core_kw [OF 5(2)], rule parses_Expect [OF core_kw [OF 5(2)]], simp add: rest,
        rule parses_bind [OF fr], rule parses_bind [OF joins], rule parses_bind [OF wh])
      (unfold s, rule parses_ret)
  then show ?thesis using 1(1) 2(1) 3(1) 4(1) 5(1) by simp
qed

lemma parses_ParseStatement:
  assumes "map core ts = print_stmt s" "grammatical_statement s"
    and end_: "tok_type e = END_OF_INPUT" and semi: "semi = [] \<or> (\<exists>t. semi = [t] \<and> tok_type t = SEMICOLON)"
  shows "parses ParseStatement (ts @ semi @ [e]) (s, [e])"
proof -
  have ends: "ends_stmt (semi @ [e])" using end_ semi by (auto simp: ends_stmt_def)
  define p where "p n = if_check CREATE (ParseCreateTable n) (if_check INSERT (ParseInsert n) (if_check SELECT (ParseSelect n)
            (Error ''expected a statement starting with CREATE, INSERT, or SELECT'')))" for n
  have "parses p (ts @ semi @ [e]) (s, semi @ [e])"
  proof (cases s)
    case (CreateTable c)
    then obtain a us where "ts = a # us" "core a = kw CREATE" using assms(1) by auto
    then show ?thesis using parses_ParseCreateTable [OF _ _ ends, of ts c] CreateTable assms(1,2) core_kw [of a CREATE]
      unfolding p_def by (intro parses_if_check) simp
  next
    case (Insert c)
    then obtain a us where "ts = a # us" "core a = kw INSERT" using assms(1) by auto
    then show ?thesis using parses_ParseInsert [OF _ _ ends, of ts c] Insert assms(1,2) core_kw [of a INSERT]
      unfolding p_def by (intro parses_if_check) (simp, intro parses_if_check, simp)
  next
    case (Select c)
    then obtain a us where "ts = a # us" "core a = kw SELECT" using assms(1) by auto
    then show ?thesis using parses_ParseSelect [OF _ _ ends, of ts c] Select assms(1,2) core_kw [of a SELECT]
      unfolding p_def by (intro parses_if_check) (simp, intro parses_if_check, simp, intro parses_if_check, simp)
  qed
  moreover have "pbind (Match SEMICOLON) (\<lambda>_. pbind (Expect END_OF_INPUT ''end of statement'') (\<lambda>_. ret s)) (semi @ [e]) =
      Some (Inr (s, [e]))"
    using end_ semi by (auto simp: pbind_def Match_def Check_def PeekToken_def AdvanceToken_def Expect_def ret_def)
  ultimately show ?thesis unfolding ParseStatement_def p_def [symmetric]
    by (rule parses_bind [where p = p, OF _ parses_const])
qed

lemma ParseTokens_print:
  assumes "parses ParseStatement ts (s, us)" "terminated ts"
  shows "ParseTokens ts = Some (Inr s)"
proof -
  obtain m where m: "\<And>n. m \<le> n \<Longrightarrow> ParseStatement n ts = Some (Inr (s, us))" using assms(1) by (auto simp: parses_def)
  obtain r where r: "ParseStatement (parse_fuel ts) ts = Some r"
    using finishes_ParseStatement [of "length ts" "parse_fuel ts"] assms(2) by (auto simp: finishes_def parse_fuel_def)
  have "r = Inr (s, us)" using ParseStatement_mono [OF r, of m] m [of "parse_fuel ts + m"] by simp
  then show ?thesis using r by (simp add: ParseTokens_def)
qed

text \<open>
  C38. Parsing inverts printing: whatever tokens spell a statement of the grammar (an optional
  semicolon and the end of input behind it), the parser returns that statement, with OR binding
  weaker than AND, both associating to the left, and parentheses overriding them.
\<close>
theorem parser_roundtrip:
  assumes "grammatical_statement s" "map core ts = print_stmt s @ semi @ [kw END_OF_INPUT]" "semi = [] \<or> semi = [kw SEMICOLON]"
  shows "ParseTokens ts = Some (Inr s)"
proof -
  obtain us vs where 1: "ts = us @ vs" "map core us = print_stmt s" "map core vs = semi @ [kw END_OF_INPUT]"
    using assms(2) by (rule core_appendE)
  from 1(3) obtain ss es where 2: "vs = ss @ es" "map core ss = semi" "map core es = [kw END_OF_INPUT]" by (rule core_appendE)
  obtain e where e: "es = [e]" "tok_type e = END_OF_INPUT" using 2(3) core_kw by auto
  have "ss = [] \<or> (\<exists>t. ss = [t] \<and> tok_type t = SEMICOLON)" using 2(2) assms(3) core_kw by auto
  then have "parses ParseStatement ts (s, [e])"
    using parses_ParseStatement [OF 1(2) assms(1) e(2)] 1(1) 2(1) e(1) by blast
  moreover have "terminated ts" using 1(1) 2(1) e by (simp add: terminated_def)
  ultimately show ?thesis by (rule ParseTokens_print)
qed

definition token_of :: "core \<Rightarrow> Token" where
  "token_of c = (case c of (ty, s, i, v) \<Rightarrow>
     \<lparr>tok_type = ty, tok_text = s, tok_int = i, tok_string = v, tok_line = 1, tok_column = 1\<rparr>)"

definition sample_create :: Statement where
  "sample_create = CreateTable \<lparr>ct_table_name = ''t'', ct_columns =
     [\<lparr>cd_name = ''a'', cd_type = kInteger, is_primary_key = True\<rparr>, \<lparr>cd_name = ''b'', cd_type = kText, is_primary_key = False\<rparr>]\<rparr>"

theorem parser_roundtrip_witness:
  "ParseTokens (map token_of (print_stmt sample_create @ [kw SEMICOLON] @ [kw END_OF_INPUT])) = Some (Inr sample_create)"
  by (rule parser_roundtrip [of _ _ "[kw SEMICOLON]"])
    (simp_all add: sample_create_def sep_def print_column_def_def kw_def ident_def token_of_def core_def)

end
