(* ===== verification/Sql_Roundtrip.thy ===== *)
theory Sql_Roundtrip
  imports Parser_Roundtrip
begin

text \<open>
  The lexer is the inverse of spelling tokens, and with the parser's round trip, \<open>ParseSQL\<close> is the
  inverse of writing a statement as SQL text.
\<close>

section \<open>Spelling tokens\<close>

definition digit :: "nat \<Rightarrow> char" where
  "digit d = char_of (48 + d)"

fun decimal :: "nat \<Rightarrow> string" where
  "decimal n = (if n < 10 then [digit n] else decimal (n div 10) @ [digit (n mod 10)])"

declare decimal.simps [simp del]

definition quote :: "string \<Rightarrow> string" where
  "quote s = CHR 0x27 # concat (map (\<lambda>c. if c = CHR 0x27 then [CHR 0x27, CHR 0x27] else [c]) s) @ [CHR 0x27]"

fun spell :: "TokenType \<Rightarrow> string" where
  "spell STAR = ''*''" | "spell COMMA = '',''" | "spell DOT = ''.''" | "spell SEMICOLON = '';''"
| "spell LPAREN = ''(''" | "spell RPAREN = '')''" | "spell EQ = ''=''" | "spell NEQ = ''!=''"
| "spell LT = ''<''" | "spell LTE = ''<=''" | "spell GT = ''>''" | "spell GTE = ''>=''"
| "spell ty = TokenTypeName ty"

fun spell_core :: "core \<Rightarrow> string" where
  "spell_core (ty, s, i, t) =
     (if ty = IDENTIFIER then s else if ty = INTEGER_LITERAL then decimal (unat i)
      else if ty = STRING_LITERAL then quote t else spell ty)"

text \<open>Tokens separated by blanks.\<close>
definition spell_all :: "core list \<Rightarrow> string" where
  "spell_all cs = concat (map (\<lambda>c. spell_core c @ '' '') cs)"

definition ident_char :: "char \<Rightarrow> bool" where
  "ident_char c \<longleftrightarrow> isalnum c \<or> c = CHR ''_''"

text \<open>A name: it starts with a letter or an underscore and is not a keyword.\<close>
definition valid_name :: "string \<Rightarrow> bool" where
  "valid_name s \<longleftrightarrow> s \<noteq> [] \<and> (isalpha (hd s) \<or> hd s = CHR ''_'') \<and> list_all ident_char s
     \<and> map_of KeywordTable (ToUpper s) = None"

text \<open>A token the lexer can produce, other than the end of input.\<close>
fun lexable :: "core \<Rightarrow> bool" where
  "lexable (ty, s, i, t) \<longleftrightarrow> ty \<noteq> END_OF_INPUT \<and> (ty = IDENTIFIER \<longrightarrow> valid_name s) \<and> (ty \<noteq> IDENTIFIER \<longrightarrow> s = [])
     \<and> (ty = INTEGER_LITERAL \<longrightarrow> unat i < 2 ^ 63) \<and> (ty \<noteq> INTEGER_LITERAL \<longrightarrow> i = 0) \<and> (ty \<noteq> STRING_LITERAL \<longrightarrow> t = [])"

section \<open>Scanning\<close>

lemma advance_while_prefix:
  "lx_rest lx = xs @ ys \<Longrightarrow> list_all P xs \<Longrightarrow> ys = [] \<or> \<not> P (hd ys) \<Longrightarrow>
   \<exists>lx'. advance_while P lx acc = (acc @ xs, lx') \<and> lx_rest lx' = ys"
proof (induction xs arbitrary: lx acc)
  case Nil
  then have "\<not> (\<not> IsAtEnd lx \<and> P (Peek lx))" by (cases ys) (auto simp: IsAtEnd_def)
  then show ?case using Nil by (subst advance_while.simps) auto
next
  case (Cons x xs)
  then have "\<not> IsAtEnd lx" "Peek lx = x" "lx_rest (Advance lx) = xs @ ys" by (auto simp: IsAtEnd_def)
  then show ?case using Cons.IH [of "Advance lx" "acc @ [x]"] Cons.prems by (subst advance_while.simps) auto
qed

lemma SkipWhitespace_rest:
  "lx_rest lx = replicate n CHR '' '' @ ys \<Longrightarrow> ys = [] \<or> \<not> isspace (hd ys) \<Longrightarrow> lx_rest (SkipWhitespace lx) = ys"
  using advance_while_prefix [of lx "replicate n CHR '' ''" ys isspace "[]"]
  by (fastforce simp: SkipWhitespace_def list_all_iff isspace_def code_def)

lemma code_digit: "d < 10 \<Longrightarrow> code (digit d) = 48 + d"
  by (simp add: code_def digit_def)

lemma isdigit_decimal: "list_all isdigit (decimal n)"
proof (induction n rule: decimal.induct)
  case (1 n)
  have "isdigit (digit (n mod 10))" by (simp add: isdigit_def code_digit)
  moreover have "isdigit (digit n)" if "n < 10" using that by (simp add: isdigit_def code_digit)
  ultimately show ?case using 1 by (subst decimal.simps) auto
qed

lemma digits_value_snoc: "digits_value (s @ [c]) = 10 * digits_value s + (code c - 48)"
  by (simp add: digits_value_def)

lemma digits_value_decimal: "digits_value (decimal n) = n"
proof (induction n rule: decimal.induct)
  case (1 n)
  show ?case
  proof (cases "n < 10")
    case True
    then show ?thesis by (subst decimal.simps) (simp add: digits_value_def code_digit)
  next
    case False
    then show ?thesis using 1 by (subst decimal.simps) (simp add: digits_value_snoc code_digit)
  qed
qed

lemma decimal_not_Nil: "decimal n \<noteq> []"
  by (subst decimal.simps) simp

lemma lex_string_loop_quoted:
  "lx_rest lx = concat (map (\<lambda>c. if c = CHR 0x27 then [CHR 0x27, CHR 0x27] else [c]) s) @ CHR 0x27 # ys \<Longrightarrow>
   ys = [] \<or> hd ys \<noteq> CHR 0x27 \<Longrightarrow>
   \<exists>lx'. lex_string_loop sl sc lx acc = Inr (acc @ s, lx') \<and> lx_rest lx' = ys"
proof (induction s arbitrary: lx acc)
  case Nil
  then have "\<not> IsAtEnd lx" "Peek lx = CHR 0x27" "lx_rest (Advance lx) = ys" by (auto simp: IsAtEnd_def)
  moreover have "Peek (Advance lx) \<noteq> CHR 0x27" using Nil by (cases ys) (auto simp: Peek_def)
  ultimately show ?case by (subst lex_string_loop.simps) (simp add: Let_def)
next
  case (Cons c s)
  show ?case
  proof (cases "c = CHR 0x27")
    case True
    then have r: "lx_rest lx = CHR 0x27 # CHR 0x27 # concat (map (\<lambda>c. if c = CHR 0x27 then [CHR 0x27, CHR 0x27] else [c]) s) @ CHR 0x27 # ys"
      using Cons.prems by simp
    then have "\<not> IsAtEnd lx" "Peek lx = CHR 0x27" "Peek (Advance lx) = CHR 0x27" by (auto simp: IsAtEnd_def Peek_def)
    then show ?thesis using True r Cons.IH [of "Advance (Advance lx)" "acc @ [CHR 0x27]"] Cons.prems
      by (subst lex_string_loop.simps) (simp add: Let_def)
  next
    case False
    then have r: "lx_rest lx = c # concat (map (\<lambda>c. if c = CHR 0x27 then [CHR 0x27, CHR 0x27] else [c]) s) @ CHR 0x27 # ys"
      using Cons.prems by simp
    then have "\<not> IsAtEnd lx" "Peek lx = c" by (auto simp: IsAtEnd_def)
    then show ?thesis using False r Cons.IH [of "Advance lx" "acc @ [c]"] Cons.prems
      by (subst lex_string_loop.simps) (simp add: Let_def)
  qed
qed

section \<open>One token\<close>

lemma lex_name:
  assumes "lx_rest lx = s @ '' '' @ ys" "s \<noteq> []" "isalpha (hd s) \<or> hd s = CHR ''_''" "list_all ident_char s"
  shows "\<exists>t lx'. lex_token lx = Inr (t, lx') \<and> lx_rest lx' = '' '' @ ys \<and> tok_text t = s \<and> tok_int t = 0 \<and> tok_string t = []
    \<and> tok_type t = (case map_of KeywordTable (ToUpper s) of Some ty \<Rightarrow> ty | None \<Rightarrow> IDENTIFIER)"
proof -
  have "\<not> (isalnum CHR '' '' \<or> CHR '' '' = CHR ''_'')" by (simp add: char_class_defs code_def)
  then obtain lx' where "advance_while (\<lambda>c. isalnum c \<or> c = CHR ''_'') lx [] = (s, lx')" "lx_rest lx' = '' '' @ ys"
    using advance_while_prefix [OF assms(1), of "\<lambda>c. isalnum c \<or> c = CHR ''_''" "[]"] assms(4)
    by (auto simp: ident_char_def [abs_def])
  moreover have "Peek lx = hd s" using assms(1,2) by (cases s) (auto simp: Peek_def)
  ultimately show ?thesis using assms(3) by (auto simp: lex_token_def LexIdentifierOrKeyword_def)
qed

definition is_keyword :: "TokenType \<Rightarrow> bool" where
  "is_keyword ty \<longleftrightarrow> ty \<in> set (map snd KeywordTable)"

lemma keyword_spelling:
  "is_keyword ty \<Longrightarrow> map_of KeywordTable (ToUpper (spell ty)) = Some ty \<and> spell ty \<noteq> []
     \<and> isalpha (hd (spell ty)) \<and> list_all ident_char (spell ty)"
proof -
  have "list_all (\<lambda>ty. map_of KeywordTable (ToUpper (spell ty)) = Some ty \<and> spell ty \<noteq> []
     \<and> isalpha (hd (spell ty)) \<and> list_all ident_char (spell ty)) (map snd KeywordTable)"
    by code_simp
  then show "is_keyword ty \<Longrightarrow> ?thesis" unfolding is_keyword_def list_all_iff by blast
qed

definition punctuation :: "TokenType list" where
  "punctuation = [STAR, COMMA, DOT, SEMICOLON, LPAREN, RPAREN, EQ, NEQ, LT, LTE, GT, GTE]"

lemma token_kinds: "ty \<noteq> END_OF_INPUT \<Longrightarrow> is_keyword ty \<or> ty \<in> {IDENTIFIER, INTEGER_LITERAL, STRING_LITERAL} \<or> ty \<in> set punctuation"
  by (cases ty) (simp_all add: is_keyword_def KeywordTable_def punctuation_def)

lemma lex_punctuation_spelling:
  assumes "ty \<in> set punctuation" "lx_rest lx = spell ty @ '' '' @ ys"
  shows "\<exists>t lx'. lex_token lx = Inr (t, lx') \<and> lx_rest lx' = '' '' @ ys \<and> tok_type t = ty"
proof -
  have not: "\<not> isalpha c \<and> \<not> isdigit c" if "c \<in> set ''*,.;()=!<>''" for c
    using that by (auto simp: char_class_defs code_def)
  have hd: "Peek lx = hd (spell ty)" "hd (spell ty) \<in> set ''*,.;()=!<>''" "Peek lx \<noteq> CHR ''_''" "Peek lx \<noteq> CHR 0x27"
    using assms by (auto simp: punctuation_def Peek_def)
  then have "lex_token lx = lex_punctuation lx" using not by (simp add: lex_token_def)
  moreover have "\<exists>t lx'. lex_punctuation lx = Inr (t, lx') \<and> lx_rest lx' = '' '' @ ys \<and> tok_type t = ty"
    using assms by (auto simp: punctuation_def lex_punctuation_def Let_def MakeToken_def Peek_def)
  ultimately show ?thesis by simp
qed

lemma lex_spelling:
  assumes "lexable c" "lx_rest lx = spell_core c @ '' '' @ ys"
  shows "\<exists>t lx'. lex_token lx = Inr (t, lx') \<and> lx_rest lx' = '' '' @ ys \<and> core t = c"
proof -
  obtain ty s i v where c: "c = (ty, s, i, v)" by (cases c)
  consider "is_keyword ty" | "ty = IDENTIFIER" | "ty = INTEGER_LITERAL" | "ty = STRING_LITERAL" | "ty \<in> set punctuation"
    using token_kinds [of ty] assms(1) c by auto
  then show ?thesis
  proof cases
    case 1
    then have "ty \<noteq> IDENTIFIER" "ty \<noteq> INTEGER_LITERAL" "ty \<noteq> STRING_LITERAL" by (auto simp: is_keyword_def KeywordTable_def)
    then show ?thesis using lex_name [of lx "spell ty" ys] keyword_spelling [OF 1] assms c by (fastforce simp: core_def)
  next
    case 2
    then show ?thesis using lex_name [of lx s ys] assms c by (fastforce simp: core_def valid_name_def)
  next
    case 3
    have "\<not> isdigit CHR '' ''" by (simp add: isdigit_def code_def)
    then obtain lx' where adv: "advance_while isdigit lx [] = (decimal (unat i), lx')" "lx_rest lx' = '' '' @ ys"
      using advance_while_prefix [of lx "decimal (unat i)" "'' '' @ ys" isdigit "[]"] assms(2) c 3 isdigit_decimal by auto
    obtain d ds where d: "decimal (unat i) = d # ds" using decimal_not_Nil by (cases "decimal (unat i)") auto
    then have "isdigit d" "Peek lx = d" using isdigit_decimal [of "unat i"] assms(2) c 3 by (auto simp: Peek_def)
    moreover from this have "\<not> (isalpha d \<or> d = CHR ''_'')" by (auto simp: char_class_defs code_def)
    moreover have "stoll (decimal (unat i)) = Inr i" using assms(1) c 3 by (simp add: stoll_def digits_value_decimal)
    ultimately show ?thesis using adv assms(1) c 3 by (simp add: lex_token_def LexNumber_def core_def)
  next
    case 4
    then have r: "lx_rest lx = CHR 0x27 # concat (map (\<lambda>c. if c = CHR 0x27 then [CHR 0x27, CHR 0x27] else [c]) v) @ CHR 0x27 # '' '' @ ys"
      using assms(2) c by (simp add: quote_def)
    then obtain lx' where "lex_string_loop (lx_line lx) (lx_column lx) (Advance lx) [] = Inr (v, lx')" "lx_rest lx' = '' '' @ ys"
      using lex_string_loop_quoted [of "Advance lx" v "'' '' @ ys" "lx_line lx" "lx_column lx" "[]"] by auto
    moreover have "Peek lx = CHR 0x27" using r by (simp add: Peek_def)
    moreover have "\<not> isalpha CHR 0x27 \<and> \<not> isdigit CHR 0x27" by (simp add: char_class_defs code_def)
    ultimately show ?thesis using assms(1) c 4 by (simp add: lex_token_def LexString_def core_def)
  next
    case 5
    then have "ty \<noteq> IDENTIFIER" "ty \<noteq> INTEGER_LITERAL" "ty \<noteq> STRING_LITERAL" by (auto simp: punctuation_def)
    then show ?thesis using lex_punctuation_spelling [OF 5] assms c by (fastforce simp: core_def)
  qed
qed

section \<open>The whole text\<close>

lemma spell_core_head:
  assumes "lexable c"
  shows "spell_core c \<noteq> [] \<and> \<not> isspace (hd (spell_core c))"
proof -
  obtain ty s i v where c: "c = (ty, s, i, v)" by (cases c)
  consider "is_keyword ty" | "ty = IDENTIFIER" | "ty = INTEGER_LITERAL" | "ty = STRING_LITERAL" | "ty \<in> set punctuation"
    using token_kinds [of ty] assms c by auto
  then show ?thesis
  proof cases
    case 1
    then have "ty \<noteq> IDENTIFIER" "ty \<noteq> INTEGER_LITERAL" "ty \<noteq> STRING_LITERAL" by (auto simp: is_keyword_def KeywordTable_def)
    then show ?thesis using keyword_spelling [OF 1] c by (auto simp: char_class_defs)
  next
    case 2
    have "code CHR ''_'' = 95" by (simp add: code_def)
    then show ?thesis using assms c 2 by (auto simp: valid_name_def char_class_defs)
  next
    case 3
    obtain d ds where "decimal (unat i) = d # ds" using decimal_not_Nil by (cases "decimal (unat i)") auto
    then show ?thesis using c 3 isdigit_decimal [of "unat i"] by (auto simp: char_class_defs)
  next
    case 4
    then show ?thesis using c by (simp add: quote_def isspace_def code_def)
  next
    case 5
    then have "ty \<noteq> IDENTIFIER" "ty \<noteq> INTEGER_LITERAL" "ty \<noteq> STRING_LITERAL" by (auto simp: punctuation_def)
    then show ?thesis using 5 c by (auto simp: punctuation_def isspace_def code_def)
  qed
qed

text \<open>Tokens written out in front of any text.\<close>

lemma tokenize_prefix:
  "list_all lexable cs \<Longrightarrow> lx_rest lx = replicate n CHR '' '' @ spell_all cs @ ys \<Longrightarrow>
   \<exists>ts lx' m. tokenize_loop lx acc = tokenize_loop lx' (acc @ ts) \<and> map core ts = cs \<and> lx_rest lx' = replicate m CHR '' '' @ ys"
proof (induction cs arbitrary: lx acc n)
  case Nil
  then have "tokenize_loop lx acc = tokenize_loop lx (acc @ [])" "lx_rest lx = replicate n CHR '' '' @ ys" by (simp_all add: spell_all_def)
  then show ?case by (intro exI [of _ "[]"] exI [of _ lx] exI [of _ n]) simp
next
  case (Cons c cs)
  have head: "spell_core c \<noteq> []" "\<not> isspace (hd (spell_core c))" using spell_core_head [of c] Cons.prems(1) by simp_all
  have "lx_rest (SkipWhitespace lx) = spell_core c @ '' '' @ spell_all cs @ ys"
    by (rule SkipWhitespace_rest [of _ n]) (use Cons.prems(2) head in \<open>simp_all add: spell_all_def\<close>)
  moreover from this obtain t lx' where t: "lex_token (SkipWhitespace lx) = Inr (t, lx')" "lx_rest lx' = '' '' @ spell_all cs @ ys" "core t = c"
    using lex_spelling [of c "SkipWhitespace lx" "spell_all cs @ ys"] Cons.prems(1) by auto
  moreover obtain ts lx'' m where i: "tokenize_loop lx' (acc @ [t]) = tokenize_loop lx'' ((acc @ [t]) @ ts)" "map core ts = cs"
    "lx_rest lx'' = replicate m CHR '' '' @ ys"
    using Cons.IH [of lx' 1 "acc @ [t]"] Cons.prems(1) t(2) by auto
  ultimately have "tokenize_loop lx acc = tokenize_loop lx'' (acc @ t # ts)"
    using head by (subst tokenize_loop.simps) (simp add: IsAtEnd_def Let_def)
  then show ?case using t(3) i(2,3) by (intro exI [of _ "t # ts"] exI [of _ lx''] exI [of _ m]) simp
qed

lemma tokenize_blanks: "lx_rest lx = replicate n CHR '' '' \<Longrightarrow> \<exists>e. tokenize_loop lx acc = Inr (acc @ [e]) \<and> core e = kw END_OF_INPUT"
proof -
  assume "lx_rest lx = replicate n CHR '' ''"
  then have "lx_rest (SkipWhitespace lx) = []" by (intro SkipWhitespace_rest) simp_all
  then show ?thesis by (subst tokenize_loop.simps) (simp add: IsAtEnd_def Let_def core_def kw_def)
qed

lemma tokenize_spelling:
  assumes "list_all lexable cs" "lx_rest lx = replicate n CHR '' '' @ spell_all cs"
  shows "\<exists>ts e. tokenize_loop lx acc = Inr (acc @ ts @ [e]) \<and> map core ts = cs \<and> core e = kw END_OF_INPUT"
proof -
  obtain ts lx' m where P: "tokenize_loop lx acc = tokenize_loop lx' (acc @ ts)" "map core ts = cs" "lx_rest lx' = replicate m CHR '' ''"
    using tokenize_prefix [OF assms(1), of lx n "[]" acc] assms(2) by auto
  then show ?thesis using tokenize_blanks [OF P(3), of "acc @ ts"] by auto
qed

definition print_sql :: "Statement \<Rightarrow> string" where
  "print_sql s = spell_all (print_stmt s)"

lemma ParseSQL_print:
  assumes "grammatical_statement s" "list_all lexable (print_stmt s)"
  shows "ParseSQL (print_sql s) = Some (Inr s)"
proof -
  have "lx_rest (Lexer_new (print_sql s)) = replicate 0 CHR '' '' @ spell_all (print_stmt s)"
    by (simp add: Lexer_new_def print_sql_def)
  from tokenize_spelling [OF assms(2) this, of "[]"] obtain ts e where
    t: "Tokenize (Lexer_new (print_sql s)) = Inr (ts @ [e])" "map core ts = print_stmt s" "core e = kw END_OF_INPUT"
    by (auto simp: Tokenize_def)
  have "parses ParseStatement (ts @ [e]) (s, [e])"
    using parses_ParseStatement [OF t(2) assms(1) core_kw [OF t(3)], of "[]"] by simp
  then have "ParseTokens (ts @ [e]) = Some (Inr s)"
    by (rule ParseTokens_print) (use core_kw [OF t(3)] in \<open>simp add: terminated_def\<close>)
  then show ?thesis using t(1) by (simp add: ParseSQL_def)
qed

text \<open>
  C29. SQL round trip: every statement of the grammar whose names are valid identifiers and whose
  integers fit in 63 bits, written out as SQL text, is read back by \<open>ParseSQL\<close> as that statement;
  quotes inside string literals survive, keywords and operators are recognised, and precedence
  is respected.
\<close>
theorem ParseSQL_roundtrip:
  assumes "grammatical_statement s" "list_all lexable (print_stmt s)"
  shows "ParseSQL (print_sql s) = Some (Inr s)"
  using assms by (rule ParseSQL_print)

definition sample_select :: Statement where
  "sample_select = Select \<lparr>is_star = False,
     select_items = [\<lparr>si_table = Some ''u'', si_column = ''name'', si_alias = None\<rparr>, \<lparr>si_table = None, si_column = ''x'', si_alias = Some ''y''\<rparr>],
     from_table = \<lparr>tr_table = ''users'', tr_alias = Some ''u''\<rparr>,
     sel_joins = [\<lparr>jc_table = \<lparr>tr_table = ''orders'', tr_alias = None\<rparr>,
        on_condition = ComparisonExpr kEq (ColumnRefExpr (Some ''u'') ''id'') (ColumnRefExpr (Some ''orders'') ''uid'')\<rparr>],
     sel_where = Some (AndExpr (OrExpr (ComparisonExpr kLt (ColumnRefExpr None ''x'') (LiteralExpr (LitInteger 12)))
        (ComparisonExpr kNeq (ColumnRefExpr None ''name'') (LiteralExpr (LitText [CHR 0x27])))) 
        (ComparisonExpr kGte (ColumnRefExpr None ''x'') (LiteralExpr (LitInteger 0))))\<rparr>"

theorem ParseSQL_roundtrip_witness:
  "ParseSQL (print_sql sample_select) = Some (Inr sample_select)"
proof (rule ParseSQL_roundtrip)
  show "grammatical_statement sample_select" by (simp add: sample_select_def)
  have "list_all valid_name [''u'', ''name'', ''x'', ''y'', ''users'', ''orders'', ''id'', ''uid'']" by code_simp
  then show "list_all lexable (print_stmt sample_select)"
    by (simp add: sample_select_def sep_def print_select_item_def print_column_def print_alias_def print_table_ref_def
        print_join_def kw_def ident_def)
qed





end
