(* ===== verification/Restart.thy ===== *)
theory Restart
  imports Durability
begin

text \<open>
  A crash and the restart after it (\<open>Database::Database\<close> in \<open>database.cpp\<close>: open both files, run
  recovery, build an empty pool). The pool that comes up satisfies the pool's invariant again and
  shows its clients every page that was visible before the crash.
\<close>

section \<open>What a crash leaves\<close>

text \<open>
  The log keeps its acknowledged records, and nothing that passes for a record follows them. The
  data file may hold anything at the pages the log covers, a page cut short at its end included;
  the pages the log does not cover are as they were, and the file has not grown past the pages
  that were allocated.
\<close>
definition after_crash :: "BufferPool \<Rightarrow> WALManager \<Rightarrow> os_file \<Rightarrow> os_file \<Rightarrow> bool" where
  "after_crash bp w lf df \<longleftrightarrow>
     file_ok lf \<and> file_ok df
     \<and> take (next_offset w) (f_bytes lf) = take (next_offset w) (f_bytes (wal_file w))
     \<and> \<not> record_ok (seg (next_offset w) WAL_RECORD_SIZE (f_bytes lf))
     \<and> (\<forall>i. logged bp i = None \<longrightarrow> page_at (DiskManager_open df) i = page_at (disk_manager bp) i)
     \<and> f_size df \<le> unat (next_page_id (disk_manager bp)) * PAGE_SIZE
     \<and> (PAGE_SIZE dvd f_size df \<or> (\<exists>i. logged bp i \<noteq> None \<and> f_size df \<le> page_offset i + PAGE_SIZE))"

section \<open>The data file after recovery\<close>

lemma f_size_put_page:
  assumes "wf_page (snd ip)"
  shows "f_size (dm_file (put_page ip d)) = max (f_size (dm_file d)) (page_offset (fst ip) + PAGE_SIZE)"
proof -
  have "length (seal (snd ip)) = PAGE_SIZE" "seal (snd ip) \<noteq> []"
    using wf_seal [OF assms] wf_page_not_Nil by (auto simp: wf_page_def)
  then show ?thesis by (simp add: put_page_def f_size_def)
qed

lemma f_size_fold_put_page_mono:
  "\<forall>(i, p) \<in> set ps. wf_page p \<Longrightarrow> f_size (dm_file d) \<le> f_size (dm_file (fold put_page ps d))"
proof (induction ps arbitrary: d)
  case (Cons ip ps)
  then have "f_size (dm_file d) \<le> f_size (dm_file (put_page ip d))"
    using f_size_put_page [of ip d] by (simp add: case_prod_beta)
  also have "\<dots> \<le> f_size (dm_file (fold put_page ps (put_page ip d)))" using Cons by simp
  finally show ?case by simp
qed simp

text \<open>A partial page at the end of the file is gone once a page at or behind it has been written.\<close>

lemma aligned_fold_put_page_torn:
  assumes "\<forall>(i, p) \<in> set ps. wf_page p" "(j, q) \<in> set ps" "f_size (dm_file d) \<le> page_offset j + PAGE_SIZE"
  shows "aligned (fold put_page ps d)"
  using assms
proof (induction ps arbitrary: d)
  case (Cons ip ps)
  have size: "f_size (dm_file (put_page ip d)) = max (f_size (dm_file d)) (page_offset (fst ip) + PAGE_SIZE)"
    using Cons.prems(1) by (intro f_size_put_page) (simp add: case_prod_beta)
  show ?case
  proof (cases "f_size (dm_file d) \<le> page_offset (fst ip) + PAGE_SIZE")
    case True
    then have "aligned (put_page ip d)" by (simp add: aligned_def size max_def page_offset_def)
    then show ?thesis using aligned_fold_put_page [of "put_page ip d" ps] Cons.prems(1) by simp
  next
    case False
    then have "(j, q) \<in> set ps" using Cons.prems(2,3) by auto
    then show ?thesis using Cons.IH [of "put_page ip d"] Cons.prems False by (simp add: size max_def)
  qed
qed simp

lemma refresh_next_page_id:
  assumes "aligned d" "f_size (dm_file d) \<le> b * PAGE_SIZE" "b < 2 ^ 32"
  shows "unat (next_page_id (RefreshNextPageIdAfterRecovery d)) * PAGE_SIZE = f_size (dm_file d)
    \<and> unat (next_page_id (RefreshNextPageIdAfterRecovery d)) \<le> b"
proof -
  obtain m where m: "f_size (dm_file d) = PAGE_SIZE * m" using assms(1) by (auto simp: aligned_def)
  then have "m \<le> b" using assms(2) by (simp add: PAGE_SIZE_def)
  moreover have "f_size (dm_file d) div PAGE_SIZE = m" using m by (simp add: PAGE_SIZE_def)
  moreover have "unat (of_nat m :: u32) = m" using \<open>m \<le> b\<close> assms(3) by (simp add: unat_of_nat take_bit_nat_eq_self)
  ultimately show ?thesis using m by (simp add: RefreshNextPageIdAfterRecovery_def mult.commute)
qed

section \<open>The pool after a restart\<close>

lemma logged_below_next:
  assumes "pool_inv {} bp" "logged bp i \<noteq> None"
  shows "page_offset i + PAGE_SIZE \<le> unat (next_page_id (disk_manager bp)) * PAGE_SIZE"
proof -
  have s: "struct_inv {} bp" "disk_inv bp" "log_inv bp" using assms(1) by (simp_all add: pool_inv_def)
  obtain c where c: "logged bp i = Some c" using assms(2) by blast
  have "view bp i \<noteq> None" using log_inv_logged [OF s(3) c] by (auto simp: view_def)
  then have "i < next_page_id (disk_manager bp)" using view_below_next [OF s(2), of i] by blast
  then have "Suc (unat i) * PAGE_SIZE \<le> unat (next_page_id (disk_manager bp)) * PAGE_SIZE"
    by (intro mult_le_mono1) (simp add: word_less_nat_alt)
  then show ?thesis by (simp add: page_offset_def)
qed

lemma recovered_file:
  assumes "pool_inv {} bp" "wal_manager bp = Some w" "after_crash bp w lf df"
  defines "v \<equiv> WAL_open lf"
  shows "\<exists>d'. RunRecovery (DiskManager_open df) v = (Inr (), d') \<and> dm_ok d' \<and> aligned d'
    \<and> f_size (dm_file d') \<le> unat (next_page_id d') * PAGE_SIZE
    \<and> unat (next_page_id d') \<le> unat (next_page_id (disk_manager bp))
    \<and> (\<forall>i p. last_image (valid_records v) i = Some p \<longrightarrow> page_at d' i = Some (seal p))
    \<and> wal_inv v \<and> file_ok (wal_file v) \<and> valid_records v = valid_records w \<and> unat (next_lsn v) \<le> unat (next_lsn w)"
proof -
  let ?d = "DiskManager_open df" and ?b = "unat (next_page_id (disk_manager bp))"
  have wi: "wal_inv w" using assms(1,2) by (simp add: pool_inv_def log_inv_def)
  let ?v = "w\<lparr>wal_file := lf\<rparr>"
  have wi0: "wal_inv ?v" using wi assms(3) unfolding wal_inv_def after_crash_def by (elim conjE) simp
  have torn: "\<not> record_ok (seg (next_offset ?v) WAL_RECORD_SIZE (f_bytes (wal_file ?v)))"
    using assms(3) by (simp add: after_crash_def)
  have v: "wal_inv v" "valid_records v = valid_records w" "next_lsn v = lsn_after 0 (valid_records w)"
    "file_ok (wal_file v)"
    using WAL_open_torn [OF wi0 torn] wal_inv_open_torn [OF wi0 torn] assms(3)
    by (simp_all add: v_def after_crash_def file_ok_def ftruncate_def)
  have lsn: "next_lsn v \<le> next_lsn w"
    unfolding v(3) by (rule lsn_after_le) (use wi in \<open>simp_all add: wal_inv_def\<close>)
  let ?ps = "map (\<lambda>(i, r). (i, rp_page r)) (latest_records (valid_records w))"
  have sorted: "sorted_wrt (<) (map rp_lsn (valid_records w))" using wi by (simp add: wal_inv_def)
  have mem: "(i, p) \<in> set ?ps \<longleftrightarrow> last_image (valid_records w) i = Some p" for i p
    using latest_records_mem [OF sorted] by (force simp: last_image_def)
  have wfp: "\<forall>(i, p) \<in> set ?ps. wf_page p"
    using wi latest_records_mem [OF sorted] last_record_in unfolding wal_inv_def by fastforce
  have inlog: "logged bp i = map_option content (last_image (valid_records w) i)" for i
    using assms(2) by (simp add: logged_def)
  have dok: "dm_ok ?d" using assms(3) by (simp add: after_crash_def dm_ok_def DiskManager_open_def)
  define d1 where "d1 = fold put_page ?ps ?d"
  have wp: "write_pages WritePage ?ps ?d = (Inr (), d1)" unfolding d1_def by (rule write_pages_fold [OF dok wfp])
  have al: "aligned d1"
  proof (cases "PAGE_SIZE dvd f_size df")
    case True
    then show ?thesis unfolding d1_def
      by (intro aligned_fold_put_page wfp) (simp add: aligned_def DiskManager_open_def)
  next
    case False
    then obtain i p where "last_image (valid_records w) i = Some p" "f_size df \<le> page_offset i + PAGE_SIZE"
      using assms(3) inlog by (auto simp: after_crash_def)
    then show ?thesis unfolding d1_def
      by (intro aligned_fold_put_page_torn [OF wfp, of i p]) (simp_all only: mem, simp add: DiskManager_open_def)
  qed
  have "page_offset i + PAGE_SIZE \<le> ?b * PAGE_SIZE" if "(i, p) \<in> set ?ps" for i p
    by (rule logged_below_next [OF assms(1)]) (use that [unfolded mem] inlog in simp)
  with wfp have "\<forall>(i, p) \<in> set ?ps. wf_page p \<and> page_offset i + PAGE_SIZE \<le> ?b * PAGE_SIZE" by blast
  then have size: "f_size (dm_file d1) \<le> ?b * PAGE_SIZE"
    unfolding d1_def by (rule f_size_fold_put_page) (use assms(3) in \<open>simp add: after_crash_def DiskManager_open_def\<close>)
  let ?d' = "RefreshNextPageIdAfterRecovery d1"
  have "dm_ok d1" unfolding d1_def by (rule fold_invariant [where Q = "\<lambda>_. True" and P = dm_ok]) (use dok in simp_all)
  then have run: "RunRecovery ?d v = (Inr (), ?d')"
    using wp by (simp add: RunRecovery_def v(2) Flush_def dm_ok_def file_ok_def)
  have next': "unat (next_page_id ?d') * PAGE_SIZE = f_size (dm_file d1)" "unat (next_page_id ?d') \<le> ?b"
    using refresh_next_page_id [OF al size] unat_bound [of "next_page_id (disk_manager bp)"] by simp_all
  have "page_at ?d' i = Some (seal p)" if "last_image (valid_records v) i = Some p" for i p
    using RunRecovery_restores [OF dok v(1)] that unfolding run by auto
  moreover have "dm_ok ?d'" "aligned ?d'" "f_size (dm_file ?d') \<le> unat (next_page_id ?d') * PAGE_SIZE"
    using \<open>dm_ok d1\<close> al next'(1)
    by (simp_all add: dm_ok_def aligned_def RefreshNextPageIdAfterRecovery_def)
  ultimately show ?thesis using run next'(2) v lsn by (auto simp: word_le_nat_alt)
qed

lemma restart_pool:
  assumes "pool_inv {} bp" "wal_manager bp = Some w" "\<forall>i. pins bp i = 0" "after_crash bp w lf df"
  shows "\<exists>d'. RunRecovery (DiskManager_open df) (WAL_open lf) = (Inr (), d')
    \<and> (let bp' = BufferPool_new n d' (Some (WAL_open lf))
       in pool_inv {} bp' \<and> (\<forall>i c. view bp i = Some c \<longrightarrow> view bp' i = Some c) \<and> room bp \<le> room bp')"
proof -
  let ?v = "WAL_open lf"
  obtain d' where d': "RunRecovery (DiskManager_open df) ?v = (Inr (), d')" "dm_ok d'" "aligned d'"
    "f_size (dm_file d') \<le> unat (next_page_id d') * PAGE_SIZE"
    "unat (next_page_id d') \<le> unat (next_page_id (disk_manager bp))"
    "\<And>i p. last_image (valid_records ?v) i = Some p \<Longrightarrow> page_at d' i = Some (seal p)"
    "wal_inv ?v" "file_ok (wal_file ?v)" "unat (next_lsn ?v) \<le> unat (next_lsn w)"
    using recovered_file [OF assms(1,2,4)] by blast
  have wfv: "wf_page p" if "last_image (valid_records ?v) i = Some p" for i p
    using that d'(7) last_record_in by (force simp: last_image_def wal_inv_def)
  let ?bp = "BufferPool_new n d' (Some ?v)"
  have "pool_inv {} ?bp" by (rule pool_inv_new) (use d' wfv in auto)
  moreover have "\<forall>i c. view bp i = Some c \<longrightarrow> view ?bp i = Some c"
    using restart_restores [OF assms(1,2,3), of lf "DiskManager_open df"] assms(4) d'(1)
    unfolding after_crash_def view_new by (auto simp: dm_ok_def DiskManager_open_def)
  moreover have "room bp \<le> room ?bp"
    using d'(5,9) assms(2) unfolding room_def BufferPool_new_def by (simp add: min_le_iff_disj diff_le_mono2)
  ultimately show ?thesis using d'(1) by (simp add: Let_def)
qed

end
