(* ===== verification/Cell_Array.thy ===== *)
theory Cell_Array
  imports Page
begin

text \<open>
  Arrays of packed structs inside a page: the cells of B+-tree nodes (\<open>btree_node.h\<close>) and the slots
  of the catalog page (\<open>catalog_page.h\<close>) are reached through a pointer to the first struct and an
  index. The locale \<open>cell_array\<close> is the contract of such an array: what \<open>memcpy\<close> and \<open>memmove\<close>
  between whole cells and writes to one member do to every cell.
\<close>

definition cell :: "nat \<Rightarrow> nat \<Rightarrow> nat \<Rightarrow> page \<Rightarrow> byte list" where
  "cell base stride j p = seg (base + j * stride) stride p"

text \<open>\<open>memcpy(&to[i], &from[k], m * sizeof(cell))\<close>; \<open>memmove\<close> is the case of one page.\<close>
definition copy_cells :: "nat \<Rightarrow> nat \<Rightarrow> nat \<Rightarrow> page \<Rightarrow> nat \<Rightarrow> nat \<Rightarrow> page \<Rightarrow> page" where
  "copy_cells base stride i to k m src = patch (base + i * stride) (seg (base + k * stride) (m * stride) src) to"

locale cell_array =
  fixes base stride lim :: nat
  assumes stride_pos: "0 < stride"
    and body: "PageHeader_size \<le> base"
    and fits: "base + lim * stride \<le> PAGE_SIZE"
begin

lemma cell_fits: "j < lim \<Longrightarrow> base + j * stride + stride \<le> PAGE_SIZE"
proof -
  assume "j < lim"
  then have "Suc j * stride \<le> lim * stride" by (intro mult_le_mono1) simp
  then show ?thesis using fits by simp
qed

lemma range_fits: "i + m \<le> lim \<Longrightarrow> base + i * stride + m * stride \<le> PAGE_SIZE"
proof -
  assume "i + m \<le> lim"
  then have "(i + m) * stride \<le> lim * stride" by (intro mult_le_mono1)
  then show ?thesis using fits by (simp add: add_mult_distrib)
qed

lemma length_cell [simp]: "wf_page p \<Longrightarrow> j < lim \<Longrightarrow> length (cell base stride j p) = stride"
  using cell_fits [of j] by (simp add: cell_def wf_page_def)

lemma order_cells: "i < j \<Longrightarrow> base + i * stride + stride \<le> base + j * stride"
proof -
  assume "i < j"
  then have "Suc i * stride \<le> j * stride" by (intro mult_le_mono1) simp
  then show ?thesis by simp
qed

lemma cell_copy:
  assumes "wf_page to" "wf_page src" "i + m \<le> lim" "k + m \<le> lim" "j < lim"
  shows "cell base stride j (copy_cells base stride i to k m src)
    = (if i \<le> j \<and> j < i + m then cell base stride (k + j - i) src else cell base stride j to)"
proof -
  have len: "length (seg (base + k * stride) (m * stride) src) = m * stride"
    using range_fits [OF assms(4)] assms(2) by (simp add: wf_page_def)
  have to: "base + i * stride + m * stride \<le> length to"
    using range_fits [OF assms(3)] assms(1) by (simp add: wf_page_def)
  have cj: "base + j * stride + stride \<le> length to"
    using cell_fits [OF assms(5)] assms(1) by (simp add: wf_page_def)
  show ?thesis
  proof (cases "i \<le> j \<and> j < i + m")
    case True
    then obtain d where j: "j = i + d" and d: "d < m" using le_Suc_ex by fastforce
    have "Suc d * stride \<le> m * stride" using d by (intro mult_le_mono1) simp
    then have "d * stride + stride \<le> m * stride" by simp
    then show ?thesis
      using True to len j unfolding cell_def copy_cells_def
      by (subst seg_patch_inside) (simp_all add: add_mult_distrib seg_seg add.commute add.left_commute)
  next
    case False
    then consider "j < i" | "i + m \<le> j" by linarith
    then have "base + j * stride + stride \<le> base + i * stride \<or> base + i * stride + m * stride \<le> base + j * stride"
    proof cases
      case 1
      then show ?thesis using order_cells by blast
    next
      case 2
      then have "(i + m) * stride \<le> j * stride" by (intro mult_le_mono1)
      then show ?thesis by (simp add: add_mult_distrib)
    qed
    then show ?thesis
      using False to cj len unfolding cell_def copy_cells_def by (auto simp: seg_patch_other)
  qed
qed

lemma wf_copy [simp]:
  assumes "wf_page to" "wf_page src" "i + m \<le> lim" "k + m \<le> lim"
  shows "wf_page (copy_cells base stride i to k m src)"
  using range_fits [OF assms(3)] range_fits [OF assms(4)] assms by (simp add: copy_cells_def wf_page_def)

lemma cell_write:
  assumes "wf_page p" "i < lim" "j < lim" "off + length ys \<le> stride"
  shows "cell base stride j (patch (base + i * stride + off) ys p)
    = (if j = i then patch off ys (cell base stride i p) else cell base stride j p)"
proof (cases "j = i")
  case True
  have "base + i * stride + stride \<le> length p" using cell_fits [OF assms(2)] assms(1) by (simp add: wf_page_def)
  then show ?thesis using True assms(4) unfolding cell_def
    by (intro nth_equalityI) (auto simp: nth_patch)
next
  case False
  have "base + i * stride + stride \<le> length p" "base + j * stride + stride \<le> length p"
    using cell_fits [OF assms(2)] cell_fits [OF assms(3)] assms(1) by (simp_all add: wf_page_def)
  moreover have "base + j * stride + stride \<le> base + i * stride \<or> base + i * stride + stride \<le> base + j * stride"
    using False order_cells [of i j] order_cells [of j i] by linarith
  ultimately show ?thesis using False assms(4) unfolding cell_def by (auto simp: seg_patch_other)
qed

lemma wf_write [simp]:
  assumes "wf_page p" "i < lim" "off + length ys \<le> stride"
  shows "wf_page (patch (base + i * stride + off) ys p)"
  using cell_fits [OF assms(2)] assms by (simp add: wf_page_def)

lemma cell_below:
  assumes "wf_page p" "off + length ys \<le> base" "j < lim"
  shows "cell base stride j (patch off ys p) = cell base stride j p"
  using cell_fits [OF assms(3)] assms unfolding cell_def by (intro seg_patch_other) (auto simp: wf_page_def)

lemma seg_copy_below:
  assumes "wf_page to" "wf_page src" "i + m \<le> lim" "k + m \<le> lim" "off + n \<le> base"
  shows "seg off n (copy_cells base stride i to k m src) = seg off n to"
  using range_fits [OF assms(3)] range_fits [OF assms(4)] assms unfolding copy_cells_def
  by (intro seg_patch_other) (auto simp: wf_page_def)

lemma seg_write_below:
  assumes "wf_page p" "i < lim" "o' + length ys \<le> stride" "off + n \<le> base"
  shows "seg off n (patch (base + i * stride + o') ys p) = seg off n p"
  using cell_fits [OF assms(2)] assms by (intro seg_patch_other) (auto simp: wf_page_def)

lemma cell_put_below:
  "wf_page p \<Longrightarrow> off + k \<le> base \<Longrightarrow> j < lim \<Longrightarrow> cell base stride j (put_field off k v p) = cell base stride j p"
  by (simp add: put_field_def cell_below)

end

context page_field
begin

lemma get_cong: "seg off k p = seg off k q \<Longrightarrow> get p = get q"
  by (simp add: get_eq get_field_def)

end

text \<open>The log and the disk manager stamp only bytes 9 to 16.\<close>

lemma wf_stamped [simp]: "wf_page p \<Longrightarrow> wf_page (set_lsn a (set_checksum b p))"
  by simp

lemma seg_stamped:
  assumes "wf_page p" "off + n \<le> 9 \<or> 17 \<le> off" "off + n \<le> PAGE_SIZE"
  shows "seg off n (set_lsn a (set_checksum b p)) = seg off n p"
  using assms by auto

end
