(* ===== verification/Btree_Node.thy ===== *)
theory Btree_Node
  imports Cell_Array Buffer_Pool
begin

text \<open>
  The node layout of the B+-tree (\<open>btree_node.h\<close>) and the edits \<open>btree.cpp\<close> makes to one pinned
  page: the position searches, the upsert, the shifts that insert and remove a cell, and the two
  copies of a split. \<open>leaf_node\<close> and \<open>internal_node\<close> say which entries a page holds; every edit is
  shown to be the corresponding list operation on them. The cells are byte ranges of the page, as
  the \<open>reinterpret_cast\<close>s of the source make them.
\<close>

section \<open>Layout\<close>

definition VALUE_SIZE :: nat where
  "VALUE_SIZE = 120"

definition LEAF_MAX_KEYS :: nat where
  "LEAF_MAX_KEYS = 4"

definition INTERNAL_MAX_KEYS :: nat where
  "INTERNAL_MAX_KEYS = 4"

definition NodeExtra_size :: nat where
  "NodeExtra_size = 8"

definition LeafCell_size :: nat where
  "LeafCell_size = 136"

definition InternalCell_size :: nat where
  "InternalCell_size = 16"

definition NODE_EXTRA_OFFSET :: nat where
  "NODE_EXTRA_OFFSET = PageHeader_size"

definition NODE_DATA_OFFSET :: nat where
  "NODE_DATA_OFFSET = NODE_EXTRA_OFFSET + NodeExtra_size"

definition METADATA_BODY_OFFSET :: nat where
  "METADATA_BODY_OFFSET = PageHeader_size"

declare VALUE_SIZE_def [layout_simps] LEAF_MAX_KEYS_def [layout_simps] INTERNAL_MAX_KEYS_def [layout_simps]
  NodeExtra_size_def [layout_simps] LeafCell_size_def [layout_simps] InternalCell_size_def [layout_simps]
  NODE_EXTRA_OFFSET_def [layout_simps] NODE_DATA_OFFSET_def [layout_simps] METADATA_BODY_OFFSET_def [layout_simps]

text \<open>\<open>GetNodeExtra(page)\<close> and \<open>GetMetadata(page)\<close>.\<close>

definition next_leaf :: "page \<Rightarrow> page_id_t" where
  "next_leaf = get_field NODE_EXTRA_OFFSET 4"

definition set_next_leaf :: "page_id_t \<Rightarrow> page \<Rightarrow> page" where
  "set_next_leaf = put_field NODE_EXTRA_OFFSET 4"

definition leftmost_child :: "page \<Rightarrow> page_id_t" where
  "leftmost_child = get_field (NODE_EXTRA_OFFSET + 4) 4"

definition set_leftmost_child :: "page_id_t \<Rightarrow> page \<Rightarrow> page" where
  "set_leftmost_child = put_field (NODE_EXTRA_OFFSET + 4) 4"

definition meta_root_page_id :: "page \<Rightarrow> page_id_t" where
  "meta_root_page_id = get_field METADATA_BODY_OFFSET 4"

definition set_meta_root_page_id :: "page_id_t \<Rightarrow> page \<Rightarrow> page" where
  "set_meta_root_page_id = put_field METADATA_BODY_OFFSET 4"

text \<open>\<open>LeafCells(page)[i]\<close>: key, value length, and \<open>std::string(value, value_len)\<close>.\<close>

definition leaf_off :: "nat \<Rightarrow> nat" where
  "leaf_off i = NODE_DATA_OFFSET + i * LeafCell_size"

definition leaf_key :: "nat \<Rightarrow> page \<Rightarrow> i64" where
  "leaf_key i p = get_field (leaf_off i) 8 p"

definition leaf_value_len :: "nat \<Rightarrow> page \<Rightarrow> u16" where
  "leaf_value_len i p = get_field (leaf_off i + 8) 2 p"

definition leaf_value :: "nat \<Rightarrow> page \<Rightarrow> byte list" where
  "leaf_value i p = seg (leaf_off i + 10) (unat (leaf_value_len i p)) p"

text \<open>\<open>InternalCells(page)[i]\<close>; assigning a whole cell clears its reserved bytes.\<close>

definition internal_off :: "nat \<Rightarrow> nat" where
  "internal_off i = NODE_DATA_OFFSET + i * InternalCell_size"

definition internal_key :: "nat \<Rightarrow> page \<Rightarrow> i64" where
  "internal_key i p = get_field (internal_off i) 8 p"

definition internal_child :: "nat \<Rightarrow> page \<Rightarrow> page_id_t" where
  "internal_child i p = get_field (internal_off i + 8) 4 p"

definition set_internal_cell :: "nat \<Rightarrow> i64 \<Rightarrow> page_id_t \<Rightarrow> page \<Rightarrow> page" where
  "set_internal_cell i k c p = patch (internal_off i) (word_le 8 k @ word_le 4 c @ replicate 4 0) p"

section \<open>Edits of one page\<close>

text \<open>A counting loop \<open>while (i < n && P(i)) i++\<close>.\<close>
function scan_while :: "(nat \<Rightarrow> bool) \<Rightarrow> nat \<Rightarrow> nat \<Rightarrow> nat" where
  "scan_while P n i = (if i < n \<and> P i then scan_while P n (Suc i) else i)"
  by pat_completeness auto
termination
  by (relation "measure (\<lambda>(P, n, i). n - i)") auto

declare scan_while.simps [simp del]

text \<open>The sorted position of a key in a leaf, and the child of an internal node to descend into.\<close>

definition leaf_position :: "i64 \<Rightarrow> page \<Rightarrow> nat" where
  "leaf_position key p = scan_while (\<lambda>i. sint (leaf_key i p) < sint key) (unat (hdr_num_slots p)) 0"

definition child_position :: "i64 \<Rightarrow> page \<Rightarrow> nat" where
  "child_position key p = scan_while (\<lambda>i. sint key \<ge> sint (internal_key i p)) (unat (hdr_num_slots p)) 0"

definition child_at :: "nat \<Rightarrow> page \<Rightarrow> page_id_t" where
  "child_at idx p = (if idx = 0 then leftmost_child p else internal_child (idx - 1) p)"

text \<open>The first cell with this key, as the loops of \<open>Get\<close> and \<open>Delete\<close> find it.\<close>
definition leaf_find :: "i64 \<Rightarrow> page \<Rightarrow> nat" where
  "leaf_find key p = scan_while (\<lambda>i. leaf_key i p \<noteq> key) (unat (hdr_num_slots p)) 0"

definition leaf_set_value :: "nat \<Rightarrow> byte list \<Rightarrow> page \<Rightarrow> page" where
  "leaf_set_value idx v p =
     patch (leaf_off idx + 10) v (put_field (leaf_off idx + 8) 2 (of_nat (length v) :: u16) p)"

definition leaf_insert :: "nat \<Rightarrow> i64 \<Rightarrow> byte list \<Rightarrow> page \<Rightarrow> page" where
  "leaf_insert idx key v p =
     (let num = hdr_num_slots p;
          p1 = copy_cells NODE_DATA_OFFSET LeafCell_size (idx + 1) p idx (unat num - idx) p;
          p2 = put_field (leaf_off idx) 8 key p1;
          p3 = leaf_set_value idx v p2
      in set_num_slots (num + 1) p3)"

definition leaf_remove :: "nat \<Rightarrow> page \<Rightarrow> page" where
  "leaf_remove i p =
     (let num = hdr_num_slots p
      in set_num_slots (num - 1) (copy_cells NODE_DATA_OFFSET LeafCell_size i p (i + 1) (unat num - i - 1) p))"

definition internal_insert :: "nat \<Rightarrow> i64 \<Rightarrow> page_id_t \<Rightarrow> page \<Rightarrow> page" where
  "internal_insert idx key child p =
     (let num = hdr_num_slots p;
          p1 = copy_cells NODE_DATA_OFFSET InternalCell_size (idx + 1) p idx (unat num - idx) p
      in set_num_slots (num + 1) (set_internal_cell idx key child p1))"

text \<open>The halves of a leaf split: \<open>right\<close> is the new page, \<open>left\<close> the full one.\<close>

definition split_leaf_right :: "page \<Rightarrow> page \<Rightarrow> page" where
  "split_leaf_right left right =
     (let num = unat (hdr_num_slots left);
          split_point = num div 2;
          right_count = num - split_point;
          r1 = set_page_type (page_type_code LEAF) right;
          r2 = copy_cells NODE_DATA_OFFSET LeafCell_size 0 r1 split_point right_count left;
          r3 = set_num_slots (of_nat right_count) r2
      in set_next_leaf (next_leaf left) r3)"

definition split_leaf_left :: "page_id_t \<Rightarrow> page \<Rightarrow> page" where
  "split_leaf_left right_id left =
     set_next_leaf right_id (set_num_slots (of_nat (unat (hdr_num_slots left) div 2)) left)"

definition split_internal_right :: "page \<Rightarrow> page \<Rightarrow> page" where
  "split_internal_right left right =
     (let num = unat (hdr_num_slots left);
          split_point = num div 2;
          right_count = num - split_point - 1;
          r1 = set_page_type (page_type_code INTERNAL) right;
          r2 = set_leftmost_child (internal_child split_point left) r1;
          r3 = copy_cells NODE_DATA_OFFSET InternalCell_size 0 r2 (split_point + 1) right_count left
      in set_num_slots (of_nat right_count) r3)"

definition split_internal_left :: "page \<Rightarrow> page" where
  "split_internal_left left = set_num_slots (of_nat (unat (hdr_num_slots left) div 2)) left"

text \<open>An empty leaf, and the root above a split root.\<close>

definition init_leaf :: "page \<Rightarrow> page" where
  "init_leaf p = set_next_leaf INVALID_PAGE_ID (set_num_slots 0 (set_page_type (page_type_code LEAF) p))"

definition init_root :: "page_id_t \<Rightarrow> i64 \<Rightarrow> page_id_t \<Rightarrow> page \<Rightarrow> page" where
  "init_root left key right p =
     set_internal_cell 0 key right
       (set_leftmost_child left (set_num_slots 1 (set_page_type (page_type_code INTERNAL) p)))"

section \<open>What a page holds\<close>

interpretation leaf_cells: cell_array NODE_DATA_OFFSET LeafCell_size 29
  by unfold_locales (simp_all add: layout_simps)

interpretation internal_cells: cell_array NODE_DATA_OFFSET InternalCell_size 254
  by unfold_locales (simp_all add: layout_simps)

interpretation next_leaf_field: page_field NODE_EXTRA_OFFSET 4 next_leaf set_next_leaf
  by unfold_locales (simp_all add: next_leaf_def set_next_leaf_def layout_simps)

interpretation leftmost_field: page_field "NODE_EXTRA_OFFSET + 4" 4 leftmost_child set_leftmost_child
  by unfold_locales (simp_all add: leftmost_child_def set_leftmost_child_def layout_simps)

interpretation meta_root_field: page_field METADATA_BODY_OFFSET 4 meta_root_page_id set_meta_root_page_id
  by unfold_locales (simp_all add: meta_root_page_id_def set_meta_root_page_id_def layout_simps)

interpretation type_next: two_fields 4 1 hdr_page_type set_page_type NODE_EXTRA_OFFSET 4 next_leaf set_next_leaf
  by unfold_locales (simp add: layout_simps)

interpretation slots_next: two_fields 5 2 hdr_num_slots set_num_slots NODE_EXTRA_OFFSET 4 next_leaf set_next_leaf
  by unfold_locales (simp add: layout_simps)

interpretation type_leftmost: two_fields 4 1 hdr_page_type set_page_type "NODE_EXTRA_OFFSET + 4" 4 leftmost_child set_leftmost_child
  by unfold_locales (simp add: layout_simps)

interpretation slots_leftmost: two_fields 5 2 hdr_num_slots set_num_slots "NODE_EXTRA_OFFSET + 4" 4 leftmost_child set_leftmost_child
  by unfold_locales (simp add: layout_simps)

interpretation type_meta: two_fields 4 1 hdr_page_type set_page_type METADATA_BODY_OFFSET 4 meta_root_page_id set_meta_root_page_id
  by unfold_locales (simp add: layout_simps)

abbreviation leaf_cell :: "nat \<Rightarrow> page \<Rightarrow> byte list" where
  "leaf_cell \<equiv> cell NODE_DATA_OFFSET LeafCell_size"

abbreviation int_cell :: "nat \<Rightarrow> page \<Rightarrow> byte list" where
  "int_cell \<equiv> cell NODE_DATA_OFFSET InternalCell_size"

definition leaf_cell_holds :: "byte list \<Rightarrow> i64 \<times> byte list \<Rightarrow> bool" where
  "leaf_cell_holds c e \<longleftrightarrow> get_field 0 8 c = fst e \<and> get_field 8 2 c = (of_nat (length (snd e)) :: u16)
     \<and> length (snd e) \<le> VALUE_SIZE \<and> seg 10 (length (snd e)) c = snd e"

definition internal_cell_holds :: "byte list \<Rightarrow> i64 \<times> page_id_t \<Rightarrow> bool" where
  "internal_cell_holds c e \<longleftrightarrow> get_field 0 8 c = fst e \<and> get_field 8 4 c = snd e"

definition leaf_node :: "page \<Rightarrow> (i64 \<times> byte list) list \<Rightarrow> bool" where
  "leaf_node p kvs \<longleftrightarrow> wf_page p \<and> hdr_page_type p = page_type_code LEAF
     \<and> unat (hdr_num_slots p) = length kvs \<and> length kvs \<le> 29
     \<and> (\<forall>j < length kvs. leaf_cell_holds (leaf_cell j p) (kvs ! j))"

definition internal_node :: "page \<Rightarrow> i64 list \<Rightarrow> page_id_t list \<Rightarrow> bool" where
  "internal_node p ks cs \<longleftrightarrow> wf_page p \<and> hdr_page_type p = page_type_code INTERNAL
     \<and> unat (hdr_num_slots p) = length ks \<and> length ks \<le> 254 \<and> length cs = Suc (length ks)
     \<and> leftmost_child p = cs ! 0
     \<and> (\<forall>j < length ks. internal_cell_holds (int_cell j p) (ks ! j, cs ! Suc j))"

lemma node_types: "leaf_node p kvs \<Longrightarrow> internal_node p ks cs \<Longrightarrow> False"
  by (simp add: leaf_node_def internal_node_def)

text \<open>Members of a cell as members of the page.\<close>

lemma get_field_cell:
  "a + k \<le> stride \<Longrightarrow> get_field a k (cell base stride j p) = get_field (base + j * stride + a) k p"
  by (simp add: get_field_def cell_def seg_seg add.commute add.left_commute)

lemma leaf_node_read:
  assumes "leaf_node p kvs" "j < length kvs"
  shows "leaf_key j p = fst (kvs ! j)" "leaf_value j p = snd (kvs ! j)"
proof -
  have h: "leaf_cell_holds (leaf_cell j p) (kvs ! j)" using assms by (simp add: leaf_node_def)
  then show "leaf_key j p = fst (kvs ! j)"
    by (simp add: leaf_cell_holds_def leaf_key_def leaf_off_def get_field_cell layout_simps)
  have len: "leaf_value_len j p = of_nat (length (snd (kvs ! j)))" "length (snd (kvs ! j)) \<le> 120"
    using h by (simp_all add: leaf_cell_holds_def leaf_value_len_def leaf_off_def get_field_cell layout_simps)
  then have "unat (leaf_value_len j p) = length (snd (kvs ! j))" by (simp add: unat_of_nat)
  then show "leaf_value j p = snd (kvs ! j)"
    using h len(2)
    by (simp add: leaf_cell_holds_def leaf_value_def leaf_off_def cell_def layout_simps seg_seg add.commute add.left_commute)
qed

lemma internal_node_read:
  assumes "internal_node p ks cs" "j < length ks"
  shows "internal_key j p = ks ! j" "internal_child j p = cs ! Suc j"
proof -
  have h: "internal_cell_holds (int_cell j p) (ks ! j, cs ! Suc j)" using assms by (simp add: internal_node_def)
  then show "internal_key j p = ks ! j" "internal_child j p = cs ! Suc j"
    by (simp_all add: internal_cell_holds_def internal_key_def internal_child_def internal_off_def get_field_cell layout_simps)
qed

lemma child_at_node: "internal_node p ks cs \<Longrightarrow> idx \<le> length ks \<Longrightarrow> child_at idx p = cs ! idx"
  using internal_node_read [of p ks cs "idx - 1"]
  by (cases idx) (auto simp: child_at_def internal_node_def)

text \<open>The searches are \<open>takeWhile\<close> on the entries.\<close>

lemma scan_while_takeWhile:
  assumes "\<And>i. i < length xs \<Longrightarrow> P i = Q (xs ! i)" "i \<le> length xs"
  shows "scan_while P (length xs) i = i + length (takeWhile Q (drop i xs))"
  using assms(2)
proof (induction "length xs - i" arbitrary: i)
  case 0
  then show ?case by (subst scan_while.simps) simp
next
  case (Suc n)
  then have i: "i < length xs" by simp
  then have "drop i xs = xs ! i # drop (Suc i) xs" by (simp add: Cons_nth_drop_Suc)
  then show ?case using Suc.hyps(1) [of "Suc i"] Suc.hyps(2) i assms(1) [OF i] by (subst scan_while.simps) simp
qed

lemma leaf_position_node:
  "leaf_node p kvs \<Longrightarrow> leaf_position key p = length (takeWhile (\<lambda>e. sint (fst e) < sint key) kvs)"
  using scan_while_takeWhile [of kvs "\<lambda>i. sint (leaf_key i p) < sint key" "\<lambda>e. sint (fst e) < sint key" 0]
  by (simp add: leaf_position_def leaf_node_read) (simp add: leaf_node_def)

lemma leaf_find_node:
  "leaf_node p kvs \<Longrightarrow> leaf_find key p = length (takeWhile (\<lambda>e. fst e \<noteq> key) kvs)"
  using scan_while_takeWhile [of kvs "\<lambda>i. leaf_key i p \<noteq> key" "\<lambda>e. fst e \<noteq> key" 0]
  by (simp add: leaf_find_def leaf_node_read) (simp add: leaf_node_def)

lemma child_position_node:
  "internal_node p ks cs \<Longrightarrow> child_position key p = length (takeWhile (\<lambda>k. sint k \<le> sint key) ks)"
  using scan_while_takeWhile [of ks "\<lambda>i. sint key \<ge> sint (internal_key i p)" "\<lambda>k. sint k \<le> sint key" 0]
  by (simp add: child_position_def internal_node_read) (simp add: internal_node_def)

section \<open>The edits as list operations\<close>

lemma unat_of_nat_u16: "n < 65536 \<Longrightarrow> unat (of_nat n :: u16) = n"
  by (simp add: unat_of_nat)

lemma cell_header [simp]:
  assumes "wf_page p" "j < 29"
  shows "leaf_cell j (set_num_slots n p) = leaf_cell j p" "leaf_cell j (set_page_type t p) = leaf_cell j p"
    "leaf_cell j (set_next_leaf i p) = leaf_cell j p"
  unfolding set_num_slots_def set_page_type_def set_next_leaf_def
  by (rule leaf_cells.cell_put_below; use assms in \<open>simp add: layout_simps\<close>)+

lemma int_cell_header [simp]:
  assumes "wf_page p" "j < 254"
  shows "int_cell j (set_num_slots n p) = int_cell j p" "int_cell j (set_page_type t p) = int_cell j p"
    "int_cell j (set_leftmost_child i p) = int_cell j p"
  unfolding set_num_slots_def set_page_type_def set_leftmost_child_def
  by (rule internal_cells.cell_put_below; use assms in \<open>simp add: layout_simps\<close>)+

text \<open>Writes to cells leave the header and the node fields alone.\<close>

lemma fields_cong:
  assumes "\<And>off n. off + n \<le> NODE_DATA_OFFSET \<Longrightarrow> seg off n q = seg off n p"
  shows "hdr_page_type q = hdr_page_type p" "hdr_num_slots q = hdr_num_slots p" "next_leaf q = next_leaf p"
    "leftmost_child q = leftmost_child p"
  using assms by (auto intro!: page_type.get_cong num_slots.get_cong next_leaf_field.get_cong leftmost_field.get_cong
      simp: layout_simps)

lemma copy_leaf_fields [simp]:
  assumes "wf_page to" "wf_page src" "i + m \<le> 29" "k + m \<le> 29"
  defines "q \<equiv> copy_cells NODE_DATA_OFFSET LeafCell_size i to k m src"
  shows "hdr_page_type q = hdr_page_type to" "hdr_num_slots q = hdr_num_slots to" "next_leaf q = next_leaf to"
  unfolding q_def by (rule fields_cong, rule leaf_cells.seg_copy_below [OF assms(1-4)], assumption)+

lemma copy_int_fields [simp]:
  assumes "wf_page to" "wf_page src" "i + m \<le> 254" "k + m \<le> 254"
  defines "q \<equiv> copy_cells NODE_DATA_OFFSET InternalCell_size i to k m src"
  shows "hdr_page_type q = hdr_page_type to" "hdr_num_slots q = hdr_num_slots to" "leftmost_child q = leftmost_child to"
  unfolding q_def by (rule fields_cong, rule internal_cells.seg_copy_below [OF assms(1-4)], assumption)+

lemma write_leaf_fields:
  assumes "wf_page p" "i < 29" "a + length ys \<le> LeafCell_size"
  defines "q \<equiv> patch (leaf_off i + a) ys p"
  shows "wf_page q" "hdr_page_type q = hdr_page_type p" "hdr_num_slots q = hdr_num_slots p" "next_leaf q = next_leaf p"
    "j < 29 \<Longrightarrow> leaf_cell j q = (if j = i then patch a ys (leaf_cell i p) else leaf_cell j p)"
proof -
  have q: "q = patch (NODE_DATA_OFFSET + i * LeafCell_size + a) ys p" by (simp add: q_def leaf_off_def)
  show "wf_page q" unfolding q by (rule leaf_cells.wf_write [OF assms(1-3)])
  show "hdr_page_type q = hdr_page_type p" "hdr_num_slots q = hdr_num_slots p" "next_leaf q = next_leaf p"
    unfolding q by (rule fields_cong, rule leaf_cells.seg_write_below [OF assms(1-3)], assumption)+
  show "leaf_cell j q = (if j = i then patch a ys (leaf_cell i p) else leaf_cell j p)" if "j < 29"
    unfolding q by (rule leaf_cells.cell_write [OF assms(1,2) that assms(3)])
qed

lemma write_int_fields:
  fixes k :: i64 and c :: page_id_t
  assumes "wf_page p" "i < 254"
  defines "q \<equiv> set_internal_cell i k c p"
  shows "wf_page q" "hdr_page_type q = hdr_page_type p" "hdr_num_slots q = hdr_num_slots p" "leftmost_child q = leftmost_child p"
    "j < 254 \<Longrightarrow> int_cell j q = (if j = i then word_le 8 k @ word_le 4 c @ replicate 4 0 else int_cell j p)"
proof -
  have l: "0 + length (word_le 8 k @ word_le 4 c @ replicate 4 0) \<le> InternalCell_size" by (simp add: layout_simps)
  have q: "q = patch (NODE_DATA_OFFSET + i * InternalCell_size + 0) (word_le 8 k @ word_le 4 c @ replicate 4 0) p"
    by (simp add: q_def set_internal_cell_def internal_off_def)
  show "wf_page q" unfolding q by (rule internal_cells.wf_write [OF assms(1,2) l])
  show "hdr_page_type q = hdr_page_type p" "hdr_num_slots q = hdr_num_slots p" "leftmost_child q = leftmost_child p"
    unfolding q by (rule fields_cong, rule internal_cells.seg_write_below [OF assms(1,2) l], assumption)+
  show "int_cell j q = (if j = i then word_le 8 k @ word_le 4 c @ replicate 4 0 else int_cell j p)" if "j < 254"
    using internal_cells.cell_write [OF assms(1,2) that l] internal_cells.length_cell [OF assms(1,2)]
    unfolding q by (simp add: patch_all layout_simps)
qed

lemma leaf_cell_holds_written:
  assumes "length c = LeafCell_size" "length v \<le> VALUE_SIZE" "get_field 0 8 c = k"
  shows "leaf_cell_holds (patch 10 v (patch 8 (word_le 2 (of_nat (length v) :: u16)) c)) (k, v)"
proof -
  let ?c = "patch 8 (word_le 2 (of_nat (length v) :: u16)) c"
  have l: "length ?c = 136" using assms(1) by (simp add: layout_simps)
  have "get_field 0 8 (patch 10 v ?c) = k" "get_field 8 2 (patch 10 v ?c) = (get_field 8 2 ?c :: u16)"
    using assms l by (simp_all add: get_field_patch_other layout_simps)
  moreover have "get_field 8 2 ?c = (of_nat (length v) :: u16)"
    using assms(1) get_put_field [of 8 2 c "of_nat (length v) :: u16"] by (simp add: put_field_def layout_simps)
  ultimately show ?thesis using assms(2) l by (simp add: leaf_cell_holds_def layout_simps)
qed

lemma leaf_set_value_cell:
  assumes "wf_page p" "idx < 29" "length v \<le> VALUE_SIZE"
  shows "wf_page (leaf_set_value idx v p)" "hdr_page_type (leaf_set_value idx v p) = hdr_page_type p"
    "hdr_num_slots (leaf_set_value idx v p) = hdr_num_slots p" "next_leaf (leaf_set_value idx v p) = next_leaf p"
    "j < 29 \<Longrightarrow> leaf_cell j (leaf_set_value idx v p) =
      (if j = idx then patch 10 v (patch 8 (word_le 2 (of_nat (length v) :: u16)) (leaf_cell idx p)) else leaf_cell j p)"
proof -
  note w1 = write_leaf_fields [OF assms(1,2), of 8 "word_le 2 (of_nat (length v) :: u16)"]
  let ?p = "patch (leaf_off idx + 8) (word_le 2 (of_nat (length v) :: u16)) p"
  have b: "8 + length (word_le 2 (of_nat (length v) :: u16)) \<le> LeafCell_size" "10 + length v \<le> LeafCell_size"
    using assms(3) by (simp_all add: layout_simps)
  have wf: "wf_page ?p" using w1 b by blast
  note w2 = write_leaf_fields [OF wf assms(2) b(2)]
  have def': "leaf_set_value idx v p = patch (leaf_off idx + 10) v ?p" by (simp add: leaf_set_value_def put_field_def)
  show "wf_page (leaf_set_value idx v p)" "hdr_page_type (leaf_set_value idx v p) = hdr_page_type p"
    "hdr_num_slots (leaf_set_value idx v p) = hdr_num_slots p" "next_leaf (leaf_set_value idx v p) = next_leaf p"
    unfolding def' using w2 w1 b(1) by simp_all
  show "leaf_cell j (leaf_set_value idx v p) =
      (if j = idx then patch 10 v (patch 8 (word_le 2 (of_nat (length v) :: u16)) (leaf_cell idx p)) else leaf_cell j p)"
    if "j < 29" unfolding def' using w2(5) [OF that] w1(5) [OF b(1)] that assms(2) by simp
qed

lemma leaf_set_value_node:
  assumes "leaf_node p kvs" "idx < length kvs" "length v \<le> VALUE_SIZE"
  shows "leaf_node (leaf_set_value idx v p) (kvs[idx := (fst (kvs ! idx), v)])" "next_leaf (leaf_set_value idx v p) = next_leaf p"
proof -
  have n: "wf_page p" "length kvs \<le> 29" "\<And>j. j < length kvs \<Longrightarrow> leaf_cell_holds (leaf_cell j p) (kvs ! j)"
    using assms(1) by (simp_all add: leaf_node_def)
  then have i: "idx < 29" using assms(2) by simp
  note w = leaf_set_value_cell [OF n(1) i assms(3)]
  show "next_leaf (leaf_set_value idx v p) = next_leaf p" by (rule w)
  have "leaf_cell_holds (leaf_cell j (leaf_set_value idx v p)) (kvs[idx := (fst (kvs ! idx), v)] ! j)" if "j < length kvs" for j
  proof (cases "j = idx")
    case True
    have "get_field 0 8 (leaf_cell idx p) = fst (kvs ! idx)" using n(3) [OF assms(2)] by (simp add: leaf_cell_holds_def)
    then show ?thesis
      using True i assms(2) leaf_cell_holds_written [OF leaf_cells.length_cell [OF n(1) i] assms(3)] by (simp add: w)
  next
    case False
    then show ?thesis using that n by (simp add: w)
  qed
  then show "leaf_node (leaf_set_value idx v p) (kvs[idx := (fst (kvs ! idx), v)])"
    using assms(1) w by (simp add: leaf_node_def)
qed

lemma leaf_insert_node:
  assumes "leaf_node p kvs" "idx \<le> length kvs" "length kvs < 29" "length v \<le> VALUE_SIZE"
  shows "leaf_node (leaf_insert idx key v p) (take idx kvs @ (key, v) # drop idx kvs)"
    "next_leaf (leaf_insert idx key v p) = next_leaf p"
proof -
  let ?n = "length kvs"
  let ?p1 = "copy_cells NODE_DATA_OFFSET LeafCell_size (idx + 1) p idx (?n - idx) p"
  let ?p2 = "patch (leaf_off idx + 0) (word_le 8 key) ?p1"
  let ?p3 = "leaf_set_value idx v ?p2"
  have n: "wf_page p" "hdr_page_type p = page_type_code LEAF" "unat (hdr_num_slots p) = ?n"
    "\<And>j. j < ?n \<Longrightarrow> leaf_cell_holds (leaf_cell j p) (kvs ! j)"
    using assms(1) by (simp_all add: leaf_node_def)
  have r: "idx + 1 + (?n - idx) \<le> 29" "idx + (?n - idx) \<le> 29" and i: "idx < 29" using assms(2,3) by simp_all
  have def': "leaf_insert idx key v p = set_num_slots (hdr_num_slots p + 1) ?p3"
    by (simp add: leaf_insert_def Let_def n(3) put_field_def)
  have wf1: "wf_page ?p1" using n(1) r by simp
  have k: "0 + length (word_le 8 key) \<le> LeafCell_size" by (simp add: layout_simps)
  note w2 = write_leaf_fields [OF wf1 i k]
  note w3 = leaf_set_value_cell [OF w2(1) i assms(4)]
  have c1: "leaf_cell j ?p1 = (if idx < j \<and> j \<le> ?n then leaf_cell (j - 1) p else leaf_cell j p)" if "j < 29" for j
    using leaf_cells.cell_copy [OF n(1) n(1) r that] assms(2) by (cases j) (auto simp: less_Suc_eq_le)
  have slots: "unat (hdr_num_slots p + 1) = Suc ?n" using n(3) assms(3) by (simp add: unat_word_ariths)
  show "next_leaf (leaf_insert idx key v p) = next_leaf p"
    using n(1) r w2 w3 by (simp add: def')
  have "leaf_cell_holds (leaf_cell j ?p3) ((take idx kvs @ (key, v) # drop idx kvs) ! j)" if j: "j < Suc ?n" for j
  proof -
    have j29: "j < 29" using j assms(3) by simp
    consider "j < idx" | "j = idx" | "idx < j" by linarith
    then show ?thesis
    proof cases
      case 1
      then have "leaf_cell j ?p3 = leaf_cell j p" using w3(5) [OF j29] w2(5) [OF j29] c1 [OF j29] by simp
      then show ?thesis using 1 assms(2) n(4) [of j] by (simp add: nth_append)
    next
      case 2
      have "get_field 0 8 (leaf_cell idx ?p2) = key"
        using w2(5) [OF i] leaf_cells.length_cell [OF wf1 i] get_put_field [of 0 8 "leaf_cell idx ?p1" key]
        by (simp add: put_field_def layout_simps)
      then show ?thesis
        using 2 assms(2) leaf_cell_holds_written [OF leaf_cells.length_cell [OF w2(1) i] assms(4)] w3(5) [OF i]
        by (simp add: nth_append)
    next
      case 3
      then have "leaf_cell j ?p3 = leaf_cell (j - 1) p" using w3(5) [OF j29] w2(5) [OF j29] c1 [OF j29] j by simp
      then show ?thesis using 3 assms(2) n(4) [of "j - 1"] j by (cases j) (auto simp: nth_append nth_Cons')
    qed
  qed
  then show "leaf_node (leaf_insert idx key v p) (take idx kvs @ (key, v) # drop idx kvs)"
    using n(1,2) r w2 w3 slots assms(2,3) by (simp add: def' leaf_node_def)
qed

lemma leaf_remove_node:
  assumes "leaf_node p kvs" "i < length kvs"
  shows "leaf_node (leaf_remove i p) (take i kvs @ drop (Suc i) kvs)" "next_leaf (leaf_remove i p) = next_leaf p"
proof -
  let ?n = "length kvs"
  let ?p1 = "copy_cells NODE_DATA_OFFSET LeafCell_size i p (i + 1) (?n - i - 1) p"
  have n: "wf_page p" "hdr_page_type p = page_type_code LEAF" "unat (hdr_num_slots p) = ?n" "?n \<le> 29"
    "\<And>j. j < ?n \<Longrightarrow> leaf_cell_holds (leaf_cell j p) (kvs ! j)"
    using assms(1) by (simp_all add: leaf_node_def)
  have r: "i + (?n - i - 1) \<le> 29" "i + 1 + (?n - i - 1) \<le> 29" using assms(2) n(4) by simp_all
  have def': "leaf_remove i p = set_num_slots (hdr_num_slots p - 1) ?p1"
    by (simp add: leaf_remove_def Let_def n(3))
  have slots: "unat (hdr_num_slots p - 1) = ?n - 1" using n(3) assms(2) by (intro unat_minus_one [THEN trans]) auto
  show "next_leaf (leaf_remove i p) = next_leaf p" using n(1) r by (simp add: def')
  have "leaf_cell_holds (leaf_cell j ?p1) ((take i kvs @ drop (Suc i) kvs) ! j)" if j: "j < ?n - 1" for j
  proof -
    have j29: "j < 29" using j n(4) by simp
    show ?thesis
      using leaf_cells.cell_copy [OF n(1) n(1) r j29] n(5) [of j] n(5) [of "Suc j"] j assms(2)
      by (auto simp: nth_append)
  qed
  then show "leaf_node (leaf_remove i p) (take i kvs @ drop (Suc i) kvs)"
    using n(1,2,4) r slots assms(2) by (auto simp: def' leaf_node_def)
qed

lemma internal_cell_holds_written: "internal_cell_holds (word_le 8 k @ word_le 4 c @ replicate 4 0) (k, c)"
  by (simp add: internal_cell_holds_def get_field_def seg_def le_word_word_le)

lemma internal_insert_node:
  assumes "internal_node p ks cs" "idx \<le> length ks" "length ks < 254"
  shows "internal_node (internal_insert idx key child p) (take idx ks @ key # drop idx ks)
    (take (Suc idx) cs @ child # drop (Suc idx) cs)"
proof -
  let ?n = "length ks"
  let ?p1 = "copy_cells NODE_DATA_OFFSET InternalCell_size (idx + 1) p idx (?n - idx) p"
  let ?p2 = "set_internal_cell idx key child ?p1"
  have n: "wf_page p" "hdr_page_type p = page_type_code INTERNAL" "unat (hdr_num_slots p) = ?n"
    "length cs = Suc ?n" "leftmost_child p = cs ! 0"
    "\<And>j. j < ?n \<Longrightarrow> internal_cell_holds (int_cell j p) (ks ! j, cs ! Suc j)"
    using assms(1) by (simp_all add: internal_node_def)
  have r: "idx + 1 + (?n - idx) \<le> 254" "idx + (?n - idx) \<le> 254" and i: "idx < 254" using assms(2,3) by simp_all
  have def': "internal_insert idx key child p = set_num_slots (hdr_num_slots p + 1) ?p2"
    by (simp add: internal_insert_def Let_def n(3))
  have wf1: "wf_page ?p1" using n(1) r by simp
  note w = write_int_fields [OF wf1 i, where k = key and c = child]
  have c1: "int_cell j ?p1 = (if idx < j \<and> j \<le> ?n then int_cell (j - 1) p else int_cell j p)" if "j < 254" for j
    using internal_cells.cell_copy [OF n(1) n(1) r that] assms(2) by (cases j) (auto simp: less_Suc_eq_le)
  have slots: "unat (hdr_num_slots p + 1) = Suc ?n" using n(3) assms(3) by (simp add: unat_word_ariths)
  have "internal_cell_holds (int_cell j ?p2)
      ((take idx ks @ key # drop idx ks) ! j, (take (Suc idx) cs @ child # drop (Suc idx) cs) ! Suc j)" if j: "j < Suc ?n" for j
  proof -
    have j254: "j < 254" using j assms(3) by simp
    have len: "length (take idx ks) = idx" "length (take (Suc idx) cs) = Suc idx" using assms(2) n(4) by simp_all
    consider "j < idx" | "j = idx" | d where "j = Suc (idx + d)" using less_imp_Suc_add by (metis linorder_neqE_nat)
    then show ?thesis
    proof cases
      case 1
      then show ?thesis using w(5) [OF j254] c1 [OF j254] n(6) [of j] len assms(2) by (simp add: nth_append)
    next
      case 2
      then show ?thesis using w(5) [OF j254] internal_cell_holds_written len by (simp add: nth_append)
    next
      case 3
      then show ?thesis using w(5) [OF j254] c1 [OF j254] n(6) [of "idx + d"] len j n(4) by (simp add: nth_append)
    qed
  qed
  moreover have "leftmost_child ?p2 = (take (Suc idx) cs @ child # drop (Suc idx) cs) ! 0"
    using n(1,4,5) r w(4) by (cases cs) simp_all
  ultimately show ?thesis
    using n(1,2,4) r w slots assms(2,3) by (simp add: def' internal_node_def)
qed

text \<open>The two halves of a split.\<close>

lemma split_leaf_right_node:
  assumes "leaf_node left kvs" "wf_page right"
  shows "leaf_node (split_leaf_right left right) (drop (length kvs div 2) kvs)"
    "next_leaf (split_leaf_right left right) = next_leaf left"
proof -
  let ?n = "length kvs" let ?h = "?n div 2" let ?r1 = "set_page_type (page_type_code LEAF) right"
  let ?r2 = "copy_cells NODE_DATA_OFFSET LeafCell_size 0 ?r1 ?h (?n - ?h) left"
  have n: "wf_page left" "unat (hdr_num_slots left) = ?n" "?n \<le> 29"
    "\<And>j. j < ?n \<Longrightarrow> leaf_cell_holds (leaf_cell j left) (kvs ! j)"
    using assms(1) by (simp_all add: leaf_node_def)
  have wf: "wf_page ?r1" using assms(2) by simp
  have r: "0 + (?n - ?h) \<le> 29" "?h + (?n - ?h) \<le> 29" using n(3) by simp_all
  have wf2: "wf_page ?r2" using leaf_cells.wf_copy [OF wf n(1) r] .
  have slots: "unat (of_nat (?n - ?h) :: u16) = ?n - ?h" using n(3) by (intro unat_of_nat_u16) simp
  have def': "split_leaf_right left right = set_next_leaf (next_leaf left) (set_num_slots (of_nat (?n - ?h)) ?r2)"
    by (simp add: split_leaf_right_def Let_def n(2))
  show "next_leaf (split_leaf_right left right) = next_leaf left" using wf2 by (simp add: def')
  have "leaf_cell_holds (leaf_cell j ?r2) (drop ?h kvs ! j)" if "j < ?n - ?h" for j
    using leaf_cells.cell_copy [OF wf n(1) r, of j] that n(3) n(4) [of "?h + j"] by simp
  then show "leaf_node (split_leaf_right left right) (drop ?h kvs)"
    using wf2 copy_leaf_fields(1) [OF wf n(1) r] assms(2) n(3) slots unfolding def' leaf_node_def by auto
qed

lemma leaf_node_shrink:
  assumes "leaf_node p kvs" "m \<le> length kvs"
  shows "leaf_node (set_num_slots (of_nat m) p) (take m kvs)"
proof -
  have "unat (of_nat m :: u16) = m" using assms by (simp add: leaf_node_def unat_of_nat)
  then show ?thesis using assms by (simp add: leaf_node_def)
qed

lemma leaf_node_set_next [simp]: "leaf_node p kvs \<Longrightarrow> leaf_node (set_next_leaf i p) kvs"
  by (simp add: leaf_node_def)

lemma split_leaf_left_node:
  assumes "leaf_node left kvs"
  shows "leaf_node (split_leaf_left i left) (take (length kvs div 2) kvs)" "next_leaf (split_leaf_left i left) = i"
proof -
  have "unat (hdr_num_slots left) = length kvs" "wf_page left" using assms by (simp_all add: leaf_node_def)
  then show "leaf_node (split_leaf_left i left) (take (length kvs div 2) kvs)" "next_leaf (split_leaf_left i left) = i"
    using leaf_node_shrink [OF assms, of "length kvs div 2"] by (simp_all add: split_leaf_left_def)
qed

lemma split_internal_right_node:
  assumes "internal_node left ks cs" "wf_page right" "0 < length ks"
  defines "h \<equiv> length ks div 2"
  shows "internal_node (split_internal_right left right) (drop (Suc h) ks) (drop (Suc h) cs)"
    "internal_key h left = ks ! h"
proof -
  let ?n = "length ks"
  let ?r1 = "set_leftmost_child (internal_child h left) (set_page_type (page_type_code INTERNAL) right)"
  let ?r2 = "copy_cells NODE_DATA_OFFSET InternalCell_size 0 ?r1 (h + 1) (?n - h - 1) left"
  have n: "wf_page left" "unat (hdr_num_slots left) = ?n" "?n \<le> 254" "length cs = Suc ?n"
    "\<And>j. j < ?n \<Longrightarrow> internal_cell_holds (int_cell j left) (ks ! j, cs ! Suc j)"
    using assms(1) by (simp_all add: internal_node_def)
  have h: "h < ?n" using assms(3) by (simp add: h_def)
  show "internal_key h left = ks ! h" using internal_node_read [OF assms(1) h] by simp
  have wf: "wf_page ?r1" using assms(2) by simp
  have r: "0 + (?n - h - 1) \<le> 254" "h + 1 + (?n - h - 1) \<le> 254" using n(3) h by simp_all
  have wf2: "wf_page ?r2" using internal_cells.wf_copy [OF wf n(1) r] .
  have slots: "unat (of_nat (?n - h - 1) :: u16) = ?n - h - 1" using n(3) by (intro unat_of_nat_u16) simp
  have def': "split_internal_right left right = set_num_slots (of_nat (?n - h - 1)) ?r2"
    by (simp add: split_internal_right_def Let_def n(2) h_def)
  have "internal_cell_holds (int_cell j ?r2) (drop (Suc h) ks ! j, drop (Suc h) cs ! Suc j)" if "j < ?n - Suc h" for j
    using internal_cells.cell_copy [OF wf n(1) r, of j] that n(3,4) n(5) [of "h + 1 + j"] by simp
  moreover have "leftmost_child ?r2 = drop (Suc h) cs ! 0"
    using copy_int_fields(3) [OF wf n(1) r] assms(2) internal_node_read(2) [OF assms(1) h] h n(4) by simp
  moreover have "hdr_page_type ?r2 = page_type_code INTERNAL"
    using copy_int_fields(1) [OF wf n(1) r] assms(2) by simp
  ultimately show "internal_node (split_internal_right left right) (drop (Suc h) ks) (drop (Suc h) cs)"
    using wf2 n(3,4) slots h unfolding def' internal_node_def by (auto simp: Suc_diff_Suc)
qed

lemma split_internal_left_node:
  assumes "internal_node left ks cs"
  shows "internal_node (split_internal_left left) (take (length ks div 2) ks) (take (Suc (length ks div 2)) cs)"
proof -
  have "unat (of_nat (length ks div 2) :: u16) = length ks div 2"
    using assms unfolding internal_node_def by (intro unat_of_nat_u16) linarith
  then show ?thesis using assms by (auto simp: internal_node_def split_internal_left_def)
qed

lemma init_leaf_node: "wf_page p \<Longrightarrow> leaf_node (init_leaf p) [] \<and> next_leaf (init_leaf p) = INVALID_PAGE_ID"
  by (simp add: init_leaf_def leaf_node_def)

lemma init_root_node: "wf_page p \<Longrightarrow> internal_node (init_root l k r p) [k] [l, r]"
proof -
  let ?q = "set_leftmost_child l (set_num_slots 1 (set_page_type (page_type_code INTERNAL) p))"
  assume "wf_page p"
  then show ?thesis
    using write_int_fields [where p = ?q and i = 0 and k = k and c = r] internal_cell_holds_written [of k r]
    by (simp add: init_root_def internal_node_def)
qed

text \<open>Stamping the LSN and the checksum does not change what a node holds.\<close>

lemma wf_page_content [simp]: "wf_page (content p) = wf_page p"
proof -
  have "length (content p) = length p" if "17 \<le> length p"
    using that by (simp add: content_def set_lsn_def set_checksum_def)
  moreover have "length p = 4096" if "length (content p) = 4096"
  proof (rule ccontr)
    assume "length p \<noteq> 4096"
    then have "length p < 17" using calculation that by linarith
    then have "length (content p) \<le> 21 + 4"
      by (simp add: content_def set_lsn_def set_checksum_def put_field_def patch_def)
    then show False using that by simp
  qed
  ultimately show ?thesis by (auto simp: wf_page_def PAGE_SIZE_def)
qed

lemma seg_content:
  "wf_page p \<Longrightarrow> off + n \<le> 9 \<or> 17 \<le> off \<Longrightarrow> off + n \<le> PAGE_SIZE \<Longrightarrow> seg off n (content p) = seg off n p"
  unfolding content_def by (rule seg_stamped)

lemma cell_content:
  assumes "wf_page p" "cell_array base stride lim" "j < lim"
  shows "cell base stride j (content p) = cell base stride j p"
  unfolding cell_def using assms cell_array.cell_fits [OF assms(2,3)] cell_array.body [OF assms(2)]
  by (intro seg_content) (simp_all add: layout_simps)

lemma fields_content [simp]:
  assumes "wf_page p"
  shows "hdr_page_type (content p) = hdr_page_type p" "hdr_num_slots (content p) = hdr_num_slots p"
    "next_leaf (content p) = next_leaf p" "leftmost_child (content p) = leftmost_child p"
    "meta_root_page_id (content p) = meta_root_page_id p"
  using assms
  by (auto intro!: page_type.get_cong num_slots.get_cong next_leaf_field.get_cong leftmost_field.get_cong
      meta_root_field.get_cong seg_content simp: layout_simps)

lemma leaf_node_content [simp]: "leaf_node (content p) kvs = leaf_node p kvs"
proof (cases "wf_page p")
  case True
  then show ?thesis using cell_content [OF True leaf_cells.cell_array_axioms] by (auto simp: leaf_node_def)
qed (simp add: leaf_node_def)

lemma internal_node_content [simp]: "internal_node (content p) ks cs = internal_node p ks cs"
proof (cases "wf_page p")
  case True
  then show ?thesis using cell_content [OF True internal_cells.cell_array_axioms] by (auto simp: internal_node_def)
qed (simp add: internal_node_def)

end
