(* ===== verification/Btree.thy ===== *)
theory Btree
  imports Btree_Node Page_Store
begin

text \<open>
  The B+-tree (\<open>btree.h\<close>, \<open>btree.cpp\<close>) over the calls of a page store. A guard lives until its scope
  ends, on the normal path and when an exception leaves it: \<open>end_scope\<close> runs its destructor. A
  guard that the source does not check before it is dereferenced gives \<open>UndefinedBehaviour\<close> when the
  pool had no frame for it. The recursion of an insert and the loops of a descent and of a range
  scan follow page ids and need not end on arbitrary pages: they are partial functions, and \<open>None\<close>
  is a run that does not return.
\<close>

section \<open>State\<close>

record SplitResult =
  promoted_key :: i64
  new_right_page_id :: page_id_t

text \<open>\<open>on_root_changed\<close> is \<open>None\<close> for an empty \<open>std::function\<close>; the callback acts on the pool.\<close>
record 's BTree =
  metadata_page_id :: page_id_t
  catalog_managed :: bool
  on_root_changed :: "(page_id_t \<Rightarrow> 's \<Rightarrow> unit res \<times> 's) option"
  root_page_id :: page_id_t

definition end_scope :: "'s page_store_ops \<Rightarrow> PageGuard \<Rightarrow> 'a res \<times> 's \<Rightarrow> 'a res \<times> 's" where
  "end_scope ops g r =
     (case r of (x, s) \<Rightarrow>
        (case ps_release ops g s of
           (Inl e, s') \<Rightarrow> (Inl e, s')
         | (Inr _, s') \<Rightarrow> (x, s')))"

section \<open>Splits\<close>

definition SplitLeafIfNeeded :: "'s page_store_ops \<Rightarrow> PageGuard \<Rightarrow> 's \<Rightarrow> SplitResult option res \<times> 's" where
  "SplitLeafIfNeeded ops g s =
     (if unat (hdr_num_slots (ps_page ops g s)) \<le> LEAF_MAX_KEYS then (Inr None, s)
      else
        (case ps_new ops s of
           (Inl e, s1) \<Rightarrow> (Inl e, s1)
         | (Inr None, s1) \<Rightarrow> (Inl (RuntimeError ''BTree: buffer pool exhausted during split''), s1)
         | (Inr (Some rg), s1) \<Rightarrow>
             (let left = ps_page ops g s1;
                  right = split_leaf_right left (ps_page ops rg s1);
                  s2 = ps_put ops g (split_leaf_left (g_page_id rg) left) s1;
                  s3 = ps_put ops rg right s2
              in end_scope ops rg
                   (Inr (Some \<lparr>promoted_key = leaf_key 0 right, new_right_page_id = g_page_id rg\<rparr>), s3))))"

definition SplitInternalIfNeeded :: "'s page_store_ops \<Rightarrow> PageGuard \<Rightarrow> 's \<Rightarrow> SplitResult option res \<times> 's" where
  "SplitInternalIfNeeded ops g s =
     (if unat (hdr_num_slots (ps_page ops g s)) \<le> INTERNAL_MAX_KEYS then (Inr None, s)
      else
        (case ps_new ops s of
           (Inl e, s1) \<Rightarrow> (Inl e, s1)
         | (Inr None, s1) \<Rightarrow> (Inl (RuntimeError ''BTree: buffer pool exhausted during split''), s1)
         | (Inr (Some rg), s1) \<Rightarrow>
             (let left = ps_page ops g s1;
                  key = internal_key (unat (hdr_num_slots left) div 2) left;
                  right = split_internal_right left (ps_page ops rg s1);
                  s2 = ps_put ops g (split_internal_left left) s1;
                  s3 = ps_put ops rg right s2
              in end_scope ops rg
                   (Inr (Some \<lparr>promoted_key = key, new_right_page_id = g_page_id rg\<rparr>), s3))))"

section \<open>Insert\<close>

text \<open>The leaf case of \<open>InsertRecursive\<close>: overwrite an existing key, or shift and insert.\<close>
definition insert_leaf :: "'s page_store_ops \<Rightarrow> PageGuard \<Rightarrow> i64 \<Rightarrow> byte list \<Rightarrow> 's \<Rightarrow> SplitResult option res \<times> 's" where
  "insert_leaf ops g key v s =
     (let page = ps_page ops g s;
          idx = leaf_position key page
      in if idx < unat (hdr_num_slots page) \<and> leaf_key idx page = key
         then (Inr None, ps_put ops g (leaf_set_value idx v page) s)
         else SplitLeafIfNeeded ops g (ps_put ops g (leaf_insert idx key v page) s))"

text \<open>What an internal node does with the outcome of the recursive call.\<close>
definition insert_split ::
  "'s page_store_ops \<Rightarrow> PageGuard \<Rightarrow> nat \<Rightarrow> SplitResult option res \<times> 's \<Rightarrow> SplitResult option res \<times> 's" where
  "insert_split ops g idx r =
     (case r of
        (Inl e, s) \<Rightarrow> (Inl e, s)
      | (Inr None, s) \<Rightarrow> (Inr None, s)
      | (Inr (Some split), s) \<Rightarrow>
          SplitInternalIfNeeded ops g
            (ps_put ops g (internal_insert idx (promoted_key split) (new_right_page_id split) (ps_page ops g s)) s))"

partial_function (option) InsertRecursive ::
  "'s page_store_ops \<Rightarrow> page_id_t \<Rightarrow> i64 \<Rightarrow> byte list \<Rightarrow> 's \<Rightarrow> (SplitResult option res \<times> 's) option" where
  "InsertRecursive ops node_id key v s =
     (case ps_fetch ops node_id s of (r, s1) \<Rightarrow>
        (case r of
           Inl e \<Rightarrow> Some (Inl e, s1)
         | Inr og \<Rightarrow>
             (case og of
                None \<Rightarrow> Some (Inl (RuntimeError ''BTree::Insert: buffer pool exhausted''), s1)
              | Some g \<Rightarrow>
                  (let page = ps_page ops g s1
                   in if hdr_page_type page = page_type_code LEAF
                      then Some (end_scope ops g (insert_leaf ops g key v s1))
                      else
                        (let idx = child_position key page
                         in Option.bind (InsertRecursive ops (child_at idx page) key v s1)
                              (\<lambda>split. Some (end_scope ops g (insert_split ops g idx split))))))))"

text \<open>The root above a split root, logged before anything refers to it.\<close>
definition grow_root :: "'s page_store_ops \<Rightarrow> page_id_t \<Rightarrow> SplitResult \<Rightarrow> 's \<Rightarrow> page_id_t res \<times> 's" where
  "grow_root ops root split s =
     (case ps_new ops s of
        (Inl e, s1) \<Rightarrow> (Inl e, s1)
      | (Inr None, s1) \<Rightarrow> (Inl (RuntimeError ''BTree::Insert: buffer pool exhausted''), s1)
      | (Inr (Some g), s1) \<Rightarrow>
          end_scope ops g
            (Inr (g_page_id g),
             ps_put ops g (init_root root (promoted_key split) (new_right_page_id split) (ps_page ops g s1)) s1))"

text \<open>The new root id is recorded through the callback or in the metadata page.\<close>
definition record_root :: "'s page_store_ops \<Rightarrow> 's BTree \<Rightarrow> 's \<Rightarrow> unit res \<times> 's" where
  "record_root ops t s =
     (if catalog_managed t then
        (case on_root_changed t of
           None \<Rightarrow> (Inl (RuntimeError ''bad_function_call''), s)
         | Some f \<Rightarrow> f (root_page_id t) s)
      else
        (case ps_fetch ops (metadata_page_id t) s of
           (Inl e, s1) \<Rightarrow> (Inl e, s1)
         | (Inr None, s1) \<Rightarrow> (Inl (UndefinedBehaviour ''null page''), s1)
         | (Inr (Some g), s1) \<Rightarrow>
             end_scope ops g (Inr (), ps_put ops g (set_meta_root_page_id (root_page_id t) (ps_page ops g s1)) s1)))"

definition BTree_Insert ::
  "'s page_store_ops \<Rightarrow> i64 \<Rightarrow> byte list \<Rightarrow> 's BTree \<Rightarrow> 's \<Rightarrow> (unit res \<times> 's BTree \<times> 's) option" where
  "BTree_Insert ops key v t s =
     (if length v > VALUE_SIZE then Some (Inl (InvalidArgument ''BTree::Insert: value exceeds VALUE_SIZE''), t, s)
      else
        Option.bind (InsertRecursive ops (root_page_id t) key v s)
          (\<lambda>(r, s1).
             case r of
               Inl e \<Rightarrow> Some (Inl e, t, s1)
             | Inr None \<Rightarrow> Some (Inr (), t, s1)
             | Inr (Some split) \<Rightarrow>
                 (case grow_root ops (root_page_id t) split s1 of
                    (Inl e, s2) \<Rightarrow> Some (Inl e, t, s2)
                  | (Inr new_root, s2) \<Rightarrow>
                      (let t' = t\<lparr>root_page_id := new_root\<rparr>
                       in case record_root ops t' s2 of (r', s3) \<Rightarrow> Some (r', t', s3)))))"

section \<open>Lookup, deletion and scans\<close>

partial_function (option) FindLeafPageId ::
  "'s page_store_ops \<Rightarrow> page_id_t \<Rightarrow> i64 \<Rightarrow> 's \<Rightarrow> (page_id_t res \<times> 's) option" where
  "FindLeafPageId ops cur key s =
     (case ps_fetch ops cur s of (r, s1) \<Rightarrow>
        (case r of
           Inl e \<Rightarrow> Some (Inl e, s1)
         | Inr og \<Rightarrow>
             (case og of
                None \<Rightarrow> Some (Inl (RuntimeError ''BTree: buffer pool exhausted during lookup''), s1)
              | Some g \<Rightarrow>
                  (let page = ps_page ops g s1
                   in if hdr_page_type page = page_type_code LEAF then Some (end_scope ops g (Inr cur, s1))
                      else
                        (case end_scope ops g (Inr (child_at (child_position key page) page), s1) of (r', s2) \<Rightarrow>
                           (case r' of
                              Inl e \<Rightarrow> Some (Inl e, s2)
                            | Inr child \<Rightarrow> FindLeafPageId ops child key s2))))))"

text \<open>An unchecked \<open>FetchPage\<close> and a body that runs on its page; the guard goes out of scope after it.\<close>
definition with_page :: "'s page_store_ops \<Rightarrow> page_id_t \<Rightarrow> 's \<Rightarrow> (PageGuard \<Rightarrow> page \<Rightarrow> 's \<Rightarrow> 'a res \<times> 's) \<Rightarrow> 'a res \<times> 's" where
  "with_page ops i s body =
     (case ps_fetch ops i s of
        (Inl e, s1) \<Rightarrow> (Inl e, s1)
      | (Inr None, s1) \<Rightarrow> (Inl (UndefinedBehaviour ''null page''), s1)
      | (Inr (Some g), s1) \<Rightarrow> end_scope ops g (body g (ps_page ops g s1) s1))"

definition BTree_Get :: "'s page_store_ops \<Rightarrow> i64 \<Rightarrow> 's BTree \<Rightarrow> 's \<Rightarrow> (byte list option res \<times> 's) option" where
  "BTree_Get ops key t s =
     Option.bind (FindLeafPageId ops (root_page_id t) key s)
       (\<lambda>(r, s1).
          case r of
            Inl e \<Rightarrow> Some (Inl e, s1)
          | Inr leaf \<Rightarrow>
              Some (with_page ops leaf s1
                (\<lambda>g page s2.
                   let i = leaf_find key page
                   in if i < unat (hdr_num_slots page) then (Inr (Some (leaf_value i page)), s2) else (Inr None, s2))))"

definition BTree_Delete :: "'s page_store_ops \<Rightarrow> i64 \<Rightarrow> 's BTree \<Rightarrow> 's \<Rightarrow> (bool res \<times> 's) option" where
  "BTree_Delete ops key t s =
     Option.bind (FindLeafPageId ops (root_page_id t) key s)
       (\<lambda>(r, s1).
          case r of
            Inl e \<Rightarrow> Some (Inl e, s1)
          | Inr leaf \<Rightarrow>
              Some (with_page ops leaf s1
                (\<lambda>g page s2.
                   let i = leaf_find key page
                   in if i < unat (hdr_num_slots page) then (Inr True, ps_put ops g (leaf_remove i page) s2)
                      else (Inr False, s2))))"

text \<open>The loop over the cells of one leaf: whether a key past \<open>high\<close> was met, and the results.\<close>
fun collect_cells ::
  "page \<Rightarrow> i64 \<Rightarrow> i64 \<Rightarrow> nat list \<Rightarrow> (i64 \<times> byte list) list \<Rightarrow> bool \<times> (i64 \<times> byte list) list" where
  "collect_cells page low high [] results = (False, results)"
| "collect_cells page low high (i # is) results =
     (if sint (leaf_key i page) < sint low then collect_cells page low high is results
      else if sint (leaf_key i page) > sint high then (True, results)
      else collect_cells page low high is (results @ [(leaf_key i page, leaf_value i page)]))"

partial_function (option) range_loop ::
  "'s page_store_ops \<Rightarrow> i64 \<Rightarrow> i64 \<Rightarrow> page_id_t \<Rightarrow> (i64 \<times> byte list) list \<Rightarrow> 's
    \<Rightarrow> ((i64 \<times> byte list) list res \<times> 's) option" where
  "range_loop ops low high leaf results s =
     (if leaf = INVALID_PAGE_ID then Some (Inr results, s)
      else
        (case with_page ops leaf s
                (\<lambda>g page s1.
                   (Inr (collect_cells page low high [0..<unat (hdr_num_slots page)] results, next_leaf page), s1)) of
           (r, s2) \<Rightarrow>
             (case r of
                Inl e \<Rightarrow> Some (Inl e, s2)
              | Inr x \<Rightarrow>
                  (if fst (fst x) then Some (Inr (snd (fst x)), s2)
                   else range_loop ops low high (snd x) (snd (fst x)) s2))))"

definition RangeScan ::
  "'s page_store_ops \<Rightarrow> i64 \<Rightarrow> i64 \<Rightarrow> 's BTree \<Rightarrow> 's \<Rightarrow> ((i64 \<times> byte list) list res \<times> 's) option" where
  "RangeScan ops low high t s =
     (if sint low > sint high then Some (Inr [], s)
      else
        Option.bind (FindLeafPageId ops (root_page_id t) low s)
          (\<lambda>(r, s1). case r of Inl e \<Rightarrow> Some (Inl e, s1) | Inr leaf \<Rightarrow> range_loop ops low high leaf [] s1))"

section \<open>Constructors\<close>

text \<open>
  The single-table constructor. In the fresh case neither guard is checked; the locals are
  destroyed in reverse order, the root before the metadata page.
\<close>
definition BTree_create :: "'s page_store_ops \<Rightarrow> 's \<Rightarrow> 's BTree res \<times> 's" where
  "BTree_create ops s =
     (case ps_new ops s of
        (Inl e, s1) \<Rightarrow> (Inl e, s1)
      | (Inr None, s1) \<Rightarrow> (Inl (UndefinedBehaviour ''null page''), s1)
      | (Inr (Some mg), s1) \<Rightarrow>
          end_scope ops mg
            (let s2 = ps_put ops mg (set_page_type (page_type_code METADATA) (ps_page ops mg s1)) s1
             in case ps_new ops s2 of
                  (Inl e, s3) \<Rightarrow> (Inl e, s3)
                | (Inr None, s3) \<Rightarrow> (Inl (UndefinedBehaviour ''null page''), s3)
                | (Inr (Some rg), s3) \<Rightarrow>
                    (let s4 = ps_put ops rg (init_leaf (ps_page ops rg s3)) s3;
                         s5 = ps_put ops mg (set_meta_root_page_id (g_page_id rg) (ps_page ops mg s4)) s4
                     in end_scope ops rg
                          (Inr \<lparr>metadata_page_id = g_page_id mg, catalog_managed = False, on_root_changed = None,
                                root_page_id = g_page_id rg\<rparr>, s5))))"

definition BTree_new :: "'s page_store_ops \<Rightarrow> 's \<Rightarrow> 's BTree res \<times> 's" where
  "BTree_new ops s =
     (if ps_count ops s = 0 then BTree_create ops s
      else
        (case ps_fetch ops 0 s of
           (Inl e, s1) \<Rightarrow> (Inl e, s1)
         | (Inr None, s1) \<Rightarrow> (Inl (RuntimeError ''BTree: could not read metadata page''), s1)
         | (Inr (Some g), s1) \<Rightarrow>
             end_scope ops g
               (Inr \<lparr>metadata_page_id = 0, catalog_managed = False, on_root_changed = None,
                     root_page_id = meta_root_page_id (ps_page ops g s1)\<rparr>, s1)))"

text \<open>The catalog-managed constructor.\<close>
definition BTree_attach :: "page_id_t \<Rightarrow> (page_id_t \<Rightarrow> 's \<Rightarrow> unit res \<times> 's) option \<Rightarrow> 's BTree res" where
  "BTree_attach root f =
     (case f of
        None \<Rightarrow> Inl (InvalidArgument ''BTree: catalog-managed constructor requires a non-empty on_root_changed callback'')
      | Some _ \<Rightarrow> Inr \<lparr>metadata_page_id = 0, catalog_managed = True, on_root_changed = f, root_page_id = root\<rparr>)"

end
