(* ===== verification/Btree_Tree.thy ===== *)
theory Btree_Tree
  imports Btree_Node
begin

text \<open>
  The abstract B+-tree behind the pages: a tree that carries the page id of every node, its
  entries in key order, its well-formedness (height, key ranges, fan-out), how a view of the pages
  represents it, and the chain of its leaves. Keys are compared as signed 64-bit integers.
\<close>

section \<open>Entries sorted by key\<close>

type_synonym entry = "i64 \<times> byte list"

abbreviation skey :: "i64 \<times> 'v \<Rightarrow> int" where
  "skey e \<equiv> sint (fst e)"

definition sorted_entries :: "(i64 \<times> 'v) list \<Rightarrow> bool" where
  "sorted_entries es \<longleftrightarrow> sorted_wrt (<) (map skey es)"

text \<open>Insertion, or replacement of the value, and removal, on the sorted list.\<close>
definition upd_entry :: "i64 \<Rightarrow> 'v \<Rightarrow> (i64 \<times> 'v) list \<Rightarrow> (i64 \<times> 'v) list" where
  "upd_entry k v es = takeWhile (\<lambda>e. skey e < sint k) es @ (k, v) # dropWhile (\<lambda>e. skey e \<le> sint k) es"

definition del_entry :: "i64 \<Rightarrow> (i64 \<times> 'v) list \<Rightarrow> (i64 \<times> 'v) list" where
  "del_entry k es = filter (\<lambda>e. fst e \<noteq> k) es"

lemma sint_eq: "sint (a :: i64) = sint b \<longleftrightarrow> a = b"
  by (auto intro: signed_word_eqI)

lemma sorted_entries_append:
  "sorted_entries (xs @ ys) \<longleftrightarrow> sorted_entries xs \<and> sorted_entries ys \<and> (\<forall>x \<in> set xs. \<forall>y \<in> set ys. skey x < skey y)"
  by (simp add: sorted_entries_def sorted_wrt_append)

lemma sorted_entries_Cons:
  "sorted_entries (x # xs) \<longleftrightarrow> sorted_entries xs \<and> (\<forall>y \<in> set xs. skey x < skey y)"
  by (auto simp: sorted_entries_def)

lemma sorted_entries_Nil [simp]: "sorted_entries []"
  by (simp add: sorted_entries_def)

lemma upd_entry_left: "\<forall>x \<in> set xs. skey x < sint k \<Longrightarrow> upd_entry k v (xs @ ys) = xs @ upd_entry k v ys"
  by (simp add: upd_entry_def takeWhile_append2 dropWhile_append2 order_less_imp_le)

lemma while_append_not:
  assumes "\<forall>y \<in> set ys. \<not> P y"
  shows "takeWhile P (xs @ ys) = takeWhile P xs" "dropWhile P (xs @ ys) = dropWhile P xs @ ys"
proof -
  have "takeWhile P ys = []" "dropWhile P ys = ys" using assms by (cases ys; simp)+
  then show "takeWhile P (xs @ ys) = takeWhile P xs" "dropWhile P (xs @ ys) = dropWhile P xs @ ys"
    by (induction xs) simp_all
qed

lemma upd_entry_right:
  assumes "\<forall>y \<in> set ys. sint k < skey y"
  shows "upd_entry k v (xs @ ys) = upd_entry k v xs @ ys"
proof -
  have "\<forall>y \<in> set ys. \<not> skey y < sint k" "\<forall>y \<in> set ys. \<not> skey y \<le> sint k" using assms by auto
  then show ?thesis by (simp add: upd_entry_def while_append_not)
qed

lemma upd_entry_split:
  assumes "\<forall>x \<in> set xs. skey x < sint k" "\<forall>y \<in> set ys. sint k < skey y"
  shows "upd_entry k v (xs @ ys) = xs @ (k, v) # ys"
  using upd_entry_left [OF assms(1), of v ys] upd_entry_right [OF assms(2), of v "[]"]
  by (simp add: upd_entry_def)

lemma upd_entry_sorted: "sorted_entries es \<Longrightarrow> sorted_entries (upd_entry k v es)"
proof (induction es)
  case Nil
  then show ?case by (simp add: upd_entry_def sorted_entries_Cons)
next
  case (Cons e es)
  consider "skey e < sint k" | "skey e = sint k" | "sint k < skey e" by linarith
  then show ?case
  proof cases
    case 1
    have eq: "upd_entry k v (e # es) = e # upd_entry k v es" using upd_entry_left [of "[e]" k v es] 1 by simp
    have "set (upd_entry k v es) \<subseteq> insert (k, v) (set es)"
      by (auto simp: upd_entry_def dest: set_takeWhileD set_dropWhileD)
    then show ?thesis using Cons 1 unfolding eq by (auto simp: sorted_entries_Cons)
  next
    case 2
    have "\<forall>y \<in> set es. sint k < skey y" using Cons.prems 2 by (simp add: sorted_entries_Cons)
    then have "upd_entry k v (e # es) = (k, v) # es"
      using 2 upd_entry_right [of es k v "[e]"] by (simp add: upd_entry_def)
    then show ?thesis using Cons.prems 2 by (simp add: sorted_entries_Cons)
  next
    case 3
    then have "\<forall>y \<in> set (e # es). sint k < skey y" using Cons.prems by (auto simp: sorted_entries_Cons)
    then have "upd_entry k v (e # es) = (k, v) # e # es"
      using upd_entry_right [of "e # es" k v "[]"] by (simp add: upd_entry_def)
    then show ?thesis using Cons.prems 3 by (auto simp: sorted_entries_Cons)
  qed
qed

lemma map_of_upd_entry:
  assumes "sorted_entries es"
  shows "map_of (upd_entry k v es) = (map_of es)(k \<mapsto> v)"
  using assms
proof (induction es)
  case Nil
  then show ?case by (simp add: upd_entry_def)
next
  case (Cons e es)
  consider "skey e < sint k" | "skey e = sint k" | "sint k < skey e" by linarith
  then show ?case
  proof cases
    case 1
    have eq: "upd_entry k v (e # es) = e # upd_entry k v es" using upd_entry_left [of "[e]" k v es] 1 by simp
    have "fst e \<noteq> k" using 1 by auto
    then show ?thesis using Cons unfolding eq by (auto simp: sorted_entries_Cons fun_upd_twist)
  next
    case 2
    then have "fst e = k" by (simp add: sint_eq)
    moreover have "\<forall>y \<in> set es. sint k < skey y" using Cons.prems 2 by (simp add: sorted_entries_Cons)
    then have "upd_entry k v (e # es) = (k, v) # es"
      using 2 upd_entry_right [of es k v "[e]"] by (simp add: upd_entry_def)
    ultimately show ?thesis by (simp add: fun_eq_iff)
  next
    case 3
    then have "\<forall>y \<in> set (e # es). sint k < skey y" using Cons.prems by (auto simp: sorted_entries_Cons)
    then have "upd_entry k v (e # es) = (k, v) # e # es"
      using upd_entry_right [of "e # es" k v "[]"] by (simp add: upd_entry_def)
    then show ?thesis by (cases e) (simp add: fun_eq_iff)
  qed
qed

lemma map_of_del_entry: "map_of (del_entry k es) = (map_of es)(k := None)"
proof (induction es)
  case (Cons e es)
  then show ?case by (cases e) (auto simp: del_entry_def fun_upd_twist)
qed (simp add: del_entry_def)

lemma del_entry_append [simp]: "del_entry k (xs @ ys) = del_entry k xs @ del_entry k ys"
  by (simp add: del_entry_def)

lemma del_entry_absent: "\<forall>e \<in> set es. fst e \<noteq> k \<Longrightarrow> del_entry k es = es"
  by (simp add: del_entry_def)

lemma sorted_entries_distinct: "sorted_entries es \<Longrightarrow> distinct (map fst es)"
  by (induction es) (auto simp: sorted_entries_Cons)

text \<open>The leaf edits, on the list.\<close>

lemma upd_entry_replace:
  assumes "sorted_entries es" "idx = length (takeWhile (\<lambda>e. skey e < sint k) es)" "idx < length es" "fst (es ! idx) = k"
  shows "es[idx := (fst (es ! idx), v)] = upd_entry k v es"
proof -
  let ?xs = "take idx es" and ?ys = "drop (Suc idx) es"
  have es: "es = ?xs @ es ! idx # ?ys" using assms(3) by (simp add: id_take_nth_drop)
  have xs: "?xs = takeWhile (\<lambda>e. skey e < sint k) es" using assms(2) by (metis takeWhile_eq_take)
  then have lt: "\<forall>x \<in> set ?xs. skey x < sint k" by (metis set_takeWhileD)
  have "\<forall>y \<in> set ?ys. sint k < skey y"
    using assms(1,4) es sorted_entries_append [of ?xs "es ! idx # ?ys"] by (simp add: sorted_entries_Cons)
  then have "upd_entry k v (?xs @ [es ! idx] @ ?ys) = ?xs @ [(k, v)] @ ?ys"
    using lt assms(4) upd_entry_right [of ?ys k v "[es ! idx]"]
    by (simp only: upd_entry_left append.assoc) (simp add: upd_entry_def)
  moreover have "es[idx := (fst (es ! idx), v)] = ?xs @ [(k, v)] @ ?ys"
    using assms(3,4) by (simp add: upd_conv_take_nth_drop)
  ultimately show ?thesis using es by simp
qed

lemma upd_entry_insert:
  assumes "sorted_entries es" "idx = length (takeWhile (\<lambda>e. skey e < sint k) es)" "\<not> (idx < length es \<and> fst (es ! idx) = k)"
  shows "take idx es @ (k, v) # drop idx es = upd_entry k v es"
proof -
  let ?xs = "take idx es" and ?ys = "drop idx es"
  have xs: "?xs = takeWhile (\<lambda>e. skey e < sint k) es" using assms(2) by (metis takeWhile_eq_take)
  then have lt: "\<forall>x \<in> set ?xs. skey x < sint k" by (metis set_takeWhileD)
  have gt: "\<forall>y \<in> set ?ys. sint k < skey y"
  proof (cases "idx < length es")
    case True
    then have ys: "?ys = es ! idx # drop (Suc idx) es" by (simp add: Cons_nth_drop_Suc)
    have "\<not> skey (es ! idx) < sint k" using True assms(2) nth_length_takeWhile [of "\<lambda>e. skey e < sint k" es] by blast
    moreover have "skey (es ! idx) \<noteq> sint k" using assms(3) True by (simp add: sint_eq)
    moreover have "sorted_entries ?ys"
      using assms(1) sorted_entries_append [of ?xs ?ys] by simp
    ultimately show ?thesis unfolding ys by (auto simp: sorted_entries_Cons)
  qed simp
  show ?thesis using upd_entry_split [OF lt gt] by simp
qed

section \<open>Trees\<close>

datatype btree = BLeaf page_id_t "entry list" | BNode page_id_t "i64 list" "btree list"

fun root_id :: "btree \<Rightarrow> page_id_t" where
  "root_id (BLeaf i es) = i"
| "root_id (BNode i ks ts) = i"

fun ids :: "btree \<Rightarrow> page_id_t list" where
  "ids (BLeaf i es) = [i]"
| "ids (BNode i ks ts) = i # concat (map ids ts)"

fun leaf_ids :: "btree \<Rightarrow> page_id_t list" where
  "leaf_ids (BLeaf i es) = [i]"
| "leaf_ids (BNode i ks ts) = concat (map leaf_ids ts)"

fun entries :: "btree \<Rightarrow> entry list" where
  "entries (BLeaf i es) = es"
| "entries (BNode i ks ts) = concat (map entries ts)"

text \<open>
  Separators cut the key range \<open>[lo, hi)\<close>: each child satisfies \<open>P\<close> on its part.
\<close>
fun seps :: "(int \<Rightarrow> int \<Rightarrow> 'a \<Rightarrow> bool) \<Rightarrow> int \<Rightarrow> int \<Rightarrow> i64 list \<Rightarrow> 'a list \<Rightarrow> bool" where
  "seps P lo hi [] [t] \<longleftrightarrow> P lo hi t"
| "seps P lo hi (k # ks) (t # ts) \<longleftrightarrow> lo < sint k \<and> sint k < hi \<and> P lo (sint k) t \<and> seps P (sint k) hi ks ts"
| "seps P lo hi _ _ \<longleftrightarrow> False"

text \<open>
  All leaves at the same depth \<open>n\<close>, every key in the range its ancestors give it, sorted leaves,
  at most \<open>LEAF_MAX_KEYS\<close> entries, one to \<open>INTERNAL_MAX_KEYS\<close> separators.
\<close>
fun wf_tree :: "nat \<Rightarrow> int \<Rightarrow> int \<Rightarrow> btree \<Rightarrow> bool" where
  "wf_tree 0 lo hi (BLeaf i es) \<longleftrightarrow> sorted_entries es \<and> (\<forall>e \<in> set es. lo \<le> skey e \<and> skey e < hi) \<and> length es \<le> LEAF_MAX_KEYS"
| "wf_tree (Suc n) lo hi (BNode i ks ts) \<longleftrightarrow> ks \<noteq> [] \<and> length ks \<le> INTERNAL_MAX_KEYS \<and> seps (wf_tree n) lo hi ks ts"
| "wf_tree _ lo hi _ \<longleftrightarrow> False"

lemma wf_tree_0E: "wf_tree 0 lo hi t \<Longrightarrow> \<exists>i es. t = BLeaf i es"
  by (cases t) simp_all

lemma wf_tree_SucE: "wf_tree (Suc n) lo hi t \<Longrightarrow> \<exists>i ks ts. t = BNode i ks ts"
  by (cases t) simp_all

lemma seps_length: "seps P lo hi ks ts \<Longrightarrow> length ts = Suc (length ks)"
  by (induction P lo hi ks ts rule: seps.induct) simp_all

lemma seps_Cons: "seps P lo hi (k # ks) ts \<longleftrightarrow>
    (\<exists>t ts'. ts = t # ts' \<and> lo < sint k \<and> sint k < hi \<and> P lo (sint k) t \<and> seps P (sint k) hi ks ts')"
  by (cases ts) auto

lemma seps_Nil: "seps P lo hi [] ts \<longleftrightarrow> (\<exists>t. ts = [t] \<and> P lo hi t)"
  by (cases "(P, lo, hi, [] :: i64 list, ts)" rule: seps.cases) auto

lemma seps_append:
  assumes "length ts1 = Suc (length ks1)"
  shows "seps P lo hi (ks1 @ k # ks2) (ts1 @ ts2) \<longleftrightarrow>
    seps P lo (sint k) ks1 ts1 \<and> seps P (sint k) hi ks2 ts2 \<and> lo < sint k \<and> sint k < hi"
  using assms
proof (induction ks1 arbitrary: lo ts1)
  case Nil
  then show ?case by (cases ts1) (auto simp: seps_Nil)
next
  case (Cons a as)
  then obtain t ts where "ts1 = t # ts" "length ts = Suc (length as)" by (cases ts1) auto
  then show ?case using Cons.IH [of ts "sint a"] by auto
qed

lemma seps_bounds: "seps P lo hi ks ts \<Longrightarrow> t \<in> set ts \<Longrightarrow> \<exists>a b. P a b t \<and> lo \<le> a \<and> b \<le> hi"
proof (induction ks arbitrary: lo ts)
  case Nil
  then have "P lo hi t" by (auto simp: seps_Nil)
  then show ?case by blast
next
  case (Cons k ks)
  then obtain t0 ts' where ts: "ts = t0 # ts'" "lo < sint k" "sint k < hi" "P lo (sint k) t0" "seps P (sint k) hi ks ts'"
    by (auto simp: seps_Cons)
  then show ?case
  proof (cases "t \<in> set ts'")
    case True
    then show ?thesis using Cons.IH [OF ts(5)] ts by force
  next
    case False
    then show ?thesis using Cons.prems(2) ts by force
  qed
qed

text \<open>The child a search descends into, and what may be put in its place.\<close>

lemma seps_find:
  assumes "seps P lo hi ks ts" "lo \<le> x" "x < hi"
  obtains ks1 ks2 ts1 t ts2 lo' hi' where
    "ks = ks1 @ ks2" "ts = ts1 @ t # ts2" "length ks1 = length (takeWhile (\<lambda>k. sint k \<le> x) ks)"
    "length ts1 = length ks1" "P lo' hi' t" "lo' \<le> x" "x < hi'" "lo \<le> lo'" "hi' \<le> hi"
    "\<And>uks uts. seps P lo' hi' uks uts \<Longrightarrow> seps P lo hi (ks1 @ uks @ ks2) (ts1 @ uts @ ts2)"
    "\<And>t1. t1 \<in> set ts1 \<Longrightarrow> \<exists>a b. P a b t1 \<and> b \<le> lo'" "\<And>t2. t2 \<in> set ts2 \<Longrightarrow> \<exists>a b. P a b t2 \<and> hi' \<le> a"
  using assms
proof (induction ks arbitrary: lo ts thesis)
  case Nil
  then obtain t where t: "ts = [t]" "P lo hi t" by (auto simp: seps_Nil)
  show ?case by (rule Nil.prems(1) [of "[]" "[]" "[]" t "[]" lo hi]) (use Nil.prems t in auto)
next
  case (Cons k ks)
  then obtain t0 ts' where ts: "ts = t0 # ts'" "lo < sint k" "sint k < hi" "P lo (sint k) t0" "seps P (sint k) hi ks ts'"
    by (auto simp: seps_Cons)
  show ?case
  proof (cases "sint k \<le> x")
    case True
    obtain ks1 ks2 ts1 t ts2 lo' hi' where IH:
      "ks = ks1 @ ks2" "ts' = ts1 @ t # ts2" "length ks1 = length (takeWhile (\<lambda>k. sint k \<le> x) ks)"
      "length ts1 = length ks1" "P lo' hi' t" "lo' \<le> x" "x < hi'" "sint k \<le> lo'" "hi' \<le> hi"
      "\<And>uks uts. seps P lo' hi' uks uts \<Longrightarrow> seps P (sint k) hi (ks1 @ uks @ ks2) (ts1 @ uts @ ts2)"
      "\<And>t1. t1 \<in> set ts1 \<Longrightarrow> \<exists>a b. P a b t1 \<and> b \<le> lo'" "\<And>t2. t2 \<in> set ts2 \<Longrightarrow> \<exists>a b. P a b t2 \<and> hi' \<le> a"
      using Cons.IH [OF _ ts(5) True Cons.prems(4)] by metis
    show ?thesis
    proof (rule Cons.prems(1) [of "k # ks1" ks2 "t0 # ts1" t ts2 lo' hi'])
      show "\<exists>a b. P a b t1 \<and> b \<le> lo'" if "t1 \<in> set (t0 # ts1)" for t1
        using that IH(8,11) ts(4) by (cases "t1 = t0") auto
    qed (use IH ts True in auto)
  next
    case False
    show ?thesis
    proof (rule Cons.prems(1) [of "[]" "k # ks" "[]" t0 ts' lo "sint k"])
      show "seps P lo hi ([] @ uks @ k # ks) ([] @ uts @ ts')" if "seps P lo (sint k) uks uts" for uks uts
        using that ts seps_append [OF seps_length [OF that]] by simp
      show "\<exists>a b. P a b t2 \<and> sint k \<le> a" if "t2 \<in> set ts'" for t2
        using seps_bounds [OF ts(5) that] by blast
    qed (use ts False Cons.prems in auto)
  qed
qed

lemma wf_tree_entries: "wf_tree n lo hi t \<Longrightarrow> e \<in> set (entries t) \<Longrightarrow> lo \<le> skey e \<and> skey e < hi"
proof (induction n arbitrary: lo hi t)
  case 0
  then show ?case by (cases t) simp_all
next
  case (Suc n)
  then obtain i ks ts where t: "t = BNode i ks ts" using wf_tree_SucE by blast
  then obtain c where c: "c \<in> set ts" "e \<in> set (entries c)" using Suc.prems(2) by auto
  have "seps (wf_tree n) lo hi ks ts" using Suc.prems(1) t by simp
  from seps_bounds [OF this c(1)] obtain a b where "wf_tree n a b c" "lo \<le> a" "b \<le> hi" by auto
  then show ?case using Suc.IH [of a b c] c(2) by linarith
qed

lemma seps_sorted:
  assumes "seps P lo hi ks ts"
    and "\<And>a b t. P a b t \<Longrightarrow> sorted_entries (entries t) \<and> (\<forall>e \<in> set (entries t). a \<le> skey e \<and> skey e < b)"
  shows "sorted_entries (concat (map entries ts)) \<and> (\<forall>e \<in> set (concat (map entries ts)). lo \<le> skey e \<and> skey e < hi)"
  using assms(1)
proof (induction ks arbitrary: lo ts)
  case Nil
  then obtain t where "ts = [t]" "P lo hi t" by (auto simp: seps_Nil)
  then show ?case using assms(2) by simp
next
  case (Cons k ks)
  then obtain t0 ts' where ts: "ts = t0 # ts'" "lo < sint k" "sint k < hi" "P lo (sint k) t0" "seps P (sint k) hi ks ts'"
    by (auto simp: seps_Cons)
  have "sorted_entries (entries t0)" "\<forall>e \<in> set (entries t0). lo \<le> skey e \<and> skey e < sint k"
    using assms(2) [OF ts(4)] by blast+
  moreover have "sorted_entries (concat (map entries ts'))"
    "\<forall>e \<in> set (concat (map entries ts')). sint k \<le> skey e \<and> skey e < hi" using Cons.IH [OF ts(5)] by blast+
  ultimately have "sorted_entries (entries t0 @ concat (map entries ts'))
      \<and> (\<forall>e \<in> set (entries t0 @ concat (map entries ts')). lo \<le> skey e \<and> skey e < hi)"
    using ts(2,3) unfolding sorted_entries_append set_append by (meson UnE order_less_le_trans order_less_trans order_less_imp_le order_trans)
  then show ?case using ts(1) by simp
qed

lemma wf_tree_sorted: "wf_tree n lo hi t \<Longrightarrow> sorted_entries (entries t)"
proof (induction n arbitrary: lo hi t)
  case 0
  then show ?case by (cases t) simp_all
next
  case (Suc n)
  then obtain i ks ts where t: "t = BNode i ks ts" using wf_tree_SucE by blast
  then have "seps (wf_tree n) lo hi ks ts" using Suc.prems by simp
  then have "sorted_entries (concat (map entries ts))"
    by (rule seps_sorted [THEN conjunct1]) (use Suc.IH wf_tree_entries in blast)
  then show ?case using t by simp
qed

lemma leaf_ids_not_Nil: "wf_tree n lo hi t \<Longrightarrow> leaf_ids t \<noteq> []"
proof (induction n arbitrary: lo hi t)
  case 0
  then show ?case by (cases t) simp_all
next
  case (Suc n)
  then obtain i ks ts where t: "t = BNode i ks ts" "seps (wf_tree n) lo hi ks ts" by (cases t) auto
  then obtain c cs where "ts = c # cs" using seps_length [OF t(2)] by (cases ts) auto
  then show ?case using t seps_bounds [OF t(2), of c] Suc.IH by auto
qed

lemma leaf_ids_subset: "set (leaf_ids t) \<subseteq> set (ids t)"
  by (induction t) auto

lemma root_id_in_ids [simp]: "root_id t \<in> set (ids t)"
  by (cases t) simp_all

section \<open>Pages that represent a tree\<close>

fun rep :: "(page_id_t \<Rightarrow> page option) \<Rightarrow> btree \<Rightarrow> bool" where
  "rep V (BLeaf i es) \<longleftrightarrow> (\<exists>p. V i = Some p \<and> leaf_node p es)"
| "rep V (BNode i ks ts) \<longleftrightarrow> (\<exists>p. V i = Some p \<and> internal_node p ks (map root_id ts)) \<and> (\<forall>t \<in> set ts. rep V t)"

text \<open>Every leaf points to the next one, the last to \<open>z\<close>.\<close>
fun chain :: "(page_id_t \<Rightarrow> page option) \<Rightarrow> page_id_t list \<Rightarrow> page_id_t \<Rightarrow> bool" where
  "chain V [] z \<longleftrightarrow> True"
| "chain V (i # is) z \<longleftrightarrow> (\<exists>p. V i = Some p \<and> next_leaf p = hd (is @ [z])) \<and> chain V is z"

lemma rep_frame: "rep V t \<Longrightarrow> (\<And>j. j \<in> set (ids t) \<Longrightarrow> V' j = V j) \<Longrightarrow> rep V' t"
  by (induction t) auto

lemma chain_append: "chain V (xs @ ys) z \<longleftrightarrow> chain V xs (hd (ys @ [z])) \<and> chain V ys z"
proof (induction xs)
  case (Cons x xs)
  then show ?case by (cases xs) auto
qed simp

lemma chain_frame: "chain V is z \<Longrightarrow> (\<And>j. j \<in> set is \<Longrightarrow> V' j = V j) \<Longrightarrow> chain V' is z"
  by (induction "is") auto

lemma rep_ids_in_view: "rep V t \<Longrightarrow> j \<in> set (ids t) \<Longrightarrow> V j \<noteq> None"
  by (induction t) auto

end
