(* ===== verification/Btree_Scopes.thy ===== *)
theory Btree_Scopes
  imports Btree Btree_Tree Pool_Contract
begin

text \<open>
  What a block of code with a guard does to the page store, on top of the contract: a block keeps
  the pins and the guards of its caller (\<open>ext\<close>), and closing the scope of a fetched or a new page
  after such a block is such a block again.
\<close>

context page_store
begin

text \<open>A step of a client that leaves pins and guards as they were and uses up at most \<open>k\<close> of the room.\<close>
definition ext :: "nat \<Rightarrow> 's \<Rightarrow> 's \<Rightarrow> bool" where
  "ext k s s' \<longleftrightarrow> inv s' \<and> pins s' = pins s \<and> cap s' = cap s \<and> room s \<le> room s' + k
     \<and> (\<forall>h. guard_ok s h \<longrightarrow> guard_ok s' h)"

definition npins :: "'s \<Rightarrow> nat" where
  "npins s = card {j. 0 < pins s j}"

lemma ext_refl: "inv s \<Longrightarrow> ext k s s"
  by (simp add: ext_def)

lemma ext_trans: "ext a s s1 \<Longrightarrow> ext b s1 s2 \<Longrightarrow> ext (a + b) s s2"
  by (auto simp: ext_def)

lemma ext_mono: "ext a s s' \<Longrightarrow> a \<le> b \<Longrightarrow> ext b s s'"
  by (auto simp: ext_def)

lemma ext_npins: "ext k s s' \<Longrightarrow> npins s' = npins s"
  by (simp add: ext_def npins_def)

lemma ext_put:
  assumes "inv s" "guard_ok s g" "wf_page p"
  shows "ext 0 s (ps_put ops g p s)" "view (ps_put ops g p s) = (view s)(g_page_id g \<mapsto> content p)"
    "ps_page ops g (ps_put ops g p s) = p"
  using put_ok [OF assms] by (simp_all add: ext_def)

lemma guard_page_view:
  assumes "inv s" "guard_ok s g"
  shows "wf_page (ps_page ops g s)" "view s (g_page_id g) = Some (content (ps_page ops g s))"
  using guard_view [OF assms] by simp_all

lemma npins_pin:
  assumes "pins s' = (pins s)(i := Suc k)"
  shows "npins s' \<le> Suc (npins s)"
proof -
  have "{j. 0 < pins s' j} \<subseteq> insert i {j. 0 < pins s j}" using assms by auto
  moreover have "{j. 0 < pins s j} - {i} \<subseteq> {j. 0 < pins s' j}" using assms by auto
  ultimately show ?thesis unfolding npins_def
    by (cases "finite {j. 0 < pins s j}")
      (auto dest: card_mono [rotated] finite_subset simp: card_insert_if split: if_splits)
qed

text \<open>A fetched page: its contents, and the end of its scope.\<close>

lemma fetch_scope:
  assumes "inv s" "view s i = Some c" "npins s < cap s"
  obtains g s1 where "ps_fetch ops i s = (Inr (Some g), s1)" "g_page_id g = i" "guard_ok s1 g" "inv s1"
    "view s1 = view s" "content (ps_page ops g s1) = c" "wf_page (ps_page ops g s1)" "cap s1 = cap s" "room s1 = room s"
    "npins s1 \<le> Suc (npins s)" "\<And>h. guard_ok s h \<Longrightarrow> guard_ok s1 h"
    "\<And>k x s2. ext k s1 s2 \<Longrightarrow> 0 < room s2 \<Longrightarrow>
       \<exists>s3. end_scope ops g (x :: 'a res, s2) = (x, s3) \<and> ext (Suc k) s s3 \<and> view s3 = view s2"
proof -
  obtain g s1 where f: "ps_fetch ops i s = (Inr (Some g), s1)" "inv s1" "g_page_id g = i" "guard_ok s1 g"
    "view s1 = view s" "pins s1 = (pins s)(i := Suc (pins s i))" "cap s1 = cap s" "room s1 = room s"
    "\<And>h. guard_ok s h \<Longrightarrow> guard_ok s1 h"
    using fetch_ok [OF assms(1,2)] assms(3) unfolding npins_def by metis
  have close: "\<exists>s3. end_scope ops g (x :: 'a res, s2) = (x, s3) \<and> ext (Suc k) s s3 \<and> view s3 = view s2"
    if e: "ext k s1 s2" "0 < room s2" for k x s2
  proof -
    have s2: "inv s2" "guard_ok s2 g" "pins s2 = pins s1" "cap s2 = cap s1" "room s1 \<le> room s2 + k"
      "\<And>h. guard_ok s1 h \<Longrightarrow> guard_ok s2 h" using e(1) f(4) by (simp_all add: ext_def)
    obtain s3 where r: "ps_release ops g s2 = (Inr (), s3)" "inv s3" "view s3 = view s2"
      "pins s3 = (pins s2)(i := pins s2 i - 1)" "cap s3 = cap s2" "room s2 \<le> Suc (room s3)"
      "\<And>h. guard_ok s2 h \<Longrightarrow> g_page_id h \<noteq> i \<or> 1 < pins s2 i \<Longrightarrow> guard_ok s3 h"
      using release_ok [OF s2(1,2) e(2)] f(3) by metis
    have "pins s3 = pins s" using r(4) s2(3) f(6) by auto
    moreover have "guard_ok s3 h" if "guard_ok s h" for h
    proof (rule r(7) [OF s2(6) [OF f(9) [OF that]]])
      show "g_page_id h \<noteq> i \<or> 1 < pins s2 i"
        using guard_pins [OF assms(1) that] f(6) s2(3) by auto
    qed
    ultimately have "ext (Suc k) s s3" using r s2 f(7,8) by (auto simp: ext_def)
    then show ?thesis using r by (simp add: end_scope_def)
  qed
  have w: "wf_page (ps_page ops g s1)" "content (ps_page ops g s1) = c"
    using guard_page_view [OF f(2,4)] f(3,5) assms(2) by simp_all
  show ?thesis by (rule that [OF f(1,3,4,2,5) w(2,1) f(7,8) npins_pin [OF f(6)] f(9) close])
qed

text \<open>A new page.\<close>

lemma new_scope:
  assumes "inv s" "0 < room s" "npins s < cap s"
  obtains g s1 i where "ps_new ops s = (Inr (Some g), s1)" "g_page_id g = i" "guard_ok s1 g" "inv s1"
    "unat i = ps_count ops s" "view s i = None" "i \<noteq> INVALID_PAGE_ID"
    "ps_page ops g s1 = set_page_id i zero_page" "view s1 = (view s)(i \<mapsto> content (set_page_id i zero_page))"
    "cap s1 = cap s" "room s \<le> Suc (room s1)" "npins s1 \<le> Suc (npins s)" "\<And>h. guard_ok s h \<Longrightarrow> guard_ok s1 h"
    "\<And>k x s2. ext k s1 s2 \<Longrightarrow> 0 < room s2 \<Longrightarrow>
       \<exists>s3. end_scope ops g (x :: 'a res, s2) = (x, s3) \<and> ext (k + 2) s s3 \<and> view s3 = view s2"
proof -
  obtain g s1 i where f: "ps_new ops s = (Inr (Some g), s1)" "inv s1" "g_page_id g = i" "guard_ok s1 g"
    "unat i = ps_count ops s" "view s i = None" "i \<noteq> INVALID_PAGE_ID" "ps_page ops g s1 = set_page_id i zero_page"
    "view s1 = (view s)(i \<mapsto> content (set_page_id i zero_page))" "pins s i = 0" "pins s1 = (pins s)(i := 1)"
    "cap s1 = cap s" "room s \<le> Suc (room s1)" "\<And>h. guard_ok s h \<Longrightarrow> guard_ok s1 h"
    using new_ok [OF assms(1,2)] assms(3) unfolding npins_def by metis
  have close: "\<exists>s3. end_scope ops g (x :: 'a res, s2) = (x, s3) \<and> ext (k + 2) s s3 \<and> view s3 = view s2"
    if e: "ext k s1 s2" "0 < room s2" for k x s2
  proof -
    have s2: "inv s2" "guard_ok s2 g" "pins s2 = pins s1" "cap s2 = cap s1" "room s1 \<le> room s2 + k"
      "\<And>h. guard_ok s1 h \<Longrightarrow> guard_ok s2 h" using e(1) f(4) by (simp_all add: ext_def)
    obtain s3 where r: "ps_release ops g s2 = (Inr (), s3)" "inv s3" "view s3 = view s2"
      "pins s3 = (pins s2)(i := pins s2 i - 1)" "cap s3 = cap s2" "room s2 \<le> Suc (room s3)"
      "\<And>h. guard_ok s2 h \<Longrightarrow> g_page_id h \<noteq> i \<or> 1 < pins s2 i \<Longrightarrow> guard_ok s3 h"
      using release_ok [OF s2(1,2) e(2)] f(3) by metis
    have "pins s3 = pins s" using r(4) s2(3) f(10,11) by auto
    moreover have "guard_ok s3 h" if "guard_ok s h" for h
    proof (rule r(7) [OF s2(6) [OF f(14) [OF that]]])
      show "g_page_id h \<noteq> i \<or> 1 < pins s2 i"
        using guard_pins [OF assms(1) that] f(10) by auto
    qed
    ultimately have "ext (k + 2) s s3" using r s2 f(12,13) by (auto simp: ext_def)
    then show ?thesis using r by (simp add: end_scope_def)
  qed
  show ?thesis by (rule that [OF f(1,3,4,2,5-9,12,13) _ f(14) close]) (use npins_pin [of s1 s i 0] f(11) in auto)
qed

end

end
