(* ===== verification/Btree_Forest.thy ===== *)
theory Btree_Forest
  imports Btree_Scopes
begin

text \<open>
  Runs of neighbouring subtrees of the same height with the separators between them, and what
  happens to the whole when one subtree is replaced by one or two, as an insert does.
\<close>

primrec all_ids :: "btree list \<Rightarrow> page_id_t list" where
  "all_ids [] = []"
| "all_ids (t # ts) = ids t @ all_ids ts"

primrec all_leaves :: "btree list \<Rightarrow> page_id_t list" where
  "all_leaves [] = []"
| "all_leaves (t # ts) = leaf_ids t @ all_leaves ts"

primrec all_entries :: "btree list \<Rightarrow> entry list" where
  "all_entries [] = []"
| "all_entries (t # ts) = entries t @ all_entries ts"

lemma all_append [simp]:
  "all_ids (ts @ us) = all_ids ts @ all_ids us" "all_leaves (ts @ us) = all_leaves ts @ all_leaves us"
  "all_entries (ts @ us) = all_entries ts @ all_entries us"
  by (induction ts) simp_all

lemma concat_all:
  "concat (map ids ts) = all_ids ts" "concat (map leaf_ids ts) = all_leaves ts" "concat (map entries ts) = all_entries ts"
  by (induction ts) simp_all

lemma BNode_all [simp]:
  "ids (BNode i ks ts) = i # all_ids ts" "leaf_ids (BNode i ks ts) = all_leaves ts" "entries (BNode i ks ts) = all_entries ts"
  by (simp_all add: concat_all)

declare ids.simps(2) [simp del] leaf_ids.simps(2) [simp del] entries.simps(2) [simp del]

lemma set_all:
  "set (all_ids ts) = (\<Union>t \<in> set ts. set (ids t))" "set (all_leaves ts) = (\<Union>t \<in> set ts. set (leaf_ids t))"
  "set (all_entries ts) = (\<Union>t \<in> set ts. set (entries t))"
  by (induction ts) simp_all

text \<open>Trees of height \<open>n\<close> that partition \<open>[lo, hi)\<close>, are stored in \<open>V\<close> without sharing a page, and
  whose leaves are chained up to \<open>z\<close>.\<close>
definition forest :: "nat \<Rightarrow> int \<Rightarrow> int \<Rightarrow> page_id_t \<Rightarrow> (page_id_t \<Rightarrow> page option) \<Rightarrow> i64 list \<Rightarrow> btree list \<Rightarrow> bool" where
  "forest n lo hi z V ks ts \<longleftrightarrow> seps (wf_tree n) lo hi ks ts \<and> (\<forall>t \<in> set ts. rep V t)
     \<and> chain V (all_leaves ts) z \<and> distinct (all_ids ts) \<and> INVALID_PAGE_ID \<notin> set (all_ids ts)"

text \<open>Pages \<open>old\<close> became \<open>new\<close>: only those and newly allocated pages differ.\<close>
definition evolves :: "(page_id_t \<Rightarrow> page option) \<Rightarrow> (page_id_t \<Rightarrow> page option) \<Rightarrow> page_id_t list \<Rightarrow> page_id_t list \<Rightarrow> bool" where
  "evolves V V' old new \<longleftrightarrow> set old \<subseteq> set new \<and> (\<forall>j \<in> set new - set old. V j = None)
     \<and> (\<forall>j. j \<notin> set old \<longrightarrow> V j \<noteq> None \<longrightarrow> V' j = V j)"

lemma evolves_refl [simp]: "evolves V V xs xs"
  by (simp add: evolves_def)

lemma evolves_append:
  assumes "evolves V V' old new"
  shows "evolves V V' (xs @ old @ ys) (xs @ new @ ys)"
proof -
  have "V j = None" if "j \<in> set (xs @ new @ ys) - set (xs @ old @ ys)" for j
  proof -
    have "j \<in> set new - set old" using that by auto
    then show ?thesis using assms unfolding evolves_def by blast
  qed
  moreover have "V' j = V j" if "j \<notin> set (xs @ old @ ys)" "V j \<noteq> None" for j
    using that assms by (simp add: evolves_def)
  ultimately show ?thesis using assms unfolding evolves_def by (metis Un_mono set_append subset_refl)
qed

lemma forestD:
  assumes "forest n lo hi z V ks ts"
  shows "seps (wf_tree n) lo hi ks ts" "\<And>t. t \<in> set ts \<Longrightarrow> rep V t" "chain V (all_leaves ts) z"
    "distinct (all_ids ts)" "INVALID_PAGE_ID \<notin> set (all_ids ts)"
  using assms by (simp_all add: forest_def)

lemma forest_tree: "forest n lo hi z V ks ts \<Longrightarrow> t \<in> set ts \<Longrightarrow> \<exists>a b. wf_tree n a b t \<and> lo \<le> a \<and> b \<le> hi"
  by (rule seps_bounds [OF forestD(1)])

lemma forest_leaves:
  assumes "forest n lo hi z V ks ts"
  shows "all_leaves ts \<noteq> []" "t \<in> set ts \<Longrightarrow> leaf_ids t \<noteq> []"
proof -
  show nil: "leaf_ids t \<noteq> []" if "t \<in> set ts" for t using forest_tree [OF assms that] leaf_ids_not_Nil by auto
  obtain c cs where "ts = c # cs" using seps_length [OF forestD(1) [OF assms]] by (cases ts) auto
  then show "all_leaves ts \<noteq> []" using nil by simp
qed

lemma all_leaves_subset: "set (all_leaves ts) \<subseteq> set (all_ids ts)"
  using leaf_ids_subset by (auto simp: set_all)

lemma forest_in_view: "forest n lo hi z V ks ts \<Longrightarrow> j \<in> set (all_ids ts) \<Longrightarrow> V j \<noteq> None"
  using forestD(2) rep_ids_in_view by (fastforce simp: set_all)

lemma forest_frame:
  assumes "forest n lo hi z V ks ts" "\<And>j. j \<in> set (all_ids ts) \<Longrightarrow> V' j = V j"
  shows "forest n lo hi z V' ks ts"
proof -
  have "rep V' t" if "t \<in> set ts" for t
    by (rule rep_frame [OF forestD(2) [OF assms(1) that]]) (use that assms(2) in \<open>auto simp: set_all\<close>)
  moreover have "chain V' (all_leaves ts) z"
    by (rule chain_frame [OF forestD(3) [OF assms(1)]]) (use assms(2) all_leaves_subset in blast)
  ultimately show ?thesis using assms(1) by (simp add: forest_def)
qed

text \<open>Replacing the subtree a search descends into.\<close>

lemma forest_replace:
  assumes f: "forest n lo hi z V ks (ts1 @ t # ts2)"
    and u: "forest n lo' hi' (hd (all_leaves ts2 @ [z])) V' uks uts"
    and e: "evolves V V' (ids t) (all_ids uts)"
    and first: "hd (all_leaves uts) = hd (leaf_ids t)"
    and s: "seps (wf_tree n) lo hi ks' (ts1 @ uts @ ts2)"
  shows "forest n lo hi z V' ks' (ts1 @ uts @ ts2)"
    "evolves V V' (all_ids (ts1 @ t # ts2)) (all_ids (ts1 @ uts @ ts2))"
    "hd (all_leaves (ts1 @ uts @ ts2)) = hd (all_leaves (ts1 @ t # ts2))"
proof -
  note F = forestD [OF f] and U = forestD [OF u]
  have other: "V' j = V j" "j \<notin> set (all_ids uts)" if "j \<in> set (all_ids ts1) \<union> set (all_ids ts2)" for j
  proof -
    have j: "j \<notin> set (ids t)" "V j \<noteq> None" using that F(4) forest_in_view [OF f, of j] by auto
    then show "V' j = V j" using e by (simp add: evolves_def)
    show "j \<notin> set (all_ids uts)" using e j unfolding evolves_def by (metis DiffI)
  qed
  have nil: "all_leaves uts \<noteq> []" "leaf_ids t \<noteq> []" using forest_leaves [OF u] forest_leaves(2) [OF f] by simp_all
  show "hd (all_leaves (ts1 @ uts @ ts2)) = hd (all_leaves (ts1 @ t # ts2))"
    using nil first by (cases "all_leaves ts1") (simp_all add: hd_append)
  have ch: "chain V (all_leaves ts1) (hd (leaf_ids t))" "chain V (all_leaves ts2) z"
    using F(3) nil by (simp_all add: chain_append hd_append)
  have "chain V' (all_leaves ts1) (hd (leaf_ids t))" "chain V' (all_leaves ts2) z"
    by (rule chain_frame [OF ch(1)], use other(1) all_leaves_subset in blast,
        rule chain_frame [OF ch(2)], use other(1) all_leaves_subset in blast)
  then have "chain V' (all_leaves (ts1 @ uts @ ts2)) z"
    using U(3) nil first by (simp add: chain_append hd_append)
  moreover have "rep V' x" if "x \<in> set ts1 \<union> set ts2" for x
  proof (rule rep_frame [of V])
    show "rep V x" using F(2) that by auto
    show "V' j = V j" if "j \<in> set (ids x)" for j
      using that \<open>x \<in> set ts1 \<union> set ts2\<close> by (intro other) (auto simp: set_all)
  qed
  moreover have "distinct (all_ids (ts1 @ uts @ ts2))" "INVALID_PAGE_ID \<notin> set (all_ids (ts1 @ uts @ ts2))"
    using F(4,5) U(4,5) other(2) by auto
  ultimately show "forest n lo hi z V' ks' (ts1 @ uts @ ts2)"
    using U(2) s by (auto simp: forest_def)
  show "evolves V V' (all_ids (ts1 @ t # ts2)) (all_ids (ts1 @ uts @ ts2))"
    using evolves_append [OF e, of "all_ids ts1" "all_ids ts2"] by simp
qed

text \<open>Where a new entry goes.\<close>

lemma entries_replace:
  assumes "\<And>t1. t1 \<in> set ts1 \<Longrightarrow> \<exists>a b. wf_tree n a b t1 \<and> b \<le> lo'" "\<And>t2. t2 \<in> set ts2 \<Longrightarrow> \<exists>a b. wf_tree n a b t2 \<and> hi' \<le> a"
    and "lo' \<le> sint k" "sint k < hi'" "all_entries uts = upd_entry k v (entries t)"
  shows "all_entries (ts1 @ uts @ ts2) = upd_entry k v (all_entries (ts1 @ t # ts2))"
proof -
  have "skey x < sint k" if x: "x \<in> set (all_entries ts1)" for x
  proof -
    obtain t1 where t1: "t1 \<in> set ts1" "x \<in> set (entries t1)" using x by (auto simp: set_all)
    then show ?thesis using assms(1) [OF t1(1)] assms(3) wf_tree_entries by (meson order_less_le_trans order_trans)
  qed
  moreover have "sint k < skey x" if x: "x \<in> set (all_entries ts2)" for x
  proof -
    obtain t2 where t2: "t2 \<in> set ts2" "x \<in> set (entries t2)" using x by (auto simp: set_all)
    then show ?thesis using assms(2) [OF t2(1)] assms(4) wf_tree_entries by (meson order_less_le_trans)
  qed
  ultimately show ?thesis using assms(5) by (simp add: upd_entry_left upd_entry_right)
qed

text \<open>A node over a forest, and a node split in two.\<close>

lemma forest_node:
  assumes "forest n lo hi z V ks ts" "ks \<noteq> []" "length ks \<le> INTERNAL_MAX_KEYS"
    and "V i = Some p" "internal_node p ks (map root_id ts)" "i \<notin> set (all_ids ts)" "i \<noteq> INVALID_PAGE_ID"
  shows "forest (Suc n) lo hi z V [] [BNode i ks ts]"
  using assms by (auto simp: forest_def)

lemma forest_append:
  assumes "forest n lo hi z V (ks1 @ k # ks2) (ts1 @ ts2)" "length ts1 = Suc (length ks1)"
  shows "forest n lo (sint k) (hd (all_leaves ts2)) V ks1 ts1" "forest n (sint k) hi z V ks2 ts2"
    "lo < sint k" "sint k < hi"
proof -
  note F = forestD [OF assms(1)]
  have s: "seps (wf_tree n) lo (sint k) ks1 ts1" "seps (wf_tree n) (sint k) hi ks2 ts2" "lo < sint k" "sint k < hi"
    using F(1) seps_append [OF assms(2)] by auto
  then show "lo < sint k" "sint k < hi" by simp_all
  have f2: "forest n (sint k) hi z V ks2 ts2"
    using s(2) F(2-5) by (auto simp: forest_def chain_append)
  then show "forest n (sint k) hi z V ks2 ts2" .
  show "forest n lo (sint k) (hd (all_leaves ts2)) V ks1 ts1"
    using s(1) F(2-5) forest_leaves(1) [OF f2] by (auto simp: forest_def chain_append hd_append)
qed

lemma forest_join:
  assumes "forest n lo (sint k) z1 V [] [t1]" "forest n (sint k) hi z V [] [t2]" "z1 = hd (leaf_ids t2)"
    "lo < sint k" "sint k < hi" "set (ids t1) \<inter> set (ids t2) = {}"
  shows "forest n lo hi z V [k] [t1, t2]"
  using assms(3-6) forestD [OF assms(1)] forestD [OF assms(2)] forest_leaves [OF assms(2)]
  by (auto simp: forest_def chain_append hd_append)

end
