(* ===== verification/Btree_Insertion.thy ===== *)
theory Btree_Insertion
  imports Btree_Forest
begin

text \<open>
  Correctness of \<open>InsertRecursive\<close> over any page store: it returns, the pages represent the old
  tree with the entry inserted or replaced, split in two at most, and no other page changed.
\<close>

text \<open>What an insert made of a subtree: one tree or two with a separator, as \<open>r\<close> reports it.\<close>
definition inserted ::
  "i64 \<Rightarrow> byte list \<Rightarrow> (page_id_t \<Rightarrow> page option) \<Rightarrow> (page_id_t \<Rightarrow> page option) \<Rightarrow> btree
    \<Rightarrow> SplitResult option \<Rightarrow> i64 list \<Rightarrow> btree list \<Rightarrow> bool" where
  "inserted key v V V' t r uks uts \<longleftrightarrow>
     length uks \<le> 1
     \<and> r = (case uks of [] \<Rightarrow> None | k # _ \<Rightarrow> Some \<lparr>promoted_key = k, new_right_page_id = root_id (uts ! 1)\<rparr>)
     \<and> all_entries uts = upd_entry key v (entries t) \<and> root_id (hd uts) = root_id t
     \<and> hd (all_leaves uts) = hd (leaf_ids t) \<and> evolves V V' (ids t) (all_ids uts)"

lemma length_upd_entry: "length (upd_entry k v es) \<le> Suc (length es)"
proof -
  have "length (takeWhile P xs) + length (dropWhile Q xs) \<le> length xs" if "\<And>x. P x \<Longrightarrow> Q x" for P Q and xs :: "'b list"
    using that by (induction xs) (auto intro: le_SucI length_dropWhile_le)
  from this [of "\<lambda>e. skey e < sint k" "\<lambda>e. skey e \<le> sint k" es] show ?thesis by (simp add: upd_entry_def)
qed

lemma forest_leaf:
  assumes "sorted_entries es" "\<forall>e \<in> set es. lo \<le> skey e \<and> skey e < hi" "length es \<le> LEAF_MAX_KEYS"
    and "V i = Some p" "leaf_node p es" "next_leaf p = z" "i \<noteq> INVALID_PAGE_ID"
  shows "forest 0 lo hi z V [] [BLeaf i es]"
  using assms by (auto simp: forest_def)

lemma forest_single: "forest n lo hi z V [] [t] \<Longrightarrow> wf_tree n lo hi t"
  by (simp add: forest_def)

lemma forest_leafD:
  assumes "forest 0 lo hi z V [] [BLeaf i es]"
  shows "sorted_entries es" "\<forall>e \<in> set es. lo \<le> skey e \<and> skey e < hi" "length es \<le> LEAF_MAX_KEYS"
    "\<exists>p. V i = Some p \<and> leaf_node p es \<and> next_leaf p = z" "i \<noteq> INVALID_PAGE_ID"
  using assms by (auto simp: forest_def)

lemma upd_entry_bounds:
  assumes "\<forall>e \<in> set es. lo \<le> skey e \<and> skey e < hi" "lo \<le> sint k" "sint k < hi"
  shows "\<forall>e \<in> set (upd_entry k v es). lo \<le> skey e \<and> skey e < hi"
  using assms by (auto simp: upd_entry_def dest: set_takeWhileD set_dropWhileD)

text \<open>A leaf with one entry too many, cut in the middle.\<close>

lemma forest_split_leaf:
  assumes "sorted_entries es" "\<forall>e \<in> set es. lo \<le> skey e \<and> skey e < hi" "length es = Suc LEAF_MAX_KEYS"
    and "V i = Some L" "leaf_node L (take 2 es)" "next_leaf L = j" "i \<noteq> INVALID_PAGE_ID"
    and "V j = Some R" "leaf_node R (drop 2 es)" "next_leaf R = z" "j \<noteq> INVALID_PAGE_ID" "i \<noteq> j"
  shows "forest 0 lo hi z V [fst (es ! 2)] [BLeaf i (take 2 es), BLeaf j (drop 2 es)]"
proof -
  let ?k = "fst (es ! 2)"
  have len: "length es = 5" using assms(3) by (simp add: LEAF_MAX_KEYS_def)
  have drop2: "drop 2 es = es ! 2 # drop 3 es" using len Cons_nth_drop_Suc [of 2 es] by simp
  have "sorted_entries (take 2 es @ drop 2 es)" using assms(1) by simp
  then have s: "sorted_entries (take 2 es)" "sorted_entries (drop 2 es)"
    "\<forall>x \<in> set (take 2 es). skey x < sint ?k" "\<forall>y \<in> set (drop 2 es). sint ?k \<le> skey y"
    unfolding sorted_entries_append drop2 by (auto simp: sorted_entries_Cons)
  have sub: "set (take 2 es) \<subseteq> set es" "set (drop 2 es) \<subseteq> set es" by (rule set_take_subset, rule set_drop_subset)
  have "es ! 0 \<in> set (take 2 es)" using len by (cases es) auto
  then have lo: "lo < sint ?k" using s(3) assms(2) sub by force
  have hi: "sint ?k < hi" using assms(2) len nth_mem [of 2 es] by simp
  have "forest 0 lo (sint ?k) j V [] [BLeaf i (take 2 es)]"
    by (rule forest_leaf [where V = V, OF s(1) _ _ assms(4-7)]) (use s(3) assms(2) sub in \<open>auto simp: LEAF_MAX_KEYS_def\<close>)
  moreover have "forest 0 (sint ?k) hi z V [] [BLeaf j (drop 2 es)]"
    by (rule forest_leaf [where V = V, OF s(2) _ _ assms(8-11)]) (use s(4) assms(2) sub len in \<open>auto simp: LEAF_MAX_KEYS_def\<close>)
  ultimately show ?thesis by (rule forest_join) (use lo hi assms(12) in auto)
qed

text \<open>An internal node with one separator too many.\<close>

lemma forest_split_internal:
  assumes "forest n lo hi z V ks ts" "length ks = Suc INTERNAL_MAX_KEYS"
    and "V i = Some L" "internal_node L (take 2 ks) (map root_id (take 3 ts))" "i \<notin> set (all_ids ts)" "i \<noteq> INVALID_PAGE_ID"
    and "V j = Some R" "internal_node R (drop 3 ks) (map root_id (drop 3 ts))" "j \<notin> set (all_ids ts)" "j \<noteq> INVALID_PAGE_ID"
    and "i \<noteq> j"
  shows "forest (Suc n) lo hi z V [ks ! 2] [BNode i (take 2 ks) (take 3 ts), BNode j (drop 3 ks) (drop 3 ts)]"
proof -
  have len: "length ks = 5" "length ts = 6"
    using assms(2) seps_length [OF forestD(1) [OF assms(1)]] by (simp_all add: INTERNAL_MAX_KEYS_def)
  have "ks = take 2 ks @ ks ! 2 # drop 3 ks" using len id_take_nth_drop [of 2 ks] by simp
  then have f: "forest n lo hi z V (take 2 ks @ ks ! 2 # drop 3 ks) (take 3 ts @ drop 3 ts)" using assms(1) by simp
  note s = forest_append [OF f]
  have ids: "set (all_ids (take 3 ts)) \<inter> set (all_ids (drop 3 ts)) = {}" "set (all_ids ts) = set (all_ids (take 3 ts)) \<union> set (all_ids (drop 3 ts))"
    using forestD(4) [OF f] all_append(1) [of "take 3 ts" "drop 3 ts"] by auto
  have ne: "take 2 ks \<noteq> []" "drop 3 ks \<noteq> []" using len by auto
  have "forest (Suc n) lo (sint (ks ! 2)) (hd (all_leaves (drop 3 ts))) V [] [BNode i (take 2 ks) (take 3 ts)]"
    by (rule forest_node [where V = V, OF s(1) ne(1) _ assms(3,4)]) (use len ids assms(5,6) in \<open>auto simp: INTERNAL_MAX_KEYS_def\<close>)
  moreover have "forest (Suc n) (sint (ks ! 2)) hi z V [] [BNode j (drop 3 ks) (drop 3 ts)]"
    by (rule forest_node [where V = V, OF s(2) ne(2) _ assms(7,8)]) (use len ids assms(9,10) in \<open>auto simp: INTERNAL_MAX_KEYS_def\<close>)
  ultimately show ?thesis
    by (rule forest_join) (use s(3,4) len ids assms(5,9,11) in auto)
qed

lemma evolves_trans:
  assumes "evolves V V1 a b" "evolves V1 V2 b c"
  shows "evolves V V2 a c"
proof -
  have "V j = None" if "j \<in> set c - set a" for j
  proof (cases "j \<in> set b")
    case True
    then show ?thesis using that assms(1) by (auto simp: evolves_def)
  next
    case False
    then have "V1 j = None" using that assms(2) by (auto simp: evolves_def)
    then show ?thesis using that assms(1) unfolding evolves_def by force
  qed
  moreover have "V2 j = V j" if "j \<notin> set a" "V j \<noteq> None" for j
  proof -
    have "V1 j = V j" "j \<notin> set b" using that assms(1) unfolding evolves_def by auto
    then show ?thesis using that(2) assms(2) unfolding evolves_def by metis
  qed
  moreover have "set a \<subseteq> set c" using assms unfolding evolves_def by (meson subset_trans)
  ultimately show ?thesis unfolding evolves_def by blast
qed

context page_store
begin

text \<open>The common part of both splits: allocate the right page, rewrite both, log the right one.\<close>

lemma split_scope:
  assumes "inv s" "guard_ok s g" "npins s < cap s" "1 < room s"
  obtains rg s1 j where "ps_new ops s = (Inr (Some rg), s1)" "g_page_id rg = j" "wf_page (ps_page ops rg s1)"
    "view s j = None" "j \<noteq> INVALID_PAGE_ID" "j \<noteq> g_page_id g" "wf_page (ps_page ops g s1)"
    "content (ps_page ops g s1) = content (ps_page ops g s)"
    "\<And>L R (x :: 'b res). wf_page L \<Longrightarrow> wf_page R \<Longrightarrow> \<exists>s4. end_scope ops rg (x, ps_put ops rg R (ps_put ops g L s1)) = (x, s4)
       \<and> ext 2 s s4 \<and> view s4 = (view s)(g_page_id g \<mapsto> content L, j \<mapsto> content R)"
proof -
  have "0 < room s" using assms(4) by simp
  then obtain rg s1 j where n: "ps_new ops s = (Inr (Some rg), s1)" "g_page_id rg = j" "guard_ok s1 rg" "inv s1"
    "view s j = None" "j \<noteq> INVALID_PAGE_ID" "ps_page ops rg s1 = set_page_id j zero_page"
    "view s1 = (view s)(j \<mapsto> content (set_page_id j zero_page))" "room s \<le> Suc (room s1)"
    "\<And>h. guard_ok s h \<Longrightarrow> guard_ok s1 h"
    "\<And>k (x :: 'b res) s2. ext k s1 s2 \<Longrightarrow> 0 < room s2 \<Longrightarrow>
       \<exists>s3. end_scope ops rg (x, s2) = (x, s3) \<and> ext (k + 2) s s3 \<and> view s3 = view s2"
    using new_scope [OF assms(1) _ assms(3), where 'a = 'b] by metis
  let ?i = "g_page_id g"
  note v0 = guard_page_view [OF assms(1,2)]
  have g1: "guard_ok s1 g" by (rule n(10) [OF assms(2)])
  note v1 = guard_page_view [OF n(4) g1]
  have ij: "j \<noteq> ?i" using n(5) v0(2) by auto
  have same: "content (ps_page ops g s1) = content (ps_page ops g s)" using ij v0(2) v1(2) n(8) by simp
  have puts: "\<exists>s4. end_scope ops rg (x :: 'b res, ps_put ops rg R (ps_put ops g L s1)) = (x, s4)
       \<and> ext 2 s s4 \<and> view s4 = (view s)(?i \<mapsto> content L, j \<mapsto> content R)" if wfs: "wf_page L" "wf_page R" for L R x
  proof -
    let ?s2 = "ps_put ops g L s1" let ?s3 = "ps_put ops rg R ?s2"
    note p2 = ext_put [OF n(4) g1 wfs(1)]
    have i2: "inv ?s2" "guard_ok ?s2 rg" using p2(1) n(3) by (simp_all add: ext_def)
    note p3 = ext_put [OF i2 wfs(2)]
    have e3: "ext 0 s1 ?s3" using ext_trans [OF p2(1) p3(1)] by simp
    then have "0 < room ?s3" using n(9) assms(4) by (simp add: ext_def)
    from n(11) [OF e3 this] obtain s4 where s4: "end_scope ops rg (x, ?s3) = (x, s4)" "ext 2 s s4" "view s4 = view ?s3"
      unfolding add_0 by blast
    moreover have "view s4 = (view s)(?i \<mapsto> content L, j \<mapsto> content R)"
      using s4(3) p3(2) p2(2) n(2,8) ij by (simp add: fun_upd_twist)
    ultimately show ?thesis by blast
  qed
  show ?thesis by (rule that [OF n(1,2) _ n(5,6) ij v1(1) same puts]) (use n(7) in simp_all)
qed

lemma split_leaf_ok:
  assumes "inv s" "guard_ok s g" "leaf_node (ps_page ops g s) es" "LEAF_MAX_KEYS < length es" "npins s < cap s" "1 < room s"
  defines "h \<equiv> length es div 2"
  obtains s' j L R where
    "SplitLeafIfNeeded ops g s = (Inr (Some \<lparr>promoted_key = fst (es ! h), new_right_page_id = j\<rparr>), s')" "ext 2 s s'"
    "view s j = None" "j \<noteq> INVALID_PAGE_ID" "j \<noteq> g_page_id g" "view s' = (view s)(g_page_id g \<mapsto> L, j \<mapsto> R)"
    "leaf_node L (take h es)" "next_leaf L = j" "leaf_node R (drop h es)" "next_leaf R = next_leaf (ps_page ops g s)"
proof -
  have slots: "\<not> unat (hdr_num_slots (ps_page ops g s)) \<le> LEAF_MAX_KEYS" using assms(3,4) by (simp add: leaf_node_def)
  obtain rg s1 j where n: "ps_new ops s = (Inr (Some rg), s1)" "g_page_id rg = j" "wf_page (ps_page ops rg s1)"
    "view s j = None" "j \<noteq> INVALID_PAGE_ID" "j \<noteq> g_page_id g" "wf_page (ps_page ops g s1)"
    "content (ps_page ops g s1) = content (ps_page ops g s)"
    "\<And>L R (x :: SplitResult option res). wf_page L \<Longrightarrow> wf_page R \<Longrightarrow>
       \<exists>s4. end_scope ops rg (x, ps_put ops rg R (ps_put ops g L s1)) = (x, s4)
       \<and> ext 2 s s4 \<and> view s4 = (view s)(g_page_id g \<mapsto> content L, j \<mapsto> content R)"
    using split_scope [OF assms(1,2,5,6), where 'b = "SplitResult option"] by metis
  let ?left = "ps_page ops g s1"
  have left: "leaf_node ?left es" "next_leaf ?left = next_leaf (ps_page ops g s)"
    using n(7,8) assms(3) leaf_node_content fields_content(3) guard_page_view(1) [OF assms(1,2)] by metis+
  let ?R = "split_leaf_right ?left (ps_page ops rg s1)" and ?L = "split_leaf_left j ?left"
  have R: "leaf_node ?R (drop h es)" "next_leaf ?R = next_leaf ?left"
    using split_leaf_right_node [OF left(1) n(3)] by (simp_all add: h_def)
  have L: "leaf_node ?L (take h es)" "next_leaf ?L = j" using split_leaf_left_node [OF left(1)] by (simp_all add: h_def)
  have wfs: "wf_page ?L" "wf_page ?R" using L(1) R(1) by (simp_all add: leaf_node_def)
  obtain s4 where s4: "end_scope ops rg (Inr (Some \<lparr>promoted_key = leaf_key 0 ?R, new_right_page_id = j\<rparr>),
        ps_put ops rg ?R (ps_put ops g ?L s1)) = (Inr (Some \<lparr>promoted_key = leaf_key 0 ?R, new_right_page_id = j\<rparr>), s4)"
    "ext 2 s s4" "view s4 = (view s)(g_page_id g \<mapsto> content ?L, j \<mapsto> content ?R)" using n(9) [OF wfs] by blast
  have "leaf_key 0 ?R = fst (es ! h)" using leaf_node_read(1) [OF R(1), of 0] assms(4) by (simp add: h_def)
  then have res: "SplitLeafIfNeeded ops g s = (Inr (Some \<lparr>promoted_key = fst (es ! h), new_right_page_id = j\<rparr>), s4)"
    using slots n(1,2) s4(1) by (simp add: SplitLeafIfNeeded_def Let_def)
  show ?thesis by (rule that [OF res s4(2) n(4-6) s4(3)]) (use L R left(2) wfs in simp_all)
qed

lemma split_internal_ok:
  assumes "inv s" "guard_ok s g" "internal_node (ps_page ops g s) ks cs" "INTERNAL_MAX_KEYS < length ks"
    "npins s < cap s" "1 < room s"
  defines "h \<equiv> length ks div 2"
  obtains s' j L R where
    "SplitInternalIfNeeded ops g s = (Inr (Some \<lparr>promoted_key = ks ! h, new_right_page_id = j\<rparr>), s')" "ext 2 s s'"
    "view s j = None" "j \<noteq> INVALID_PAGE_ID" "j \<noteq> g_page_id g" "view s' = (view s)(g_page_id g \<mapsto> L, j \<mapsto> R)"
    "internal_node L (take h ks) (take (Suc h) cs)" "internal_node R (drop (Suc h) ks) (drop (Suc h) cs)"
proof -
  have num: "unat (hdr_num_slots (ps_page ops g s)) = length ks" using assms(3) by (simp add: internal_node_def)
  then have slots: "\<not> unat (hdr_num_slots (ps_page ops g s)) \<le> INTERNAL_MAX_KEYS" using assms(4) by simp
  obtain rg s1 j where n: "ps_new ops s = (Inr (Some rg), s1)" "g_page_id rg = j" "wf_page (ps_page ops rg s1)"
    "view s j = None" "j \<noteq> INVALID_PAGE_ID" "j \<noteq> g_page_id g" "wf_page (ps_page ops g s1)"
    "content (ps_page ops g s1) = content (ps_page ops g s)"
    "\<And>L R (x :: SplitResult option res). wf_page L \<Longrightarrow> wf_page R \<Longrightarrow>
       \<exists>s4. end_scope ops rg (x, ps_put ops rg R (ps_put ops g L s1)) = (x, s4)
       \<and> ext 2 s s4 \<and> view s4 = (view s)(g_page_id g \<mapsto> content L, j \<mapsto> content R)"
    using split_scope [OF assms(1,2,5,6), where 'b = "SplitResult option"] by metis
  let ?left = "ps_page ops g s1"
  have left: "internal_node ?left ks cs" using n(8) assms(3) internal_node_content by metis
  then have num1: "unat (hdr_num_slots ?left) = length ks" by (simp add: internal_node_def)
  let ?R = "split_internal_right ?left (ps_page ops rg s1)" and ?L = "split_internal_left ?left"
  have "0 < length ks" using assms(4) by linarith
  then have R: "internal_node ?R (drop (Suc h) ks) (drop (Suc h) cs)" "internal_key h ?left = ks ! h"
    using split_internal_right_node [OF left n(3)] by (simp_all add: h_def)
  have L: "internal_node ?L (take h ks) (take (Suc h) cs)" using split_internal_left_node [OF left] by (simp add: h_def)
  have wfs: "wf_page ?L" "wf_page ?R" using L(1) R(1) by (simp_all add: internal_node_def)
  obtain s4 where s4: "end_scope ops rg (Inr (Some \<lparr>promoted_key = ks ! h, new_right_page_id = j\<rparr>),
        ps_put ops rg ?R (ps_put ops g ?L s1)) = (Inr (Some \<lparr>promoted_key = ks ! h, new_right_page_id = j\<rparr>), s4)"
    "ext 2 s s4" "view s4 = (view s)(g_page_id g \<mapsto> content ?L, j \<mapsto> content ?R)" using n(9) [OF wfs] by blast
  have res: "SplitInternalIfNeeded ops g s = (Inr (Some \<lparr>promoted_key = ks ! h, new_right_page_id = j\<rparr>), s4)"
    using slots n(1,2) s4(1) R(2) num1 by (simp add: SplitInternalIfNeeded_def Let_def h_def)
  show ?thesis by (rule that [OF res s4(2) n(4-6) s4(3)]) (use L R in simp_all)
qed

lemma insert_leaf_ok:
  assumes "inv s" "guard_ok s g" "g_page_id g = i" "forest 0 lo hi z (view s) [] [BLeaf i es]"
    and "lo \<le> sint key" "sint key < hi" "length v \<le> VALUE_SIZE" "npins s < cap s" "1 < room s"
  shows "\<exists>r s' uks uts. insert_leaf ops g key v s = (Inr r, s') \<and> ext 2 s s'
    \<and> forest 0 lo hi z (view s') uks uts \<and> inserted key v (view s) (view s') (BLeaf i es) r uks uts"
proof -
  let ?p = "ps_page ops g s" and ?es = "upd_entry key v es"
  let ?idx = "length (takeWhile (\<lambda>e. skey e < sint key) es)"
  note F = forest_leafD [OF assms(4)]
  have p: "wf_page ?p" "view s i = Some (content ?p)" using guard_page_view [OF assms(1,2)] assms(3) by simp_all
  then have node: "leaf_node ?p es" "next_leaf ?p = z" using F(4) by auto
  have pos: "leaf_position key ?p = ?idx" by (rule leaf_position_node [OF node(1)])
  have num: "unat (hdr_num_slots ?p) = length es" using node(1) by (simp add: leaf_node_def)
  have len: "?idx \<le> length es" "length es < 29"
    using F(3) by (simp add: length_takeWhile_le, simp add: LEAF_MAX_KEYS_def)
  have sorted: "sorted_entries ?es" "\<forall>e \<in> set ?es. lo \<le> skey e \<and> skey e < hi"
    by (rule upd_entry_sorted [OF F(1)], rule upd_entry_bounds [OF F(2) assms(5,6)])
  define stay where "stay = (?idx < length es \<and> fst (es ! ?idx) = key)"
  define p' where "p' = (if stay then leaf_set_value ?idx v ?p else leaf_insert ?idx key v ?p)"
  define s1 where "s1 = ps_put ops g p' s"
  have p': "leaf_node p' ?es \<and> next_leaf p' = z"
  proof (cases stay)
    case True
    then have at: "?idx < length es" "fst (es ! ?idx) = key" by (simp_all add: stay_def)
    show ?thesis
      using leaf_set_value_node [OF node(1) at(1) assms(7)] upd_entry_replace [OF F(1) refl at, of v] True node(2)
      by (simp add: p'_def)
  next
    case False
    then have "take ?idx es @ (key, v) # drop ?idx es = ?es" using upd_entry_insert [OF F(1) refl] unfolding stay_def by blast
    then show ?thesis using leaf_insert_node [OF node(1) len assms(7), of key] node(2) False by (simp add: p'_def)
  qed
  then have p': "leaf_node p' ?es" "next_leaf p' = z" by simp_all
  have wf': "wf_page p'" using p'(1) by (simp add: leaf_node_def)
  note P = ext_put [OF assms(1,2) wf', folded s1_def]
  have V1: "view s1 = (view s)(i \<mapsto> content p')" using P(2) assms(3) by simp
  have key_at: "leaf_key ?idx ?p = fst (es ! ?idx)" if "?idx < length es" by (rule leaf_node_read(1) [OF node(1) that])
  show ?thesis
  proof (cases "length ?es \<le> LEAF_MAX_KEYS")
    case True
    have "insert_leaf ops g key v s = (Inr None, s1)"
      using True p'(1) P(3) pos num key_at
      unfolding insert_leaf_def Let_def s1_def p'_def stay_def
      by (auto simp: SplitLeafIfNeeded_def leaf_node_def)
    moreover have "forest 0 lo hi z (view s1) [] [BLeaf i ?es]"
      by (rule forest_leaf [where V = "view s1" and p = "content p'", OF sorted True]) (use V1 p' F(5) wf' in auto)
    moreover have "inserted key v (view s) (view s1) (BLeaf i es) None [] [BLeaf i ?es]"
      using V1 by (simp add: inserted_def evolves_def)
    moreover have "ext 2 s s1" using ext_mono [OF P(1)] by simp
    ultimately show ?thesis by blast
  next
    case False
    have "stay \<Longrightarrow> length ?es = length es" using upd_entry_replace [OF F(1) refl, of key v] unfolding stay_def
      by (metis length_list_update)
    then have ns: "\<not> stay" using False F(3) by auto
    have l5: "length ?es = Suc LEAF_MAX_KEYS" using False F(3) length_upd_entry [of key v es] by simp
    have ins: "insert_leaf ops g key v s = SplitLeafIfNeeded ops g s1"
      using ns pos num key_at unfolding insert_leaf_def Let_def s1_def p'_def stay_def by auto
    have s1: "inv s1" "guard_ok s1 g" "npins s1 < cap s1" "1 < room s1" "leaf_node (ps_page ops g s1) ?es"
      "LEAF_MAX_KEYS < length ?es"
      using P assms(2,8,9) p'(1) l5 ext_npins [OF P(1)] by (simp_all add: ext_def)
    have h: "length ?es div 2 = 2" using l5 by (simp add: LEAF_MAX_KEYS_def)
    obtain s' j L R where S:
      "SplitLeafIfNeeded ops g s1 = (Inr (Some \<lparr>promoted_key = fst (?es ! 2), new_right_page_id = j\<rparr>), s')" "ext 2 s1 s'"
      "view s1 j = None" "j \<noteq> INVALID_PAGE_ID" "j \<noteq> i" "view s' = (view s1)(i \<mapsto> L, j \<mapsto> R)"
      "leaf_node L (take 2 ?es)" "next_leaf L = j" "leaf_node R (drop 2 ?es)" "next_leaf R = z"
      using split_leaf_ok [OF s1(1,2,5,6,3,4)] p'(2) P(3) assms(3) unfolding h by metis
    have "forest 0 lo hi z (view s') [fst (?es ! 2)] [BLeaf i (take 2 ?es), BLeaf j (drop 2 ?es)]"
      by (rule forest_split_leaf [where V = "view s'" and L = L and R = R, OF sorted l5]) (use S F(5) in auto)
    moreover have "view s j = None" using S(3,5) V1 by simp
    then have "inserted key v (view s) (view s') (BLeaf i es) (Some \<lparr>promoted_key = fst (?es ! 2), new_right_page_id = j\<rparr>)
        [fst (?es ! 2)] [BLeaf i (take 2 ?es), BLeaf j (drop 2 ?es)]"
      using S(5,6) V1 by (auto simp: inserted_def evolves_def)
    moreover have "ext 2 s s'" using ext_trans [OF P(1) S(2)] unfolding add_0 .
    ultimately show ?thesis using ins S(1) by auto
  qed
qed

text \<open>An internal node after the insert below it returned.\<close>

lemma insert_split_ok:
  assumes "inv s" "guard_ok s g" "g_page_id g = i"
    and node: "internal_node (ps_page ops g s) (ks1 @ ks2) (map root_id (ts1 @ t # ts2))"
    and len: "length ts1 = length ks1" "ks1 @ ks2 \<noteq> []" "length (ks1 @ ks2) \<le> INTERNAL_MAX_KEYS"
    and f: "forest n lo hi z (view s) (ks1 @ uks @ ks2) (ts1 @ uts @ ts2)"
    and i: "i \<notin> set (all_ids (ts1 @ uts @ ts2))" "i \<noteq> INVALID_PAGE_ID"
    and u: "length uks \<le> 1" "length uts = Suc (length uks)" "root_id (hd uts) = root_id t"
    and room: "npins s < cap s" "1 < room s"
  defines "split \<equiv> \<lambda>ks ts. case ks of [] \<Rightarrow> None | k # _ \<Rightarrow> Some \<lparr>promoted_key = k, new_right_page_id = root_id (ts ! 1)\<rparr>"
  shows "\<exists>s' vks vts. insert_split ops g (length ks1) (Inr (split uks uts), s) = (Inr (split vks vts), s') \<and> ext 2 s s'
    \<and> forest (Suc n) lo hi z (view s') vks vts \<and> length vks \<le> 1
    \<and> all_entries vts = all_entries (ts1 @ uts @ ts2) \<and> all_leaves vts = all_leaves (ts1 @ uts @ ts2)
    \<and> root_id (hd vts) = i \<and> evolves (view s) (view s') (i # all_ids (ts1 @ uts @ ts2)) (all_ids vts)"
proof (cases uks)
  case Nil
  then obtain u0 where uts: "uts = [u0]" using u(2) by (cases uts) auto
  have "view s i = Some (content (ps_page ops g s))" using guard_page_view [OF assms(1,2)] assms(3) by simp
  then have "forest (Suc n) lo hi z (view s) [] [BNode i (ks1 @ ks2) (ts1 @ uts @ ts2)]"
    by (intro forest_node [where V = "view s" and p = "content (ps_page ops g s)"]) (use f Nil len node i u(3) uts in auto)
  then show ?thesis
    using Nil ext_refl [OF assms(1)]
    by (intro exI [of _ s] exI [of _ "[]"] exI [of _ "[BNode i (ks1 @ ks2) (ts1 @ uts @ ts2)]"])
      (simp add: insert_split_def split_def)
next
  case (Cons k ks0)
  then have uks: "uks = [k]" using u(1) by simp
  then obtain u1 u2 where uts: "uts = [u1, u2]" using u(2) by (cases uts; cases "tl uts") auto
  let ?p = "ps_page ops g s" and ?ks = "ks1 @ k # ks2" and ?ts = "ts1 @ uts @ ts2"
  let ?p' = "internal_insert (length ks1) k (root_id u2) ?p"
  have lks: "length (ks1 @ ks2) < 254" "length ?ks \<le> Suc INTERNAL_MAX_KEYS" using len(3) by (simp_all add: INTERNAL_MAX_KEYS_def)
  have p': "internal_node ?p' ?ks (map root_id ?ts)"
    using internal_insert_node [OF node _ lks(1), of "length ks1" k "root_id u2"] len(1) u(3) uts by simp
  then have wf': "wf_page ?p'" by (simp add: internal_node_def)
  define s1 where "s1 = ps_put ops g ?p' s"
  note P = ext_put [OF assms(1,2) wf', folded s1_def]
  have V1: "view s1 = (view s)(i \<mapsto> content ?p')" using P(2) assms(3) by simp
  have f1: "forest n lo hi z (view s1) ?ks ?ts"
    by (rule forest_frame [where V = "view s"]) (use f uks V1 i(1) in auto)
  have ins: "insert_split ops g (length ks1) (Inr (split uks uts), s) = SplitInternalIfNeeded ops g s1"
    using uks uts by (simp add: insert_split_def split_def s1_def)
  have num: "unat (hdr_num_slots (ps_page ops g s1)) = length ?ks" using p' P(3) by (simp add: internal_node_def)
  show ?thesis
  proof (cases "length ?ks \<le> INTERNAL_MAX_KEYS")
    case True
    have "forest (Suc n) lo hi z (view s1) [] [BNode i ?ks ?ts]"
      by (rule forest_node [where V = "view s1" and p = "content ?p'", OF f1 _ True]) (use V1 p' i in auto)
    moreover have "evolves (view s) (view s1) (i # all_ids ?ts) (i # all_ids ?ts)" using V1 by (simp add: evolves_def)
    moreover have "ext 2 s s1" using ext_mono [OF P(1)] by simp
    ultimately show ?thesis
      using ins True num
      by (intro exI [of _ s1] exI [of _ "[]"] exI [of _ "[BNode i ?ks ?ts]"])
        (simp add: SplitInternalIfNeeded_def split_def)
  next
    case False
    then have l5: "length ?ks = Suc INTERNAL_MAX_KEYS" "INTERNAL_MAX_KEYS < length ?ks" using lks(2) by simp_all
    then have h: "length ?ks div 2 = 2" by (simp add: INTERNAL_MAX_KEYS_def)
    have Suc2: "Suc 2 = 3" by simp
    have s1: "inv s1" "guard_ok s1 g" "npins s1 < cap s1" "1 < room s1" "internal_node (ps_page ops g s1) ?ks (map root_id ?ts)"
      using P assms(2) room p' ext_npins [OF P(1)] by (simp_all add: ext_def)
    obtain s' j L R where S:
      "SplitInternalIfNeeded ops g s1 = (Inr (Some \<lparr>promoted_key = ?ks ! 2, new_right_page_id = j\<rparr>), s')" "ext 2 s1 s'"
      "view s1 j = None" "j \<noteq> INVALID_PAGE_ID" "j \<noteq> i" "view s' = (view s1)(i \<mapsto> L, j \<mapsto> R)"
      "internal_node L (take 2 ?ks) (map root_id (take 3 ?ts))" "internal_node R (drop 3 ?ks) (map root_id (drop 3 ?ts))"
      by (rule split_internal_ok [OF s1(1,2,5) l5(2) s1(3,4), unfolded h assms(3) take_map drop_map Suc2])
    have j: "j \<notin> set (all_ids ?ts)" using S(3) forest_in_view [OF f1] by blast
    let ?l = "BNode i (take 2 ?ks) (take 3 ?ts)" and ?r = "BNode j (drop 3 ?ks) (drop 3 ?ts)"
    have f2: "forest n lo hi z (view s') ?ks ?ts"
      by (rule forest_frame [OF f1]) (use S(6) i(1) j in auto)
    have app: "all_ids (take 3 ?ts) @ all_ids (drop 3 ?ts) = all_ids ?ts" "all_leaves (take 3 ?ts) @ all_leaves (drop 3 ?ts) = all_leaves ?ts"
      "all_entries (take 3 ?ts) @ all_entries (drop 3 ?ts) = all_entries ?ts"
      unfolding all_append [symmetric] append_take_drop_id by (rule refl)+
    have "forest (Suc n) lo hi z (view s') [?ks ! 2] [?l, ?r]"
      by (rule forest_split_internal [where V = "view s'" and L = L and R = R, OF f2 l5(1)]) (use S i j in auto)
    moreover have "view s j = None" using S(3,5) V1 by simp
    then have "evolves (view s) (view s') (i # all_ids ?ts) (all_ids [?l, ?r])"
      using S(5,6) V1 app(1) [symmetric] by (auto simp: evolves_def)
    moreover have "ext 2 s s'" using ext_trans [OF P(1) S(2)] unfolding add_0 .
    moreover have "all_entries [?l, ?r] = all_entries ?ts" "all_leaves [?l, ?r] = all_leaves ?ts" using app by simp_all
    moreover have "split [?ks ! 2] [?l, ?r] = Some \<lparr>promoted_key = ?ks ! 2, new_right_page_id = j\<rparr>" by (simp add: split_def)
    ultimately show ?thesis unfolding ins S(1)
      by (intro exI [of _ s'] exI [of _ "[?ks ! 2]"] exI [of _ "[?l, ?r]"] conjI) simp_all
  qed
qed

text \<open>
  The whole recursion. A tree of height \<open>n\<close> needs \<open>n + 2\<close> frames beyond those already pinned: one
  for every node on the path and one for a new sibling.
\<close>

lemma InsertRecursive_ok:
  assumes "inv s" "forest n lo hi z (view s) [] [t]" "lo \<le> sint key" "sint key < hi" "length v \<le> VALUE_SIZE"
    and "npins s + n + 1 < cap s" "3 * Suc n < room s"
  shows "\<exists>r s' uks uts. InsertRecursive ops (root_id t) key v s = Some (Inr r, s') \<and> ext (3 * Suc n) s s'
    \<and> forest n lo hi z (view s') uks uts \<and> inserted key v (view s) (view s') t r uks uts"
  using assms
proof (induction n arbitrary: s t lo hi z)
  case 0
  then obtain i es where t: "t = BLeaf i es" using wf_tree_0E [OF forest_single] by blast
  obtain p where p: "view s i = Some p" "leaf_node p es" using forest_leafD(4) 0(2) t by blast
  have fits: "npins s < cap s" using 0(6) by simp
  obtain g s1 where g: "ps_fetch ops i s = (Inr (Some g), s1)" "g_page_id g = i" "guard_ok s1 g" "inv s1"
    "view s1 = view s" "content (ps_page ops g s1) = p" "wf_page (ps_page ops g s1)" "cap s1 = cap s" "room s1 = room s"
    "npins s1 \<le> Suc (npins s)" "\<And>h. guard_ok s h \<Longrightarrow> guard_ok s1 h"
    "\<And>k (x :: SplitResult option res) s2. ext k s1 s2 \<Longrightarrow> 0 < room s2 \<Longrightarrow>
       \<exists>s3. end_scope ops g (x, s2) = (x, s3) \<and> ext (Suc k) s s3 \<and> view s3 = view s2"
    using fetch_scope [OF 0(1) p(1) fits, where 'a = "SplitResult option"] by metis
  have leaf: "hdr_page_type (ps_page ops g s1) = page_type_code LEAF" using p(2) g(6,7) by (auto simp: leaf_node_def)
  obtain r s2 uks uts where ins: "insert_leaf ops g key v s1 = (Inr r, s2)" "ext 2 s1 s2"
    "forest 0 lo hi z (view s2) uks uts" "inserted key v (view s1) (view s2) (BLeaf i es) r uks uts"
    using insert_leaf_ok [OF g(4,3,2) _ 0(3-5), of z es] 0(2,6,7) g(5,8-10) t by auto
  have "0 < room s2" using ins(2) g(9) 0(7) by (simp add: ext_def)
  from g(12) [OF ins(2) this] obtain s3 where s3: "end_scope ops g (Inr r, s2) = (Inr r, s3)" "ext (Suc 2) s s3" "view s3 = view s2"
    by blast
  have "InsertRecursive ops i key v s = Some (Inr r, s3)"
    using g(1) leaf ins(1) s3(1) by (subst InsertRecursive.simps) simp
  then show ?case using s3(2,3) ins(3,4) g(5) t by (auto simp: numeral_3_eq_3 numeral_2_eq_2)
next
  case (Suc n)
  then obtain i ks ts where t: "t = BNode i ks ts" using wf_tree_SucE [OF forest_single] by blast
  note F = forestD [OF Suc.prems(2), unfolded t]
  have wf: "ks \<noteq> []" "length ks \<le> INTERNAL_MAX_KEYS" "seps (wf_tree n) lo hi ks ts" using F(1) by simp_all
  obtain p where p: "view s i = Some p" "internal_node p ks (map root_id ts)" using F(2) [of "BNode i ks ts"] by auto
  have inv_i: "i \<notin> set (all_ids ts)" "i \<noteq> INVALID_PAGE_ID" using F(4,5) by auto
  have kids: "forest n lo hi z (view s) ks ts" using F wf(3) by (auto simp: forest_def)
  have fits: "npins s < cap s" using Suc.prems(6) by simp
  obtain g s1 where g: "ps_fetch ops i s = (Inr (Some g), s1)" "g_page_id g = i" "guard_ok s1 g" "inv s1"
    "view s1 = view s" "content (ps_page ops g s1) = p" "wf_page (ps_page ops g s1)" "cap s1 = cap s" "room s1 = room s"
    "npins s1 \<le> Suc (npins s)" "\<And>h. guard_ok s h \<Longrightarrow> guard_ok s1 h"
    "\<And>k (x :: SplitResult option res) s2. ext k s1 s2 \<Longrightarrow> 0 < room s2 \<Longrightarrow>
       \<exists>s3. end_scope ops g (x, s2) = (x, s3) \<and> ext (Suc k) s s3 \<and> view s3 = view s2"
    using fetch_scope [OF Suc.prems(1) p(1) fits, where 'a = "SplitResult option"] by metis
  have node: "internal_node (ps_page ops g s1) ks (map root_id ts)" using p(2) g(6) by auto
  have inner: "hdr_page_type (ps_page ops g s1) \<noteq> page_type_code LEAF" using node by (simp add: internal_node_def)
  obtain ks1 ks2 ts1 c ts2 lo' hi' where c:
    "ks = ks1 @ ks2" "ts = ts1 @ c # ts2" "length ks1 = length (takeWhile (\<lambda>k. sint k \<le> sint key) ks)"
    "length ts1 = length ks1" "wf_tree n lo' hi' c" "lo' \<le> sint key" "sint key < hi'" "lo \<le> lo'" "hi' \<le> hi"
    "\<And>uks uts. seps (wf_tree n) lo' hi' uks uts \<Longrightarrow> seps (wf_tree n) lo hi (ks1 @ uks @ ks2) (ts1 @ uts @ ts2)"
    "\<And>t1. t1 \<in> set ts1 \<Longrightarrow> \<exists>a b. wf_tree n a b t1 \<and> b \<le> lo'" "\<And>t2. t2 \<in> set ts2 \<Longrightarrow> \<exists>a b. wf_tree n a b t2 \<and> hi' \<le> a"
    by (rule seps_find [OF wf(3) Suc.prems(3,4)]) (rule that; blast)
  let ?z = "hd (all_leaves ts2 @ [z])"
  have sub: "forest n lo' hi' ?z (view s1) [] [c]"
    using kids c(2,5) g(5) forest_leaves(2) [OF kids, of c] by (auto simp: forest_def chain_append)
  have pos: "child_position key (ps_page ops g s1) = length ks1" using child_position_node [OF node] c(3) by simp
  have child: "child_at (length ks1) (ps_page ops g s1) = root_id c"
    using child_at_node [OF node, of "length ks1"] c(1,2,4) by (simp add: nth_append)
  obtain r s2 uks uts where IH: "InsertRecursive ops (root_id c) key v s1 = Some (Inr r, s2)" "ext (3 * Suc n) s1 s2"
    "forest n lo' hi' ?z (view s2) uks uts" "inserted key v (view s1) (view s2) c r uks uts"
    using Suc.IH [OF g(4) sub c(6,7) Suc.prems(5)] Suc.prems(6,7) g(8-10) by auto
  have I: "length uks \<le> 1" "r = (case uks of [] \<Rightarrow> None | k # _ \<Rightarrow> Some \<lparr>promoted_key = k, new_right_page_id = root_id (uts ! 1)\<rparr>)"
    "all_entries uts = upd_entry key v (entries c)" "root_id (hd uts) = root_id c"
    "hd (all_leaves uts) = hd (leaf_ids c)" "evolves (view s1) (view s2) (ids c) (all_ids uts)"
    using IH(4) by (simp_all add: inserted_def)
  have kids1: "forest n lo hi z (view s1) ks (ts1 @ c # ts2)" using kids c(2) g(5) by simp
  note R = forest_replace [OF kids1 IH(3) I(6,5) c(10) [OF forestD(1) [OF IH(3)]]]
  have s2: "inv s2" "guard_ok s2 g" "npins s2 < cap s2" "2 < room s2"
    using IH(2) ext_npins [OF IH(2)] g(3,8-10) Suc.prems(6,7) by (simp_all add: ext_def)
  have i2: "i \<notin> set (all_ids (ts1 @ uts @ ts2))"
    using inv_i(1) R(2) p(1) g(5) c(2) unfolding evolves_def by (metis Diff_iff option.distinct(1))
  have "view s2 i = view s1 i"
    using inv_i(1) R(2) p(1) g(5) c(2) unfolding evolves_def by (metis option.distinct(1))
  then have node2: "internal_node (ps_page ops g s2) (ks1 @ ks2) (map root_id (ts1 @ c # ts2))"
    using guard_page_view [OF s2(1,2)] g(2,5,6) p node c(1,2) by (metis internal_node_content option.inject)
  have "1 < room s2" using s2(4) by simp
  from insert_split_ok [OF s2(1,2) g(2) node2 c(4) _ _ R(1) i2 inv_i(2) I(1) seps_length [OF forestD(1) [OF IH(3)]] I(4) s2(3) this]
  obtain r' s3 vks vts where S: "insert_split ops g (length ks1) (Inr r, s2) = (Inr r', s3)" "ext 2 s2 s3"
    "forest (Suc n) lo hi z (view s3) vks vts" "length vks \<le> 1"
    "r' = (case vks of [] \<Rightarrow> None | k # _ \<Rightarrow> Some \<lparr>promoted_key = k, new_right_page_id = root_id (vts ! 1)\<rparr>)"
    "all_entries vts = all_entries (ts1 @ uts @ ts2)" "all_leaves vts = all_leaves (ts1 @ uts @ ts2)"
    "root_id (hd vts) = i" "evolves (view s2) (view s3) (i # all_ids (ts1 @ uts @ ts2)) (all_ids vts)"
    using wf(1,2) c(1) I(2) by auto
  have e3: "ext (3 * Suc n + 2) s1 s3" by (rule ext_trans [OF IH(2) S(2)])
  have "0 < room s3" using S(2) s2(4) by (simp add: ext_def)
  from g(12) [OF e3 this] obtain s4 where s4: "end_scope ops g (Inr r', s3) = (Inr r', s4)" "ext (Suc (3 * Suc n + 2)) s s4"
    "view s4 = view s3" by blast
  have "InsertRecursive ops i key v s = Some (Inr r', s4)"
    using g(1) inner pos child IH(1) S(1) s4(1) by (subst InsertRecursive.simps) (simp add: Let_def)
  moreover have "inserted key v (view s) (view s4) t r' vks vts"
  proof -
    have "evolves (view s1) (view s2) (i # all_ids ts) (i # all_ids (ts1 @ uts @ ts2))"
      using evolves_append [OF R(2), of "[i]" "[]"] c(2) by simp
    then have "evolves (view s) (view s4) (ids t) (all_ids vts)"
      using evolves_trans S(9) s4(3) g(5) t by auto
    moreover have "all_entries vts = upd_entry key v (entries t)"
      using S(6) entries_replace [OF c(11,12,6,7) I(3)] c(2) t by simp
    ultimately show ?thesis using S(4,5,7,8) R(3) c(2) t by (simp add: inserted_def)
  qed
  moreover have "ext (3 * Suc (Suc n)) s s4" using ext_mono [OF s4(2)] by simp
  ultimately show ?case using S(3) s4(3) t by auto
qed

end

end
