(* ===== verification/Btree_Lookup.thy ===== *)
theory Btree_Lookup
  imports Btree_Insertion
begin

text \<open>
  The leaves of a tree in order, the descent to the leaf that covers a key, \<open>Get\<close> and \<open>RangeScan\<close>.
\<close>

fun leaves :: "btree \<Rightarrow> (page_id_t \<times> entry list) list" where
  "leaves (BLeaf i es) = [(i, es)]"
| "leaves (BNode i ks ts) = concat (map leaves ts)"

lemma leaf_ids_leaves: "leaf_ids t = map fst (leaves t)"
proof (induction t)
  case (BNode i ks ts)
  then show ?case by (induction ts) simp_all
qed simp

lemma entries_leaves: "entries t = concat (map snd (leaves t))"
proof (induction t)
  case (BNode i ks ts)
  then show ?case by (induction ts) simp_all
qed simp

lemma rep_leaves: "rep V t \<Longrightarrow> (i, es) \<in> set (leaves t) \<Longrightarrow> \<exists>p. V i = Some p \<and> leaf_node p es"
  by (induction t) auto

lemma all_leaves_concat: "all_leaves ts = map fst (concat (map leaves ts))"
  by (induction ts) (simp_all add: leaf_ids_leaves)

lemma all_entries_concat: "concat (map snd (concat (map leaves ts))) = all_entries ts"
  by (induction ts) (simp_all add: entries_leaves)

text \<open>What a key decides about the leaves: those before it, the one that covers it, those behind it.\<close>
definition covers :: "i64 \<Rightarrow> btree \<Rightarrow> (page_id_t \<times> entry list) list \<Rightarrow> page_id_t \<Rightarrow> entry list \<Rightarrow> (page_id_t \<times> entry list) list \<Rightarrow> bool" where
  "covers key t xs i es ys \<longleftrightarrow> leaves t = xs @ (i, es) # ys
     \<and> (\<forall>e \<in> set (concat (map snd xs)). skey e < sint key) \<and> (\<forall>e \<in> set (concat (map snd ys)). sint key < skey e)"

lemma map_of_covers:
  assumes "covers key t xs i es ys"
  shows "map_of (entries t) key = map_of es key"
proof -
  have "map_of (concat (map snd xs)) key = None" "map_of (concat (map snd ys)) key = None"
    using assms unfolding covers_def map_of_eq_None_iff by (metis (no_types, lifting) imageE order_less_irrefl)+
  moreover have "entries t = concat (map snd xs) @ es @ concat (map snd ys)"
    using assms by (simp add: covers_def entries_leaves)
  ultimately show ?thesis by (simp add: map_add_def split: option.split)
qed

lemma covers_child:
  assumes "covers key c xs i es ys"
    and "\<And>t1. t1 \<in> set ts1 \<Longrightarrow> \<exists>a b. wf_tree n a b t1 \<and> b \<le> lo'" "\<And>t2. t2 \<in> set ts2 \<Longrightarrow> \<exists>a b. wf_tree n a b t2 \<and> hi' \<le> a"
    and "lo' \<le> sint key" "sint key < hi'"
  shows "covers key (BNode j ks (ts1 @ c # ts2)) (concat (map leaves ts1) @ xs) i es (ys @ concat (map leaves ts2))"
proof -
  have "skey e < sint key" if "t1 \<in> set ts1" "e \<in> set (entries t1)" for t1 e
  proof -
    obtain a b where "wf_tree n a b t1" "b \<le> lo'" using assms(2) [OF \<open>t1 \<in> set ts1\<close>] by blast
    then show ?thesis using wf_tree_entries [of n a b t1 e] that(2) assms(4) by linarith
  qed
  moreover have "sint key < skey e" if "t2 \<in> set ts2" "e \<in> set (entries t2)" for t2 e
  proof -
    obtain a b where "wf_tree n a b t2" "hi' \<le> a" using assms(3) [OF \<open>t2 \<in> set ts2\<close>] by blast
    then show ?thesis using wf_tree_entries [of n a b t2 e] that(2) assms(5) by linarith
  qed
  ultimately have "\<forall>e \<in> set (all_entries ts1). skey e < sint key" "\<forall>e \<in> set (all_entries ts2). sint key < skey e"
    by (auto simp: set_all)
  then show ?thesis using assms(1) unfolding covers_def by (simp del: set_concat add: all_entries_concat ball_Un)
qed

text \<open>The cells of one leaf, collected.\<close>

abbreviation in_range :: "i64 \<Rightarrow> i64 \<Rightarrow> entry \<Rightarrow> bool" where
  "in_range low high e \<equiv> sint low \<le> skey e \<and> skey e \<le> sint high"

lemma collect_cells_node:
  assumes "leaf_node p es" "sorted_entries es" "sint low \<le> sint high" "j \<le> length es"
  shows "collect_cells p low high [j..<length es] res =
    ((\<exists>e \<in> set (drop j es). sint high < skey e), res @ filter (in_range low high) (drop j es))"
  using assms(4)
proof (induction "length es - j" arbitrary: j res)
  case 0
  then show ?case by simp
next
  case (Suc n)
  then have j: "j < length es" by simp
  have up: "[j..<length es] = j # [Suc j..<length es]" using j by (rule upt_conv_Cons)
  have dr: "drop j es = es ! j # drop (Suc j) es" using j by (simp add: Cons_nth_drop_Suc)
  have key: "leaf_key j p = fst (es ! j)" "leaf_value j p = snd (es ! j)" by (rule leaf_node_read [OF assms(1) j])+
  have IH: "collect_cells p low high [Suc j..<length es] r =
    ((\<exists>e \<in> set (drop (Suc j) es). sint high < skey e), r @ filter (in_range low high) (drop (Suc j) es))" for r
    using Suc.hyps(1) [of "Suc j" r] Suc.hyps(2) j by simp
  have "sorted_entries (drop j es)"
    using assms(2) sorted_entries_append [of "take j es" "drop j es"] by simp
  then have above: "\<forall>y \<in> set (drop (Suc j) es). skey (es ! j) < skey y" unfolding dr by (simp add: sorted_entries_Cons)
  consider "skey (es ! j) < sint low" | "sint high < skey (es ! j)" | "in_range low high (es ! j)" by linarith
  then show ?case
  proof cases
    case 1
    then show ?thesis using IH assms(3) unfolding up dr by (simp add: key)
  next
    case 2
    then have "filter (in_range low high) (drop (Suc j) es) = []" using above by (auto simp: filter_empty_conv)
    then show ?thesis using 2 assms(3) unfolding up dr by (simp add: key)
  next
    case 3
    then show ?thesis using IH unfolding up dr by (simp add: key)
  qed
qed

section \<open>Whole trees\<close>

text \<open>The pages \<open>V\<close> hold the tree \<open>T\<close> of height \<open>n\<close> with its root at page \<open>r\<close>, over the whole key space.\<close>
definition tree_of :: "(page_id_t \<Rightarrow> page option) \<Rightarrow> page_id_t \<Rightarrow> nat \<Rightarrow> btree \<Rightarrow> bool" where
  "tree_of V r n T \<longleftrightarrow> forest n (- (2 ^ 63)) (2 ^ 63) INVALID_PAGE_ID V [] [T] \<and> root_id T = r"

lemma sint_range: "- (2 ^ 63) \<le> sint (k :: i64)" "sint (k :: i64) < 2 ^ 63"
  using sint_greater_eq [of k] sint_less [of k] by simp_all

lemma tree_of_sorted: "tree_of V r n T \<Longrightarrow> sorted_entries (entries T)"
  using wf_tree_sorted [OF forest_single] unfolding tree_of_def by blast

lemma map_of_first:
  "map_of es k = (let i = length (takeWhile (\<lambda>e. fst e \<noteq> k) es) in if i < length es then Some (snd (es ! i)) else None)"
  by (induction es) (auto simp: Let_def)

context page_store
begin

lemma FindLeafPageId_ok:
  assumes "inv s" "forest n lo hi z (view s) [] [t]" "lo \<le> sint key" "sint key < hi" "npins s < cap s" "Suc n < room s"
  shows "\<exists>s' xs i es ys. FindLeafPageId ops (root_id t) key s = Some (Inr i, s') \<and> ext (Suc n) s s' \<and> view s' = view s
    \<and> covers key t xs i es ys"
  using assms
proof (induction n arbitrary: s t lo hi z)
  case 0
  then obtain i es where t: "t = BLeaf i es" using wf_tree_0E [OF forest_single] by blast
  obtain p where p: "view s i = Some p" "leaf_node p es" using forest_leafD(4) 0(2) t by blast
  obtain g s1 where g: "ps_fetch ops i s = (Inr (Some g), s1)" "g_page_id g = i" "inv s1"
    "view s1 = view s" "content (ps_page ops g s1) = p" "wf_page (ps_page ops g s1)" "room s1 = room s"
    "\<And>k (x :: page_id_t res) s2. ext k s1 s2 \<Longrightarrow> 0 < room s2 \<Longrightarrow>
       \<exists>s3. end_scope ops g (x, s2) = (x, s3) \<and> ext (Suc k) s s3 \<and> view s3 = view s2"
    using fetch_scope [OF 0(1) p(1) 0(5), where 'a = page_id_t] by metis
  have leaf: "hdr_page_type (ps_page ops g s1) = page_type_code LEAF" using p(2) g(5,6) by (auto simp: leaf_node_def)
  have "0 < room s1" using g(7) 0(6) by simp
  from g(8) [OF ext_refl [OF g(3)] this] obtain s3 where s3: "end_scope ops g (Inr i, s1) = (Inr i, s3)" "ext (Suc 0) s s3" "view s3 = view s1"
    by blast
  have "FindLeafPageId ops i key s = Some (Inr i, s3)"
    using g(1) leaf s3(1) by (subst FindLeafPageId.simps) simp
  moreover have "covers key t [] i es []" using t by (simp add: covers_def)
  ultimately show ?case using s3(2,3) g(4) t by fastforce
next
  case (Suc n)
  then obtain i ks ts where t: "t = BNode i ks ts" using wf_tree_SucE [OF forest_single] by blast
  note F = forestD [OF Suc.prems(2), unfolded t]
  have wf: "seps (wf_tree n) lo hi ks ts" using F(1) by simp
  obtain p where p: "view s i = Some p" "internal_node p ks (map root_id ts)" using F(2) [of "BNode i ks ts"] by auto
  have kids: "forest n lo hi z (view s) ks ts" using F wf by (auto simp: forest_def)
  obtain g s1 where g: "ps_fetch ops i s = (Inr (Some g), s1)" "inv s1"
    "view s1 = view s" "content (ps_page ops g s1) = p" "cap s1 = cap s" "room s1 = room s"
    "\<And>k (x :: page_id_t res) s2. ext k s1 s2 \<Longrightarrow> 0 < room s2 \<Longrightarrow>
       \<exists>s3. end_scope ops g (x, s2) = (x, s3) \<and> ext (Suc k) s s3 \<and> view s3 = view s2"
    using fetch_scope [OF Suc.prems(1) p(1) Suc.prems(5), where 'a = page_id_t] by metis
  have node: "internal_node (ps_page ops g s1) ks (map root_id ts)" using p(2) g(4) by auto
  have inner: "hdr_page_type (ps_page ops g s1) \<noteq> page_type_code LEAF" using node by (simp add: internal_node_def)
  obtain ks1 ks2 ts1 c ts2 lo' hi' where c:
    "ks = ks1 @ ks2" "ts = ts1 @ c # ts2" "length ks1 = length (takeWhile (\<lambda>k. sint k \<le> sint key) ks)"
    "length ts1 = length ks1" "wf_tree n lo' hi' c" "lo' \<le> sint key" "sint key < hi'"
    "\<And>t1. t1 \<in> set ts1 \<Longrightarrow> \<exists>a b. wf_tree n a b t1 \<and> b \<le> lo'" "\<And>t2. t2 \<in> set ts2 \<Longrightarrow> \<exists>a b. wf_tree n a b t2 \<and> hi' \<le> a"
    by (rule seps_find [OF wf Suc.prems(3,4)]) (rule that; blast)
  have child: "child_at (child_position key (ps_page ops g s1)) (ps_page ops g s1) = root_id c"
    using child_position_node [OF node] child_at_node [OF node, of "length ks1"] c(1-4) by (simp add: nth_append)
  have "0 < room s1" using g(6) Suc.prems(6) by simp
  from g(7) [OF ext_refl [OF g(2)] this] obtain s2 where s2:
    "end_scope ops g (Inr (root_id c), s1) = (Inr (root_id c), s2)" "ext (Suc 0) s s2" "view s2 = view s1" by blast
  have sub: "forest n lo' hi' (hd (all_leaves ts2 @ [z])) (view s2) [] [c]"
    using kids c(2,5) g(3) s2(3) forest_leaves(2) [OF kids, of c] by (auto simp: forest_def chain_append)
  have "inv s2" "npins s2 < cap s2" "Suc n < room s2"
    using s2(2) ext_npins [OF s2(2)] Suc.prems(5,6) by (simp_all add: ext_def)
  from Suc.IH [OF this(1) sub c(6,7) this(2,3)] obtain s' xs j es ys where IH:
    "FindLeafPageId ops (root_id c) key s2 = Some (Inr j, s')" "ext (Suc n) s2 s'" "view s' = view s2" "covers key c xs j es ys"
    by blast
  have "FindLeafPageId ops i key s = Some (Inr j, s')"
    using g(1) inner child s2(1) IH(1) by (subst FindLeafPageId.simps) simp
  moreover have "ext (Suc (Suc n)) s s'" using ext_trans [OF s2(2) IH(2)] by simp
  ultimately show ?case using IH(3,4) s2(3) g(3) t c(2) covers_child [OF IH(4) c(8,9,6,7)] by fastforce
qed

text \<open>An unchecked fetch with enough frames.\<close>

lemma with_page_rel:
  fixes R :: "'b \<Rightarrow> (page_id_t \<Rightarrow> page option) \<Rightarrow> bool"
  assumes "inv s" "view s i = Some c" "npins s < cap s" "0 < room s"
    and body: "\<And>g s1. guard_ok s1 g \<Longrightarrow> g_page_id g = i \<Longrightarrow> inv s1 \<Longrightarrow> view s1 = view s \<Longrightarrow> wf_page (ps_page ops g s1)
      \<Longrightarrow> content (ps_page ops g s1) = c \<Longrightarrow> \<exists>x s2. body g (ps_page ops g s1) s1 = (Inr x, s2) \<and> ext 0 s1 s2 \<and> R x (view s2)"
  shows "\<exists>x s'. with_page ops i s body = (Inr x, s') \<and> ext 1 s s' \<and> R x (view s')"
proof -
  obtain g s1 where g: "ps_fetch ops i s = (Inr (Some g), s1)" "g_page_id g = i" "guard_ok s1 g" "inv s1"
    "view s1 = view s" "content (ps_page ops g s1) = c" "wf_page (ps_page ops g s1)" "room s1 = room s"
    "\<And>k (x :: 'b res) s2. ext k s1 s2 \<Longrightarrow> 0 < room s2 \<Longrightarrow> \<exists>s3. end_scope ops g (x, s2) = (x, s3) \<and> ext (Suc k) s s3 \<and> view s3 = view s2"
    using fetch_scope [OF assms(1-3), where 'a = 'b] by metis
  obtain x s2 where s2: "body g (ps_page ops g s1) s1 = (Inr x, s2)" "ext 0 s1 s2" "R x (view s2)"
    using body [OF g(3,2,4,5,7,6)] by blast
  have "0 < room s2" using s2(2) g(8) assms(4) by (simp add: ext_def)
  from g(9) [OF s2(2) this] obtain s3 where "end_scope ops g (Inr x, s2) = (Inr x, s3)" "ext 1 s s3" "view s3 = view s2"
    unfolding One_nat_def by blast
  then show ?thesis using g(1) s2 by (simp add: with_page_def)
qed

lemma with_page_ok:
  fixes x :: 'b
  assumes "inv s" "view s i = Some c" "npins s < cap s" "0 < room s"
    and body: "\<And>g s1. guard_ok s1 g \<Longrightarrow> g_page_id g = i \<Longrightarrow> inv s1 \<Longrightarrow> view s1 = view s \<Longrightarrow> wf_page (ps_page ops g s1)
      \<Longrightarrow> content (ps_page ops g s1) = c \<Longrightarrow> \<exists>s2. body g (ps_page ops g s1) s1 = (Inr x, s2) \<and> ext 0 s1 s2 \<and> view s2 = V"
  shows "\<exists>s'. with_page ops i s body = (Inr x, s') \<and> ext 1 s s' \<and> view s' = V"
proof -
  have "\<exists>y s'. with_page ops i s body = (Inr y, s') \<and> ext 1 s s' \<and> (y = x \<and> view s' = V)"
    by (rule with_page_rel [where R = "\<lambda>y W. y = x \<and> W = V", OF assms(1-4)]) (use body in blast)
  then show ?thesis by blast
qed

lemma find_leaf_page:
  assumes "inv s" "tree_of (view s) r n T" "npins s < cap s" "Suc n < room s"
  obtains s' xs i es ys p where "FindLeafPageId ops r key s = Some (Inr i, s')" "ext (Suc n) s s'" "view s' = view s"
    "covers key T xs i es ys" "view s i = Some p" "leaf_node p es"
proof -
  have F: "forest n (- (2 ^ 63)) (2 ^ 63) INVALID_PAGE_ID (view s) [] [T]" "root_id T = r" using assms(2) by (simp_all add: tree_of_def)
  obtain s' xs i es ys where f: "FindLeafPageId ops r key s = Some (Inr i, s')" "ext (Suc n) s s'" "view s' = view s"
    "covers key T xs i es ys"
    using FindLeafPageId_ok [OF assms(1) F(1) sint_range assms(3,4), of key] F(2) by blast
  have "(i, es) \<in> set (leaves T)" using f(4) by (simp add: covers_def)
  then obtain p where "view s i = Some p" "leaf_node p es" using rep_leaves forestD(2) [OF F(1), of T] by fastforce
  then show ?thesis using that f by blast
qed

lemma BTree_Get_ok:
  assumes "inv s" "tree_of (view s) (root_page_id bt) n T" "npins s < cap s" "n + 2 < room s"
  shows "\<exists>s'. BTree_Get ops key bt s = Some (Inr (map_of (entries T) key), s') \<and> ext (n + 2) s s' \<and> view s' = view s"
proof -
  have "Suc n < room s" using assms(4) by simp
  then obtain s1 xs i es ys p where f: "FindLeafPageId ops (root_page_id bt) key s = Some (Inr i, s1)" "ext (Suc n) s s1"
    "view s1 = view s" "covers key T xs i es ys" "view s i = Some p" "leaf_node p es"
    by (rule find_leaf_page [OF assms(1-3)])
  let ?body = "\<lambda>g page s2. let i = leaf_find key page in
    if i < unat (hdr_num_slots page) then (Inr (Some (leaf_value i page)), s2) else (Inr None, s2)"
  have s1: "inv s1" "npins s1 < cap s1" "0 < room s1" "view s1 i = Some p"
    using f(2,3,5) ext_npins [OF f(2)] assms(3,4) by (simp_all add: ext_def)
  have "\<exists>s'. with_page ops i s1 ?body = (Inr (map_of es key), s') \<and> ext 1 s1 s' \<and> view s' = view s1"
  proof (rule with_page_ok [OF s1(1,4,2,3)])
    fix g s2 assume h: "inv s2" "view s2 = view s1" "content (ps_page ops g s2) = p"
    let ?i = "length (takeWhile (\<lambda>e. fst e \<noteq> key) es)"
    have node: "leaf_node (ps_page ops g s2) es" using f(6) h(3) by auto
    then have "unat (hdr_num_slots (ps_page ops g s2)) = length es" "leaf_find key (ps_page ops g s2) = ?i"
      by (simp add: leaf_node_def, rule leaf_find_node)
    then show "\<exists>s3. ?body g (ps_page ops g s2) s2 = (Inr (map_of es key), s3) \<and> ext 0 s2 s3 \<and> view s3 = view s1"
      using leaf_node_read(2) [OF node, of ?i] map_of_first [of es key] h(2) ext_refl [OF h(1)] by (simp add: Let_def)
  qed
  then obtain s' where s': "with_page ops i s1 ?body = (Inr (map_of es key), s')" "ext 1 s1 s'" "view s' = view s1" by blast
  have "BTree_Get ops key bt s = Some (Inr (map_of (entries T) key), s')"
    using f(1) s'(1) map_of_covers [OF f(4)] by (simp add: BTree_Get_def)
  then show ?thesis using ext_trans [OF f(2) s'(2)] s'(3) f(3) by simp
qed

text \<open>The walk along the chain of leaves.\<close>

lemma range_loop_ok:
  assumes "inv s" "chain (view s) (map fst ls) INVALID_PAGE_ID" "INVALID_PAGE_ID \<notin> set (map fst ls)"
    and "\<forall>(i, es) \<in> set ls. \<exists>p. view s i = Some p \<and> leaf_node p es" "sorted_entries (concat (map snd ls))"
    and "sint low \<le> sint high" "npins s < cap s" "length ls < room s"
  shows "\<exists>s'. range_loop ops low high (hd (map fst ls @ [INVALID_PAGE_ID])) results s
      = Some (Inr (results @ filter (in_range low high) (concat (map snd ls))), s')
    \<and> ext (length ls) s s' \<and> view s' = view s"
  using assms
proof (induction ls arbitrary: s results)
  case Nil
  then show ?case by (subst range_loop.simps) (simp add: ext_refl)
next
  case (Cons l ls)
  obtain i es where l: "l = (i, es)" by (cases l)
  obtain p where p: "view s i = Some p" "leaf_node p es" using Cons.prems(4) l by auto
  have next_id: "next_leaf p = hd (map fst ls @ [INVALID_PAGE_ID])" using Cons.prems(2) l p(1) by auto
  have sorted: "sorted_entries es" "sorted_entries (concat (map snd ls))" "\<forall>x \<in> set es. \<forall>y \<in> set (concat (map snd ls)). skey x < skey y"
    using Cons.prems(5) l by (simp_all add: sorted_entries_append)
  let ?past = "\<exists>e \<in> set es. sint high < skey e" and ?res = "results @ filter (in_range low high) es"
  let ?body = "\<lambda>g page s1. (Inr (collect_cells page low high [0..<unat (hdr_num_slots page)] results, next_leaf page), s1)"
  have "\<exists>s2. with_page ops i s ?body = (Inr ((?past, ?res), next_leaf p), s2) \<and> ext 1 s s2 \<and> view s2 = view s"
  proof (rule with_page_ok [OF Cons.prems(1) p(1) Cons.prems(7)])
    fix g s1 assume h: "inv s1" "view s1 = view s" "wf_page (ps_page ops g s1)" "content (ps_page ops g s1) = p"
    have node: "leaf_node (ps_page ops g s1) es" "next_leaf (ps_page ops g s1) = next_leaf p" using p(2) h(3,4) by auto
    then have num: "unat (hdr_num_slots (ps_page ops g s1)) = length es" by (simp add: leaf_node_def)
    show "\<exists>s2. ?body g (ps_page ops g s1) s1 = (Inr ((?past, ?res), next_leaf p), s2) \<and> ext 0 s1 s2 \<and> view s2 = view s"
      using collect_cells_node [OF node(1) sorted(1) Cons.prems(6), of 0 results] h(2) ext_refl [OF h(1)] unfolding num node(2) by simp
  qed (use Cons.prems(8) in simp)
  then obtain s2 where s2: "with_page ops i s ?body = (Inr ((?past, ?res), next_leaf p), s2)" "ext 1 s s2" "view s2 = view s" by blast
  have i: "i \<noteq> INVALID_PAGE_ID" using Cons.prems(3) l by auto
  show ?case
  proof (cases ?past)
    case True
    then have "filter (in_range low high) (concat (map snd ls)) = []" using sorted(3) by (fastforce simp: filter_empty_conv simp del: set_concat)
    moreover have "range_loop ops low high i results s = Some (Inr ?res, s2)"
      using i s2(1) True by (subst range_loop.simps) simp
    ultimately show ?thesis using l s2(2,3) ext_mono [OF s2(2)] by auto
  next
    case False
    have "inv s2" "npins s2 < cap s2" "length ls < room s2" using s2(2) ext_npins [OF s2(2)] Cons.prems(7,8) by (simp_all add: ext_def)
    moreover have "chain (view s2) (map fst ls) INVALID_PAGE_ID" "\<forall>(i, es) \<in> set ls. \<exists>p. view s2 i = Some p \<and> leaf_node p es"
      using Cons.prems(2,4) s2(3) by auto
    moreover have "INVALID_PAGE_ID \<notin> set (map fst ls)" using Cons.prems(3) by auto
    ultimately obtain s3 where s3: "range_loop ops low high (next_leaf p) ?res s2
        = Some (Inr (?res @ filter (in_range low high) (concat (map snd ls))), s3)" "ext (length ls) s2 s3" "view s3 = view s2"
      using Cons.IH [of s2 ?res] sorted(2) Cons.prems(6) next_id by auto
    have "range_loop ops low high i results s = Some (Inr (?res @ filter (in_range low high) (concat (map snd ls))), s3)"
      using i s2(1) False s3(1) by (subst range_loop.simps) simp
    then show ?thesis using l s3(3) s2(3) ext_trans [OF s2(2) s3(2)] by simp
  qed
qed

lemma RangeScan_ok:
  assumes "inv s" "tree_of (view s) (root_page_id bt) n T" "npins s < cap s" "n + 1 + length (leaf_ids T) < room s"
  shows "\<exists>s'. RangeScan ops low high bt s = Some (Inr (filter (in_range low high) (entries T)), s')
    \<and> ext (n + 1 + length (leaf_ids T)) s s' \<and> view s' = view s"
proof (cases "sint low \<le> sint high")
  case False
  then have "filter (in_range low high) (entries T) = []" by (auto simp: filter_empty_conv)
  then show ?thesis using False ext_refl [OF assms(1)] by (simp add: RangeScan_def)
next
  case True
  have "Suc n < room s" using assms(4) forest_leaves(1) assms(2) by (auto simp: tree_of_def)
  then obtain s1 xs i es ys p where f: "FindLeafPageId ops (root_page_id bt) low s = Some (Inr i, s1)" "ext (Suc n) s s1"
    "view s1 = view s" "covers low T xs i es ys" "view s i = Some p" "leaf_node p es"
    by (rule find_leaf_page [OF assms(1-3)])
  let ?ls = "(i, es) # ys"
  have F: "forest n (- (2 ^ 63)) (2 ^ 63) INVALID_PAGE_ID (view s) [] [T]" using assms(2) by (simp add: tree_of_def)
  have lv: "leaves T = xs @ ?ls" using f(4) by (simp add: covers_def)
  have ch: "chain (view s) (map fst xs @ map fst ?ls) INVALID_PAGE_ID" using forestD(3) [OF F] lv by (simp add: leaf_ids_leaves)
  then have c: "chain (view s1) (map fst ?ls) INVALID_PAGE_ID" using f(3) unfolding chain_append by simp
  have "INVALID_PAGE_ID \<notin> set (leaf_ids T)" using forestD(5) [OF F] leaf_ids_subset by auto
  then have nv: "INVALID_PAGE_ID \<notin> set (map fst ?ls)" using lv by (auto simp: leaf_ids_leaves)
  have pages: "\<forall>(i, es) \<in> set ?ls. \<exists>p. view s1 i = Some p \<and> leaf_node p es"
    using rep_leaves [of "view s" T] forestD(2) [OF F, of T] lv f(3) by auto
  have ent: "entries T = concat (map snd xs) @ concat (map snd ?ls)" using lv by (simp add: entries_leaves)
  have sorted: "sorted_entries (concat (map snd ?ls))"
    using tree_of_sorted [OF assms(2)] ent by (simp add: sorted_entries_append)
  have "inv s1" "npins s1 < cap s1" "length ?ls < room s1"
    using f(2) ext_npins [OF f(2)] assms(3,4) lv by (simp_all add: ext_def leaf_ids_leaves)
  from range_loop_ok [OF this(1) c nv pages sorted True this(2,3), of "[]"] obtain s2 where s2:
    "range_loop ops low high i [] s1 = Some (Inr (filter (in_range low high) (concat (map snd ?ls))), s2)"
    "ext (length ?ls) s1 s2" "view s2 = view s1" by auto
  have "filter (in_range low high) (concat (map snd xs)) = []"
    using f(4) unfolding covers_def by (fastforce simp: filter_empty_conv simp del: set_concat)
  then have "RangeScan ops low high bt s = Some (Inr (filter (in_range low high) (entries T)), s2)"
    using True f(1) s2(1) ent by (simp add: RangeScan_def)
  moreover have "ext (n + 1 + length (leaf_ids T)) s s2"
    using ext_mono [OF ext_trans [OF f(2) s2(2)]] lv by (simp add: leaf_ids_leaves)
  ultimately show ?thesis using s2(3) f(3) by auto
qed

end

end
