(* ===== verification/Btree_Update.thy ===== *)
theory Btree_Update
  imports Btree_Lookup "HOL-Library.Multiset"
begin

text \<open>
  \<open>Insert\<close> with the growth of the root, \<open>Delete\<close>, the constructors, and how high a tree can get.
\<close>

section \<open>Changing one leaf\<close>

fun set_leaf :: "page_id_t \<Rightarrow> entry list \<Rightarrow> btree \<Rightarrow> btree" where
  "set_leaf j es' (BLeaf i es) = BLeaf i (if i = j then es' else es)"
| "set_leaf j es' (BNode i ks ts) = BNode i ks (map (set_leaf j es') ts)"

fun inner_ids :: "btree \<Rightarrow> page_id_t list" where
  "inner_ids (BLeaf i es) = []"
| "inner_ids (BNode i ks ts) = i # concat (map inner_ids ts)"

lemma root_id_set_leaf [simp]: "root_id (set_leaf j es' t) = root_id t"
  by (cases t) simp_all

lemma ids_set_leaf [simp]: "ids (set_leaf j es' t) = ids t"
proof (induction t)
  case (BNode i ks ts)
  then show ?case by (induction ts) simp_all
qed simp

lemma leaves_set_leaf: "leaves (set_leaf j es' t) = map (\<lambda>(i, es). (i, if i = j then es' else es)) (leaves t)"
proof (induction t)
  case (BNode i ks ts)
  then show ?case by (induction ts) simp_all
qed simp

lemma mset_ids: "mset (ids t) = mset (inner_ids t) + mset (leaf_ids t)"
proof (induction t)
  case (BNode i ks ts)
  then show ?case by (induction ts) simp_all
qed simp

lemma inner_leaf_disjoint:
  assumes "distinct (ids t)" "j \<in> set (leaf_ids t)"
  shows "j \<notin> set (inner_ids t)"
proof -
  have "mset (ids t) = mset (inner_ids t @ leaf_ids t)" by (simp add: mset_ids)
  then have "distinct (inner_ids t @ leaf_ids t)" using assms(1) mset_eq_imp_distinct_iff by blast
  then show ?thesis using assms(2) by auto
qed

lemma rep_set_leaf:
  assumes "rep V t" "j \<notin> set (inner_ids t)" "leaf_node p' es'"
  shows "rep (V(j \<mapsto> p')) (set_leaf j es' t)"
  using assms(1,2)
proof (induction t)
  case (BNode i ks ts)
  have "root_id \<circ> set_leaf j es' = root_id" by auto
  then show ?case using BNode by auto
qed (use assms(3) in auto)

lemma seps_map:
  assumes "seps P lo hi ks ts" "\<And>a b t. t \<in> set ts \<Longrightarrow> P a b t \<Longrightarrow> Q a b (f t)"
  shows "seps Q lo hi ks (map f ts)"
  using assms
proof (induction P lo hi ks ts rule: seps.induct)
qed auto

lemma wf_set_leaf:
  assumes "wf_tree n lo hi t" "\<And>es. (j, es) \<in> set (leaves t) \<Longrightarrow> sorted_entries es' \<and> set es' \<subseteq> set es \<and> length es' \<le> length es"
  shows "wf_tree n lo hi (set_leaf j es' t)"
  using assms
proof (induction n arbitrary: lo hi t)
  case 0
  then obtain i es where "t = BLeaf i es" using wf_tree_0E by blast
  then show ?case using 0 by fastforce
next
  case (Suc n)
  then obtain i ks ts where t: "t = BNode i ks ts" using wf_tree_SucE by blast
  have "seps (wf_tree n) lo hi ks (map (set_leaf j es') ts)"
  proof (rule seps_map)
    show "seps (wf_tree n) lo hi ks ts" using Suc.prems(1) t by simp
    show "wf_tree n a b (set_leaf j es' c)" if "c \<in> set ts" "wf_tree n a b c" for a b c
      using Suc.IH [OF that(2)] Suc.prems(2) that(1) t by auto
  qed
  then show ?case using Suc.prems(1) t by simp
qed

lemma chain_upd:
  assumes "chain V is z" "V j = Some p" "next_leaf p' = next_leaf p"
  shows "chain (V(j \<mapsto> p')) is z"
  using assms by (induction "is") auto

lemma tree_of_set_leaf:
  assumes "tree_of V r n T" "(j, es) \<in> set (leaves T)" "V j = Some p" "leaf_node p' es'" "next_leaf p' = next_leaf p"
    and "sorted_entries es'" "set es' \<subseteq> set es" "length es' \<le> length es"
  shows "tree_of (V(j \<mapsto> p')) r n (set_leaf j es' T)"
proof -
  have F: "forest n (- (2 ^ 63)) (2 ^ 63) INVALID_PAGE_ID V [] [T]" "root_id T = r" using assms(1) by (simp_all add: tree_of_def)
  have ids: "distinct (ids T)" and rep: "rep V T" and ch: "chain V (leaf_ids T) INVALID_PAGE_ID"
    using forestD [OF F(1)] by simp_all
  have j: "j \<in> set (leaf_ids T)" using assms(2) by (force simp: leaf_ids_leaves)
  have "distinct (leaf_ids T)" using ids mset_ids [of T] mset_eq_imp_distinct_iff [of "ids T" "inner_ids T @ leaf_ids T"] by simp
  then have uniq: "es'' = es" if "(j, es'') \<in> set (leaves T)" for es''
    using assms(2) that eq_key_imp_eq_value [of "leaves T"] by (simp add: leaf_ids_leaves)
  have "wf_tree n (- (2 ^ 63)) (2 ^ 63) (set_leaf j es' T)"
    by (rule wf_set_leaf [OF forest_single [OF F(1)]]) (use uniq assms(6-8) in blast)
  moreover have "rep (V(j \<mapsto> p')) (set_leaf j es' T)" by (rule rep_set_leaf [OF rep inner_leaf_disjoint [OF ids j] assms(4)])
  moreover have "leaf_ids (set_leaf j es' T) = leaf_ids T" by (simp add: leaf_ids_leaves leaves_set_leaf case_prod_beta)
  then have "chain (V(j \<mapsto> p')) (leaf_ids (set_leaf j es' T)) INVALID_PAGE_ID" using chain_upd [OF ch assms(3,5)] by simp
  ultimately show ?thesis using forestD(5) [OF F(1)] ids F(2) by (simp add: tree_of_def forest_def)
qed

lemma del_entry_nth:
  assumes "sorted_entries es" "i < length es" "fst (es ! i) = k"
  shows "take i es @ drop (Suc i) es = del_entry k es"
proof -
  have es: "es = take i es @ es ! i # drop (Suc i) es" using assms(2) by (simp add: id_take_nth_drop)
  have "distinct (map fst (take i es @ es ! i # drop (Suc i) es))" using sorted_entries_distinct [OF assms(1)] es by simp
  then have "k \<notin> fst ` set (take i es)" "k \<notin> fst ` set (drop (Suc i) es)" using assms(3) by simp_all
  then have "\<forall>e \<in> set (take i es). fst e \<noteq> k" "\<forall>e \<in> set (drop (Suc i) es). fst e \<noteq> k" by blast+
  moreover have "del_entry k [es ! i] = []" using assms(3) by (simp add: del_entry_def)
  ultimately have "del_entry k (take i es @ [es ! i] @ drop (Suc i) es) = take i es @ drop (Suc i) es"
    unfolding del_entry_append by (simp only: del_entry_absent append_Nil)
  then show ?thesis using es by simp
qed

section \<open>Height\<close>

lemma wf_tree_leaf_count: "wf_tree n lo hi t \<Longrightarrow> 2 ^ n \<le> length (leaf_ids t)"
proof (induction n arbitrary: lo hi t)
  case 0
  then show ?case using wf_tree_0E by fastforce
next
  case (Suc n)
  then obtain i ks ts where t: "t = BNode i ks ts" using wf_tree_SucE by blast
  then have s: "ks \<noteq> []" "seps (wf_tree n) lo hi ks ts" using Suc.prems by simp_all
  then obtain t1 t2 ts' where ts: "ts = t1 # t2 # ts'" using seps_length [OF s(2)] by (cases ts; cases "tl ts") auto
  obtain a b c d where "wf_tree n a b t1" "wf_tree n c d t2"
    using seps_bounds [OF s(2), of t1] seps_bounds [OF s(2), of t2] ts by auto
  then have "2 ^ n \<le> length (leaf_ids t1)" "2 ^ n \<le> length (leaf_ids t2)" using Suc.IH by blast+
  then show ?case using t ts by simp
qed

text \<open>Page ids are 32 bits wide, so no tree is higher than 32.\<close>
lemma tree_of_height: "tree_of V r n T \<Longrightarrow> n \<le> 32"
proof -
  assume t: "tree_of V r n T"
  then have F: "forest n (- (2 ^ 63)) (2 ^ 63) INVALID_PAGE_ID V [] [T]" by (simp add: tree_of_def)
  have "2 ^ n \<le> length (leaf_ids T)" by (rule wf_tree_leaf_count [OF forest_single [OF F]])
  moreover have "distinct (leaf_ids T)"
    using forestD(4) [OF F] mset_ids [of T] mset_eq_imp_distinct_iff [of "ids T" "inner_ids T @ leaf_ids T"] by simp
  then have "length (leaf_ids T) = card (set (leaf_ids T))" by (simp add: distinct_card)
  moreover have "card (set (leaf_ids T)) \<le> card (UNIV :: page_id_t set)" by (rule card_mono) simp_all
  moreover have "card (UNIV :: page_id_t set) = 2 ^ 32" by (simp add: card_word)
  ultimately have "(2 :: nat) ^ n \<le> 2 ^ 32" by linarith
  then show ?thesis using power_le_imp_le_exp [of "2 :: nat" n 32] by simp
qed

section \<open>The operations\<close>

context page_store
begin

text \<open>
  Recording a new root: \<open>rec r\<close> rewrites page \<open>m\<close> with \<open>upd r\<close> and nothing else. The metadata page of
  a single tree and the catalog page satisfy it.
\<close>
definition records :: "(page_id_t \<Rightarrow> 's \<Rightarrow> unit res \<times> 's) \<Rightarrow> page_id_t \<Rightarrow> (page_id_t \<Rightarrow> page \<Rightarrow> page) \<Rightarrow> bool" where
  "records recf m upd \<longleftrightarrow> (\<forall>r s c. inv s \<longrightarrow> view s m = Some c \<longrightarrow> npins s < cap s \<longrightarrow> 0 < room s \<longrightarrow>
     (\<exists>s'. recf r s = (Inr (), s') \<and> ext 1 s s' \<and> view s' = (view s)(m \<mapsto> upd r c)))"

lemma put_scope_records:
  assumes "\<And>r s. recf r s = with_page ops m s (\<lambda>g page s1. (Inr (), ps_put ops g (f r page) s1))"
    and "\<And>r p. wf_page p \<Longrightarrow> wf_page (f r p)" "\<And>r p. wf_page p \<Longrightarrow> content (f r (content p)) = content (f r p)"
  shows "records recf m (\<lambda>r c. content (f r c))"
  unfolding records_def assms(1)
proof (intro allI impI)
  fix r s c assume h: "inv s" "view s m = Some c" "npins s < cap s" "0 < room s"
  show "\<exists>s'. with_page ops m s (\<lambda>g page s1. (Inr (), ps_put ops g (f r page) s1)) = (Inr (), s') \<and> ext 1 s s'
    \<and> view s' = (view s)(m \<mapsto> content (f r c))"
  proof (rule with_page_ok [OF h])
    fix g s1 assume g: "guard_ok s1 g" "g_page_id g = m" "inv s1" "view s1 = view s" "wf_page (ps_page ops g s1)" "content (ps_page ops g s1) = c"
    then show "\<exists>s2. (Inr (), ps_put ops g (f r (ps_page ops g s1)) s1) = (Inr (), s2) \<and> ext 0 s1 s2
      \<and> view s2 = (view s)(m \<mapsto> content (f r c))"
      using ext_put [OF g(3,1) assms(2) [OF g(5)]] assms(3) [OF g(5), of r] by simp
  qed
qed

lemma put_field_content:
  assumes "wf_page p" "17 \<le> off" "off + k \<le> PAGE_SIZE"
  shows "content (put_field off k v (content p)) = content (put_field off k v p)"
proof -
  have p: "length p = 4096" "17 \<le> off" "off + k \<le> 4096" using assms by (simp_all add: wf_page_def PAGE_SIZE_def)
  then have c: "put_field off k v (content p) = content (put_field off k v p)"
    unfolding content_def set_lsn_def set_checksum_def
    by (subst put_field_commute [of off k 9 4], simp_all, subst put_field_commute [of off k 13 4], simp_all)
  have "content (content q) = content q" if "length q = 4096" for q
    using that unfolding content_def set_lsn_def set_checksum_def
    by (subst put_field_commute [of 13 4 9 4]) (simp_all add: put_put_field)
  then show ?thesis using p unfolding c by simp
qed

lemma metadata_records:
  assumes "\<not> catalog_managed bt"
  shows "records (\<lambda>r. record_root ops (bt\<lparr>root_page_id := r\<rparr>)) (metadata_page_id bt) (\<lambda>r c. content (set_meta_root_page_id r c))"
proof (rule put_scope_records)
  show "record_root ops (bt\<lparr>root_page_id := r\<rparr>) s
      = with_page ops (metadata_page_id bt) s (\<lambda>g page s1. (Inr (), ps_put ops g (set_meta_root_page_id r page) s1))" for r s
    using assms by (simp add: record_root_def with_page_def split: prod.splits sum.splits option.splits)
  show "content (set_meta_root_page_id r (content p)) = content (set_meta_root_page_id r p)" if "wf_page p" for r p
    using put_field_content [OF that, of METADATA_BODY_OFFSET 4] by (simp add: set_meta_root_page_id_def layout_simps)
qed simp

lemma grow_root_ok:
  assumes "inv s" "forest n lo hi z (view s) [k] [t1, t2]" "npins s < cap s" "1 < room s"
  obtains s' r where "grow_root ops (root_id t1) \<lparr>promoted_key = k, new_right_page_id = root_id t2\<rparr> s = (Inr r, s')" "ext 2 s s'"
    "view s r = None" "forest (Suc n) lo hi z (view s') [] [BNode r [k] [t1, t2]]" "\<And>j. j \<noteq> r \<Longrightarrow> view s' j = view s j"
proof -
  have "0 < room s" using assms(4) by simp
  then obtain g s1 r where g: "ps_new ops s = (Inr (Some g), s1)" "g_page_id g = r" "guard_ok s1 g" "inv s1"
    "view s r = None" "r \<noteq> INVALID_PAGE_ID" "ps_page ops g s1 = set_page_id r zero_page"
    "view s1 = (view s)(r \<mapsto> content (set_page_id r zero_page))" "room s \<le> Suc (room s1)"
    "\<And>k (x :: page_id_t res) s2. ext k s1 s2 \<Longrightarrow> 0 < room s2 \<Longrightarrow>
       \<exists>s3. end_scope ops g (x, s2) = (x, s3) \<and> ext (k + 2) s s3 \<and> view s3 = view s2"
    using new_scope [OF assms(1) _ assms(3), where 'a = page_id_t] by metis
  let ?p = "init_root (root_id t1) k (root_id t2) (ps_page ops g s1)"
  have p: "internal_node ?p [k] [root_id t1, root_id t2]" using init_root_node g(7) by simp
  then have wf: "wf_page ?p" by (simp add: internal_node_def)
  note P = ext_put [OF g(4,3) wf]
  have "0 < room (ps_put ops g ?p s1)" using P(1) g(9) assms(4) by (simp add: ext_def)
  from g(10) [OF P(1) this] obtain s3 where s3: "end_scope ops g (Inr r, ps_put ops g ?p s1) = (Inr r, s3)" "ext 2 s s3"
    "view s3 = view (ps_put ops g ?p s1)" unfolding add_0 by blast
  have V: "view s3 = (view s)(r \<mapsto> content ?p)" using s3(3) P(2) g(2,8) by simp
  have r: "r \<notin> set (all_ids [t1, t2])" using forest_in_view [OF assms(2)] g(5) by blast
  have "forest n lo hi z (view s3) [k] [t1, t2]" by (rule forest_frame [OF assms(2)]) (use V r in auto)
  then have f: "forest (Suc n) lo hi z (view s3) [] [BNode r [k] [t1, t2]]"
    by (rule forest_node [where p = "content ?p"]) (use V p r g(6) in \<open>auto simp: INTERNAL_MAX_KEYS_def\<close>)
  have res: "grow_root ops (root_id t1) \<lparr>promoted_key = k, new_right_page_id = root_id t2\<rparr> s = (Inr r, s3)"
    using g(1,2) s3(1) by (simp add: grow_root_def)
  show ?thesis by (rule that [OF res s3(2) g(5) f]) (use V in simp)
qed

lemma BTree_Insert_ok:
  assumes "inv s" "tree_of (view s) (root_page_id bt) n T" "length v \<le> VALUE_SIZE"
    and rec: "records (\<lambda>r. record_root ops (bt\<lparr>root_page_id := r\<rparr>)) m upd" and m: "m \<notin> set (ids T)" "view s m = Some c"
    and "npins s + n + 1 < cap s" "3 * n + 6 < room s"
  shows "\<exists>bt' s' n' T'. BTree_Insert ops key v bt s = Some (Inr (), bt', s') \<and> ext (3 * n + 6) s s'
    \<and> bt' = bt\<lparr>root_page_id := root_id T'\<rparr> \<and> tree_of (view s') (root_page_id bt') n' T' \<and> n' \<le> Suc n
    \<and> entries T' = upd_entry key v (entries T) \<and> m \<notin> set (ids T')
    \<and> evolves (view s) (view s') (m # ids T) (m # ids T')
    \<and> (bt' = bt \<and> view s' m = Some c \<or> view s' m = Some (upd (root_page_id bt') c))"
proof -
  have F: "forest n (- (2 ^ 63)) (2 ^ 63) INVALID_PAGE_ID (view s) [] [T]" "root_id T = root_page_id bt"
    using assms(2) by (simp_all add: tree_of_def)
  have "3 * Suc n < room s" using assms(8) by simp
  then obtain r s1 uks uts where I: "InsertRecursive ops (root_page_id bt) key v s = Some (Inr r, s1)" "ext (3 * Suc n) s s1"
    "forest n (- (2 ^ 63)) (2 ^ 63) INVALID_PAGE_ID (view s1) uks uts" "inserted key v (view s) (view s1) T r uks uts"
    using InsertRecursive_ok [OF assms(1) F(1) sint_range assms(3,7), of key] F(2) by metis
  have U: "length uks \<le> 1" "r = (case uks of [] \<Rightarrow> None | k # _ \<Rightarrow> Some \<lparr>promoted_key = k, new_right_page_id = root_id (uts ! 1)\<rparr>)"
    "all_entries uts = upd_entry key v (entries T)" "root_id (hd uts) = root_id T" "evolves (view s) (view s1) (ids T) (all_ids uts)"
    using I(4) by (simp_all add: inserted_def)
  have m1: "m \<notin> set (all_ids uts)" "view s1 m = Some c" using U(5) m unfolding evolves_def by (metis Diff_iff option.distinct(1))+
  have lu: "length uts = Suc (length uks)" by (rule seps_length [OF forestD(1) [OF I(3)]])
  have ev: "evolves (view s) (view s1) (m # ids T) (m # all_ids uts)" using evolves_append [OF U(5), of "[m]" "[]"] by simp
  show ?thesis
  proof (cases uks)
    case Nil
    then obtain u where u: "uts = [u]" using lu by (cases uts) auto
    have "BTree_Insert ops key v bt s = Some (Inr (), bt, s1)"
      using assms(3) I(1) U(2) Nil by (simp add: BTree_Insert_def)
    moreover have "tree_of (view s1) (root_page_id bt) n u" using I(3) Nil u U(4) F(2) by (simp add: tree_of_def)
    moreover have "ext (3 * n + 6) s s1" using ext_mono [OF I(2)] by simp
    moreover have "bt = bt\<lparr>root_page_id := root_id u\<rparr>" using U(4) F(2) u by simp
    ultimately show ?thesis using u U(3) m1 ev by (intro exI [of _ bt] exI [of _ s1] exI [of _ n] exI [of _ u]) simp
  next
    case (Cons k ks)
    then have uks: "uks = [k]" using U(1) by simp
    then obtain t1 t2 where u: "uts = [t1, t2]" using lu by (cases uts; cases "tl uts") auto
    have r: "r = Some \<lparr>promoted_key = k, new_right_page_id = root_id t2\<rparr>" using U(2) uks u by simp
    have s1: "inv s1" "npins s1 < cap s1" "1 < room s1" "3 < room s1"
      using I(2) ext_npins [OF I(2)] assms(7,8) by (simp_all add: ext_def)
    have f1: "forest n (- (2 ^ 63)) (2 ^ 63) INVALID_PAGE_ID (view s1) [k] [t1, t2]" using I(3) uks u by simp
    obtain s2 q where G: "grow_root ops (root_id t1) \<lparr>promoted_key = k, new_right_page_id = root_id t2\<rparr> s1 = (Inr q, s2)" "ext 2 s1 s2"
      "view s1 q = None" "forest (Suc n) (- (2 ^ 63)) (2 ^ 63) INVALID_PAGE_ID (view s2) [] [BNode q [k] [t1, t2]]"
      "\<And>j. j \<noteq> q \<Longrightarrow> view s2 j = view s1 j"
      using grow_root_ok [OF s1(1) f1 s1(2,3)] by metis
    let ?T = "BNode q [k] [t1, t2]"
    have qm: "q \<noteq> m" using G(3) m1(2) by auto
    have s2: "inv s2" "npins s2 < cap s2" "0 < room s2" "view s2 m = Some c"
      using G(2) G(5) [of m] ext_npins [OF G(2)] s1 m1(2) qm by (auto simp: ext_def)
    obtain s3 where R: "record_root ops (bt\<lparr>root_page_id := q\<rparr>) s2 = (Inr (), s3)" "ext 1 s2 s3"
      "view s3 = (view s2)(m \<mapsto> upd q c)"
      using rec s2 unfolding records_def by blast
    have mT: "m \<notin> set (ids ?T)" using m1(1) u qm by auto
    have "forest (Suc n) (- (2 ^ 63)) (2 ^ 63) INVALID_PAGE_ID (view s3) [] [?T]"
      by (rule forest_frame [OF G(4)]) (use R(3) mT in auto)
    then have T: "tree_of (view s3) q (Suc n) ?T" by (simp add: tree_of_def)
    have "root_id t1 = root_page_id bt" using U(4) F(2) u by simp
    then have ins: "BTree_Insert ops key v bt s = Some (Inr (), bt\<lparr>root_page_id := q\<rparr>, s3)"
      using assms(3) I(1) r G(1) R(1) by (simp add: BTree_Insert_def Let_def)
    have "view s3 j = view s1 j" if "j \<noteq> m" "view s1 j \<noteq> None" for j
      using that R(3) G(5) [of j] G(3) by (cases "j = q") auto
    then have "evolves (view s1) (view s3) (m # all_ids uts) (m # ids ?T)"
      using G(3) u by (auto simp: evolves_def)
    then have "evolves (view s) (view s3) (m # ids T) (m # ids ?T)" by (rule evolves_trans [OF ev])
    moreover have "ext (3 * n + 6) s s3" using ext_mono [OF ext_trans [OF ext_trans [OF I(2) G(2)] R(2)]] by simp
    ultimately show ?thesis using ins T U(3) u mT R(3)
      by (intro exI [of _ "bt\<lparr>root_page_id := q\<rparr>"] exI [of _ s3] exI [of _ "Suc n"] exI [of _ ?T]) simp
  qed
qed

lemma BTree_Delete_ok:
  assumes "inv s" "tree_of (view s) (root_page_id bt) n T" "npins s < cap s" "n + 2 < room s"
  shows "\<exists>s' T'. BTree_Delete ops key bt s = Some (Inr (key \<in> fst ` set (entries T)), s') \<and> ext (n + 2) s s'
    \<and> tree_of (view s') (root_page_id bt) n T' \<and> ids T' = ids T \<and> entries T' = del_entry key (entries T)
    \<and> (\<forall>j. j \<notin> set (ids T) \<longrightarrow> view s' j = view s j)"
proof -
  have "Suc n < room s" using assms(4) by simp
  then obtain s1 xs i es ys p where f: "FindLeafPageId ops (root_page_id bt) key s = Some (Inr i, s1)" "ext (Suc n) s s1"
    "view s1 = view s" "covers key T xs i es ys" "view s i = Some p" "leaf_node p es"
    by (rule find_leaf_page [OF assms(1-3)])
  let ?k = "length (takeWhile (\<lambda>e. fst e \<noteq> key) es)"
  let ?es = "del_entry key es"
  let ?body = "\<lambda>g page s2. let i = leaf_find key page in
    if i < unat (hdr_num_slots page) then (Inr True, ps_put ops g (leaf_remove i page) s2) else (Inr False, s2)"
  let ?R = "\<lambda>x V. x = (key \<in> fst ` set es) \<and> (\<exists>q. V = (view s)(i \<mapsto> q) \<and> leaf_node q ?es \<and> next_leaf q = next_leaf p)"
  have F: "forest n (- (2 ^ 63)) (2 ^ 63) INVALID_PAGE_ID (view s) [] [T]" using assms(2) by (simp add: tree_of_def)
  have lv: "leaves T = xs @ (i, es) # ys" using f(4) by (simp add: covers_def)
  have sorted: "sorted_entries es"
    using tree_of_sorted [OF assms(2)] lv by (simp add: entries_leaves sorted_entries_append)
  have s1: "inv s1" "npins s1 < cap s1" "0 < room s1" "view s1 i = Some p"
    using f(2,3,5) ext_npins [OF f(2)] assms(3,4) by (simp_all add: ext_def)
  have "\<exists>x s'. with_page ops i s1 ?body = (Inr x, s') \<and> ext 1 s1 s' \<and> ?R x (view s')"
  proof (rule with_page_rel [OF s1(1,4,2,3)])
    fix g s2 assume h: "guard_ok s2 g" "g_page_id g = i" "inv s2" "view s2 = view s1" "wf_page (ps_page ops g s2)" "content (ps_page ops g s2) = p"
    let ?page = "ps_page ops g s2"
    have node: "leaf_node ?page es" "next_leaf ?page = next_leaf p" using f(6) h(5,6) by auto
    have num: "unat (hdr_num_slots ?page) = length es" "leaf_find key ?page = ?k"
      using node(1) leaf_find_node [OF node(1)] by (simp_all add: leaf_node_def)
    show "\<exists>x s3. ?body g ?page s2 = (Inr x, s3) \<and> ext 0 s2 s3 \<and> ?R x (view s3)"
    proof (cases "?k < length es")
      case True
      have k: "fst (es ! ?k) = key" using True nth_length_takeWhile by fastforce
      have es: "take ?k es @ drop (Suc ?k) es = ?es" by (rule del_entry_nth [OF sorted True k])
      note L = leaf_remove_node [OF node(1) True, unfolded es]
      have wf: "wf_page (leaf_remove ?k ?page)" using L(1) by (simp add: leaf_node_def)
      note P = ext_put [OF h(3,1) wf]
      have "es ! ?k \<in> set es" using True by simp
      then have "key \<in> fst ` set es" by (rule rev_image_eqI [where f = fst]) (rule k [symmetric])
      moreover have "view (ps_put ops g (leaf_remove ?k ?page) s2) = (view s)(i \<mapsto> content (leaf_remove ?k ?page))"
        using P(2) h(2,4) f(3) by simp
      moreover have "leaf_node (content (leaf_remove ?k ?page)) ?es" "next_leaf (content (leaf_remove ?k ?page)) = next_leaf p"
        using L node(2) wf by simp_all
      ultimately show ?thesis using P(1) True num by (auto simp: Let_def)
    next
      case False
      then have "\<forall>e \<in> set es. fst e \<noteq> key" using takeWhile_eq_take [of "\<lambda>e. fst e \<noteq> key" es] takeWhile_eq_all_conv [of "\<lambda>e. fst e \<noteq> key" es]
        by (simp only: not_less take_all)
      then have "key \<notin> fst ` set es" "?es = es" by (auto simp: del_entry_absent)
      moreover have "view s2 = (view s)(i \<mapsto> p)" using h(4) f(3,5) by (simp add: fun_upd_idem)
      ultimately show ?thesis using False num f(6) ext_refl [OF h(3)] by (auto simp: Let_def)
    qed
  qed
  then obtain s' q where s': "with_page ops i s1 ?body = (Inr (key \<in> fst ` set es), s')" "ext 1 s1 s'"
    "view s' = (view s)(i \<mapsto> q)" "leaf_node q ?es" "next_leaf q = next_leaf p" by blast
  let ?T = "set_leaf i ?es T"
  have mem: "(i, es) \<in> set (leaves T)" using lv by simp
  have "sorted_entries ?es" using sorted by (simp add: del_entry_def sorted_entries_def sorted_wrt_filter filter_map sorted_wrt_map)
  then have tree: "tree_of (view s') (root_page_id bt) n ?T"
    using tree_of_set_leaf [OF assms(2) mem f(5) s'(4,5)] s'(3) by (simp add: del_entry_def)
  have dist: "distinct (map fst (leaves T))"
    using forestD(4) [OF F] mset_ids [of T] mset_eq_imp_distinct_iff [of "ids T" "inner_ids T @ leaf_ids T"]
    by (simp add: leaf_ids_leaves)
  have upd: "leaves ?T = xs @ (i, ?es) # ys"
  proof -
    have "(i, b) \<notin> set xs" "(i, b) \<notin> set ys" for b using dist lv by force+
    then show ?thesis unfolding leaves_set_leaf lv by (auto intro!: map_idI)
  qed
  have "\<forall>e \<in> set (concat (map snd xs)). fst e \<noteq> key" "\<forall>e \<in> set (concat (map snd ys)). fst e \<noteq> key"
    using f(4) unfolding covers_def by force+
  then have ent: "entries ?T = del_entry key (entries T)" "(key \<in> fst ` set es) = (key \<in> fst ` set (entries T))"
    unfolding entries_leaves upd lv by (auto simp: del_entry_absent simp del: set_concat)
  have "BTree_Delete ops key bt s = Some (Inr (key \<in> fst ` set (entries T)), s')"
    using f(1) s'(1) ent(2) by (simp add: BTree_Delete_def)
  moreover have "view s' j = view s j" if "j \<notin> set (ids T)" for j
  proof -
    have "i \<in> set (leaf_ids T)" using lv by (simp add: leaf_ids_leaves)
    then show ?thesis using that s'(3) leaf_ids_subset [of T] by auto
  qed
  moreover have "ext (n + 2) s s'" using ext_trans [OF f(2) s'(2)] by simp
  ultimately show ?thesis using tree ent(1) by (intro exI [of _ s'] exI [of _ ?T]) simp
qed

text \<open>A new empty tree in a fresh database, and the tree of an existing one.\<close>

lemma empty_leaf_tree:
  assumes "view s r = Some p" "leaf_node p []" "next_leaf p = INVALID_PAGE_ID" "r \<noteq> INVALID_PAGE_ID"
  shows "tree_of (view s) r 0 (BLeaf r [])"
  using forest_leaf [where V = "view s", OF sorted_entries_Nil _ _ assms] by (simp add: tree_of_def)

lemma BTree_create_ok:
  assumes "inv s" "npins s + 1 < cap s" "4 \<le> room s"
  obtains s' m r c where "BTree_create ops s = (Inr \<lparr>metadata_page_id = m, catalog_managed = False, on_root_changed = None, root_page_id = r\<rparr>, s')"
    "ext 4 s s'" "unat m = ps_count ops s" "m \<noteq> r" "view s' m = Some c" "meta_root_page_id c = r" "tree_of (view s') r 0 (BLeaf r [])"
    "\<And>j. view s j \<noteq> None \<Longrightarrow> view s' j = view s j"
proof -
  have room: "0 < room s" "npins s < cap s" using assms by simp_all
  obtain mg s1 m where M: "ps_new ops s = (Inr (Some mg), s1)" "g_page_id mg = m" "guard_ok s1 mg" "inv s1"
    "unat m = ps_count ops s" "view s m = None" "ps_page ops mg s1 = set_page_id m zero_page"
    "view s1 = (view s)(m \<mapsto> content (set_page_id m zero_page))" "cap s1 = cap s" "room s \<le> Suc (room s1)" "npins s1 \<le> Suc (npins s)"
    "\<And>k (x :: 's BTree res) s2. ext k s1 s2 \<Longrightarrow> 0 < room s2 \<Longrightarrow>
       \<exists>s3. end_scope ops mg (x, s2) = (x, s3) \<and> ext (k + 2) s s3 \<and> view s3 = view s2"
    using new_scope [OF assms(1) room, where 'a = "'s BTree"] by metis
  let ?m1 = "set_page_type (page_type_code METADATA) (ps_page ops mg s1)" let ?s2 = "ps_put ops mg ?m1 s1"
  have wm: "wf_page ?m1" using M(7) by simp
  note P2 = ext_put [OF M(4,3) wm]
  have s2: "inv ?s2" "0 < room ?s2" "npins ?s2 < cap ?s2" "guard_ok ?s2 mg" "3 \<le> room ?s2"
    using P2(1) ext_npins [OF P2(1)] M(3,9-11) assms(2,3) by (simp_all add: ext_def)
  obtain rg s3 r where R: "ps_new ops ?s2 = (Inr (Some rg), s3)" "g_page_id rg = r" "guard_ok s3 rg" "inv s3"
    "view ?s2 r = None" "r \<noteq> INVALID_PAGE_ID" "ps_page ops rg s3 = set_page_id r zero_page"
    "view s3 = (view ?s2)(r \<mapsto> content (set_page_id r zero_page))" "room ?s2 \<le> Suc (room s3)" "\<And>h. guard_ok ?s2 h \<Longrightarrow> guard_ok s3 h"
    "\<And>k (x :: 's BTree res) s4. ext k s3 s4 \<Longrightarrow> 0 < room s4 \<Longrightarrow>
       \<exists>s5. end_scope ops rg (x, s4) = (x, s5) \<and> ext (k + 2) ?s2 s5 \<and> view s5 = view s4"
    using new_scope [OF s2(1-3), where 'a = "'s BTree"] by metis
  have V2: "view ?s2 = (view s)(m \<mapsto> content ?m1)" using P2(2) M(2,8) by simp
  have mr: "m \<noteq> r" using R(5) V2 by auto
  let ?r1 = "init_leaf (ps_page ops rg s3)" let ?s4 = "ps_put ops rg ?r1 s3"
  have r1: "leaf_node ?r1 []" "next_leaf ?r1 = INVALID_PAGE_ID" using init_leaf_node [of "ps_page ops rg s3"] R(7) by simp_all
  have wr: "wf_page ?r1" using r1(1) by (simp add: leaf_node_def)
  note P4 = ext_put [OF R(4,3) wr]
  have s4: "inv ?s4" "guard_ok ?s4 mg" using P4(1) R(10) [OF s2(4)] by (simp_all add: ext_def)
  let ?m2 = "set_meta_root_page_id r (ps_page ops mg ?s4)" let ?s5 = "ps_put ops mg ?m2 ?s4"
  have wm2: "wf_page ?m2" "wf_page (ps_page ops mg ?s4)" using guard_page_view(1) [OF s4] by simp_all
  note P5 = ext_put [OF s4 wm2(1)]
  have e5: "ext 0 s3 ?s5" using ext_trans [OF P4(1) P5(1)] by simp
  have "0 < room ?s5" using e5 R(9) s2(5) by (simp add: ext_def)
  let ?t = "\<lparr>metadata_page_id = m, catalog_managed = False, on_root_changed = None, root_page_id = r\<rparr> :: 's BTree"
  from R(11) [OF e5 \<open>0 < room ?s5\<close>] obtain s6 where s6: "end_scope ops rg (Inr ?t, ?s5) = (Inr ?t, s6)" "ext 2 ?s2 s6" "view s6 = view ?s5"
    unfolding add_0 by blast
  have e6: "ext 2 s1 s6" using ext_trans [OF P2(1) s6(2)] unfolding add_0 .
  have "0 < room s6" using s6(2) s2(5) by (simp add: ext_def)
  from M(12) [OF e6 this] obtain s7 where s7: "end_scope ops mg (Inr ?t, s6) = (Inr ?t, s7)" "ext 4 s s7" "view s7 = view s6" by auto
  have V: "view s7 = (view s)(m \<mapsto> content ?m2, r \<mapsto> content ?r1)"
    using s7(3) s6(3) P5(2) P4(2) R(2,8) M(2) V2 mr by (simp add: fun_upd_twist)
  have res: "BTree_create ops s = (Inr ?t, s7)"
    using M(1,2) R(1,2) s6(1) s7(1) by (simp add: BTree_create_def Let_def)
  have tree: "tree_of (view s7) r 0 (BLeaf r [])"
    by (rule empty_leaf_tree [where p = "content ?r1"]) (use V r1 wr R(6) in simp_all)
  have frame: "view s7 j = view s j" if "view s j \<noteq> None" for j
    using that V M(6) R(5) V2 by (auto split: if_splits)
  show ?thesis by (rule that [OF res s7(2) M(5) mr _ _ tree frame, of "content ?m2"]) (use V mr wm2 in simp_all)
qed

lemma BTree_open_ok:
  assumes "inv s" "view s 0 = Some c" "npins s < cap s" "0 < room s"
  shows "\<exists>s'. BTree_new ops s = (Inr \<lparr>metadata_page_id = 0, catalog_managed = False, on_root_changed = None,
      root_page_id = meta_root_page_id c\<rparr>, s') \<and> ext 1 s s' \<and> view s' = view s"
proof -
  have count: "ps_count ops s \<noteq> 0" using view_bound [OF assms(1,2)] by simp
  obtain g s1 where g: "ps_fetch ops 0 s = (Inr (Some g), s1)" "inv s1" "view s1 = view s"
    "content (ps_page ops g s1) = c" "wf_page (ps_page ops g s1)" "room s1 = room s"
    "\<And>k (x :: 's BTree res) s2. ext k s1 s2 \<Longrightarrow> 0 < room s2 \<Longrightarrow>
       \<exists>s3. end_scope ops g (x, s2) = (x, s3) \<and> ext (Suc k) s s3 \<and> view s3 = view s2"
    using fetch_scope [OF assms(1-3), where 'a = "'s BTree"] by metis
  have "meta_root_page_id (ps_page ops g s1) = meta_root_page_id c" using g(4,5) fields_content(5) by metis
  moreover have "0 < room s1" using g(6) assms(4) by simp
  ultimately show ?thesis
    using count g(1) g(7) [OF ext_refl [OF g(2), of 0]] g(3) by (auto simp: BTree_new_def)
qed

text \<open>No more leaves than pages were ever allocated.\<close>

lemma leaf_count_bound:
  assumes "inv s" "tree_of (view s) r n T"
  shows "length (leaf_ids T) \<le> ps_count ops s"
proof -
  have F: "forest n (- (2 ^ 63)) (2 ^ 63) INVALID_PAGE_ID (view s) [] [T]" using assms(2) by (simp add: tree_of_def)
  have "distinct (leaf_ids T)"
    using forestD(4) [OF F] mset_ids [of T] mset_eq_imp_distinct_iff [of "ids T" "inner_ids T @ leaf_ids T"] by simp
  then have len: "length (leaf_ids T) = card (unat ` set (leaf_ids T))"
    by (subst card_image) (auto simp: distinct_card word_unat_eq_iff intro!: inj_onI)
  have "unat ` set (leaf_ids T) \<subseteq> {..<ps_count ops s}"
  proof
    fix j assume "j \<in> unat ` set (leaf_ids T)"
    then obtain i where i: "j = unat i" "i \<in> set (all_ids [T])" using leaf_ids_subset [of T] by auto
    then obtain c where "view s i = Some c" using forest_in_view [OF F] by blast
    then show "j \<in> {..<ps_count ops s}" using view_bound [OF assms(1)] i(1) by simp
  qed
  then have "card (unat ` set (leaf_ids T)) \<le> card {..<ps_count ops s}" by (rule card_mono [rotated]) simp
  then show ?thesis using len by simp
qed

end

end
