(* ===== verification/Store_History.thy ===== *)
theory Store_History
  imports Prelude
begin

text \<open>
  Stores that are asked operations and survive crashes. \<open>spec\<close> relates an abstract state, an
  operation, its answer and the abstract state after it; the locales say that a store refines it
  one step at a time, and their lemmas lift that to histories: any sequence of answered operations
  and of restarts from files a crash may leave. \<open>guard\<close> is when an operation may be asked (its
  argument is admissible and the id and LSN ranges have room for it).
\<close>

inductive history ::
  "('q \<Rightarrow> 's \<Rightarrow> ('a \<times> 's) option) \<Rightarrow> ('q \<Rightarrow> 's \<Rightarrow> bool) \<Rightarrow> ('s \<Rightarrow> 'f \<Rightarrow> bool) \<Rightarrow> ('f \<Rightarrow> 's res)
    \<Rightarrow> 's \<Rightarrow> nat \<Rightarrow> ('q \<times> 'a) list \<Rightarrow> 's \<Rightarrow> bool"
  for step guard crash reopen s0 where
  start: "history step guard crash reopen s0 0 [] s0"
| answered: "history step guard crash reopen s0 n h s \<Longrightarrow> guard q s \<Longrightarrow> step q s = Some (a, s') \<Longrightarrow>
    history step guard crash reopen s0 (Suc n) (h @ [(q, a)]) s'"
| restarted: "history step guard crash reopen s0 n h s \<Longrightarrow> crash s f \<Longrightarrow> reopen f = Inr s' \<Longrightarrow>
    history step guard crash reopen s0 (Suc n) h s'"

text \<open>The abstract states a sequence of answered operations may lead to.\<close>
inductive spec_run :: "('q \<Rightarrow> 'm \<Rightarrow> 'a \<Rightarrow> 'm \<Rightarrow> bool) \<Rightarrow> 'm \<Rightarrow> ('q \<times> 'a) list \<Rightarrow> 'm \<Rightarrow> bool"
  for spec M0 where
  run_start: "spec_run spec M0 [] M0"
| run_step: "spec_run spec M0 h M \<Longrightarrow> spec q M a M' \<Longrightarrow> spec_run spec M0 (h @ [(q, a)]) M'"

locale store =
  fixes step :: "'q \<Rightarrow> 's \<Rightarrow> ('a \<times> 's) option"
    and rep :: "'s \<Rightarrow> 'm \<Rightarrow> bool"
    and guard :: "'q \<Rightarrow> 's \<Rightarrow> bool"
    and spec :: "'q \<Rightarrow> 'm \<Rightarrow> 'a \<Rightarrow> 'm \<Rightarrow> bool"
  assumes step_ok: "rep s M \<Longrightarrow> guard q s \<Longrightarrow> \<exists>a s' M'. step q s = Some (a, s') \<and> spec q M a M' \<and> rep s' M'"

locale durable_store = store step rep guard spec
  for step :: "'q \<Rightarrow> 's \<Rightarrow> ('a \<times> 's) option" and rep :: "'s \<Rightarrow> 'm \<Rightarrow> bool" and guard and spec +
  fixes crash :: "'s \<Rightarrow> 'f \<Rightarrow> bool"
    and reopen :: "'f \<Rightarrow> 's res"
  assumes reopen_ok: "rep s M \<Longrightarrow> crash s f \<Longrightarrow> \<exists>s'. reopen f = Inr s' \<and> rep s' M"
begin

lemma history_refines:
  assumes "history step guard crash reopen s0 n h s" "rep s0 M"
  shows "\<exists>M'. spec_run spec M h M' \<and> rep s M'"
  using assms
proof (induction rule: history.induct)
  case start
  then show ?case using run_start [of spec M] by (intro exI [of _ M]) simp
next
  case (answered n h s q a s')
  then obtain M1 where M1: "spec_run spec M h M1" "rep s M1" by blast
  obtain M' where "spec q M1 a M'" "rep s' M'" using step_ok [OF M1(2) answered.hyps(2)] answered.hyps(3) by auto
  then show ?case using run_step [OF M1(1)] by blast
next
  case (restarted n h s f s')
  then obtain M1 where M1: "spec_run spec M h M1" "rep s M1" by blast
  then show ?case using reopen_ok [OF M1(2) restarted.hyps(2)] restarted.hyps(3) by auto
qed

lemma history_continues:
  assumes "history step guard crash reopen s0 n h s" "rep s0 M"
  shows "guard q s \<Longrightarrow> \<exists>a s'. step q s = Some (a, s')" and "crash s f \<Longrightarrow> \<exists>s'. reopen f = Inr s'"
proof -
  obtain M' where "rep s M'" using history_refines [OF assms] by blast
  then show "guard q s \<Longrightarrow> \<exists>a s'. step q s = Some (a, s')" and "crash s f \<Longrightarrow> \<exists>s'. reopen f = Inr s'"
    using step_ok reopen_ok by blast+
qed

end

text \<open>A store whose operations each use up at most \<open>cost\<close> of a budget.\<close>

locale metered_store = durable_store step rep guard spec crash reopen
  for step :: "'q \<Rightarrow> 's \<Rightarrow> ('a \<times> 's) option" and rep :: "'s \<Rightarrow> 'm \<Rightarrow> bool" and guard spec
    and crash :: "'s \<Rightarrow> 'f \<Rightarrow> bool" and reopen +
  fixes budget :: "'s \<Rightarrow> nat" and cost :: nat
  assumes step_cost: "rep s M \<Longrightarrow> guard q s \<Longrightarrow> step q s = Some (a, s') \<Longrightarrow> budget s \<le> budget s' + cost"
    and reopen_cost: "rep s M \<Longrightarrow> crash s f \<Longrightarrow> reopen f = Inr s' \<Longrightarrow> budget s \<le> budget s' + cost"
begin

lemma history_budget:
  assumes "history step guard crash reopen s0 n h s" "rep s0 M"
  shows "budget s0 \<le> budget s + n * cost"
  using assms
proof (induction rule: history.induct)
  case (answered n h s q a s')
  obtain M1 where "rep s M1" using history_refines [OF answered.hyps(1) answered.prems] by blast
  then show ?case using step_cost answered.hyps(2,3) answered.IH [OF answered.prems] by fastforce
next
  case (restarted n h s f s')
  obtain M1 where "rep s M1" using history_refines [OF restarted.hyps(1) restarted.prems] by blast
  then show ?case using reopen_cost restarted.hyps(2,3) restarted.IH [OF restarted.prems] by fastforce
qed simp

end

end
