(* ===== verification/Kv_Store.thy ===== *)
theory Kv_Store
  imports Store_History
begin

text \<open>
  What a single-table database promises, without pages: a finite map from 64-bit keys to byte
  strings, queried and changed by \<open>Insert\<close>, \<open>Get\<close> and \<open>Delete\<close>.
\<close>

type_synonym kv_map = "i64 \<Rightarrow> byte list option"

datatype kv_op = Put i64 "byte list" | Lookup i64 | Remove i64

datatype kv_ans = Done | Found "byte list option" | Removed bool

fun kv_answer :: "kv_op \<Rightarrow> kv_map \<Rightarrow> kv_ans" where
  "kv_answer (Put k v) M = Done"
| "kv_answer (Lookup k) M = Found (M k)"
| "kv_answer (Remove k) M = Removed (M k \<noteq> None)"

fun kv_after :: "kv_op \<Rightarrow> kv_map \<Rightarrow> kv_map" where
  "kv_after (Put k v) M = M(k \<mapsto> v)"
| "kv_after (Lookup k) M = M"
| "kv_after (Remove k) M = M(k := None)"

definition kv_spec :: "kv_op \<Rightarrow> kv_map \<Rightarrow> kv_ans res \<Rightarrow> kv_map \<Rightarrow> bool" where
  "kv_spec q M a M' \<longleftrightarrow> a = Inr (kv_answer q M) \<and> M' = kv_after q M"

end
