(* ===== verification/Database.thy ===== *)
theory Database
  imports Restart Btree_Update Kv_Store
begin

text \<open>
  The single-table database (\<open>database.h\<close>, \<open>database.cpp\<close>): both files, the recovered pool and the
  B+tree over it. The disk manager and the log live in the pool's record, which is where their
  later states are.
\<close>

record Database =
  db_pool :: BufferPool
  db_tree :: "BufferPool BTree"

text \<open>The constructor, on the files at the two paths; an exception from a step leaves no object.\<close>
definition Database_open :: "os_file \<Rightarrow> os_file \<Rightarrow> nat \<Rightarrow> Database res" where
  "Database_open data_path wal_path pool_size =
     (let w = WAL_open wal_path in
      case RunRecovery (DiskManager_open data_path) w of
        (Inl e, d) \<Rightarrow> Inl e
      | (Inr _, d) \<Rightarrow>
          (case BTree_new pool_ops (BufferPool_new pool_size d (Some w)) of
             (Inl e, bp) \<Rightarrow> Inl e
           | (Inr t, bp) \<Rightarrow> Inr \<lparr>db_pool = bp, db_tree = t\<rparr>))"

section \<open>A pool with a log\<close>

definition logging_pool :: "BufferPool \<Rightarrow> bool" where
  "logging_pool bp \<longleftrightarrow> pool_inv {} bp \<and> wal_manager bp \<noteq> None"

lemma wal_set_frame [simp]: "wal_manager (set_frame f fr bp) = wal_manager bp"
  by (simp add: set_frame_def)

lemma wal_FindVictimFrame: "FindVictimFrame bp = (r, bp') \<Longrightarrow> wal_manager bp' = wal_manager bp"
  by (auto simp: FindVictimFrame_def RemoveFromLRU_def Let_def split: if_splits option.splits prod.splits sum.splits)

lemma wal_FetchPage: "FetchPage i bp = (r, bp') \<Longrightarrow> wal_manager bp' = wal_manager bp"
  by (auto simp: FetchPage_def TouchLRU_def Let_def dest: wal_FindVictimFrame
      split: if_splits option.splits prod.splits sum.splits)

lemma wal_NewPage: "NewPage bp = (r, bp') \<Longrightarrow> wal_manager bp' = wal_manager bp"
  by (auto simp: NewPage_def TouchLRU_def Let_def dest: wal_FindVictimFrame
      split: if_splits option.splits prod.splits sum.splits)

lemma wal_put_dirty [simp]: "wal_manager (put_dirty g p bp) = wal_manager bp"
  by (simp add: put_dirty_def MarkDirty_def write_guard_def)

lemma wal_UnpinPage: "wal_manager bp \<noteq> None \<Longrightarrow> wal_manager (snd (UnpinPage i d bp)) \<noteq> None"
  unfolding UnpinPage_def Let_def by (auto split: option.split prod.split sum.split)

lemma wal_Release: "Release g bp = (r, bp') \<Longrightarrow> wal_manager bp \<noteq> None \<Longrightarrow> wal_manager bp' \<noteq> None"
  using wal_UnpinPage [of bp "g_page_id g" "dirty (frame_at bp (g_frame g))"]
  by (auto simp: Release_def split: prod.splits sum.splits)

text \<open>The pool keeps its log, so the contract of a page store holds with that in the invariant.\<close>

interpretation lp: page_store pool_ops logging_pool view pins guard_ok cap room
proof (unfold_locales, goal_cases)
  case (1 s i c)
  then show ?case using bp.view_content [of s i c] by (simp add: logging_pool_def)
next
  case (2 s i c)
  then show ?case using bp.view_bound [of s i c] by (simp add: logging_pool_def)
next
  case (3 s g)
  then show ?case using bp.guard_pins [of s g] by (simp add: logging_pool_def)
next
  case (4 s g)
  then show ?case using bp.guard_view [of s g] by (simp add: logging_pool_def)
next
  case (5 s i c)
  then have s: "pool_inv {} s" "wal_manager s \<noteq> None" by (simp_all add: logging_pool_def)
  show ?case using bp.fetch_ok [OF s(1) 5(2,3)] s(2) wal_FetchPage [of i s] by (auto simp: logging_pool_def)
next
  case (6 s)
  then have s: "pool_inv {} s" "wal_manager s \<noteq> None" by (simp_all add: logging_pool_def)
  obtain g s' where g: "NewPage s = (Inr (Some g), s')" "pool_inv {} s'" using bp.new_ok [OF s(1) 6(2,3)] by auto
  then have "logging_pool s'" using wal_NewPage [OF g(1)] s(2) by (simp add: logging_pool_def)
  then show ?case using bp.new_ok [OF s(1) 6(2,3)] g(1) by simp
next
  case (7 s g p)
  then show ?case using bp.put_ok [of s g p] by (simp add: logging_pool_def)
next
  case (8 s g)
  then have s: "pool_inv {} s" "wal_manager s \<noteq> None" by (simp_all add: logging_pool_def)
  obtain s' where r: "Release g s = (Inr (), s')" "pool_inv {} s'" using bp.release_ok [OF s(1) 8(2,3)] by auto
  then have "logging_pool s'" using wal_Release [OF r(1)] s(2) by (simp add: logging_pool_def)
  then show ?case using bp.release_ok [OF s(1) 8(2,3)] r(1) by simp
qed

section \<open>The database as a store of keys and values\<close>

text \<open>One operation on \<open>db.tree()\<close>, as the clients of the class call it.\<close>
fun db_step :: "kv_op \<Rightarrow> Database \<Rightarrow> (kv_ans res \<times> Database) option" where
  "db_step (Put k v) db =
     map_option (\<lambda>(r, t, bp). (map_sum id (\<lambda>_. Done) r, \<lparr>db_pool = bp, db_tree = t\<rparr>))
       (BTree_Insert pool_ops k v (db_tree db) (db_pool db))"
| "db_step (Lookup k) db =
     map_option (\<lambda>(r, bp). (map_sum id Found r, db\<lparr>db_pool := bp\<rparr>)) (BTree_Get pool_ops k (db_tree db) (db_pool db))"
| "db_step (Remove k) db =
     map_option (\<lambda>(r, bp). (map_sum id Removed r, db\<lparr>db_pool := bp\<rparr>)) (BTree_Delete pool_ops k (db_tree db) (db_pool db))"

fun valid_op :: "kv_op \<Rightarrow> bool" where
  "valid_op (Put k v) \<longleftrightarrow> length v \<le> VALUE_SIZE"
| "valid_op _ \<longleftrightarrow> True"

text \<open>
  Between two operations: no page is pinned, page 0 records the root, and the pages below the
  root form a tree \<open>T\<close> of height \<open>n\<close>.
\<close>
definition db_tree_is :: "Database \<Rightarrow> nat \<Rightarrow> btree \<Rightarrow> bool" where
  "db_tree_is db n T \<longleftrightarrow>
     logging_pool (db_pool db) \<and> (\<forall>i. pins (db_pool db) i = 0) \<and> 34 \<le> cap (db_pool db)
     \<and> \<not> catalog_managed (db_tree db) \<and> metadata_page_id (db_tree db) = 0
     \<and> tree_of (view (db_pool db)) (root_page_id (db_tree db)) n T \<and> 0 \<notin> set (ids T)
     \<and> (\<exists>c. view (db_pool db) 0 = Some c \<and> meta_root_page_id c = root_page_id (db_tree db))"

definition db_rep :: "Database \<Rightarrow> kv_map \<Rightarrow> bool" where
  "db_rep db M \<longleftrightarrow> (\<exists>n T. db_tree_is db n T \<and> M = map_of (entries T))"

definition db_room :: "Database \<Rightarrow> nat" where
  "db_room db = room (db_pool db)"

definition op_cost :: nat where
  "op_cost = 102"

lemma db_tree_isD:
  assumes "db_tree_is db n T"
  shows "logging_pool (db_pool db)" "lp.npins (db_pool db) = 0" "lp.npins (db_pool db) + n + 1 < cap (db_pool db)" "n \<le> 32"
    "tree_of (view (db_pool db)) (root_page_id (db_tree db)) n T" "0 \<notin> set (ids T)"
    "lp.npins (db_pool db) < cap (db_pool db)"
proof -
  show n: "n \<le> 32" using assms tree_of_height by (auto simp: db_tree_is_def)
  show "lp.npins (db_pool db) = 0" using assms by (simp add: db_tree_is_def lp.npins_def)
  with n show "lp.npins (db_pool db) + n + 1 < cap (db_pool db)" "lp.npins (db_pool db) < cap (db_pool db)"
    using assms by (simp_all add: db_tree_is_def)
qed (use assms in \<open>simp_all add: db_tree_is_def\<close>)

lemma db_insert:
  assumes "db_tree_is db n T" "length v \<le> VALUE_SIZE" "op_cost < db_room db"
  shows "\<exists>db' n' T'. db_step (Put k v) db = Some (Inr Done, db') \<and> db_tree_is db' n' T'
    \<and> entries T' = upd_entry k v (entries T) \<and> db_room db \<le> db_room db' + op_cost"
proof -
  let ?bp = "db_pool db" and ?t = "db_tree db"
  note D = db_tree_isD [OF assms(1)]
  obtain c where c: "view ?bp 0 = Some c" "meta_root_page_id c = root_page_id ?t" using assms(1) by (auto simp: db_tree_is_def)
  have room: "3 * n + 6 < room ?bp" using assms(3) D(4) by (simp add: db_room_def op_cost_def)
  have m: "metadata_page_id ?t = 0" "\<not> catalog_managed ?t" using assms(1) by (simp_all add: db_tree_is_def)
  note R = lp.metadata_records [OF m(2), unfolded m(1)]
  obtain bt' bp' n' T' where I: "BTree_Insert pool_ops k v ?t ?bp = Some (Inr (), bt', bp')" "lp.ext (3 * n + 6) ?bp bp'"
    "bt' = ?t\<lparr>root_page_id := root_id T'\<rparr>" "tree_of (view bp') (root_page_id bt') n' T'"
    "entries T' = upd_entry k v (entries T)" "0 \<notin> set (ids T')"
    "bt' = ?t \<and> view bp' 0 = Some c \<or> view bp' 0 = Some (content (set_meta_root_page_id (root_page_id bt') c))"
    using lp.BTree_Insert_ok [OF D(1,5) assms(2) R D(6) c(1) D(3) room] by blast
  have wf: "wf_page c" using lp.view_content [OF D(1) c(1)] by simp
  then have "meta_root_page_id (content (set_meta_root_page_id r c)) = r" for r by simp
  then have "\<exists>c'. view bp' 0 = Some c' \<and> meta_root_page_id c' = root_page_id bt'" using I(7) c(2) by auto
  then have "db_tree_is \<lparr>db_pool = bp', db_tree = bt'\<rparr> n' T'"
    using assms(1) I(2-4,6) by (simp add: db_tree_is_def lp.ext_def)
  moreover have "db_room db \<le> room bp' + op_cost" using I(2) D(4) by (simp add: db_room_def lp.ext_def op_cost_def)
  ultimately show ?thesis using I(1,5)
    by (intro exI [of _ "\<lparr>db_pool = bp', db_tree = bt'\<rparr>"] exI [of _ n'] exI [of _ T']) (simp add: db_room_def)
qed

lemma db_get:
  assumes "db_tree_is db n T" "op_cost < db_room db"
  shows "\<exists>db'. db_step (Lookup k) db = Some (Inr (Found (map_of (entries T) k)), db') \<and> db_tree_is db' n T
    \<and> db_room db \<le> db_room db' + op_cost"
proof -
  note D = db_tree_isD [OF assms(1)]
  have room: "n + 2 < room (db_pool db)" using assms(2) D(4) by (simp add: db_room_def op_cost_def)
  obtain bp' where "BTree_Get pool_ops k (db_tree db) (db_pool db) = Some (Inr (map_of (entries T) k), bp')"
    "lp.ext (n + 2) (db_pool db) bp'" "view bp' = view (db_pool db)"
    using lp.BTree_Get_ok [OF D(1,5,7) room] by blast
  then show ?thesis using assms(1) D(4)
    by (intro exI [of _ "db\<lparr>db_pool := bp'\<rparr>"]) (simp add: db_tree_is_def db_room_def op_cost_def lp.ext_def)
qed

lemma db_delete:
  assumes "db_tree_is db n T" "op_cost < db_room db"
  shows "\<exists>db' T'. db_step (Remove k) db = Some (Inr (Removed (k \<in> fst ` set (entries T))), db') \<and> db_tree_is db' n T'
    \<and> entries T' = del_entry k (entries T) \<and> db_room db \<le> db_room db' + op_cost"
proof -
  note D = db_tree_isD [OF assms(1)]
  have room: "n + 2 < room (db_pool db)" using assms(2) D(4) by (simp add: db_room_def op_cost_def)
  obtain bp' T' where "BTree_Delete pool_ops k (db_tree db) (db_pool db) = Some (Inr (k \<in> fst ` set (entries T)), bp')"
    "lp.ext (n + 2) (db_pool db) bp'" "tree_of (view bp') (root_page_id (db_tree db)) n T'" "ids T' = ids T"
    "entries T' = del_entry k (entries T)" "\<And>j. j \<notin> set (ids T) \<Longrightarrow> view bp' j = view (db_pool db) j"
    using lp.BTree_Delete_ok [OF D(1,5,7) room] by blast
  then show ?thesis using assms(1) D(4,6)
    by (intro exI [of _ "db\<lparr>db_pool := bp'\<rparr>"] exI [of _ T']) (simp add: db_tree_is_def db_room_def op_cost_def lp.ext_def)
qed

section \<open>Opening\<close>

text \<open>When an operation may be asked, and which files and pool sizes a restart may start from.\<close>
definition db_guard :: "kv_op \<Rightarrow> Database \<Rightarrow> bool" where
  "db_guard q db \<longleftrightarrow> valid_op q \<and> op_cost < db_room db"

definition db_crash :: "Database \<Rightarrow> os_file \<times> os_file \<times> nat \<Rightarrow> bool" where
  "db_crash db = (\<lambda>(data_file, log_file, n). 34 \<le> n \<and> op_cost < db_room db
     \<and> (\<exists>w. wal_manager (db_pool db) = Some w \<and> after_crash (db_pool db) w log_file data_file))"

definition db_reopen :: "os_file \<times> os_file \<times> nat \<Rightarrow> Database res" where
  "db_reopen = (\<lambda>(data_file, log_file, n). Database_open data_file log_file n)"

lemma db_restart:
  assumes "db_tree_is db n T" "db_crash db f"
  shows "\<exists>db'. db_reopen f = Inr db' \<and> db_tree_is db' n T \<and> db_room db \<le> db_room db' + op_cost"
proof -
  obtain df lf k w where f: "f = (df, lf, k)" "34 \<le> k" "wal_manager (db_pool db) = Some w" "after_crash (db_pool db) w lf df"
    "op_cost < db_room db" using assms(2) by (cases f) (auto simp: db_crash_def)
  note D = db_tree_isD [OF assms(1)]
  have p: "pool_inv {} (db_pool db)" "\<forall>i. pins (db_pool db) i = 0" using assms(1) by (simp_all add: db_tree_is_def logging_pool_def)
  obtain d' where d': "RunRecovery (DiskManager_open df) (WAL_open lf) = (Inr (), d')"
    "pool_inv {} (BufferPool_new k d' (Some (WAL_open lf)))"
    "\<And>i c. view (db_pool db) i = Some c \<Longrightarrow> view (BufferPool_new k d' (Some (WAL_open lf))) i = Some c"
    "room (db_pool db) \<le> room (BufferPool_new k d' (Some (WAL_open lf)))"
    using restart_pool [OF p(1) f(3) p(2) f(4), of k] unfolding Let_def by blast
  let ?bp = "BufferPool_new k d' (Some (WAL_open lf))"
  obtain c where c: "view (db_pool db) 0 = Some c" "meta_root_page_id c = root_page_id (db_tree db)"
    using assms(1) by (auto simp: db_tree_is_def)
  have lpi: "logging_pool ?bp" using d'(2) by (simp add: logging_pool_def BufferPool_new_def)
  have np: "lp.npins ?bp < cap ?bp" using f(2) by (simp add: lp.npins_def)
  have room: "0 < room ?bp" using f(5) d'(4) by (simp add: db_room_def)
  obtain bp' where o: "BTree_new pool_ops ?bp = (Inr \<lparr>metadata_page_id = 0, catalog_managed = False, on_root_changed = None,
      root_page_id = meta_root_page_id c\<rparr>, bp')" "lp.ext 1 ?bp bp'" "view bp' = view ?bp"
    using lp.BTree_open_ok [OF lpi d'(3) [OF c(1)] np room] by blast
  let ?db = "\<lparr>db_pool = bp', db_tree = \<lparr>metadata_page_id = 0, catalog_managed = False, on_root_changed = None,
      root_page_id = meta_root_page_id c\<rparr>\<rparr>"
  have F: "forest n (- (2 ^ 63)) (2 ^ 63) INVALID_PAGE_ID (view (db_pool db)) [] [T]" "root_id T = root_page_id (db_tree db)"
    using D(5) by (simp_all add: tree_of_def)
  have "forest n (- (2 ^ 63)) (2 ^ 63) INVALID_PAGE_ID (view bp') [] [T]"
    by (rule forest_frame [OF F(1)]) (use forest_in_view [OF F(1)] d'(3) o(3) in fastforce)
  moreover have "view bp' 0 = Some c" using d'(3) [OF c(1)] o(3) by simp
  ultimately have "db_tree_is ?db n T"
    using o(2) f(2) F(2) c(2) D(6) by (simp add: db_tree_is_def lp.ext_def tree_of_def)
  moreover have "db_reopen f = Inr ?db" using d'(1) o(1) f(1) by (simp add: db_reopen_def Database_open_def)
  moreover have "db_room db \<le> db_room ?db + op_cost" using d'(4) o(2) by (simp add: db_room_def lp.ext_def op_cost_def)
  ultimately show ?thesis by blast
qed

lemma map_of_present: "(map_of es k \<noteq> None) = (k \<in> fst ` set es)"
  by (simp add: map_of_eq_None_iff)

lemma db_step_ok:
  assumes "db_rep db M" "db_guard q db"
  shows "\<exists>db'. db_step q db = Some (Inr (kv_answer q M), db') \<and> db_rep db' (kv_after q M) \<and> db_room db \<le> db_room db' + op_cost"
proof -
  have cost: "op_cost < db_room db" using assms(2) by (simp add: db_guard_def)
  obtain n T where T: "db_tree_is db n T" "M = map_of (entries T)" using assms(1) by (auto simp: db_rep_def)
  have sorted: "sorted_entries (entries T)" using tree_of_sorted [OF db_tree_isD(5) [OF T(1)]] .
  show ?thesis
  proof (cases q)
    case (Put k v)
    then have "length v \<le> VALUE_SIZE" using assms(2) by (simp add: db_guard_def)
    then obtain db' n' T' where db': "db_step (Put k v) db = Some (Inr Done, db')" "db_tree_is db' n' T'"
      "entries T' = upd_entry k v (entries T)" "db_room db \<le> db_room db' + op_cost"
      using db_insert [OF T(1) _ cost, of v k] by blast
    then have "db_rep db' (M(k \<mapsto> v))" using T(2) map_of_upd_entry [OF sorted] by (metis db_rep_def)
    then show ?thesis unfolding Put kv_answer.simps kv_after.simps using db'(1,4) by blast
  next
    case (Lookup k)
    obtain db' where db': "db_step (Lookup k) db = Some (Inr (Found (M k)), db')" "db_tree_is db' n T" "db_room db \<le> db_room db' + op_cost"
      using db_get [OF T(1) cost, of k] T(2) by blast
    then have "db_rep db' M" using T(2) by (auto simp: db_rep_def)
    then show ?thesis unfolding Lookup kv_answer.simps kv_after.simps using db'(1,3) by blast
  next
    case (Remove k)
    obtain db' T' where db': "db_step (Remove k) db = Some (Inr (Removed (M k \<noteq> None)), db')" "db_tree_is db' n T'"
      "entries T' = del_entry k (entries T)" "db_room db \<le> db_room db' + op_cost"
      using db_delete [OF T(1) cost, of k] unfolding T(2) map_of_present by blast
    then have "db_rep db' (M(k := None))" using T(2) map_of_del_entry by (metis db_rep_def)
    then show ?thesis unfolding Remove kv_answer.simps kv_after.simps using db'(1,4) by blast
  qed
qed

lemma db_reopen_ok:
  assumes "db_rep db M" "db_crash db f"
  shows "\<exists>db'. db_reopen f = Inr db' \<and> db_rep db' M \<and> db_room db \<le> db_room db' + op_cost"
  using db_restart [OF _ assms(2)] assms(1) unfolding db_rep_def by blast

interpretation db: metered_store db_step db_rep db_guard kv_spec db_crash db_reopen db_room op_cost
proof (unfold_locales, goal_cases)
  case (1 db M q)
  then show ?case using db_step_ok unfolding kv_spec_def by blast
next
  case (2 db M f)
  then show ?case using db_reopen_ok by blast
next
  case (3 db M q a db')
  then show ?case using db_step_ok by fastforce
next
  case (4 db M f db')
  then show ?case using db_reopen_ok by fastforce
qed

section \<open>A new database\<close>

text \<open>The pool over two empty files.\<close>

lemma empty_files_pool:
  defines "d \<equiv> DiskManager_open empty_file" and "w \<equiv> WAL_open empty_file"
  shows "RunRecovery d w = (Inr (), d)" "logging_pool (BufferPool_new k d (Some w))" "room (BufferPool_new k d (Some w)) = 2 ^ 32 - 1"
    "DiskPageCount (BufferPool_new k d (Some w)) = 0"
proof -
  let ?bp = "BufferPool_new k d (Some w)"
  show "RunRecovery d w = (Inr (), d)"
    unfolding RunRecovery_def w_def WAL_open_empty d_def
    by (simp add: latest_records_def Flush_def DiskManager_open_def empty_file_def RefreshNextPageIdAfterRecovery_def)
  have "pool_inv {} ?bp"
  proof (rule pool_inv_new)
    show "dm_ok d" by (simp add: d_def dm_ok_def DiskManager_open_def empty_file_def file_ok_def)
    show "aligned d" by (simp add: d_def aligned_def DiskManager_open_def empty_file_def f_size_def)
    show "f_size (dm_file d) \<le> unat (next_page_id d) * PAGE_SIZE"
      by (simp add: d_def DiskManager_open_def empty_file_def f_size_def)
    fix v assume "Some w = Some v"
    then show "wal_inv v \<and> file_ok (wal_file v) \<and>
        (\<forall>i p. last_image (valid_records v) i = Some p \<longrightarrow> map_option content (page_at d i) = Some (content p))"
      using wal_inv_empty WAL_open_empty by (auto simp: w_def last_image_def file_ok_def empty_file_def)
  qed
  then show "logging_pool ?bp" by (simp add: logging_pool_def BufferPool_new_def)
  show "room ?bp = 2 ^ 32 - 1"
    unfolding w_def d_def WAL_open_empty by (simp add: room_def BufferPool_new_def DiskManager_open_def empty_file_def f_size_def)
  show "DiskPageCount ?bp = 0"
    by (simp add: d_def DiskPageCount_def NumPages_def BufferPool_new_def DiskManager_open_def empty_file_def f_size_def)
qed

lemma Database_open_new:
  assumes "34 \<le> k"
  shows "\<exists>db r. Database_open empty_file empty_file k = Inr db \<and> db_tree_is db 0 (BLeaf r []) \<and> 2 ^ 32 - 5 \<le> db_room db"
proof -
  let ?bp = "BufferPool_new k (DiskManager_open empty_file) (Some (WAL_open empty_file))"
  note P = empty_files_pool(1) empty_files_pool(2-4) [of k]
  have np: "lp.npins ?bp + 1 < cap ?bp" using assms by (simp add: lp.npins_def)
  have "4 \<le> room ?bp" unfolding P(3) by simp
  then obtain bp' m r c where C: "BTree_create pool_ops ?bp = (Inr \<lparr>metadata_page_id = m, catalog_managed = False, on_root_changed = None, root_page_id = r\<rparr>, bp')"
    "lp.ext 4 ?bp bp'" "unat m = ps_count pool_ops ?bp" "m \<noteq> r" "view bp' m = Some c" "meta_root_page_id c = r"
    "tree_of (view bp') r 0 (BLeaf r [])"
    by (rule lp.BTree_create_ok [OF P(2) np])
  have m: "m = 0" using C(3) P(4) by (simp add: unat_eq_zero)
  let ?db = "\<lparr>db_pool = bp', db_tree = \<lparr>metadata_page_id = 0, catalog_managed = False, on_root_changed = None, root_page_id = r\<rparr>\<rparr>"
  have "Database_open empty_file empty_file k = Inr ?db"
    using P(1,4) C(1) m by (simp add: Database_open_def BTree_new_def)
  moreover have "db_tree_is ?db 0 (BLeaf r [])" using C(2,4-7) m assms by (simp add: db_tree_is_def lp.ext_def)
  moreover have "2 ^ 32 - 5 \<le> db_room ?db" using C(2) P(3) by (simp add: db_room_def lp.ext_def)
  ultimately show ?thesis by blast
qed

end
