(* ===== verification/Database_Properties.thy ===== *)
theory Database_Properties
  imports Database
begin

text \<open>
  What the B+tree and the single-table database over it guarantee: the operations are those of a
  map from keys to values, whatever crashes happen between them, and the tree on the pages keeps
  its shape.
\<close>

section \<open>Instances\<close>

text \<open>A freshly opened database, and the files of one that stops between two operations.\<close>

lemma new_database: "34 \<le> k \<Longrightarrow> Database_open empty_file empty_file k = Inr db \<Longrightarrow>
    db_rep db (\<lambda>_. None) \<and> 2 ^ 32 - 5 \<le> db_room db"
  using Database_open_new [of k] by (fastforce simp: db_rep_def)

lemma a_database: "\<exists>db. Database_open empty_file empty_file 34 = Inr db \<and> db_rep db (\<lambda>_. None) \<and> 2 ^ 32 - 5 \<le> db_room db"
  using Database_open_new [of 34] new_database [of 34] by fastforce

lemma page_at_open [simp]: "page_at (DiskManager_open (dm_file d)) i = page_at d i"
  by (simp add: page_at_def ReadPage_def DiskManager_open_def)

lemma stopped_pool:
  assumes "logging_pool bp"
  shows "\<exists>w lf df. wal_manager bp = Some w \<and> after_crash bp w lf df"
proof -
  obtain w where w: "wal_manager bp = Some w" "pool_inv {} bp" using assms by (auto simp: logging_pool_def)
  let ?lf = "ftruncate (wal_file w) (next_offset w)" and ?d = "disk_manager bp"
  have "file_ok ?lf" using w by (simp add: pool_inv_def log_inv_def file_ok_def ftruncate_def)
  moreover have "\<not> record_ok (seg (next_offset w) WAL_RECORD_SIZE (f_bytes ?lf))"
    by (simp add: ftruncate_def seg_def record_ok_def layout_simps)
  moreover have "take (next_offset w) (f_bytes ?lf) = take (next_offset w) (f_bytes (wal_file w))"
    by (simp add: ftruncate_def)
  moreover have "file_ok (dm_file ?d)" "PAGE_SIZE dvd f_size (dm_file ?d)" "f_size (dm_file ?d) \<le> unat (next_page_id ?d) * PAGE_SIZE"
    using w(2) by (simp_all add: pool_inv_def disk_inv_def Let_def dm_ok_def aligned_def)
  ultimately have "after_crash bp w ?lf (dm_file ?d)" by (simp add: after_crash_def)
  then show ?thesis using w(1) by blast
qed

lemma stopped_database:
  assumes "db_rep db M" "op_cost < db_room db"
  shows "\<exists>f. db_crash db f"
proof -
  have "logging_pool (db_pool db)" using assms(1) by (auto simp: db_rep_def db_tree_is_def)
  then obtain w lf df where "wal_manager (db_pool db) = Some w" "after_crash (db_pool db) w lf df" using stopped_pool by blast
  then show ?thesis using assms(2) by (intro exI [of _ "(df, lf, 34)"]) (simp add: db_crash_def)
qed

text \<open>A database that binds one key.\<close>

lemma database_with_key: "\<exists>(db :: Database). db_rep db [7 \<mapsto> [1, 2]] \<and> op_cost < db_room db \<and> 2 * op_cost < db_room db"
proof -
  obtain db where db: "db_rep db (\<lambda>_. None)" "2 ^ 32 - 5 \<le> db_room db" using a_database by blast
  then have "op_cost < db_room db" by (simp add: op_cost_def)
  then obtain db' where db': "db_rep db' [7 \<mapsto> [1, 2]]" "db_room db \<le> db_room db' + op_cost"
    using db_step_ok [OF db(1), of "Put 7 [1, 2]"] by (auto simp: VALUE_SIZE_def db_guard_def)
  then show ?thesis using db(2) by (intro exI [of _ db']) (simp add: op_cost_def)
qed

section \<open>Single operations\<close>

text \<open>
  C5. Inserting into the B+tree of a database that holds the map \<open>M\<close> succeeds for every value of
  at most \<open>VALUE_SIZE\<close> bytes, splits and a new root included, and leaves a database that holds
  \<open>M\<close> with the key bound to the value.
\<close>
theorem BTree_Insert_refines:
  assumes "db_rep db M" "length v \<le> VALUE_SIZE" "op_cost < db_room db"
  shows "\<exists>t bp. BTree_Insert pool_ops k v (db_tree db) (db_pool db) = Some (Inr (), t, bp)
    \<and> db_rep \<lparr>db_pool = bp, db_tree = t\<rparr> (M(k \<mapsto> v))"
proof -
  obtain db' where "db_step (Put k v) db = Some (Inr Done, db')" "db_rep db' (M(k \<mapsto> v))"
    using db_step_ok [of db M "Put k v"] assms unfolding db_guard_def valid_op.simps kv_answer.simps kv_after.simps by blast
  then show ?thesis by (auto simp: map_sum_Inr_iff)
qed

theorem BTree_Insert_refines_witness:
  "\<exists>(db :: Database) t bp. BTree_Insert pool_ops 7 [1, 2] (db_tree db) (db_pool db) = Some (Inr (), t, bp)
    \<and> db_rep \<lparr>db_pool = bp, db_tree = t\<rparr> [7 \<mapsto> [1, 2]]"
proof -
  obtain db where "db_rep db (\<lambda>_. None)" "op_cost < db_room db" using a_database by (force simp: op_cost_def)
  then show ?thesis using BTree_Insert_refines [of db "\<lambda>_. None" "[1, 2]" 7] by (auto simp: VALUE_SIZE_def)
qed

text \<open>
  C13. Looking up a key returns the value the map has for it, or nothing, and the database still
  holds the same map.
\<close>
theorem BTree_Get_refines:
  assumes "db_rep db M" "op_cost < db_room db"
  shows "\<exists>bp. BTree_Get pool_ops k (db_tree db) (db_pool db) = Some (Inr (M k), bp) \<and> db_rep (db\<lparr>db_pool := bp\<rparr>) M"
proof -
  obtain db' where "db_step (Lookup k) db = Some (Inr (Found (M k)), db')" "db_rep db' M"
    using db_step_ok [of db M "Lookup k"] assms unfolding db_guard_def valid_op.simps kv_answer.simps kv_after.simps by blast
  then show ?thesis by (auto simp: map_sum_Inr_iff)
qed

theorem BTree_Get_refines_witness:
  "\<exists>(db :: Database) bp. BTree_Get pool_ops 7 (db_tree db) (db_pool db) = Some (Inr (Some [1, 2]), bp)
    \<and> BTree_Get pool_ops 8 (db_tree db) (db_pool db) \<noteq> None"
proof -
  obtain db where db: "db_rep db (\<lambda>_. None)" "2 ^ 32 - 5 \<le> db_room db" using a_database by blast
  then have "op_cost < db_room db" by (simp add: op_cost_def)
  then obtain db' where db': "db_rep db' [7 \<mapsto> [1, 2]]" "db_room db \<le> db_room db' + op_cost"
    using db_step_ok [OF db(1), of "Put 7 [1, 2]"] by (auto simp: VALUE_SIZE_def db_guard_def)
  then have "op_cost < db_room db'" using db(2) by (simp add: op_cost_def)
  note G = BTree_Get_refines [OF db'(1) this]
  show ?thesis using G [of 7] G [of 8] by auto
qed

text \<open>
  C14. Deleting a key reports whether the map had it, and leaves the map without it.
\<close>
theorem BTree_Delete_refines:
  assumes "db_rep db M" "op_cost < db_room db"
  shows "\<exists>bp. BTree_Delete pool_ops k (db_tree db) (db_pool db) = Some (Inr (M k \<noteq> None), bp)
    \<and> db_rep (db\<lparr>db_pool := bp\<rparr>) (M(k := None))"
proof -
  obtain db' where "db_step (Remove k) db = Some (Inr (Removed (M k \<noteq> None)), db')" "db_rep db' (M(k := None))"
    using db_step_ok [of db M "Remove k"] assms unfolding db_guard_def valid_op.simps kv_answer.simps kv_after.simps by blast
  then show ?thesis by (auto simp: map_sum_Inr_iff)
qed

theorem BTree_Delete_refines_witness:
  "\<exists>(db :: Database) bp. db_rep db [7 \<mapsto> [1, 2]] \<and> BTree_Delete pool_ops 7 (db_tree db) (db_pool db) = Some (Inr True, bp)
    \<and> db_rep (db\<lparr>db_pool := bp\<rparr>) (\<lambda>_. None)"
proof -
  obtain db where db: "db_rep db [7 \<mapsto> [1, 2]]" "op_cost < db_room db" using database_with_key by blast
  then show ?thesis using BTree_Delete_refines [OF db, of 7] by auto
qed

lemma sorted_entries_map_of:
  assumes "sorted_entries es"
  shows "map_of es k = Some v \<longleftrightarrow> (k, v) \<in> set es"
proof -
  have "distinct (map skey es)" using assms by (simp add: sorted_entries_def strict_sorted_iff)
  then have "distinct (map fst es)" unfolding distinct_map by (auto simp: inj_on_def)
  then show ?thesis by simp
qed

text \<open>
  C12. A range scan returns exactly the bindings of the map whose keys lie in the closed interval,
  each once and in increasing order of the signed keys, by walking the chain of leaves.
\<close>
theorem RangeScan_sorted_bindings:
  assumes "db_rep db M" "DiskPageCount (db_pool db) + 33 < db_room db"
  shows "\<exists>r bp. RangeScan pool_ops low high (db_tree db) (db_pool db) = Some (Inr r, bp)
    \<and> sorted_wrt (\<lambda>a b. sint (fst a) < sint (fst b)) r
    \<and> set r = {(k, v). M k = Some v \<and> sint low \<le> sint k \<and> sint k \<le> sint high}
    \<and> db_rep (db\<lparr>db_pool := bp\<rparr>) M"
proof -
  obtain n T where T: "db_tree_is db n T" "M = map_of (entries T)" using assms(1) by (auto simp: db_rep_def)
  note D = db_tree_isD [OF T(1)]
  have room: "n + 1 + length (leaf_ids T) < room (db_pool db)"
    using assms(2) lp.leaf_count_bound [OF D(1,5)] D(4) by (simp add: db_room_def)
  let ?r = "filter (in_range low high) (entries T)"
  obtain bp where bp: "RangeScan pool_ops low high (db_tree db) (db_pool db) = Some (Inr ?r, bp)"
    "lp.ext (n + 1 + length (leaf_ids T)) (db_pool db) bp" "view bp = view (db_pool db)"
    using lp.RangeScan_ok [OF D(1,5,7) room] by blast
  have sorted: "sorted_entries (entries T)" by (rule tree_of_sorted [OF D(5)])
  then have "sorted_wrt (\<lambda>a b. sint (fst a) < sint (fst b)) ?r"
    unfolding sorted_entries_def by (intro sorted_wrt_filter) (simp add: sorted_wrt_map)
  moreover have "set ?r = {(k, v). M k = Some v \<and> sint low \<le> sint k \<and> sint k \<le> sint high}"
    unfolding T(2) using sorted_entries_map_of [OF sorted] by auto
  moreover have "db_tree_is (db\<lparr>db_pool := bp\<rparr>) n T" using T(1) bp(2,3) by (simp add: db_tree_is_def lp.ext_def)
  ultimately show ?thesis using bp(1) T(2) unfolding db_rep_def by blast
qed

theorem RangeScan_sorted_bindings_witness:
  "\<exists>(db :: Database) r bp. RangeScan pool_ops 5 9 (db_tree db) (db_pool db) = Some (Inr r, bp) \<and> set r = {(7, [1, 2])}"
proof -
  obtain db where db: "db_rep db (\<lambda>_. None)" "2 ^ 32 - 5 \<le> db_room db" using a_database by blast
  then have "op_cost < db_room db" by (simp add: op_cost_def)
  then obtain db' where db': "db_rep db' [7 \<mapsto> [1, 2]]" "db_room db \<le> db_room db' + op_cost"
    using db_step_ok [OF db(1), of "Put 7 [1, 2]"] by (auto simp: VALUE_SIZE_def db_guard_def)
  have "DiskPageCount (db_pool db') + db_room db' < 2 ^ 32"
    using unat_bound [of "next_page_id (disk_manager (db_pool db'))"] by (simp add: DiskPageCount_def NumPages_def db_room_def room_def)
  then have "DiskPageCount (db_pool db') + 33 < db_room db'" using db(2) db'(2) by (simp add: op_cost_def)
  from RangeScan_sorted_bindings [OF db'(1) this, of 5 9] obtain r bp where
    r: "RangeScan pool_ops 5 9 (db_tree db') (db_pool db') = Some (Inr r, bp)"
    "set r = {(k, v). [7 \<mapsto> [1, 2]] k = Some v \<and> sint (5 :: i64) \<le> sint k \<and> sint k \<le> sint (9 :: i64)}" by blast
  then have "set r = {(7, [1, 2])}" by (auto split: if_splits)
  then show ?thesis using r(1) by blast
qed

text \<open>
  C40. The length limit of values, to the byte: a value of at most \<open>VALUE_SIZE\<close> bytes is inserted and a
  lookup afterwards returns it whole; a longer one is refused with \<open>std::invalid_argument\<close> before any page is
  touched, the tree object and the pool are as they were, and lookups find what they found before. Other keys are not affected either way.
\<close>
theorem BTree_Insert_value_limit:
  assumes "db_rep db M" "2 * op_cost < db_room db"
  shows "\<exists>t bp bp'. BTree_Insert pool_ops k v (db_tree db) (db_pool db) =
      Some (if length v \<le> VALUE_SIZE then Inr () else Inl (InvalidArgument ''BTree::Insert: value exceeds VALUE_SIZE''), t, bp)
    \<and> (VALUE_SIZE < length v \<longrightarrow> t = db_tree db \<and> bp = db_pool db)
    \<and> BTree_Get pool_ops j t bp = Some (Inr (if j = k \<and> length v \<le> VALUE_SIZE then Some v else M j), bp')"
proof (cases "length v \<le> VALUE_SIZE")
  case True
  obtain db' where P: "db_step (Put k v) db = Some (Inr Done, db')" "db_rep db' (M(k \<mapsto> v))" "db_room db \<le> db_room db' + op_cost"
    using db_step_ok [of db M "Put k v"] assms True unfolding db_guard_def valid_op.simps kv_answer.simps kv_after.simps by auto
  then obtain t bp where I: "BTree_Insert pool_ops k v (db_tree db) (db_pool db) = Some (Inr (), t, bp)" "db' = \<lparr>db_pool = bp, db_tree = t\<rparr>"
    by (auto simp: map_sum_Inr_iff)
  have "op_cost < db_room db'" using assms(2) P(3) by simp
  then obtain db'' where "db_step (Lookup j) db' = Some (Inr (Found ((M(k \<mapsto> v)) j)), db'')"
    using db_step_ok [OF P(2), of "Lookup j"] unfolding db_guard_def valid_op.simps kv_answer.simps kv_after.simps by blast
  then obtain bp' where "BTree_Get pool_ops j t bp = Some (Inr ((M(k \<mapsto> v)) j), bp')" using I(2) by (auto simp: map_sum_Inr_iff)
  then show ?thesis using I(1) True by auto
next
  case False
  have "op_cost < db_room db" using assms(2) by simp
  then obtain db'' where "db_step (Lookup j) db = Some (Inr (Found (M j)), db'')"
    using db_step_ok [OF assms(1), of "Lookup j"] unfolding db_guard_def valid_op.simps kv_answer.simps kv_after.simps by blast
  then obtain bp' where "BTree_Get pool_ops j (db_tree db) (db_pool db) = Some (Inr (M j), bp')" by (auto simp: map_sum_Inr_iff)
  then show ?thesis using False by (simp add: BTree_Insert_def)
qed

theorem BTree_Insert_value_limit_witness:
  "\<exists>(db :: Database) t bp bp' bp''. db_rep db [7 \<mapsto> [1, 2]]
    \<and> BTree_Insert pool_ops 7 (replicate 120 1) (db_tree db) (db_pool db) = Some (Inr (), t, bp)
    \<and> BTree_Get pool_ops 7 t bp = Some (Inr (Some (replicate 120 1)), bp')
    \<and> BTree_Insert pool_ops 7 (replicate 121 1) (db_tree db) (db_pool db) =
        Some (Inl (InvalidArgument ''BTree::Insert: value exceeds VALUE_SIZE''), db_tree db, db_pool db)
    \<and> BTree_Get pool_ops 7 (db_tree db) (db_pool db) = Some (Inr (Some [1, 2]), bp'')"
proof -
  obtain db where db: "db_rep db [7 \<mapsto> [1, 2]]" "2 * op_cost < db_room db" using database_with_key by blast
  obtain v w :: "byte list" where v: "v = replicate 120 1" "w = replicate 121 1" by blast
  have len: "length v \<le> VALUE_SIZE" "VALUE_SIZE < length w" unfolding v by (simp_all add: VALUE_SIZE_def)
  obtain t bp bp' where A: "BTree_Insert pool_ops 7 v (db_tree db) (db_pool db) = Some (Inr (), t, bp)"
    "BTree_Get pool_ops 7 t bp = Some (Inr (Some v), bp')"
    using BTree_Insert_value_limit [OF db, of 7 v 7] len(1) by auto
  obtain bp'' where B: "BTree_Insert pool_ops 7 w (db_tree db) (db_pool db) =
      Some (Inl (InvalidArgument ''BTree::Insert: value exceeds VALUE_SIZE''), db_tree db, db_pool db)"
    "BTree_Get pool_ops 7 (db_tree db) (db_pool db) = Some (Inr (Some [1, 2]), bp'')"
    using BTree_Insert_value_limit [OF db, of 7 w 7] len(2) by auto
  show ?thesis using db(1) A B unfolding v by blast
qed

section \<open>Histories\<close>

text \<open>
  C4. The database refines a map. Start from empty files and perform any operations with values
  of at most \<open>VALUE_SIZE\<close> bytes, with the process stopping and reopening its files between
  operations any number of times: every answer is the one the map gives, and the database ends up
  holding the map. (An operation may be asked while \<open>op_cost\<close> page ids and LSNs are left.)
\<close>
theorem database_refines_map:
  assumes "Database_open empty_file empty_file k = Inr db" "34 \<le> k"
    and "history db_step db_guard db_crash db_reopen db n h db'"
  shows "\<exists>M. spec_run kv_spec (\<lambda>_. None) h M \<and> db_rep db' M"
  using db.history_refines [OF assms(3)] new_database [OF assms(2,1)] by blast

theorem database_refines_map_witness:
  "\<exists>db h db'. history db_step db_guard db_crash db_reopen db 3 h db' \<and> h = [(Put 7 [1], Inr Done), (Lookup 7, Inr (Found (Some [1])))]
    \<and> (\<exists>M. spec_run kv_spec (\<lambda>_. None) h M \<and> db_rep db' M)"
proof -
  obtain db where db: "Database_open empty_file empty_file 34 = Inr db" "db_rep db (\<lambda>_. None)" "2 ^ 32 - 5 \<le> db_room db"
    using a_database by blast
  have g0: "db_guard (Put 7 [1]) db" using db(3) by (simp add: op_cost_def db_guard_def VALUE_SIZE_def)
  obtain db1 where s1: "db_step (Put 7 [1]) db = Some (Inr Done, db1)" "db_rep db1 [7 \<mapsto> [1]]" "db_room db \<le> db_room db1 + op_cost"
    using db_step_ok [OF db(2) g0] unfolding kv_answer.simps kv_after.simps by blast
  have r1: "op_cost < db_room db1" using db(3) s1(3) by (simp add: op_cost_def)
  obtain f where f: "db_crash db1 f" using stopped_database [OF s1(2) r1] by blast
  obtain db2 where s2: "db_reopen f = Inr db2" "db_rep db2 [7 \<mapsto> [1]]" "db_room db1 \<le> db_room db2 + op_cost"
    using db_reopen_ok [OF s1(2) f] by blast
  have g2: "db_guard (Lookup 7) db2" using db(3) s1(3) s2(3) by (simp add: op_cost_def db_guard_def)
  obtain db3 where s3: "db_step (Lookup 7) db2 = Some (Inr (Found (Some [1])), db3)"
    using db_step_ok [OF s2(2) g2] unfolding kv_answer.simps kv_after.simps by auto
  have "history db_step db_guard db_crash db_reopen db (Suc 0) ([] @ [(Put 7 [1], Inr Done)]) db1"
    by (rule history.answered, rule history.start, rule g0, rule s1(1))
  then have h1: "history db_step db_guard db_crash db_reopen db 1 [(Put 7 [1], Inr Done)] db1" by simp
  have h2: "history db_step db_guard db_crash db_reopen db 2 [(Put 7 [1], Inr Done)] db2"
    using history.restarted [OF h1 f s2(1)] by (simp add: numeral_2_eq_2)
  have h3: "history db_step db_guard db_crash db_reopen db 3 [(Put 7 [1], Inr Done), (Lookup 7, Inr (Found (Some [1])))] db3"
    using history.answered [OF h2 g2 s3] by (simp add: numeral_3_eq_3)
  then show ?thesis using database_refines_map [OF db(1) _ h3] by fastforce
qed

text \<open>
  C10. No such history is stuck: within the \<open>(2\<^sup>3\<^sup>2 - 5) / op_cost\<close> steps that the page ids are
  certain to last, the next operation is answered (the loops of the tree end, and no guard is
  invalid), and after a stop the files can be opened again.
\<close>
theorem database_never_stuck:
  assumes "Database_open empty_file empty_file k = Inr db" "34 \<le> k"
    and "history db_step db_guard db_crash db_reopen db n h db'" "Suc n * op_cost < 2 ^ 32 - 5"
  shows "(valid_op q \<longrightarrow> (\<exists>a db''. db_step q db' = Some (Inr a, db''))) \<and> (db_crash db' f \<longrightarrow> (\<exists>db''. db_reopen f = Inr db''))"
proof -
  have db: "db_rep db (\<lambda>_. None)" "Suc n * op_cost < db_room db"
    using new_database [OF assms(2,1)] assms(4) by auto
  then have cost: "op_cost < db_room db'" using db.history_budget [OF assms(3) db(1)] by simp
  obtain M where "db_rep db' M" using db.history_refines [OF assms(3) db(1)] by blast
  moreover have "db_guard q db'" if "valid_op q" using that cost by (simp add: db_guard_def)
  ultimately show ?thesis using db_step_ok db_reopen_ok by blast
qed

theorem database_never_stuck_witness:
  "\<exists>db f a db' db''. Database_open empty_file empty_file 34 = Inr db
    \<and> db_step (Remove 3) db = Some (Inr a, db') \<and> db_crash db f \<and> db_reopen f = Inr db''"
proof -
  obtain db where db: "Database_open empty_file empty_file 34 = Inr db" "db_rep db (\<lambda>_. None)" "2 ^ 32 - 5 \<le> db_room db"
    using a_database by blast
  then have "op_cost < db_room db" by (simp add: op_cost_def)
  then obtain f where f: "db_crash db f" using stopped_database [OF db(2)] by blast
  have "Suc 0 * op_cost < 2 ^ 32 - 5" by (simp add: op_cost_def)
  then have "(\<exists>a db'. db_step (Remove 3) db = Some (Inr a, db')) \<and> (\<exists>db'. db_reopen f = Inr db')"
    using database_never_stuck [OF db(1) _ history.start, of "Remove 3" f] f by (simp del: db_step.simps)
  then show ?thesis using db(1) f by blast
qed

text \<open>
  C11. The tree on the pages stays balanced: at every moment between operations all leaves have
  the same depth, nodes hold no more cells than their pages have room for, and keys are within
  the separators above them; so with 32-bit page ids the depth never exceeds 32, and the 34
  frames of the smallest pool considered are always enough for a path and a split.
\<close>
theorem tree_stays_balanced:
  assumes "Database_open empty_file empty_file k = Inr db" "34 \<le> k"
    and "history db_step db_guard db_crash db_reopen db n h db'"
  shows "\<exists>d T. tree_of (view (db_pool db')) (root_page_id (db_tree db')) d T \<and> wf_tree d (- (2 ^ 63)) (2 ^ 63) T
    \<and> d \<le> 32 \<and> 2 ^ d \<le> length (leaf_ids T) \<and> d + 2 \<le> cap (db_pool db')"
proof -
  obtain M where "db_rep db' M"
    using db.history_refines [OF assms(3)] new_database [OF assms(2,1)] by blast
  then obtain d T where T: "db_tree_is db' d T" by (auto simp: db_rep_def)
  note D = db_tree_isD [OF T]
  have "wf_tree d (- (2 ^ 63)) (2 ^ 63) T" using D(5) forest_single unfolding tree_of_def by blast
  moreover from this have "2 ^ d \<le> length (leaf_ids T)" by (rule wf_tree_leaf_count)
  ultimately show ?thesis using D(2-5) by (intro exI [of _ d] exI [of _ T]) simp
qed

theorem tree_stays_balanced_witness:
  "\<exists>(db :: Database) db' d T. Database_open empty_file empty_file 34 = Inr db
    \<and> history db_step db_guard db_crash db_reopen db 1 [(Put 7 [1], Inr Done)] db' \<and> db_rep db' [7 \<mapsto> [1]]
    \<and> tree_of (view (db_pool db')) (root_page_id (db_tree db')) d T \<and> wf_tree d (- (2 ^ 63)) (2 ^ 63) T \<and> 2 ^ d \<le> length (leaf_ids T)"
proof -
  obtain db where db: "Database_open empty_file empty_file 34 = Inr db" "db_rep db (\<lambda>_. None)" "2 ^ 32 - 5 \<le> db_room db"
    using a_database by blast
  have g: "db_guard (Put 7 [1]) db" using db(3) by (simp add: op_cost_def db_guard_def VALUE_SIZE_def)
  obtain db' where s: "db_step (Put 7 [1]) db = Some (Inr Done, db')" "db_rep db' [7 \<mapsto> [1]]"
    using db_step_ok [OF db(2) g] unfolding kv_answer.simps kv_after.simps by blast
  have "history db_step db_guard db_crash db_reopen db (Suc 0) ([] @ [(Put 7 [1], Inr Done)]) db'"
    by (rule history.answered, rule history.start, rule g, rule s(1))
  then have h: "history db_step db_guard db_crash db_reopen db 1 [(Put 7 [1], Inr Done)] db'" by simp
  from tree_stays_balanced [OF db(1) _ h] show ?thesis using db(1) h s(2) by auto
qed

text \<open>
  C9. Durability of the tree: stop a database between two operations, leave its files as a crash
  may leave them, and open them again: the new database holds the same map.
\<close>
theorem database_survives_crash:
  assumes "db_rep db M" "wal_manager (db_pool db) = Some w" "after_crash (db_pool db) w log_file data_file"
    and "34 \<le> k" "op_cost < db_room db"
  shows "\<exists>db'. Database_open data_file log_file k = Inr db' \<and> db_rep db' M"
  using db_reopen_ok [OF assms(1), of "(data_file, log_file, k)"] assms(2-5)
  by (auto simp: db_crash_def db_reopen_def)

theorem database_survives_crash_witness:
  "\<exists>db df lf k db'. db_rep db [7 \<mapsto> [1]] \<and> db_crash db (df, lf, k) \<and> Database_open df lf k = Inr db' \<and> db_rep db' [7 \<mapsto> [1]]"
proof -
  obtain db where db: "db_rep db (\<lambda>_. None)" "2 ^ 32 - 5 \<le> db_room db" using a_database by blast
  then have "op_cost < db_room db" by (simp add: op_cost_def)
  then obtain db' where db': "db_rep db' [7 \<mapsto> [1]]" "db_room db \<le> db_room db' + op_cost"
    using db_step_ok [OF db(1), of "Put 7 [1]"] by (auto simp: VALUE_SIZE_def db_guard_def)
  then have room: "op_cost < db_room db'" using db(2) by (simp add: op_cost_def)
  obtain df lf k where f: "db_crash db' (df, lf, k)" using stopped_database [OF db'(1) room] by (metis prod_cases3)
  then obtain w where "wal_manager (db_pool db') = Some w" "after_crash (db_pool db') w lf df" "34 \<le> k"
    by (auto simp: db_crash_def)
  then show ?thesis using database_survives_crash [OF db'(1) _ _ _ room] db'(1) f by blast
qed

end
