(* ===== verification/Catalog_Page.thy ===== *)
theory Catalog_Page
  imports Cell_Array Row_Codec Pool_Invariant
begin

text \<open>
  The layout of the catalog page (\<open>catalog_page.h\<close>) and the conversions of \<open>catalog.cpp\<close> between its
  entries and schemas. An entry of the table array, and within it an entry of the column array, is
  its bytes; its members are fields of those bytes.
\<close>

section \<open>Layout\<close>

definition MAX_CATALOG_TABLES :: nat where
  "MAX_CATALOG_TABLES = 8"

definition MAX_CATALOG_COLUMNS :: nat where
  "MAX_CATALOG_COLUMNS = 8"

definition CATALOG_TABLE_NAME_LEN :: nat where
  "CATALOG_TABLE_NAME_LEN = 32"

definition CATALOG_COLUMN_NAME_LEN :: nat where
  "CATALOG_COLUMN_NAME_LEN = 24"

definition CatalogColumnEntry_size :: nat where
  "CatalogColumnEntry_size = CATALOG_COLUMN_NAME_LEN + 8"

definition CatalogTableEntry_size :: nat where
  "CatalogTableEntry_size = CATALOG_TABLE_NAME_LEN + 8 + MAX_CATALOG_COLUMNS * CatalogColumnEntry_size + 16"

definition CATALOG_BODY_OFFSET :: nat where
  "CATALOG_BODY_OFFSET = PageHeader_size"

declare MAX_CATALOG_TABLES_def [layout_simps] MAX_CATALOG_COLUMNS_def [layout_simps]
  CATALOG_TABLE_NAME_LEN_def [layout_simps] CATALOG_COLUMN_NAME_LEN_def [layout_simps]
  CatalogColumnEntry_size_def [layout_simps] CatalogTableEntry_size_def [layout_simps] CATALOG_BODY_OFFSET_def [layout_simps]

text \<open>\<open>name.assign(chars, strnlen(chars, n))\<close>, on the \<open>n\<close> characters.\<close>
definition strn :: "byte list \<Rightarrow> string" where
  "strn bs = map char_of_byte (takeWhile (\<lambda>b. b \<noteq> 0) bs)"

subsection \<open>\<open>CatalogColumnEntry\<close>\<close>

definition ce_name :: "byte list \<Rightarrow> string" where
  "ce_name e = strn (seg 0 CATALOG_COLUMN_NAME_LEN e)"

definition ce_type :: "byte list \<Rightarrow> byte" where
  "ce_type e = get_field 24 1 e"

definition ce_is_primary_key :: "byte list \<Rightarrow> byte" where
  "ce_is_primary_key e = get_field 25 1 e"

definition ColumnDefFromEntry :: "byte list \<Rightarrow> ColumnDef" where
  "ColumnDefFromEntry e =
     \<lparr>cd_name = ce_name e, cd_type = (if ce_type e = 0 then kInteger else kText), is_primary_key = (ce_is_primary_key e \<noteq> 0)\<rparr>"

definition FillColumnEntry :: "ColumnDef \<Rightarrow> byte list" where
  "FillColumnEntry c =
     put_field 25 1 (if is_primary_key c then 1 else 0 :: byte)
       (put_field 24 1 (if cd_type c = kInteger then 0 else 1 :: byte)
         (patch 0 (map byte_of_char (cd_name c)) (replicate CatalogColumnEntry_size 0)))"

subsection \<open>\<open>CatalogTableEntry\<close>\<close>

definition te_table_name :: "byte list \<Rightarrow> string" where
  "te_table_name e = strn (seg 0 CATALOG_TABLE_NAME_LEN e)"

definition te_num_columns :: "byte list \<Rightarrow> byte" where
  "te_num_columns e = get_field 32 1 e"

definition te_in_use :: "byte list \<Rightarrow> byte" where
  "te_in_use e = get_field 33 1 e"

definition te_column :: "nat \<Rightarrow> byte list \<Rightarrow> byte list" where
  "te_column c e = seg (40 + c * CatalogColumnEntry_size) CatalogColumnEntry_size e"

definition te_root_page_id :: "byte list \<Rightarrow> page_id_t" where
  "te_root_page_id e = get_field 296 4 e"

definition set_te_root_page_id :: "page_id_t \<Rightarrow> byte list \<Rightarrow> byte list" where
  "set_te_root_page_id r e = put_field 296 4 r e"

definition te_row_count :: "byte list \<Rightarrow> u64" where
  "te_row_count e = get_field 304 8 e"

definition set_te_row_count :: "u64 \<Rightarrow> byte list \<Rightarrow> byte list" where
  "set_te_row_count n e = put_field 304 8 n e"

text \<open>The loop over the columns in \<open>CreateTable\<close>.\<close>
fun fill_columns :: "nat \<Rightarrow> ColumnDef list \<Rightarrow> byte list \<Rightarrow> byte list" where
  "fill_columns i [] e = e"
| "fill_columns i (c # cs) e = fill_columns (Suc i) cs (patch (40 + i * CatalogColumnEntry_size) (FillColumnEntry c) e)"

text \<open>The entry \<open>CreateTable\<close> writes over its slot.\<close>
definition new_table_entry :: "string \<Rightarrow> ColumnDef list \<Rightarrow> page_id_t \<Rightarrow> byte list" where
  "new_table_entry name cols root =
     set_te_row_count 0 (set_te_root_page_id root
       (fill_columns 0 cols
         (put_field 33 1 (1 :: byte) (put_field 32 1 (of_nat (length cols) :: byte)
           (patch 0 (map byte_of_char name) (replicate CatalogTableEntry_size 0))))))"

text \<open>The schema the constructor reads from an entry.\<close>
definition schema_of_entry :: "byte list \<Rightarrow> TableSchema" where
  "schema_of_entry e =
     \<lparr>table_name = te_table_name e, columns = map (\<lambda>c. ColumnDefFromEntry (te_column c e)) [0..<unat (te_num_columns e)]\<rparr>"

subsection \<open>\<open>CatalogBody\<close>\<close>

definition num_tables :: "page \<Rightarrow> u32" where
  "num_tables p = get_field CATALOG_BODY_OFFSET 4 p"

definition set_num_tables :: "u32 \<Rightarrow> page \<Rightarrow> page" where
  "set_num_tables n p = put_field CATALOG_BODY_OFFSET 4 n p"

abbreviation tables_base :: nat where
  "tables_base \<equiv> 32"

definition table_entry :: "nat \<Rightarrow> page \<Rightarrow> byte list" where
  "table_entry i p = cell tables_base CatalogTableEntry_size i p"

definition set_table_entry :: "nat \<Rightarrow> byte list \<Rightarrow> page \<Rightarrow> page" where
  "set_table_entry i e p = patch (tables_base + i * CatalogTableEntry_size) e p"

interpretation tables: cell_array tables_base CatalogTableEntry_size MAX_CATALOG_TABLES
  by unfold_locales (simp_all add: layout_simps)

section \<open>Entries of the page\<close>

lemma length_table_entry [simp]:
  "wf_page p \<Longrightarrow> i < MAX_CATALOG_TABLES \<Longrightarrow> length (table_entry i p) = CatalogTableEntry_size"
  by (simp add: table_entry_def)

lemma table_entry_set:
  assumes "wf_page p" "i < MAX_CATALOG_TABLES" "j < MAX_CATALOG_TABLES" "length e = CatalogTableEntry_size"
  shows "table_entry j (set_table_entry i e p) = (if j = i then e else table_entry j p)"
  using tables.cell_write [OF assms(1-3), of 0 e] assms tables.length_cell [OF assms(1,2)]
  by (simp add: table_entry_def set_table_entry_def patch_all)

lemma wf_set_table_entry [simp]:
  "wf_page p \<Longrightarrow> i < MAX_CATALOG_TABLES \<Longrightarrow> length e = CatalogTableEntry_size \<Longrightarrow> wf_page (set_table_entry i e p)"
  using tables.wf_write [of p i 0 e] by (simp add: set_table_entry_def)

lemma wf_set_num_tables [simp]: "wf_page p \<Longrightarrow> wf_page (set_num_tables n p)"
  by (simp add: set_num_tables_def wf_page_def layout_simps)

lemma table_entry_set_num_tables [simp]:
  "wf_page p \<Longrightarrow> i < MAX_CATALOG_TABLES \<Longrightarrow> table_entry i (set_num_tables n p) = table_entry i p"
  unfolding table_entry_def set_num_tables_def by (rule tables.cell_put_below) (simp_all add: layout_simps)

lemma table_entry_set_page_type [simp]:
  "wf_page p \<Longrightarrow> i < MAX_CATALOG_TABLES \<Longrightarrow> table_entry i (set_page_type t p) = table_entry i p"
  unfolding table_entry_def set_page_type_def by (rule tables.cell_put_below) simp_all

lemma table_entry_set_page_id [simp]:
  "wf_page p \<Longrightarrow> i < MAX_CATALOG_TABLES \<Longrightarrow> table_entry i (set_page_id t p) = table_entry i p"
  unfolding table_entry_def set_page_id_def by (rule tables.cell_put_below) simp_all

lemma table_entry_content [simp]:
  "wf_page p \<Longrightarrow> i < MAX_CATALOG_TABLES \<Longrightarrow> table_entry i (content p) = table_entry i p"
  using tables.cell_fits [of i] by (simp add: table_entry_def cell_def content_def seg_stamped)

text \<open>The stamps of the log and the disk manager do not touch the body.\<close>

lemma content_patch:
  assumes "wf_page p" "17 \<le> off" "off + length ys \<le> PAGE_SIZE"
  shows "content (patch off ys (content p)) = content (patch off ys p)"
proof -
  have p: "length p = 4096" "off + length ys \<le> 4096" using assms by (simp_all add: wf_page_def PAGE_SIZE_def)
  have "patch off ys (content p) = content (patch off ys p)"
    using p assms(2) unfolding content_def set_lsn_def set_checksum_def put_field_def by (simp add: patch_commute)
  moreover have "wf_page (patch off ys p)" using assms by (simp add: wf_page_def)
  ultimately show ?thesis by simp
qed

lemma content_set_table_entry:
  assumes "wf_page p" "i < MAX_CATALOG_TABLES" "length e = CatalogTableEntry_size"
  shows "content (set_table_entry i e (content p)) = content (set_table_entry i e p)"
  using content_patch [OF assms(1), of "tables_base + i * CatalogTableEntry_size" e] tables.cell_fits [OF assms(2)] assms(3)
  by (simp add: set_table_entry_def)

lemma table_entry_put:
  assumes "wf_page p" "i < MAX_CATALOG_TABLES" "j < MAX_CATALOG_TABLES" "length e = CatalogTableEntry_size"
  shows "table_entry j (content (set_table_entry i e p)) = (if j = i then e else table_entry j p)"
  using table_entry_content [of "set_table_entry i e p" j] table_entry_set [OF assms] assms by simp

section \<open>Members of an entry\<close>

lemma length_FillColumnEntry [simp]:
  "length (cd_name c) < CATALOG_COLUMN_NAME_LEN \<Longrightarrow> length (FillColumnEntry c) = CatalogColumnEntry_size"
  by (simp add: FillColumnEntry_def layout_simps)

lemma set_te_simps [simp]:
  assumes "length e = CatalogTableEntry_size"
  shows "length (set_te_root_page_id r e) = CatalogTableEntry_size" "length (set_te_row_count n e) = CatalogTableEntry_size"
    "te_root_page_id (set_te_root_page_id r e) = r" "te_row_count (set_te_row_count n e) = n"
    "te_row_count (set_te_root_page_id r e) = te_row_count e" "te_root_page_id (set_te_row_count n e) = te_root_page_id e"
    "te_in_use (set_te_root_page_id r e) = te_in_use e" "te_in_use (set_te_row_count n e) = te_in_use e"
  using assms
  by (simp_all add: set_te_root_page_id_def set_te_row_count_def te_root_page_id_def te_row_count_def te_in_use_def
      get_put_field get_put_field_other layout_simps)

lemma te_prefix_cong:
  assumes "seg 0 296 e = seg 0 296 e'" "unat (te_num_columns e) \<le> MAX_CATALOG_COLUMNS"
  shows "schema_of_entry e = schema_of_entry e'" "te_in_use e = te_in_use e'" "te_num_columns e = te_num_columns e'"
proof -
  have s: "seg a n e = seg a n e'" if "a + n \<le> 296" for a n
    using that arg_cong [OF assms(1), of "seg a n"] by (simp add: seg_seg)
  show n: "te_num_columns e = te_num_columns e'" and "te_in_use e = te_in_use e'"
    by (simp_all add: te_num_columns_def te_in_use_def get_field_def s)
  have "te_column c e = te_column c e'" if "c < unat (te_num_columns e)" for c
    using that assms(2) unfolding te_column_def by (intro s) (simp add: layout_simps)
  then show "schema_of_entry e = schema_of_entry e'"
    unfolding schema_of_entry_def te_table_name_def using n by (simp add: s layout_simps)
qed

lemma schema_set_te [simp]:
  assumes "length e = CatalogTableEntry_size" "unat (te_num_columns e) \<le> MAX_CATALOG_COLUMNS"
  shows "schema_of_entry (set_te_root_page_id r e) = schema_of_entry e" "schema_of_entry (set_te_row_count n e) = schema_of_entry e"
    "te_num_columns (set_te_root_page_id r e) = te_num_columns e" "te_num_columns (set_te_row_count n e) = te_num_columns e"
proof -
  have "seg 0 296 e = seg 0 296 (set_te_root_page_id r e)" "seg 0 296 e = seg 0 296 (set_te_row_count n e)"
    using assms(1) by (simp_all add: set_te_root_page_id_def set_te_row_count_def seg_put_field_other layout_simps)
  from this [THEN te_prefix_cong(1), OF assms(2)] this [THEN te_prefix_cong(3), OF assms(2)]
  show "schema_of_entry (set_te_root_page_id r e) = schema_of_entry e" "schema_of_entry (set_te_row_count n e) = schema_of_entry e"
    "te_num_columns (set_te_root_page_id r e) = te_num_columns e" "te_num_columns (set_te_row_count n e) = te_num_columns e"
    by simp_all
qed

section \<open>A schema read back from its entry\<close>

text \<open>A name that fits its slot and does not contain the character that ends it.\<close>
definition storable_name :: "nat \<Rightarrow> string \<Rightarrow> bool" where
  "storable_name n s \<longleftrightarrow> length s < n \<and> CHR 0x00 \<notin> set s"

lemma byte_of_char_0: "byte_of_char c = 0 \<longleftrightarrow> c = CHR 0x00"
proof -
  have "byte_of_char (CHR 0x00) = 0" by (simp add: byte_of_char_def)
  moreover have "c = d" if "byte_of_char c = byte_of_char d" for d using char_of_byte_of_char that by metis
  ultimately show ?thesis by metis
qed

lemma strn_padded:
  assumes "CHR 0x00 \<notin> set s"
  shows "strn (map byte_of_char s @ replicate k 0) = s"
proof -
  have "\<forall>b \<in> set (map byte_of_char s). b \<noteq> 0" using assms byte_of_char_0 by auto
  then have "takeWhile (\<lambda>b. b \<noteq> 0) (map byte_of_char s @ replicate k 0) = map byte_of_char s"
    by (subst takeWhile_append2) (auto simp: takeWhile_replicate)
  then show ?thesis by (simp add: strn_def char_of_byte_of_char map_idI)
qed

lemma patch_zeros_0: "length ys \<le> n \<Longrightarrow> patch 0 ys (replicate n 0) = ys @ replicate (n - length ys) 0"
  by (simp add: patch_def)

lemma ColumnDefFromEntry_Fill:
  assumes "storable_name CATALOG_COLUMN_NAME_LEN (cd_name c)"
  shows "ColumnDefFromEntry (FillColumnEntry c) = c"
proof -
  let ?n = "map byte_of_char (cd_name c)" and ?e = "FillColumnEntry c"
  have len: "length (cd_name c) < 24" using assms by (simp add: storable_name_def layout_simps)
  have "seg 0 24 ?e = seg 0 24 (patch 0 ?n (replicate 32 0))"
    using len unfolding FillColumnEntry_def by (simp add: seg_put_field_other layout_simps)
  also have "\<dots> = ?n @ replicate (24 - length ?n) 0"
    using len by (simp add: patch_zeros_0 seg_def)
  finally have "ce_name ?e = cd_name c"
    using assms by (simp add: ce_name_def strn_padded storable_name_def layout_simps)
  moreover have "ce_type ?e = (if cd_type c = kInteger then 0 else 1)" "ce_is_primary_key ?e = (if is_primary_key c then 1 else 0)"
    using len unfolding ce_type_def ce_is_primary_key_def FillColumnEntry_def
    by (simp_all add: get_put_field get_put_field_other layout_simps)
  ultimately show ?thesis by (cases "cd_type c") (simp_all add: ColumnDefFromEntry_def)
qed

lemma fill_columns_spec:
  assumes "\<forall>c \<in> set cs. length (cd_name c) < CATALOG_COLUMN_NAME_LEN" "i + length cs \<le> MAX_CATALOG_COLUMNS"
    and "length e = CatalogTableEntry_size"
  shows "length (fill_columns i cs e) = CatalogTableEntry_size \<and> seg 0 40 (fill_columns i cs e) = seg 0 40 e
    \<and> (\<forall>j < i. te_column j (fill_columns i cs e) = te_column j e)
    \<and> (\<forall>j < length cs. te_column (i + j) (fill_columns i cs e) = FillColumnEntry (cs ! j))"
  using assms
proof (induction cs arbitrary: i e)
  case (Cons c cs)
  let ?e = "patch (40 + i * CatalogColumnEntry_size) (FillColumnEntry c) e"
  have fits: "40 + i * CatalogColumnEntry_size + CatalogColumnEntry_size \<le> CatalogTableEntry_size"
    using Cons.prems(2) by (simp add: layout_simps)
  have lc: "length (FillColumnEntry c) = CatalogColumnEntry_size" using Cons.prems(1) by simp
  have le: "length ?e = CatalogTableEntry_size" using Cons.prems(3) fits lc by simp
  have head: "seg 0 40 ?e = seg 0 40 e"
    using fits lc Cons.prems(3) by (intro seg_patch_other) (simp_all add: layout_simps)
  have this_col: "te_column i ?e = FillColumnEntry c"
    using fits lc Cons.prems(3) by (simp add: te_column_def)
  have below: "te_column j ?e = te_column j e" if "j < i" for j
    using that fits lc Cons.prems(3) unfolding te_column_def by (intro seg_patch_other) (simp_all add: layout_simps)
  have IH: "length (fill_columns (Suc i) cs ?e) = CatalogTableEntry_size" "seg 0 40 (fill_columns (Suc i) cs ?e) = seg 0 40 ?e"
    "\<And>j. j < Suc i \<Longrightarrow> te_column j (fill_columns (Suc i) cs ?e) = te_column j ?e"
    "\<And>j. j < length cs \<Longrightarrow> te_column (Suc i + j) (fill_columns (Suc i) cs ?e) = FillColumnEntry (cs ! j)"
    using Cons.IH [of "Suc i" ?e] Cons.prems(1,2) le by simp_all
  have "te_column (i + j) (fill_columns (Suc i) cs ?e) = FillColumnEntry ((c # cs) ! j)" if "j < length (c # cs)" for j
    using that IH(3) [of i] IH(4) [of "j - 1"] this_col by (cases j) simp_all
  then show ?case using IH(1-3) head below by simp
qed simp

text \<open>What the constructor reads from a table's entry is the schema \<open>CreateTable\<close> was given.\<close>

lemma new_table_entry_spec:
  fixes root :: page_id_t
  assumes "storable_name CATALOG_TABLE_NAME_LEN name" "length cols \<le> MAX_CATALOG_COLUMNS"
    and "\<forall>c \<in> set cols. storable_name CATALOG_COLUMN_NAME_LEN (cd_name c)"
  defines "e \<equiv> new_table_entry name cols root"
  shows "length e = CatalogTableEntry_size" "te_in_use e = 1" "te_num_columns e = of_nat (length cols)"
    "te_root_page_id e = root" "te_row_count e = 0" "schema_of_entry e = \<lparr>table_name = name, columns = cols\<rparr>"
proof -
  let ?z = "patch 0 (map byte_of_char name) (replicate CatalogTableEntry_size 0)"
  let ?a = "put_field 33 1 (1 :: byte) (put_field 32 1 (of_nat (length cols) :: byte) ?z)"
  let ?f = "fill_columns 0 cols ?a"
  have n: "length name < 32" "length cols \<le> 8" using assms(1,2) by (simp_all add: storable_name_def layout_simps)
  have la: "length ?a = CatalogTableEntry_size" using n by (simp add: layout_simps)
  have "\<forall>c \<in> set cols. length (cd_name c) < CATALOG_COLUMN_NAME_LEN" using assms(3) by (simp add: storable_name_def)
  then have f: "length ?f = CatalogTableEntry_size" "seg 0 40 ?f = seg 0 40 ?a"
    "\<And>j. j < length cols \<Longrightarrow> te_column j ?f = FillColumnEntry (cols ! j)"
    using fill_columns_spec [of cols 0 ?a] assms(2) la by simp_all
  have e: "e = set_te_row_count 0 (set_te_root_page_id root ?f)" by (simp add: e_def new_table_entry_def)
  show "length e = CatalogTableEntry_size" "te_root_page_id e = root" "te_row_count e = 0" using f(1) by (simp_all add: e)
  have sub: "seg a k ?f = seg a k ?a" if "a + k \<le> 40" for a k
    using that arg_cong [OF f(2), of "seg a k"] by (simp add: seg_seg)
  have "te_in_use ?f = get_field 33 1 ?a" "te_num_columns ?f = get_field 32 1 ?a"
    unfolding te_in_use_def te_num_columns_def get_field_def by (subst sub; simp)+
  then have use: "te_in_use ?f = 1" "te_num_columns ?f = of_nat (length cols)"
    using n by (simp_all add: get_put_field get_put_field_other layout_simps)
  have num: "unat (te_num_columns ?f) = length cols" using use(2) n by (simp add: unat_of_nat_byte)
  then have cap: "unat (te_num_columns ?f) \<le> MAX_CATALOG_COLUMNS" using n by (simp add: layout_simps)
  have e1: "length (set_te_root_page_id root ?f) = CatalogTableEntry_size" "unat (te_num_columns (set_te_root_page_id root ?f)) \<le> MAX_CATALOG_COLUMNS"
    using f(1) cap by simp_all
  show "te_in_use e = 1" "te_num_columns e = of_nat (length cols)" using use f(1) cap e1 by (simp_all add: e)
  have "seg 0 32 ?f = seg 0 32 ?z"
    using n by (subst sub) (simp_all add: seg_put_field_other layout_simps)
  also have "\<dots> = map byte_of_char name @ replicate (32 - length name) 0"
    using n by (simp add: patch_zeros_0 seg_def layout_simps)
  finally have "te_table_name ?f = name"
    using assms(1) by (simp add: te_table_name_def strn_padded storable_name_def layout_simps)
  moreover have "map (\<lambda>c. ColumnDefFromEntry (te_column c ?f)) [0..<length cols] = cols"
    using f(3) assms(3) by (intro nth_equalityI) (simp_all add: ColumnDefFromEntry_Fill)
  ultimately have "schema_of_entry ?f = \<lparr>table_name = name, columns = cols\<rparr>"
    unfolding schema_of_entry_def num by simp
  then show "schema_of_entry e = \<lparr>table_name = name, columns = cols\<rparr>" using f(1) cap e1 by (simp add: e)
qed

end
