(* ===== verification/Catalog.thy ===== *)
theory Catalog
  imports Catalog_Page Btree
begin

text \<open>
  The catalog (\<open>catalog.h\<close>, \<open>catalog.cpp\<close>): the tables of a multi-table database. Its in-memory state
  is one handle per slot of the catalog page; a handle's \<open>RowCodec\<close> is determined by its schema, and
  the tree object is built when the table is first touched. A tree reports a new root by calling
  \<open>WriteRootPageId\<close> for its slot. Guards that the source does not check are dereferenced through
  \<open>with_page\<close>.
\<close>

section \<open>State\<close>

record 's TableHandle =
  th_in_use :: bool
  th_schema :: TableSchema
  th_tree :: "'s BTree option"

record 's Catalog =
  catalog_page_id :: page_id_t
  cat_tables :: "'s TableHandle list"

definition empty_handle :: "'s TableHandle" where
  "empty_handle = \<lparr>th_in_use = False, th_schema = \<lparr>table_name = '''', columns = []\<rparr>, th_tree = None\<rparr>"

section \<open>Opening\<close>

text \<open>
  The loop of the constructor over the entries of the page. More columns than the entry has room
  for would be read past the end of the array.
\<close>
fun load_handles :: "byte list list \<Rightarrow> 's TableHandle list res" where
  "load_handles [] = Inr []"
| "load_handles (e # es) =
     (if te_in_use e = 0 then map_sum id (\<lambda>hs. empty_handle # hs) (load_handles es)
      else if MAX_CATALOG_COLUMNS < unat (te_num_columns e) then Inl (UndefinedBehaviour ''entry.columns[c]'')
      else map_sum id (\<lambda>hs. \<lparr>th_in_use = True, th_schema = schema_of_entry e, th_tree = None\<rparr> # hs) (load_handles es))"

definition Catalog_new :: "'s page_store_ops \<Rightarrow> 's \<Rightarrow> 's Catalog res \<times> 's" where
  "Catalog_new ops s =
     (if ps_count ops s = 0 then
        (case ps_new ops s of
           (Inl e, s1) \<Rightarrow> (Inl e, s1)
         | (Inr None, s1) \<Rightarrow> (Inl (CatalogError ''buffer pool exhausted creating the catalog page''), s1)
         | (Inr (Some g), s1) \<Rightarrow>
             end_scope ops g
               (if g_page_id g \<noteq> 0 then (Inl (LogicError ''Catalog: must be the first thing constructed''), s1)
                else (Inr \<lparr>catalog_page_id = 0, cat_tables = replicate MAX_CATALOG_TABLES empty_handle\<rparr>,
                      ps_put ops g (set_page_type (page_type_code CATALOG) (ps_page ops g s1)) s1)))
      else
        (case ps_fetch ops 0 s of
           (Inl e, s1) \<Rightarrow> (Inl e, s1)
         | (Inr None, s1) \<Rightarrow> (Inl (CatalogError ''could not read the catalog page''), s1)
         | (Inr (Some g), s1) \<Rightarrow>
             end_scope ops g
               (map_sum id (\<lambda>hs. \<lparr>catalog_page_id = 0, cat_tables = hs\<rparr>)
                 (load_handles (map (\<lambda>i. table_entry i (ps_page ops g s1)) [0..<MAX_CATALOG_TABLES])), s1)))"

section \<open>Lookups\<close>

definition FindTableIndex :: "'s Catalog \<Rightarrow> string \<Rightarrow> int" where
  "FindTableIndex cat name =
     (case index_where (\<lambda>h. th_in_use h \<and> table_name (th_schema h) = name) (cat_tables cat) of
        None \<Rightarrow> - 1 | Some i \<Rightarrow> int i)"

definition TableExists :: "'s Catalog \<Rightarrow> string \<Rightarrow> bool" where
  "TableExists cat name \<longleftrightarrow> FindTableIndex cat name \<ge> 0"

definition GetSchema :: "'s Catalog \<Rightarrow> string \<Rightarrow> TableSchema res" where
  "GetSchema cat name =
     (let idx = FindTableIndex cat name
      in if idx < 0 then Inl (CatalogError ''no such table'') else Inr (th_schema (cat_tables cat ! nat idx)))"

definition TableNames :: "'s Catalog \<Rightarrow> string list" where
  "TableNames cat = map (\<lambda>h. table_name (th_schema h)) (filter th_in_use (cat_tables cat))"

section \<open>Creating a table\<close>

text \<open>The loop over the columns: how many are primary keys, and the last of them.\<close>
fun check_columns :: "nat \<Rightarrow> ColumnDef list \<Rightarrow> int \<Rightarrow> int \<Rightarrow> (int \<times> int) res" where
  "check_columns i [] pk_count pk_index = Inr (pk_count, pk_index)"
| "check_columns i (c # cs) pk_count pk_index =
     (if cd_name c = '''' \<or> CATALOG_COLUMN_NAME_LEN \<le> length (cd_name c)
      then Inl (CatalogError ''column name is empty or too long'')
      else if is_primary_key c then check_columns (Suc i) cs (pk_count + 1) (int i)
      else check_columns (Suc i) cs pk_count pk_index)"

text \<open>Everything \<open>CreateTable\<close> checks before it allocates: the slot it will use.\<close>
definition check_create :: "string \<Rightarrow> ColumnDef list \<Rightarrow> 's Catalog \<Rightarrow> nat res" where
  "check_create name cols cat =
     (if name = '''' \<or> CATALOG_TABLE_NAME_LEN \<le> length name then Inl (CatalogError ''table name is empty or too long'')
      else if TableExists cat name then Inl (CatalogError ''table already exists'')
      else if cols = [] \<or> MAX_CATALOG_COLUMNS < length cols then Inl (CatalogError ''wrong number of columns'')
      else
        (case check_columns 0 cols 0 (- 1) of
           Inl e \<Rightarrow> Inl e
         | Inr (pk_count, pk_index) \<Rightarrow>
             if pk_count \<noteq> 1 then Inl (CatalogError ''must have exactly one PRIMARY KEY column'')
             else if cd_type (cols ! nat pk_index) \<noteq> kInteger then Inl (CatalogError ''primary key column must be INTEGER'')
             else if VALUE_SIZE < EncodedSize \<lparr>table_name = name, columns = cols\<rparr>
               then Inl (CatalogError ''row exceeds VALUE_SIZE'')
             else
               (case index_where (\<lambda>h. \<not> th_in_use h) (cat_tables cat) of
                  None \<Rightarrow> Inl (CatalogError ''catalog is full'')
                | Some slot \<Rightarrow> Inr slot)))"

definition alloc_root :: "'s page_store_ops \<Rightarrow> 's \<Rightarrow> page_id_t res \<times> 's" where
  "alloc_root ops s =
     (case ps_new ops s of
        (Inl e, s1) \<Rightarrow> (Inl e, s1)
      | (Inr None, s1) \<Rightarrow> (Inl (CatalogError ''buffer pool exhausted allocating table root page''), s1)
      | (Inr (Some g), s1) \<Rightarrow> end_scope ops g (Inr (g_page_id g), ps_put ops g (init_leaf (ps_page ops g s1)) s1))"

definition write_entry :: "'s page_store_ops \<Rightarrow> page_id_t \<Rightarrow> nat \<Rightarrow> byte list \<Rightarrow> 's \<Rightarrow> unit res \<times> 's" where
  "write_entry ops pid slot e s =
     with_page ops pid s
       (\<lambda>g page s1. (Inr (), ps_put ops g (set_num_tables (num_tables page + 1) (set_table_entry slot e page)) s1))"

definition Catalog_CreateTable ::
  "'s page_store_ops \<Rightarrow> string \<Rightarrow> ColumnDef list \<Rightarrow> 's Catalog \<Rightarrow> 's \<Rightarrow> unit res \<times> 's Catalog \<times> 's" where
  "Catalog_CreateTable ops name cols cat s =
     (case check_create name cols cat of
        Inl e \<Rightarrow> (Inl e, cat, s)
      | Inr slot \<Rightarrow>
          (case alloc_root ops s of
             (Inl e, s1) \<Rightarrow> (Inl e, cat, s1)
           | (Inr root_id, s1) \<Rightarrow>
               (case write_entry ops (catalog_page_id cat) slot (new_table_entry name cols root_id) s1 of
                  (Inl e, s2) \<Rightarrow> (Inl e, cat, s2)
                | (Inr _, s2) \<Rightarrow>
                    (Inr (),
                     cat\<lparr>cat_tables := (cat_tables cat)[slot :=
                       \<lparr>th_in_use = True, th_schema = \<lparr>table_name = name, columns = cols\<rparr>, th_tree = None\<rparr>]\<rparr>,
                     s2))))"

section \<open>Rows\<close>

definition WriteRootPageId :: "'s page_store_ops \<Rightarrow> page_id_t \<Rightarrow> nat \<Rightarrow> page_id_t \<Rightarrow> 's \<Rightarrow> unit res \<times> 's" where
  "WriteRootPageId ops pid slot new_root s =
     with_page ops pid s
       (\<lambda>g page s1. (Inr (), ps_put ops g (set_table_entry slot (set_te_root_page_id new_root (table_entry slot page)) page) s1))"

definition BumpRowCount :: "'s page_store_ops \<Rightarrow> page_id_t \<Rightarrow> nat \<Rightarrow> 's \<Rightarrow> unit res \<times> 's" where
  "BumpRowCount ops pid slot s =
     with_page ops pid s
       (\<lambda>g page s1. (Inr (), ps_put ops g
          (set_table_entry slot (set_te_row_count (te_row_count (table_entry slot page) + 1) (table_entry slot page)) page) s1))"

definition set_tree :: "nat \<Rightarrow> 's BTree \<Rightarrow> 's Catalog \<Rightarrow> 's Catalog" where
  "set_tree slot t cat = cat\<lparr>cat_tables := (cat_tables cat)[slot := (cat_tables cat ! slot)\<lparr>th_tree := Some t\<rparr>]\<rparr>"

definition GetTable :: "'s page_store_ops \<Rightarrow> string \<Rightarrow> 's Catalog \<Rightarrow> 's \<Rightarrow> 's BTree res \<times> 's Catalog \<times> 's" where
  "GetTable ops name cat s =
     (let idx = FindTableIndex cat name; slot = nat idx
      in if idx < 0 then (Inl (CatalogError ''no such table''), cat, s)
         else
           (case th_tree (cat_tables cat ! slot) of
              Some t \<Rightarrow> (Inr t, cat, s)
            | None \<Rightarrow>
                (case with_page ops (catalog_page_id cat) s
                        (\<lambda>g page s1. (BTree_attach (te_root_page_id (table_entry slot page))
                           (Some (WriteRootPageId ops (catalog_page_id cat) slot)), s1)) of
                   (Inl e, s2) \<Rightarrow> (Inl e, cat, s2)
                 | (Inr t, s2) \<Rightarrow> (Inr t, set_tree slot t cat, s2))))"

text \<open>\<open>values[pk_index]\<close> is outside the vector when the schema has no primary key.\<close>
definition InsertRow ::
  "'s page_store_ops \<Rightarrow> string \<Rightarrow> Value list \<Rightarrow> 's Catalog \<Rightarrow> 's \<Rightarrow> (unit res \<times> 's Catalog \<times> 's) option" where
  "InsertRow ops name values cat s =
     (let idx = FindTableIndex cat name; slot = nat idx; schema = th_schema (cat_tables cat ! slot);
          pk_index = PrimaryKeyIndex schema
      in if idx < 0 then Some (Inl (CatalogError ''no such table''), cat, s)
         else if length values \<noteq> length (columns schema) then Some (Inl (CatalogError ''wrong number of values''), cat, s)
         else if pk_index < 0 then Some (Inl (UndefinedBehaviour ''values[pk_index]''), cat, s)
         else
           (case values ! nat pk_index of
              TextV _ \<Rightarrow> Some (Inl (CatalogError ''primary key value must be an integer''), cat, s)
            | IntV key \<Rightarrow>
                (case Encode schema values of
                   Inl e \<Rightarrow> Some (Inl e, cat, s)
                 | Inr blob \<Rightarrow>
                     (case GetTable ops name cat s of
                        (Inl e, cat1, s1) \<Rightarrow> Some (Inl e, cat1, s1)
                      | (Inr t, cat1, s1) \<Rightarrow>
                          Option.bind (BTree_Insert ops key blob t s1)
                            (\<lambda>(r, t', s2).
                               let cat2 = set_tree slot t' cat1
                               in case r of
                                    Inl e \<Rightarrow> Some (Inl e, cat2, s2)
                                  | Inr _ \<Rightarrow>
                                      (case BumpRowCount ops (catalog_page_id cat) slot s2 of
                                         (r', s3) \<Rightarrow> Some (r', cat2, s3)))))))"

definition INT64_MIN :: i64 where
  "INT64_MIN = 0x8000000000000000"

definition INT64_MAX :: i64 where
  "INT64_MAX = 0x7FFFFFFFFFFFFFFF"

fun decode_rows :: "TableSchema \<Rightarrow> (i64 \<times> byte list) list \<Rightarrow> Value list list res" where
  "decode_rows schema [] = Inr []"
| "decode_rows schema ((key, blob) # pairs) =
     (case Decode schema key blob of
        Inl e \<Rightarrow> Inl e
      | Inr row \<Rightarrow> map_sum id (\<lambda>rows. row # rows) (decode_rows schema pairs))"

definition ScanTable ::
  "'s page_store_ops \<Rightarrow> string \<Rightarrow> 's Catalog \<Rightarrow> 's \<Rightarrow> (Value list list res \<times> 's Catalog \<times> 's) option" where
  "ScanTable ops name cat s =
     (let idx = FindTableIndex cat name; slot = nat idx
      in if idx < 0 then Some (Inl (CatalogError ''no such table''), cat, s)
         else
           (case GetTable ops name cat s of
              (Inl e, cat1, s1) \<Rightarrow> Some (Inl e, cat1, s1)
            | (Inr t, cat1, s1) \<Rightarrow>
                Option.bind (RangeScan ops INT64_MIN INT64_MAX t s1)
                  (\<lambda>(r, s2).
                     case r of
                       Inl e \<Rightarrow> Some (Inl e, cat1, s2)
                     | Inr pairs \<Rightarrow> Some (decode_rows (th_schema (cat_tables cat ! slot)) pairs, cat1, s2))))"

definition EstimatedRowCount :: "'s page_store_ops \<Rightarrow> string \<Rightarrow> 's Catalog \<Rightarrow> 's \<Rightarrow> u64 res \<times> 's" where
  "EstimatedRowCount ops name cat s =
     (let idx = FindTableIndex cat name
      in if idx < 0 then (Inl (CatalogError ''no such table''), s)
         else with_page ops (catalog_page_id cat) s (\<lambda>g page s1. (Inr (te_row_count (table_entry (nat idx) page)), s1)))"

end
