(* ===== verification/Semantic.thy ===== *)
theory Semantic
  imports Catalog
begin

text \<open>
  Semantic validation of a parsed statement against the catalog (\<open>semantic.h\<close>, \<open>semantic.cpp\<close>).
\<close>

section \<open>Results in sequence\<close>

text \<open>A step that may throw, and what follows it.\<close>
definition and_then :: "'a res \<Rightarrow> ('a \<Rightarrow> 'b res) \<Rightarrow> 'b res" where
  "and_then r f = (case r of Inl e \<Rightarrow> Inl e | Inr x \<Rightarrow> f x)"

lemma and_then_simps [simp]: "and_then (Inl e) f = Inl e" "and_then (Inr x) f = f x"
  by (simp_all add: and_then_def)

lemma and_then_Inr: "and_then r f = Inr y \<longleftrightarrow> (\<exists>x. r = Inr x \<and> f x = Inr y)"
  by (cases r) simp_all

section \<open>Column references\<close>

text \<open>
  The map from the names of a query to schemas. It is only searched by name and counted over, so
  the order of its entries does not matter; \<open>add_table\<close> keeps the names apart.
\<close>
type_synonym AliasMap = "(string \<times> TableSchema) list"

definition tables_with :: "string \<Rightarrow> AliasMap \<Rightarrow> nat" where
  "tables_with column aliases = length (filter (\<lambda>(alias, schema). ColumnIndex schema column \<ge> 0) aliases)"

definition ValidateColumnRef :: "string option \<Rightarrow> string \<Rightarrow> AliasMap \<Rightarrow> unit res" where
  "ValidateColumnRef table column aliases =
     (case table of
        Some t \<Rightarrow>
          (case map_of aliases t of
             None \<Rightarrow> Inl (SemanticError ''unknown table or alias'')
           | Some schema \<Rightarrow> if ColumnIndex schema column < 0 then Inl (SemanticError ''no column in table'') else Inr ())
      | None \<Rightarrow>
          (let matches = tables_with column aliases
           in if matches = 0 then Inl (SemanticError ''no column in any table referenced by this query'')
              else if matches > 1 then Inl (SemanticError ''column is ambiguous'')
              else Inr ()))"

fun ValidateColumnRefsIn :: "Expr \<Rightarrow> AliasMap \<Rightarrow> unit res" where
  "ValidateColumnRefsIn (ColumnRefExpr table column) aliases = ValidateColumnRef table column aliases"
| "ValidateColumnRefsIn (LiteralExpr l) aliases = Inr ()"
| "ValidateColumnRefsIn (ComparisonExpr op l r) aliases =
     and_then (ValidateColumnRefsIn l aliases) (\<lambda>_. ValidateColumnRefsIn r aliases)"
| "ValidateColumnRefsIn (AndExpr l r) aliases =
     and_then (ValidateColumnRefsIn l aliases) (\<lambda>_. ValidateColumnRefsIn r aliases)"
| "ValidateColumnRefsIn (OrExpr l r) aliases =
     and_then (ValidateColumnRefsIn l aliases) (\<lambda>_. ValidateColumnRefsIn r aliases)"

section \<open>Statements\<close>

text \<open>The name a table goes by in a query.\<close>
definition ref_alias :: "TableRef \<Rightarrow> string" where
  "ref_alias ref = (case tr_alias ref of Some a \<Rightarrow> a | None \<Rightarrow> tr_table ref)"

definition add_table :: "'s Catalog \<Rightarrow> TableRef \<Rightarrow> AliasMap \<Rightarrow> AliasMap res" where
  "add_table cat ref aliases =
     (if \<not> TableExists cat (tr_table ref) then Inl (SemanticError ''no such table'')
      else if map_of aliases (ref_alias ref) \<noteq> None then Inl (SemanticError ''duplicate table name or alias'')
      else and_then (GetSchema cat (tr_table ref)) (\<lambda>schema. Inr (aliases @ [(ref_alias ref, schema)])))"

fun validate_joins :: "'s Catalog \<Rightarrow> JoinClause list \<Rightarrow> AliasMap \<Rightarrow> AliasMap res" where
  "validate_joins cat [] aliases = Inr aliases"
| "validate_joins cat (j # js) aliases =
     and_then (add_table cat (jc_table j) aliases) (\<lambda>aliases'.
       and_then (ValidateColumnRefsIn (on_condition j) aliases') (\<lambda>_. validate_joins cat js aliases'))"

definition ValidateSelectItem :: "SelectItem \<Rightarrow> AliasMap \<Rightarrow> unit res" where
  "ValidateSelectItem item aliases =
     (case si_table item of
        Some t \<Rightarrow>
          (case map_of aliases t of
             None \<Rightarrow> Inl (SemanticError ''unknown table or alias in SELECT list'')
           | Some schema \<Rightarrow>
               if ColumnIndex schema (si_column item) < 0 then Inl (SemanticError ''no column in table'') else Inr ())
      | None \<Rightarrow>
          (let matches = tables_with (si_column item) aliases
           in if matches = 0 then Inl (SemanticError ''no column in any table referenced by this query'')
              else if matches > 1 then Inl (SemanticError ''column in SELECT list is ambiguous'')
              else Inr ()))"

fun validate_items :: "SelectItem list \<Rightarrow> AliasMap \<Rightarrow> unit res" where
  "validate_items [] aliases = Inr ()"
| "validate_items (item # items) aliases =
     and_then (ValidateSelectItem item aliases) (\<lambda>_. validate_items items aliases)"

definition ValidateSelect :: "SelectStmt \<Rightarrow> 's Catalog \<Rightarrow> unit res" where
  "ValidateSelect stmt cat =
     and_then (add_table cat (from_table stmt) []) (\<lambda>a0.
       and_then (validate_joins cat (sel_joins stmt) a0) (\<lambda>aliases.
         and_then (if is_star stmt then Inr () else validate_items (select_items stmt) aliases) (\<lambda>_.
           (case sel_where stmt of None \<Rightarrow> Inr () | Some e \<Rightarrow> ValidateColumnRefsIn e aliases))))"

text \<open>The loop over an explicit column list; \<open>seen\<close> is the set of names it has met.\<close>
fun validate_insert_columns :: "TableSchema \<Rightarrow> string list \<Rightarrow> string set \<Rightarrow> unit res" where
  "validate_insert_columns schema [] seen = Inr ()"
| "validate_insert_columns schema (name # names) seen =
     (if ColumnIndex schema name < 0 then Inl (SemanticError ''no column in table'')
      else if name \<in> seen then Inl (SemanticError ''column is specified more than once'')
      else validate_insert_columns schema names (insert name seen))"

definition ValidateInsert :: "InsertStmt \<Rightarrow> 's Catalog \<Rightarrow> unit res" where
  "ValidateInsert stmt cat =
     (if \<not> TableExists cat (ins_table_name stmt) then Inl (SemanticError ''no such table'')
      else and_then (GetSchema cat (ins_table_name stmt)) (\<lambda>schema.
        if ins_columns stmt = [] then
          (if length (ins_values stmt) \<noteq> length (columns schema)
           then Inl (SemanticError ''INSERT: wrong number of values'') else Inr ())
        else if length (ins_columns stmt) \<noteq> length (columns schema)
          then Inl (SemanticError ''INSERT must name all columns'')
        else if length (ins_columns stmt) \<noteq> length (ins_values stmt)
          then Inl (SemanticError ''INSERT: column list and VALUES list have different lengths'')
        else validate_insert_columns schema (ins_columns stmt) {}))"

definition ValidateStatement :: "Statement \<Rightarrow> 's Catalog \<Rightarrow> unit res" where
  "ValidateStatement stmt cat =
     (case stmt of
        CreateTable _ \<Rightarrow> Inr ()
      | Insert st \<Rightarrow> ValidateInsert st cat
      | Select st \<Rightarrow> ValidateSelect st cat)"

end
