(* ===== verification/Logical_Plan.thy ===== *)
theory Logical_Plan
  imports Semantic
begin

text \<open>
  The logical plan of a query (\<open>logical_plan.h\<close>, \<open>logical_plan.cpp\<close>): its tables in textual order,
  joined to the left, under the filter and the projection.
\<close>

datatype LogicalNode =
    LogicalScan string string
  | LogicalFilter LogicalNode Expr
  | LogicalJoin LogicalNode LogicalNode Expr
  | LogicalProject LogicalNode bool "SelectItem list"

definition MakeScan :: "TableRef \<Rightarrow> LogicalNode" where
  "MakeScan ref = LogicalScan (tr_table ref) (ref_alias ref)"

text \<open>The loop over the join clauses.\<close>
definition logical_joins :: "JoinClause list \<Rightarrow> LogicalNode \<Rightarrow> LogicalNode" where
  "logical_joins joins plan = foldl (\<lambda>p j. LogicalJoin p (MakeScan (jc_table j)) (on_condition j)) plan joins"

definition BuildLogicalPlan :: "SelectStmt \<Rightarrow> LogicalNode" where
  "BuildLogicalPlan stmt =
     (let plan = logical_joins (sel_joins stmt) (MakeScan (from_table stmt));
          plan' = (case sel_where stmt of None \<Rightarrow> plan | Some e \<Rightarrow> LogicalFilter plan e)
      in LogicalProject plan' (is_star stmt) (select_items stmt))"

end
