(* ===== verification/Physical_Plan.thy ===== *)
theory Physical_Plan
  imports Logical_Plan Expr_Eval
begin

text \<open>
  Physical plans and the planner (\<open>physical_plan.h\<close>, \<open>physical_plan.cpp\<close>). A plan is the tree of
  iterators with the state each keeps between calls. An exception ends the execution that owns the
  plan, so an operation that throws returns no plan. The order in which \<open>equal_range\<close> of the hash
  join's multimap lists the rows of a key is left open by the language: it is the argument \<open>er\<close>,
  given the pairs put into the multimap and the key. \<open>Next\<close> loops, and is total on every plan that
  \<open>Open\<close> returns, which is shown.
\<close>

section \<open>Plans\<close>

datatype PhysicalPlan =
    PhysicalScan string string "Value list list" nat
  | PhysicalFilter PhysicalPlan Expr
  | PhysicalNestedLoopJoin PhysicalPlan PhysicalPlan Expr "ExecRow option" "ExecRow list" nat
  | PhysicalHashJoin PhysicalPlan PhysicalPlan "string option" string "string option" string
      "(Value \<times> ExecRow) list" "ExecRow list" nat "ExecRow option"
  | PhysicalProject PhysicalPlan bool "SelectItem list"

type_synonym equal_range = "(Value \<times> ExecRow) list \<Rightarrow> Value \<Rightarrow> ExecRow list"

text \<open>The constructors of the classes, with the state they start in.\<close>

definition new_scan :: "string \<Rightarrow> string \<Rightarrow> PhysicalPlan" where
  "new_scan table alias = PhysicalScan table alias [] 0"

definition new_nested_loop_join :: "PhysicalPlan \<Rightarrow> PhysicalPlan \<Rightarrow> Expr \<Rightarrow> PhysicalPlan" where
  "new_nested_loop_join left right condition = PhysicalNestedLoopJoin left right condition None [] 0"

definition new_hash_join ::
  "PhysicalPlan \<Rightarrow> PhysicalPlan \<Rightarrow> string option \<Rightarrow> string \<Rightarrow> string option \<Rightarrow> string \<Rightarrow> PhysicalPlan" where
  "new_hash_join build probe build_table build_column probe_table probe_column =
     PhysicalHashJoin build probe build_table build_column probe_table probe_column [] [] 0 None"

section \<open>Producing rows\<close>

text \<open>A row of a table as the executor sees it.\<close>
definition scan_row :: "string \<Rightarrow> TableSchema \<Rightarrow> Value list \<Rightarrow> ExecRow" where
  "scan_row alias schema vs =
     map (\<lambda>i. \<lparr>fd_table = alias, fd_column = cd_name (columns schema ! i), fd_value = vs ! i\<rparr>) [0..<length (columns schema)]"

definition scan_next :: "'s Catalog \<Rightarrow> string \<Rightarrow> string \<Rightarrow> Value list list \<Rightarrow> nat \<Rightarrow> (ExecRow option \<times> PhysicalPlan) res" where
  "scan_next cat table alias rows cursor =
     (if length rows \<le> cursor then Inr (None, PhysicalScan table alias rows cursor)
      else and_then (GetSchema cat table) (\<lambda>schema.
        if length (rows ! cursor) < length (columns schema) then Inl (UndefinedBehaviour ''values[i]'')
        else Inr (Some (scan_row alias schema (rows ! cursor)), PhysicalScan table alias rows (Suc cursor))))"

fun project_row :: "SelectItem list \<Rightarrow> ExecRow \<Rightarrow> ExecRow res" where
  "project_row [] row = Inr []"
| "project_row (item # items) row =
     and_then (Find row (si_table item) (si_column item)) (\<lambda>v.
       and_then (project_row items row) (\<lambda>fields.
         Inr (\<lparr>fd_table = (case si_table item of Some t \<Rightarrow> t | None \<Rightarrow> ''''),
               fd_column = (case si_alias item of Some a \<Rightarrow> a | None \<Rightarrow> si_column item),
               fd_value = v\<rparr> # fields)))"

text \<open>
  \<open>PhysicalHashJoin::Next\<close> looks the matches up when none are cached and the cursor is at the
  start.
\<close>
definition probe_matches ::
  "equal_range \<Rightarrow> string option \<Rightarrow> string \<Rightarrow> (Value \<times> ExecRow) list \<Rightarrow> ExecRow list \<Rightarrow> nat \<Rightarrow> ExecRow \<Rightarrow> ExecRow list res" where
  "probe_matches er probe_table probe_column m matches cursor probe =
     (if cursor = 0 \<and> matches = [] then and_then (Find probe probe_table probe_column) (\<lambda>key. Inr (er m key))
      else Inr matches)"

partial_function (option) Next ::
  "equal_range \<Rightarrow> 's Catalog \<Rightarrow> PhysicalPlan \<Rightarrow> (ExecRow option \<times> PhysicalPlan) res option"
where
  "Next er cat plan =
     (case plan of
        PhysicalScan table alias rows cursor \<Rightarrow> Some (scan_next cat table alias rows cursor)
      | PhysicalFilter input predicate \<Rightarrow>
          Option.bind (Next er cat input) (\<lambda>r.
            case r of
              Inl e \<Rightarrow> Some (Inl e)
            | Inr (None, input') \<Rightarrow> Some (Inr (None, PhysicalFilter input' predicate))
            | Inr (Some row, input') \<Rightarrow>
                (case EvalBool predicate row of
                   Inl e \<Rightarrow> Some (Inl e)
                 | Inr b \<Rightarrow>
                     if b then Some (Inr (Some row, PhysicalFilter input' predicate))
                     else Next er cat (PhysicalFilter input' predicate)))
      | PhysicalNestedLoopJoin left right condition current rights cursor \<Rightarrow>
          (case current of
             None \<Rightarrow> Some (Inr (None, plan))
           | Some l \<Rightarrow>
               if cursor < length rights then
                 (case EvalBool condition (l @ rights ! cursor) of
                    Inl e \<Rightarrow> Some (Inl e)
                  | Inr b \<Rightarrow>
                      if b then Some (Inr (Some (l @ rights ! cursor),
                        PhysicalNestedLoopJoin left right condition current rights (Suc cursor)))
                      else Next er cat (PhysicalNestedLoopJoin left right condition current rights (Suc cursor)))
               else
                 Option.bind (Next er cat left) (\<lambda>r.
                   case r of
                     Inl e \<Rightarrow> Some (Inl e)
                   | Inr (current', left') \<Rightarrow>
                       Next er cat (PhysicalNestedLoopJoin left' right condition current' rights 0)))
      | PhysicalHashJoin build probe btab bcol ptab pcol m matches cursor current \<Rightarrow>
          (case current of
             None \<Rightarrow> Some (Inr (None, plan))
           | Some p \<Rightarrow>
               (case probe_matches er ptab pcol m matches cursor p of
                  Inl e \<Rightarrow> Some (Inl e)
                | Inr ms \<Rightarrow>
                    if cursor < length ms then
                      Some (Inr (Some (p @ ms ! cursor),
                        PhysicalHashJoin build probe btab bcol ptab pcol m ms (Suc cursor) current))
                    else
                      Option.bind (Next er cat probe) (\<lambda>r.
                        case r of
                          Inl e \<Rightarrow> Some (Inl e)
                        | Inr (current', probe') \<Rightarrow>
                            Next er cat (PhysicalHashJoin build probe' btab bcol ptab pcol m [] 0 current'))))
      | PhysicalProject input star items \<Rightarrow>
          Option.bind (Next er cat input) (\<lambda>r.
            case r of
              Inl e \<Rightarrow> Some (Inl e)
            | Inr (None, input') \<Rightarrow> Some (Inr (None, PhysicalProject input' star items))
            | Inr (Some row, input') \<Rightarrow>
                Some (if star then Inr (Some row, PhysicalProject input' star items)
                      else and_then (project_row items row)
                             (\<lambda>projected. Inr (Some projected, PhysicalProject input' star items)))))"

text \<open>\<open>while ((r = plan->Next()).has_value()) rows.push_back(*r)\<close>\<close>
partial_function (option) drain ::
  "equal_range \<Rightarrow> 's Catalog \<Rightarrow> PhysicalPlan \<Rightarrow> ExecRow list \<Rightarrow> (ExecRow list \<times> PhysicalPlan) res option"
where
  "drain er cat plan acc =
     Option.bind (Next er cat plan) (\<lambda>r.
       case r of
         Inl e \<Rightarrow> Some (Inl e)
       | Inr (None, plan') \<Rightarrow> Some (Inr (acc, plan'))
       | Inr (Some row, plan') \<Rightarrow> drain er cat plan' (acc @ [row]))"

text \<open>The pairs \<open>PhysicalHashJoin::Open\<close> puts into its multimap while it drains the build side.\<close>
partial_function (option) drain_keyed ::
  "equal_range \<Rightarrow> 's Catalog \<Rightarrow> string option \<Rightarrow> string \<Rightarrow> PhysicalPlan \<Rightarrow> (Value \<times> ExecRow) list
    \<Rightarrow> ((Value \<times> ExecRow) list \<times> PhysicalPlan) res option"
where
  "drain_keyed er cat btab bcol plan m =
     Option.bind (Next er cat plan) (\<lambda>r.
       case r of
         Inl e \<Rightarrow> Some (Inl e)
       | Inr (None, plan') \<Rightarrow> Some (Inr (m, plan'))
       | Inr (Some row, plan') \<Rightarrow>
           (case Find row btab bcol of
              Inl e \<Rightarrow> Some (Inl e)
            | Inr key \<Rightarrow> drain_keyed er cat btab bcol plan' (m @ [(key, row)])))"

section \<open>Opening and closing\<close>

fun Close :: "PhysicalPlan \<Rightarrow> PhysicalPlan" where
  "Close (PhysicalScan table alias rows cursor) = PhysicalScan table alias [] 0"
| "Close (PhysicalFilter input predicate) = PhysicalFilter (Close input) predicate"
| "Close (PhysicalNestedLoopJoin left right c cur rights k) = PhysicalNestedLoopJoin (Close left) right c cur rights k"
| "Close (PhysicalHashJoin build probe btab bcol ptab pcol m ms k cur) = PhysicalHashJoin build (Close probe) btab bcol ptab pcol m ms k cur"
| "Close (PhysicalProject input star items) = PhysicalProject (Close input) star items"

text \<open>A step over the catalog and the pages below it that may throw, and what follows it.\<close>
type_synonym ('a, 's) step = "('a res \<times> 's Catalog \<times> 's) option"

definition step_then :: "('a, 's) step \<Rightarrow> ('a \<Rightarrow> 's Catalog \<Rightarrow> 's \<Rightarrow> ('b, 's) step) \<Rightarrow> ('b, 's) step" where
  "step_then m f =
     (case m of
        None \<Rightarrow> None
      | Some (Inl e, cat, s) \<Rightarrow> Some (Inl e, cat, s)
      | Some (Inr x, cat, s) \<Rightarrow> f x cat s)"

text \<open>A step that touches neither.\<close>
definition pure_step :: "'a res option \<Rightarrow> 's Catalog \<Rightarrow> 's \<Rightarrow> ('a, 's) step" where
  "pure_step m cat s = map_option (\<lambda>r. (r, cat, s)) m"

fun Open :: "equal_range \<Rightarrow> 's page_store_ops \<Rightarrow> PhysicalPlan \<Rightarrow> 's Catalog \<Rightarrow> 's \<Rightarrow> (PhysicalPlan, 's) step" where
  "Open er ops (PhysicalScan table alias rows cursor) cat s =
     step_then (ScanTable ops table cat s) (\<lambda>rows' cat s. Some (Inr (PhysicalScan table alias rows' 0), cat, s))"
| "Open er ops (PhysicalFilter input predicate) cat s =
     step_then (Open er ops input cat s) (\<lambda>input' cat s. Some (Inr (PhysicalFilter input' predicate), cat, s))"
| "Open er ops (PhysicalNestedLoopJoin left right condition current rights cursor) cat s =
     step_then (Open er ops left cat s) (\<lambda>left1 cat s.
     step_then (Open er ops right cat s) (\<lambda>right1 cat s.
     step_then (pure_step (drain er cat right1 []) cat s) (\<lambda>(rights', right2) cat s.
     step_then (pure_step (Next er cat left1) cat s) (\<lambda>(current', left2) cat s.
       Some (Inr (PhysicalNestedLoopJoin left2 (Close right2) condition current' rights' 0), cat, s)))))"
| "Open er ops (PhysicalHashJoin build probe btab bcol ptab pcol m matches cursor current) cat s =
     step_then (Open er ops build cat s) (\<lambda>build1 cat s.
     step_then (pure_step (drain_keyed er cat btab bcol build1 []) cat s) (\<lambda>(m', build2) cat s.
     step_then (Open er ops probe cat s) (\<lambda>probe1 cat s.
     step_then (pure_step (Next er cat probe1) cat s) (\<lambda>(current', probe2) cat s.
       Some (Inr (PhysicalHashJoin (Close build2) probe2 btab bcol ptab pcol m' [] 0 current'), cat, s)))))"
| "Open er ops (PhysicalProject input star items) cat s =
     step_then (Open er ops input cat s) (\<lambda>input' cat s. Some (Inr (PhysicalProject input' star items), cat, s))"

section \<open>Estimates\<close>

text \<open>
  The operands of a product or a sum are evaluated from left to right here; the language leaves
  the order open, and neither call changes what the other returns.
\<close>
fun EstimatedRows :: "'s page_store_ops \<Rightarrow> PhysicalPlan \<Rightarrow> 's Catalog \<Rightarrow> 's \<Rightarrow> u64 res \<times> 's" where
  "EstimatedRows ops (PhysicalScan table alias rows cursor) cat s = EstimatedRowCount ops table cat s"
| "EstimatedRows ops (PhysicalFilter input predicate) cat s = EstimatedRows ops input cat s"
| "EstimatedRows ops (PhysicalNestedLoopJoin left right c cur rights k) cat s =
     (case EstimatedRows ops left cat s of
        (Inl e, s1) \<Rightarrow> (Inl e, s1)
      | (Inr a, s1) \<Rightarrow>
          (case EstimatedRows ops right cat s1 of
             (Inl e, s2) \<Rightarrow> (Inl e, s2)
           | (Inr b, s2) \<Rightarrow> (Inr (a * b), s2)))"
| "EstimatedRows ops (PhysicalHashJoin build probe btab bcol ptab pcol m ms k cur) cat s =
     (case EstimatedRows ops build cat s of
        (Inl e, s1) \<Rightarrow> (Inl e, s1)
      | (Inr a, s1) \<Rightarrow>
          (case EstimatedRows ops probe cat s1 of
             (Inl e, s2) \<Rightarrow> (Inl e, s2)
           | (Inr b, s2) \<Rightarrow> (Inr (a + b), s2)))"
| "EstimatedRows ops (PhysicalProject input star items) cat s = EstimatedRows ops input cat s"

section \<open>The planner\<close>

text \<open>A base table with the condition that introduced it, which the first table does not have.\<close>
record TableNode =
  tn_table :: string
  tn_alias :: string
  join_condition :: "Expr option"

fun CollectReferencedTables :: "Expr \<Rightarrow> string set \<Rightarrow> string set" where
  "CollectReferencedTables (ColumnRefExpr table column) out = (case table of Some t \<Rightarrow> insert t out | None \<Rightarrow> out)"
| "CollectReferencedTables (ComparisonExpr op l r) out = CollectReferencedTables r (CollectReferencedTables l out)"
| "CollectReferencedTables (AndExpr l r) out = CollectReferencedTables r (CollectReferencedTables l out)"
| "CollectReferencedTables (OrExpr l r) out = CollectReferencedTables r (CollectReferencedTables l out)"
| "CollectReferencedTables (LiteralExpr l) out = out"

text \<open>The two columns of a condition \<open>column = column\<close>.\<close>
fun ExtractEquiJoin :: "Expr \<Rightarrow> ((string option \<times> string) \<times> (string option \<times> string)) option" where
  "ExtractEquiJoin (ComparisonExpr kEq (ColumnRefExpr ta ca) (ColumnRefExpr tb cb)) = Some ((ta, ca), (tb, cb))"
| "ExtractEquiJoin _ = None"

text \<open>The right side of a join is cast to a scan without looking.\<close>
fun FlattenJoins :: "LogicalNode \<Rightarrow> TableNode list res" where
  "FlattenJoins (LogicalScan table alias) = Inr [\<lparr>tn_table = table, tn_alias = alias, join_condition = None\<rparr>]"
| "FlattenJoins (LogicalJoin left right condition) =
     and_then (FlattenJoins left) (\<lambda>nodes.
       case right of
         LogicalScan table alias \<Rightarrow>
           Inr (nodes @ [\<lparr>tn_table = table, tn_alias = alias, join_condition = Some condition\<rparr>])
       | _ \<Rightarrow> Inl (UndefinedBehaviour ''static_cast<const LogicalScan*>''))"
| "FlattenJoins _ = Inl (LogicError ''FlattenJoins: expected only Scan/Join nodes'')"

text \<open>Whether a table's condition refers to nothing but itself and the tables joined already.\<close>
definition connected :: "TableNode \<Rightarrow> string set \<Rightarrow> bool res" where
  "connected node joined =
     (case join_condition node of
        None \<Rightarrow> Inl (UndefinedBehaviour ''*nodes[i].join_condition'')
      | Some c \<Rightarrow> Inr (\<forall>r \<in> CollectReferencedTables c {} - {tn_alias node}. r \<in> joined))"

text \<open>The loop over \<open>i\<close> that looks for the smallest connected table.\<close>
fun pick_loop ::
  "'s page_store_ops \<Rightarrow> TableNode list \<Rightarrow> bool list \<Rightarrow> string set \<Rightarrow> nat list \<Rightarrow> int \<Rightarrow> u64 \<Rightarrow> 's Catalog \<Rightarrow> 's \<Rightarrow> int res \<times> 's" where
  "pick_loop ops nodes consumed joined [] best_idx best_rows cat s = (Inr best_idx, s)"
| "pick_loop ops nodes consumed joined (i # is) best_idx best_rows cat s =
     (if consumed ! i then pick_loop ops nodes consumed joined is best_idx best_rows cat s
      else
        (case connected (nodes ! i) joined of
           Inl e \<Rightarrow> (Inl e, s)
         | Inr b \<Rightarrow>
             if \<not> b then pick_loop ops nodes consumed joined is best_idx best_rows cat s
             else
               (case EstimatedRowCount ops (tn_table (nodes ! i)) cat s of
                  (Inl e, s1) \<Rightarrow> (Inl e, s1)
                | (Inr rows, s1) \<Rightarrow>
                    if best_idx < 0 \<or> rows < best_rows
                    then pick_loop ops nodes consumed joined is (int i) rows cat s1
                    else pick_loop ops nodes consumed joined is best_idx best_rows cat s1)))"

text \<open>The table to join next: the smallest connected one, or else the next one in textual order.\<close>
definition pick_next ::
  "'s page_store_ops \<Rightarrow> TableNode list \<Rightarrow> bool list \<Rightarrow> string set \<Rightarrow> 's Catalog \<Rightarrow> 's \<Rightarrow> nat res \<times> 's" where
  "pick_next ops nodes consumed joined cat s =
     (case pick_loop ops nodes consumed joined [1..<length nodes] (- 1) 0 cat s of
        (Inl e, s1) \<Rightarrow> (Inl e, s1)
      | (Inr best_idx, s1) \<Rightarrow>
          if best_idx < 0 then
            (case index_where (\<lambda>i. 0 < i \<and> \<not> consumed ! i) [0..<length nodes] of
               Some i \<Rightarrow> (Inr i, s1)
             | None \<Rightarrow> (Inl (UndefinedBehaviour ''nodes[-1]''), s1))
          else (Inr (nat best_idx), s1))"

definition UINT64_MAX :: u64 where
  "UINT64_MAX = 0xFFFFFFFFFFFFFFFF"

text \<open>The join of the accumulated plan with a new table, by the estimates of both.\<close>
definition choose_join :: "PhysicalPlan \<Rightarrow> u64 \<Rightarrow> TableNode \<Rightarrow> u64 \<Rightarrow> Expr \<Rightarrow> PhysicalPlan" where
  "choose_join accumulated left_rows next right_rows condition =
     (let right_scan = new_scan (tn_table next) (tn_alias next);
          nested = new_nested_loop_join accumulated right_scan condition;
          equi = ExtractEquiJoin condition;
          nested_cost = left_rows * right_rows;
          hash_cost = (if equi \<noteq> None then left_rows + right_rows else UINT64_MAX)
      in case equi of
           None \<Rightarrow> nested
         | Some (a, b) \<Rightarrow>
             if hash_cost \<le> nested_cost then
               (let sides = (if fst a = Some (tn_alias next) then Some (a, b)
                             else if fst b = Some (tn_alias next) then Some (b, a)
                             else None)
                in case sides of
                     None \<Rightarrow> nested
                   | Some (next_ref, acc_ref) \<Rightarrow>
                       if left_rows \<le> right_rows
                       then new_hash_join accumulated right_scan (fst acc_ref) (snd acc_ref) (fst next_ref) (snd next_ref)
                       else new_hash_join right_scan accumulated (fst next_ref) (snd next_ref) (fst acc_ref) (snd acc_ref))
             else nested)"

text \<open>The while loop, by the number of tables that remain.\<close>
fun join_tables ::
  "'s page_store_ops \<Rightarrow> TableNode list \<Rightarrow> nat \<Rightarrow> PhysicalPlan \<Rightarrow> string set \<Rightarrow> bool list \<Rightarrow> 's Catalog \<Rightarrow> 's \<Rightarrow> PhysicalPlan res \<times> 's" where
  "join_tables ops nodes 0 accumulated joined consumed cat s = (Inr accumulated, s)"
| "join_tables ops nodes (Suc remaining) accumulated joined consumed cat s =
     (case pick_next ops nodes consumed joined cat s of
        (Inl e, s1) \<Rightarrow> (Inl e, s1)
      | (Inr best, s1) \<Rightarrow>
          (case EstimatedRowCount ops (tn_table (nodes ! best)) cat s1 of
             (Inl e, s2) \<Rightarrow> (Inl e, s2)
           | (Inr right_rows, s2) \<Rightarrow>
               (case EstimatedRows ops accumulated cat s2 of
                  (Inl e, s3) \<Rightarrow> (Inl e, s3)
                | (Inr left_rows, s3) \<Rightarrow>
                    (case join_condition (nodes ! best) of
                       None \<Rightarrow> (Inl (UndefinedBehaviour ''*condition''), s3)
                     | Some condition \<Rightarrow>
                         join_tables ops nodes remaining
                           (choose_join accumulated left_rows (nodes ! best) right_rows condition)
                           (insert (tn_alias (nodes ! best)) joined) (consumed[best := True]) cat s3))))"

definition BuildPhysicalPlan :: "'s page_store_ops \<Rightarrow> LogicalNode \<Rightarrow> 's Catalog \<Rightarrow> 's \<Rightarrow> PhysicalPlan res \<times> 's" where
  "BuildPhysicalPlan ops logical_plan cat s =
     (case logical_plan of
        LogicalProject input star items \<Rightarrow>
          (let (predicate, join_tree_root) =
             (case input of LogicalFilter input' e \<Rightarrow> (Some e, input') | _ \<Rightarrow> (None, input))
           in case FlattenJoins join_tree_root of
                Inl e \<Rightarrow> (Inl e, s)
              | Inr nodes \<Rightarrow>
                  (case join_tables ops nodes (length nodes - 1) (new_scan (tn_table (nodes ! 0)) (tn_alias (nodes ! 0)))
                          {tn_alias (nodes ! 0)} ((replicate (length nodes) False)[0 := True]) cat s of
                     (Inl e, s1) \<Rightarrow> (Inl e, s1)
                   | (Inr accumulated, s1) \<Rightarrow>
                       (let plan = (case predicate of Some e \<Rightarrow> PhysicalFilter accumulated e | None \<Rightarrow> accumulated)
                        in (Inr (PhysicalProject plan star items), s1))))
      | _ \<Rightarrow> (Inl (LogicError ''BuildPhysicalPlan: expected a Project node at the plan root''), s))"

end
