(* ===== verification/Engine.thy ===== *)
theory Engine
  imports Physical_Plan Parser Database
begin

text \<open>
  The SQL engine (\<open>engine.h\<close>, \<open>engine.cpp\<close>): the files, the recovered pool and the catalog, and the
  execution of one statement from its text to its result.
\<close>

record QueryResult =
  column_names :: "string list"
  res_rows :: "Value list list"

definition no_rows :: QueryResult where
  "no_rows = \<lparr>column_names = [], res_rows = []\<rparr>"

section \<open>Statements\<close>

definition ExecuteCreateTable :: "'s page_store_ops \<Rightarrow> CreateTableStmt \<Rightarrow> 's Catalog \<Rightarrow> 's \<Rightarrow> unit res \<times> 's Catalog \<times> 's" where
  "ExecuteCreateTable ops stmt cat s = Catalog_CreateTable ops (ct_table_name stmt) (ct_columns stmt) cat s"

text \<open>The loop over an explicit column list.\<close>
fun place_values :: "TableSchema \<Rightarrow> string list \<Rightarrow> Literal list \<Rightarrow> Value list \<Rightarrow> Value list res" where
  "place_values schema [] lits vs = Inr vs"
| "place_values schema (c # cs) [] vs = Inl (UndefinedBehaviour ''stmt.values[i]'')"
| "place_values schema (c # cs) (l # ls) vs =
     (let idx = ColumnIndex schema c
      in if idx < 0 then Inl (UndefinedBehaviour ''values[idx]'')
         else place_values schema cs ls (vs[nat idx := LiteralToValue l]))"

definition insert_values :: "InsertStmt \<Rightarrow> TableSchema \<Rightarrow> Value list res" where
  "insert_values stmt schema =
     (let n = length (columns schema); vs = replicate n (IntV 0)
      in if ins_columns stmt = [] then
           (if length (ins_values stmt) < n then Inl (UndefinedBehaviour ''stmt.values[i]'')
            else Inr (map LiteralToValue (take n (ins_values stmt))))
         else place_values schema (ins_columns stmt) (ins_values stmt) vs)"

definition ExecuteInsert ::
  "'s page_store_ops \<Rightarrow> InsertStmt \<Rightarrow> 's Catalog \<Rightarrow> 's \<Rightarrow> (unit res \<times> 's Catalog \<times> 's) option" where
  "ExecuteInsert ops stmt cat s =
     (case and_then (GetSchema cat (ins_table_name stmt)) (insert_values stmt) of
        Inl e \<Rightarrow> Some (Inl e, cat, s)
      | Inr vs \<Rightarrow> InsertRow ops (ins_table_name stmt) vs cat s)"

text \<open>The loop that pulls the rows; the names come from the first.\<close>
partial_function (option) collect_rows ::
  "equal_range \<Rightarrow> 's Catalog \<Rightarrow> PhysicalPlan \<Rightarrow> bool \<Rightarrow> QueryResult \<Rightarrow> (QueryResult \<times> PhysicalPlan) res option"
where
  "collect_rows er cat plan first_row result =
     Option.bind (Next er cat plan) (\<lambda>r.
       case r of
         Inl e \<Rightarrow> Some (Inl e)
       | Inr (None, plan') \<Rightarrow> Some (Inr (result, plan'))
       | Inr (Some row, plan') \<Rightarrow>
           collect_rows er cat plan' False
             \<lparr>column_names = (if first_row then map fd_column row else column_names result),
              res_rows = res_rows result @ [map fd_value row]\<rparr>)"

definition ExecuteSelect :: "equal_range \<Rightarrow> 's page_store_ops \<Rightarrow> SelectStmt \<Rightarrow> 's Catalog \<Rightarrow> 's \<Rightarrow> (QueryResult, 's) step" where
  "ExecuteSelect er ops stmt cat s =
     (case BuildPhysicalPlan ops (BuildLogicalPlan stmt) cat s of
        (Inl e, s1) \<Rightarrow> Some (Inl e, cat, s1)
      | (Inr physical, s1) \<Rightarrow>
          step_then (Open er ops physical cat s1) (\<lambda>plan cat s.
          step_then (pure_step (collect_rows er cat plan True no_rows) cat s) (\<lambda>(result, plan') cat s.
            let closed = Close plan' in Some (Inr result, cat, s))))"

text \<open>A validated statement.\<close>
definition execute :: "equal_range \<Rightarrow> 's page_store_ops \<Rightarrow> Statement \<Rightarrow> 's Catalog \<Rightarrow> 's \<Rightarrow> (QueryResult, 's) step" where
  "execute er ops stmt cat s =
     (case ValidateStatement stmt cat of
        Inl e \<Rightarrow> Some (Inl e, cat, s)
      | Inr _ \<Rightarrow>
          (case stmt of
             CreateTable st \<Rightarrow>
               (case ExecuteCreateTable ops st cat s of (r, cat', s') \<Rightarrow> Some (map_sum id (\<lambda>_. no_rows) r, cat', s'))
           | Insert st \<Rightarrow>
               map_option (\<lambda>(r, cat', s'). (map_sum id (\<lambda>_. no_rows) r, cat', s')) (ExecuteInsert ops st cat s)
           | Select st \<Rightarrow> ExecuteSelect er ops st cat s))"

section \<open>The engine\<close>

record Engine =
  en_pool :: BufferPool
  en_catalog :: "BufferPool Catalog"

definition Engine_open :: "os_file \<Rightarrow> os_file \<Rightarrow> nat \<Rightarrow> Engine res" where
  "Engine_open data_path wal_path pool_size =
     (let w = WAL_open wal_path in
      case RunRecovery (DiskManager_open data_path) w of
        (Inl e, d) \<Rightarrow> Inl e
      | (Inr _, d) \<Rightarrow>
          (case Catalog_new pool_ops (BufferPool_new pool_size d (Some w)) of
             (Inl e, bp) \<Rightarrow> Inl e
           | (Inr cat, bp) \<Rightarrow> Inr \<lparr>en_pool = bp, en_catalog = cat\<rparr>))"

definition ExecuteSQL :: "equal_range \<Rightarrow> string \<Rightarrow> Engine \<Rightarrow> (QueryResult res \<times> Engine) option" where
  "ExecuteSQL er sql en =
     Option.bind (ParseSQL sql) (\<lambda>p.
       case p of
         Inl e \<Rightarrow> Some (Inl e, en)
       | Inr stmt \<Rightarrow>
           map_option (\<lambda>(r, cat, bp). (r, \<lparr>en_pool = bp, en_catalog = cat\<rparr>))
             (execute er pool_ops stmt (en_catalog en) (en_pool en)))"

end
