(* ===== verification/Row_Streams.thy ===== *)
theory Row_Streams
  imports Engine
begin

text \<open>
  What an open plan produces: a finite sequence of rows, after which it reports the end or throws.
  Every node of a plan turns the streams of its inputs into its own, whatever the conditions
  evaluate to; so \<open>Next\<close> returns on every call, and the rows of a plan can be computed without
  its iterators.
\<close>

section \<open>Streams\<close>

type_synonym stream = "ExecRow list \<times> exn option"

definition append_stream :: "stream \<Rightarrow> stream \<Rightarrow> stream" where
  "append_stream st st' = (case snd st of None \<Rightarrow> (fst st @ fst st', snd st') | Some e \<Rightarrow> st)"

fun bind_stream :: "(ExecRow \<Rightarrow> stream) \<Rightarrow> stream \<Rightarrow> stream" where
  "bind_stream f ([], e) = ([], e)"
| "bind_stream f (x # xs, e) = append_stream (f x) (bind_stream f (xs, e))"

lemma append_stream_simps [simp]:
  "append_stream (ys, None) st = (ys @ fst st, snd st)" "append_stream (ys, Some e) st = (ys, Some e)"
  by (simp_all add: append_stream_def)

lemma append_stream_assoc: "append_stream (append_stream a b) c = append_stream a (append_stream b c)"
  by (simp add: append_stream_def split: option.split)

lemma append_stream_Nil [simp]: "append_stream st ([], None) = st"
  by (cases st) (simp add: append_stream_def split: option.split)

lemma bind_stream_error: "snd (bind_stream f (xs, e)) = None \<longleftrightarrow> e = None \<and> (\<forall>x \<in> set xs. snd (f x) = None)"
  by (induction xs) (auto simp: append_stream_def split: option.split)

lemma bind_stream_rows:
  "snd (bind_stream f (xs, e)) = None \<Longrightarrow> fst (bind_stream f (xs, e)) = concat (map (\<lambda>x. fst (f x)) xs)"
  by (induction xs) (auto simp: append_stream_def split: option.splits)

text \<open>One row through a test, a projection, and a lookup in the multimap.\<close>

definition test_row :: "Expr \<Rightarrow> ExecRow \<Rightarrow> stream" where
  "test_row c x = (case EvalBool c x of Inl e \<Rightarrow> ([], Some e) | Inr b \<Rightarrow> (if b then [x] else [], None))"

lemma test_row_eval: "EvalBool c x = Inl e \<Longrightarrow> test_row c x = ([], Some e)" "EvalBool c x = Inr b \<Longrightarrow> test_row c x = (if b then [x] else [], None)"
  by (simp_all add: test_row_def)

definition item_row :: "bool \<Rightarrow> SelectItem list \<Rightarrow> ExecRow \<Rightarrow> stream" where
  "item_row star items x =
     (if star then ([x], None) else case project_row items x of Inl e \<Rightarrow> ([], Some e) | Inr y \<Rightarrow> ([y], None))"

definition probe_row :: "equal_range \<Rightarrow> string option \<Rightarrow> string \<Rightarrow> (Value \<times> ExecRow) list \<Rightarrow> ExecRow \<Rightarrow> stream" where
  "probe_row er t c m x = (case Find x t c of Inl e \<Rightarrow> ([], Some e) | Inr key \<Rightarrow> (map (\<lambda>b. x @ b) (er m key), None))"

definition pair_rows :: "Expr \<Rightarrow> ExecRow list \<Rightarrow> ExecRow \<Rightarrow> stream" where
  "pair_rows c rights x = bind_stream (test_row c) (map (\<lambda>r. x @ r) rights, None)"

fun key_rows :: "string option \<Rightarrow> string \<Rightarrow> stream \<Rightarrow> (Value \<times> ExecRow) list res" where
  "key_rows t c ([], None) = Inr []"
| "key_rows t c ([], Some e) = Inl e"
| "key_rows t c (x # xs, e) =
     and_then (Find x t c) (\<lambda>key. and_then (key_rows t c (xs, e)) (\<lambda>m. Inr ((key, x) # m)))"

section \<open>What a plan yields\<close>

text \<open>
  Uniformly in the catalogs of a set, whose handles may differ but whose schemas will not: opening
  a further scan may change the catalog between two calls of \<open>Next\<close>.
\<close>
fun yields :: "equal_range \<Rightarrow> 's Catalog set \<Rightarrow> PhysicalPlan \<Rightarrow> stream \<Rightarrow> bool" where
  "yields er C p ([], None) \<longleftrightarrow> (\<exists>p'. \<forall>c \<in> C. Next er c p = Some (Inr (None, p')))"
| "yields er C p ([], Some e) \<longleftrightarrow> (\<forall>c \<in> C. Next er c p = Some (Inl e))"
| "yields er C p (x # xs, e) \<longleftrightarrow> (\<exists>p'. (\<forall>c \<in> C. Next er c p = Some (Inr (Some x, p'))) \<and> yields er C p' (xs, e))"

lemma yields_cong: "(\<And>c. c \<in> C \<Longrightarrow> Next er c p = Next er c q) \<Longrightarrow> yields er C p st = yields er C q st"
  by (cases "(er, C, p, st)" rule: yields.cases) simp_all

lemma yields_append_error: "yields er C p (xs, Some e) \<Longrightarrow> yields er C p (append_stream (xs, Some e) st)"
  by simp

text \<open>The loops over \<open>Next\<close>.\<close>

lemma drain_stream:
  assumes "yields er C p (xs, e)" "c \<in> C"
  shows "\<exists>p'. drain er c p acc = Some (case e of None \<Rightarrow> Inr (acc @ xs, p') | Some x \<Rightarrow> Inl x)"
  using assms(1)
proof (induction xs arbitrary: p acc)
  case Nil
  then show ?case using assms(2) by (subst drain.simps) (cases e; auto)
next
  case (Cons x xs)
  then obtain p' where "Next er c p = Some (Inr (Some x, p'))" "yields er C p' (xs, e)" using assms(2) by auto
  then show ?case using Cons.IH [of p' "acc @ [x]"] by (subst drain.simps) (cases e; simp)
qed

lemma drain_keyed_stream:
  assumes "yields er C p (xs, e)" "c \<in> C"
  shows "\<exists>p'. drain_keyed er c t col p m = Some (map_sum id (\<lambda>m'. (m @ m', p')) (key_rows t col (xs, e)))"
  using assms(1)
proof (induction xs arbitrary: p m)
  case Nil
  then show ?case using assms(2) by (subst drain_keyed.simps) (cases e; auto)
next
  case (Cons x xs)
  then obtain p' where p': "Next er c p = Some (Inr (Some x, p'))" "yields er C p' (xs, e)" using assms(2) by auto
  show ?case
  proof (cases "Find x t col")
    case (Inl e')
    then show ?thesis using p' by (subst drain_keyed.simps) simp
  next
    case (Inr key)
    obtain p'' where "drain_keyed er c t col p' (m @ [(key, x)]) = Some (map_sum id (\<lambda>m'. ((m @ [(key, x)]) @ m', p'')) (key_rows t col (xs, e)))"
      using Cons.IH [OF p'(2)] by blast
    then show ?thesis using p'(1) Inr
      by (subst drain_keyed.simps) (cases "key_rows t col (xs, e)"; auto)
  qed
qed

lemma collect_rows_stream:
  assumes "yields er C p (xs, e)" "c \<in> C"
  shows "\<exists>p'. collect_rows er c p first result = Some (case e of Some x \<Rightarrow> Inl x | None \<Rightarrow>
      Inr (\<lparr>column_names = (if first \<and> xs \<noteq> [] then map fd_column (hd xs) else column_names result),
            res_rows = res_rows result @ map (map fd_value) xs\<rparr>, p'))"
  using assms(1)
proof (induction xs arbitrary: p first result)
  case Nil
  then show ?case using assms(2) by (subst collect_rows.simps) (cases e; auto)
next
  case (Cons x xs)
  then obtain p' where p': "Next er c p = Some (Inr (Some x, p'))" "yields er C p' (xs, e)" using assms(2) by auto
  let ?result = "\<lparr>column_names = (if first then map fd_column x else column_names result),
      res_rows = res_rows result @ [map fd_value x]\<rparr>"
  show ?case using Cons.IH [OF p'(2), of False ?result] p'(1) by (subst collect_rows.simps) (cases e; cases first; simp)
qed

section \<open>The nodes\<close>

lemma scan_yields:
  assumes "\<And>c. c \<in> C \<Longrightarrow> GetSchema c table = Inr schema" "\<forall>r \<in> set rows. length r = length (columns schema)"
  shows "yields er C (PhysicalScan table alias (done @ rows) (length done)) (map (scan_row alias schema) rows, None)"
  using assms(2)
proof (induction rows arbitrary: "done")
  case Nil
  then show ?case by (auto simp: Next.simps scan_next_def)
next
  case (Cons r rows)
  have "Next er c (PhysicalScan table alias (done @ r # rows) (length done))
      = Some (Inr (Some (scan_row alias schema r), PhysicalScan table alias (done @ r # rows) (Suc (length done))))" if "c \<in> C" for c
    using assms(1) [OF that] Cons.prems by (simp add: Next.simps scan_next_def)
  then show ?case using Cons.IH [of "done @ [r]"] Cons.prems by auto
qed

lemma filter_yields:
  "yields er C p (xs, e) \<Longrightarrow> yields er C (PhysicalFilter p cond) (bind_stream (test_row cond) (xs, e))"
proof (induction xs arbitrary: p)
  case Nil
  then show ?case by (cases e) (auto simp: Next.simps [of _ _ "PhysicalFilter p cond"])
next
  case (Cons x xs)
  then obtain p' where p': "\<And>c. c \<in> C \<Longrightarrow> Next er c p = Some (Inr (Some x, p'))" "yields er C p' (xs, e)" by auto
  note IH = Cons.IH [OF p'(2)]
  show ?case
  proof (cases "EvalBool cond x")
    case (Inl e')
    then show ?thesis using p'(1) by (auto simp: Next.simps [of _ _ "PhysicalFilter p cond"] test_row_def)
  next
    case (Inr b)
    show ?thesis
    proof (cases b)
      case True
      then show ?thesis using p'(1) IH Inr
        by (auto simp: Next.simps [of _ _ "PhysicalFilter p cond"] test_row_def split: prod.split)
    next
      case False
      have "yields er C (PhysicalFilter p cond) = yields er C (PhysicalFilter p' cond)"
        using p'(1) Inr False by (intro ext yields_cong) (simp add: Next.simps [of _ _ "PhysicalFilter p cond"])
      then show ?thesis using IH Inr False by (simp add: test_row_def)
    qed
  qed
qed

lemma project_yields:
  "yields er C p (xs, e) \<Longrightarrow> yields er C (PhysicalProject p star items) (bind_stream (item_row star items) (xs, e))"
proof (induction xs arbitrary: p)
  case Nil
  then show ?case by (cases e) (auto simp: Next.simps [of _ _ "PhysicalProject p star items"])
next
  case (Cons x xs)
  then obtain p' where p': "\<And>c. c \<in> C \<Longrightarrow> Next er c p = Some (Inr (Some x, p'))" "yields er C p' (xs, e)" by auto
  note N = Next.simps [of _ _ "PhysicalProject p b items" for b]
  show ?case using p'(1) Cons.IH [OF p'(2)]
    by (cases star; cases "project_row items x") (auto simp: N item_row_def split: prod.split)
qed

text \<open>The joins, from the middle of a left row or a probe row.\<close>

lemma pair_rows_drop:
  assumes "k < length rights"
  shows "bind_stream (test_row c) (map (\<lambda>r. l @ r) (drop k rights), None) =
    append_stream (test_row c (l @ rights ! k)) (bind_stream (test_row c) (map (\<lambda>r. l @ r) (drop (Suc k) rights), None))"
  using assms by (simp add: Cons_nth_drop_Suc [symmetric])

lemma nested_loop_rows:
  assumes "yields er C (PhysicalNestedLoopJoin left right c (Some l) rights (length rights)) st" "k \<le> length rights"
  shows "yields er C (PhysicalNestedLoopJoin left right c (Some l) rights k)
    (append_stream (bind_stream (test_row c) (map (\<lambda>r. l @ r) (drop k rights), None)) st)"
  using assms(2)
proof (induction rule: inc_induct)
  case base
  then show ?case using assms(1) by simp
next
  case (step k)
  let ?p = "\<lambda>k. PhysicalNestedLoopJoin left right c (Some l) rights k" and ?x = "l @ rights ! k"
  let ?rest = "append_stream (bind_stream (test_row c) (map (\<lambda>r. l @ r) (drop (Suc k) rights), None)) st"
  note N = Next.simps [of _ _ "?p k"]
  show ?case unfolding pair_rows_drop [OF step(2)] append_stream_assoc
  proof (cases "EvalBool c ?x")
    case (Inl e)
    then show "yields er C (?p k) (append_stream (test_row c ?x) ?rest)" using step(2) by (simp add: N test_row_def)
  next
    case (Inr b)
    show "yields er C (?p k) (append_stream (test_row c ?x) ?rest)"
    proof (cases b)
      case True
      then show ?thesis using step(2,3) Inr by (auto simp: N test_row_eval)
    next
      case False
      have "yields er C (?p k) = yields er C (?p (Suc k))"
        using step(2) Inr False by (intro ext yields_cong) (simp add: N)
      then show ?thesis using step(3) Inr False by (simp add: test_row_eval)
    qed
  qed
qed

lemma nested_loop_yields:
  assumes "yields er C left (xs, e)" "k \<le> length rights"
  shows "yields er C (PhysicalNestedLoopJoin left right c (Some l) rights k)
    (append_stream (bind_stream (test_row c) (map (\<lambda>r. l @ r) (drop k rights), None)) (bind_stream (pair_rows c rights) (xs, e)))"
  using assms
proof (induction xs arbitrary: left l k)
  case Nil
  note N = Next.simps [of _ _ "PhysicalNestedLoopJoin lf right c cur rights j" for lf cur j]
  show ?case
  proof (rule nested_loop_rows [OF _ Nil(2)], cases e)
    case None
    then obtain p' where "\<And>d. d \<in> C \<Longrightarrow> Next er d left = Some (Inr (None, p'))" using Nil(1) by auto
    then show "yields er C (PhysicalNestedLoopJoin left right c (Some l) rights (length rights)) (bind_stream (pair_rows c rights) ([], e))"
      using None by (auto simp: N)
  next
    case (Some e')
    then show "yields er C (PhysicalNestedLoopJoin left right c (Some l) rights (length rights)) (bind_stream (pair_rows c rights) ([], e))"
      using Nil(1) by (simp add: N)
  qed
next
  case (Cons x xs)
  then obtain p' where p': "\<And>d. d \<in> C \<Longrightarrow> Next er d left = Some (Inr (Some x, p'))" "yields er C p' (xs, e)" by auto
  have "yields er C (PhysicalNestedLoopJoin left right c (Some l) rights (length rights))
      = yields er C (PhysicalNestedLoopJoin p' right c (Some x) rights 0)"
    using p'(1) by (intro ext yields_cong)
      (simp add: Next.simps [of _ _ "PhysicalNestedLoopJoin left right c (Some l) rights (length rights)"])
  moreover have "yields er C (PhysicalNestedLoopJoin p' right c (Some x) rights 0) (bind_stream (pair_rows c rights) (x # xs, e))"
    using Cons.IH [OF p'(2), of 0 x] by (simp add: pair_rows_def [of _ _ x])
  ultimately show ?case using nested_loop_rows [OF _ Cons.prems(2)] by metis
qed

lemma hash_join_rows:
  assumes "yields er C (PhysicalHashJoin build probe btab bcol ptab pcol m ms (length ms) (Some x)) st" "k \<le> length ms"
  shows "yields er C (PhysicalHashJoin build probe btab bcol ptab pcol m ms k (Some x)) (append_stream (map (\<lambda>b. x @ b) (drop k ms), None) st)"
  using assms(2)
proof (induction rule: inc_induct)
  case base
  then show ?case using assms(1) by simp
next
  case (step k)
  then have "probe_matches er ptab pcol m ms k x = Inr ms" by (auto simp: probe_matches_def)
  then have "Next er c (PhysicalHashJoin build probe btab bcol ptab pcol m ms k (Some x))
      = Some (Inr (Some (x @ ms ! k), PhysicalHashJoin build probe btab bcol ptab pcol m ms (Suc k) (Some x)))" for c
    using step(2) by (simp add: Next.simps [of _ _ "PhysicalHashJoin build probe btab bcol ptab pcol m ms k (Some x)"])
  then show ?case using step(2,3) by (auto simp: Cons_nth_drop_Suc [symmetric])
qed

text \<open>Looking the matches up and then asking for the next row is asking for the next row.\<close>

lemma hash_join_lookup:
  assumes "Find x ptab pcol = Inr key"
  shows "Next er c (PhysicalHashJoin build probe btab bcol ptab pcol m [] 0 (Some x))
    = Next er c (PhysicalHashJoin build probe btab bcol ptab pcol m (er m key) 0 (Some x))"
  using assms by (simp add: Next.simps [of _ _ "PhysicalHashJoin build probe btab bcol ptab pcol m ms 0 (Some x)" for ms] probe_matches_def)

lemma hash_join_exhausted:
  assumes "Find x ptab pcol = Inr key" "ms = er m key"
  shows "Next er c (PhysicalHashJoin build probe btab bcol ptab pcol m ms (length ms) (Some x)) =
    Option.bind (Next er c probe) (\<lambda>r. case r of Inl e \<Rightarrow> Some (Inl e)
      | Inr (current', probe') \<Rightarrow> Next er c (PhysicalHashJoin build probe' btab bcol ptab pcol m [] 0 current'))"
proof -
  have "probe_matches er ptab pcol m ms (length ms) x = Inr ms" using assms by (simp add: probe_matches_def)
  then show ?thesis
    by (simp add: Next.simps [of _ _ "PhysicalHashJoin build probe btab bcol ptab pcol m ms (length ms) (Some x)"])
qed

lemma hash_join_yields:
  assumes "yields er C probe (xs, e)"
  shows "yields er C (PhysicalHashJoin build probe btab bcol ptab pcol m [] 0 (Some x))
    (append_stream (probe_row er ptab pcol m x) (bind_stream (probe_row er ptab pcol m) (xs, e)))"
  using assms
proof (induction xs arbitrary: probe x)
  case Nil
  let ?J = "\<lambda>probe ms k cur. PhysicalHashJoin build probe btab bcol ptab pcol m ms k cur"
  show ?case
  proof (cases "Find x ptab pcol")
    case (Inl e')
    then show ?thesis by (simp add: probe_row_def probe_matches_def Next.simps [of _ _ "?J probe [] 0 (Some x)"])
  next
    case (Inr key)
    note X = hash_join_exhausted [OF Inr refl, of er _ build probe btab bcol m]
    have L: "yields er C (?J probe [] 0 (Some x)) = yields er C (?J probe (er m key) 0 (Some x))"
      by (intro ext yields_cong hash_join_lookup [OF Inr])
    have "yields er C (?J probe (er m key) (length (er m key)) (Some x)) ([], e)"
    proof (cases e)
      case None
      then obtain p' where "\<And>d. d \<in> C \<Longrightarrow> Next er d probe = Some (Inr (None, p'))" using Nil by auto
      then show ?thesis using None by (auto simp: X Next.simps [of _ _ "?J p' [] 0 None"])
    next
      case (Some e')
      then show ?thesis using Nil by (simp add: X)
    qed
    then show ?thesis unfolding L
      using hash_join_rows [of er C build probe btab bcol ptab pcol m "er m key" x "([], e)" 0] Inr by (simp add: probe_row_def)
  qed
next
  case (Cons y xs)
  let ?J = "\<lambda>probe ms k cur. PhysicalHashJoin build probe btab bcol ptab pcol m ms k cur"
  obtain p' where p': "\<And>d. d \<in> C \<Longrightarrow> Next er d probe = Some (Inr (Some y, p'))" "yields er C p' (xs, e)" using Cons.prems by auto
  show ?case
  proof (cases "Find x ptab pcol")
    case (Inl e')
    then show ?thesis by (simp add: probe_row_def [of _ _ _ _ x] probe_matches_def Next.simps [of _ _ "?J probe [] 0 (Some x)"])
  next
    case (Inr key)
    note X = hash_join_exhausted [OF Inr refl, of er _ build probe btab bcol m]
    have L: "yields er C (?J probe [] 0 (Some x)) = yields er C (?J probe (er m key) 0 (Some x))"
      by (intro ext yields_cong hash_join_lookup [OF Inr])
    have "yields er C (?J probe (er m key) (length (er m key)) (Some x)) = yields er C (?J p' [] 0 (Some y))"
      using p'(1) by (intro ext yields_cong) (simp add: X)
    then have "yields er C (?J probe (er m key) (length (er m key)) (Some x)) (bind_stream (probe_row er ptab pcol m) (y # xs, e))"
      using Cons.IH [OF p'(2), of y] by simp
    then show ?thesis unfolding L
      using hash_join_rows [of er C build probe btab bcol ptab pcol m "er m key" x "bind_stream (probe_row er ptab pcol m) (y # xs, e)" 0] Inr
      by (simp add: probe_row_def [of _ _ _ _ x])
  qed
qed

section \<open>A whole plan\<close>

text \<open>What an unopened plan will yield over given tables, and whether opening it throws.\<close>

type_synonym tables = "string \<Rightarrow> (TableSchema \<times> Value list list) option"

definition after_error :: "exn option \<Rightarrow> stream \<Rightarrow> stream" where
  "after_error e st = (case e of None \<Rightarrow> st | Some x \<Rightarrow> ([], Some x))"

fun plan_stream :: "equal_range \<Rightarrow> tables \<Rightarrow> PhysicalPlan \<Rightarrow> stream" where
  "plan_stream er T (PhysicalScan table alias rows cursor) =
     (case T table of
        None \<Rightarrow> ([], Some (CatalogError ''no such table''))
      | Some (schema, vs) \<Rightarrow> (map (scan_row alias schema) vs, None))"
| "plan_stream er T (PhysicalFilter input c) = bind_stream (test_row c) (plan_stream er T input)"
| "plan_stream er T (PhysicalNestedLoopJoin left right c cur rights k) =
     after_error (snd (plan_stream er T right))
       (bind_stream (pair_rows c (fst (plan_stream er T right))) (plan_stream er T left))"
| "plan_stream er T (PhysicalHashJoin build probe btab bcol ptab pcol m ms k cur) =
     (case key_rows btab bcol (plan_stream er T build) of
        Inl e \<Rightarrow> ([], Some e)
      | Inr m' \<Rightarrow> bind_stream (probe_row er ptab pcol m') (plan_stream er T probe))"
| "plan_stream er T (PhysicalProject input star items) = bind_stream (item_row star items) (plan_stream er T input)"

fun plan_scans :: "PhysicalPlan \<Rightarrow> string list" where
  "plan_scans (PhysicalScan table alias rows cursor) = [table]"
| "plan_scans (PhysicalFilter input c) = plan_scans input"
| "plan_scans (PhysicalNestedLoopJoin left right c cur rights k) = plan_scans left @ plan_scans right"
| "plan_scans (PhysicalHashJoin build probe btab bcol ptab pcol m ms k cur) = plan_scans build @ plan_scans probe"
| "plan_scans (PhysicalProject input star items) = plan_scans input"

section \<open>What a plan may throw\<close>

text \<open>Where all tables exist: the exceptions of \<open>EvalBool\<close> and of \<open>ExecRow::Find\<close>.\<close>
definition row_exception :: "exn \<Rightarrow> bool" where
  "row_exception e \<longleftrightarrow> (\<exists>msg. e = EvalError msg \<or> e = ColumnResolutionError msg)"

definition raises :: "tables \<Rightarrow> PhysicalPlan \<Rightarrow> exn \<Rightarrow> bool" where
  "raises T p e \<longleftrightarrow> row_exception e \<or> (\<exists>t \<in> set (plan_scans p). T t = None)"

lemma Find_exception: "Find r t c = Inl e \<Longrightarrow> row_exception e"
  using Find_resolution [of r c undefined undefined t] by (auto simp: row_exception_def)

lemma EvalValue_exception: "EvalValue a r = Inl e \<Longrightarrow> row_exception e"
  by (cases a) (auto simp: EvalValue_def row_exception_def dest: Find_exception)

lemma EvalBool_exception: "EvalBool c r = Inl e \<Longrightarrow> row_exception e"
proof (induction c)
  case (ComparisonExpr op a b)
  have "row_exception e" if "CompareValues x y = Inl e" for x y
    using that by (cases x; cases y) (auto simp: CompareValues_def row_exception_def)
  then show ?case using ComparisonExpr.prems EvalValue_exception by (auto split: sum.splits)
next
  case (AndExpr a b)
  then show ?case by (auto split: sum.splits bool.splits)
next
  case (OrExpr a b)
  then show ?case by (auto split: sum.splits bool.splits)
qed (auto simp: row_exception_def)

lemma project_row_exception: "project_row items r = Inl e \<Longrightarrow> row_exception e"
proof (induction items arbitrary: e)
  case (Cons item items)
  then show ?case using Find_exception [of r "si_table item" "si_column item"]
    by (cases "Find r (si_table item) (si_column item)"; cases "project_row items r") auto
qed simp

lemma bind_stream_Some: "snd (bind_stream f (xs, e)) = Some x \<Longrightarrow> e = Some x \<or> (\<exists>y \<in> set xs. snd (f y) = Some x)"
  by (induction xs) (auto simp: append_stream_def split: option.splits)

lemma key_rows_exception: "key_rows t c (xs, e) = Inl x \<Longrightarrow> e = Some x \<or> row_exception x"
proof (induction xs)
  case Nil
  then show ?case by (cases e) auto
next
  case (Cons y ys)
  then show ?case using Find_exception [of y t c] by (cases "Find y t c"; cases "key_rows t c (ys, e)") auto
qed

lemma row_stream_exceptions:
  "snd (test_row c x) = Some e \<Longrightarrow> row_exception e" "snd (item_row star items x) = Some e \<Longrightarrow> row_exception e"
  "snd (probe_row er t col m x) = Some e \<Longrightarrow> row_exception e"
  using EvalBool_exception [of c x] project_row_exception [of items x] Find_exception [of x t col]
  by (auto simp: test_row_def item_row_def probe_row_def split: sum.splits if_splits)

lemma pair_rows_exception: "snd (pair_rows c rs x) = Some e \<Longrightarrow> row_exception e"
  unfolding pair_rows_def using bind_stream_Some [of "test_row c" "map (\<lambda>r. x @ r) rs" None e] row_stream_exceptions(1) by blast

lemma plan_stream_raises: "snd (plan_stream er T p) = Some e \<Longrightarrow> raises T p e"
proof (induction p arbitrary: e)
  case (PhysicalScan table as rows cursor)
  then show ?case by (auto simp: raises_def split: option.splits)
next
  case (PhysicalFilter p c)
  obtain xs x where st: "plan_stream er T p = (xs, x)" by force
  then show ?case using PhysicalFilter bind_stream_Some [of "test_row c" xs x e] row_stream_exceptions(1) by (auto simp: raises_def)
next
  case (PhysicalProject p star items)
  obtain xs x where st: "plan_stream er T p = (xs, x)" by force
  then show ?case using PhysicalProject bind_stream_Some [of "item_row star items" xs x e] row_stream_exceptions(2) by (auto simp: raises_def)
next
  case (PhysicalNestedLoopJoin left right c cur rights k)
  obtain xs x where st: "plan_stream er T left = (xs, x)" by force
  obtain rs x' where st': "plan_stream er T right = (rs, x')" by force
  consider "x' = Some e" | "x = Some e" | "row_exception e"
    using PhysicalNestedLoopJoin.prems st st' bind_stream_Some [of "pair_rows c rs" xs x e] pair_rows_exception
    by (cases x') (auto simp: after_error_def)
  then show ?case using PhysicalNestedLoopJoin.IH [of e] st st' by cases (auto simp: raises_def)
next
  case (PhysicalHashJoin build probe bt bc pt' pc' m ms k cur)
  obtain xs x where st: "plan_stream er T build = (xs, x)" by force
  obtain ps x' where st': "plan_stream er T probe = (ps, x')" by force
  show ?case
  proof (cases "key_rows bt bc (xs, x)")
    case (Inl y)
    then consider "x = Some e" | "row_exception e" using PhysicalHashJoin.prems st key_rows_exception [OF Inl] by auto
    then show ?thesis using PhysicalHashJoin.IH(1) [of e] st by cases (auto simp: raises_def)
  next
    case (Inr m')
    then consider "x' = Some e" | "row_exception e"
      using PhysicalHashJoin.prems st st' bind_stream_Some [of "probe_row er pt' pc' m'" ps x' e] row_stream_exceptions(3) by auto
    then show ?thesis using PhysicalHashJoin.IH(2) [of e] st' by cases (auto simp: raises_def)
  qed
qed

section \<open>The first row of a join\<close>

text \<open>The first row of a join's left or probe side is fetched by \<open>Open\<close>.\<close>

lemma nested_loop_opens:
  assumes "yields er C left st" "c \<in> C"
  shows "(\<exists>x. Next er c left = Some (Inl x) \<and> st = ([], Some x))
    \<or> (\<exists>cur left'. Next er c left = Some (Inr (cur, left'))
        \<and> yields er C (PhysicalNestedLoopJoin left' right cond cur rights 0) (bind_stream (pair_rows cond rights) st))"
  using assms
proof (cases "(er, C, left, st)" rule: yields.cases)
  case (1 er' C' p)
  then obtain p' where "\<And>c. c \<in> C \<Longrightarrow> Next er c left = Some (Inr (None, p'))" using assms(1) by auto
  moreover have "yields er C (PhysicalNestedLoopJoin p' right cond None rights 0) ([], None)"
    by (auto simp: Next.simps [of _ _ "PhysicalNestedLoopJoin p' right cond None rights 0"])
  ultimately show ?thesis using assms(2) 1 by fastforce
next
  case (3 er' C' p x xs e)
  then obtain p' where "\<And>c. c \<in> C \<Longrightarrow> Next er c left = Some (Inr (Some x, p'))" "yields er C p' (xs, e)" using assms(1) by auto
  then show ?thesis using nested_loop_yields [of er C p' xs e 0 rights right cond x] assms(2) 3
    by (fastforce simp: pair_rows_def [of _ _ x])
qed auto

lemma hash_join_opens:
  assumes "yields er C probe st" "c \<in> C"
  shows "(\<exists>x. Next er c probe = Some (Inl x) \<and> st = ([], Some x))
    \<or> (\<exists>cur probe'. Next er c probe = Some (Inr (cur, probe'))
        \<and> yields er C (PhysicalHashJoin build probe' btab bcol ptab pcol m [] 0 cur) (bind_stream (probe_row er ptab pcol m) st))"
  using assms
proof (cases "(er, C, probe, st)" rule: yields.cases)
  case (1 er' C' p)
  then obtain p' where "\<And>c. c \<in> C \<Longrightarrow> Next er c probe = Some (Inr (None, p'))" using assms(1) by auto
  moreover have "yields er C (PhysicalHashJoin build p' btab bcol ptab pcol m [] 0 None) ([], None)"
    by (auto simp: Next.simps [of _ _ "PhysicalHashJoin build p' btab bcol ptab pcol m [] 0 None"])
  ultimately show ?thesis using assms(2) 1 by fastforce
next
  case (3 er' C' p x xs e)
  then obtain p' where "\<And>c. c \<in> C \<Longrightarrow> Next er c probe = Some (Inr (Some x, p'))" "yields er C p' (xs, e)" using assms(1) by auto
  then show ?thesis using hash_join_yields [of er C p' xs e build btab bcol ptab pcol m x] assms(2) 3 by fastforce
qed auto

end
