(* ===== verification/Join_Semantics.thy ===== *)
theory Join_Semantics
  imports Row_Streams "HOL-Library.Multiset"
begin

text \<open>
  Joins without plans: a result row picks one row of every table, and the order in which the tables
  are joined only decides where each table's columns stand. Column references find the same value
  wherever the columns stand, so conditions and projections do not depend on the order.
\<close>

section \<open>Picking a row of every table\<close>

text \<open>Tables are numbered; \<open>blk k\<close> are the rows of table \<open>k\<close>, \<open>lay\<close> the order of the tables in a row.\<close>

definition joined_row :: "nat list \<Rightarrow> (nat \<Rightarrow> ExecRow) \<Rightarrow> ExecRow" where
  "joined_row lay f = concat (map f lay)"

fun choices :: "(nat \<Rightarrow> ExecRow list) \<Rightarrow> nat list \<Rightarrow> (nat \<Rightarrow> ExecRow) list" where
  "choices blk [] = [\<lambda>_. []]"
| "choices blk (k # lay) = concat (map (\<lambda>r. map (\<lambda>f. f(k := r)) (choices blk lay)) (blk k))"

lemma joined_row_simps [simp]:
  "joined_row [] f = []" "joined_row (k # lay) f = f k @ joined_row lay f"
  "joined_row (lay @ lay') f = joined_row lay f @ joined_row lay' f"
  by (simp_all add: joined_row_def)

lemma joined_row_upd [simp]: "k \<notin> set lay \<Longrightarrow> joined_row lay (f(k := r)) = joined_row lay f"
  by (induction lay) simp_all

lemma choices_mem: "distinct lay \<Longrightarrow> f \<in> set (choices blk lay) \<Longrightarrow> k \<in> set lay \<Longrightarrow> f k \<in> set (blk k)"
  by (induction lay arbitrary: f) auto

lemma mset_concat_map: "mset (concat (map g xs)) = (\<Sum>x \<in># mset xs. mset (g x))"
  by (induction xs) simp_all

lemma mset_choices_Cons:
  "mset (choices blk (k # lay)) = (\<Sum>r \<in># mset (blk k). image_mset (\<lambda>f. f(k := r)) (mset (choices blk lay)))"
  by (simp add: mset_concat_map)

lemma image_mset_sum: "image_mset h (\<Sum>x \<in># A. F x) = (\<Sum>x \<in># A. image_mset h (F x))"
  by (induction A) simp_all

lemma filter_mset_sum: "filter_mset P (\<Sum>x \<in># A. F x) = (\<Sum>x \<in># A. filter_mset P (F x))"
  by (induction A) simp_all

lemma choices_swap:
  assumes "j \<noteq> k"
  shows "mset (choices blk (j # k # lay)) = mset (choices blk (k # j # lay))"
proof -
  have "mset (choices blk (j # k # lay))
      = (\<Sum>r \<in># mset (blk j). \<Sum>q \<in># mset (blk k). image_mset (\<lambda>f. (f(k := q))(j := r)) (mset (choices blk lay)))"
    by (simp only: mset_choices_Cons image_mset_sum multiset.map_comp comp_def)
  also have "\<dots> = (\<Sum>q \<in># mset (blk k). \<Sum>r \<in># mset (blk j). image_mset (\<lambda>f. (f(k := q))(j := r)) (mset (choices blk lay)))"
    by (rule sum_mset.swap)
  also have "\<dots> = mset (choices blk (k # j # lay))"
    using assms by (simp only: mset_choices_Cons image_mset_sum multiset.map_comp comp_def fun_upd_twist)
  finally show ?thesis .
qed

lemma choices_move: "k \<notin> set xs \<Longrightarrow> mset (choices blk (xs @ k # ys)) = mset (choices blk (k # xs @ ys))"
proof (induction xs)
  case (Cons x xs)
  then have "mset (choices blk ((x # xs) @ k # ys)) = mset (choices blk (x # k # xs @ ys))"
    by (simp only: append_Cons mset_choices_Cons) simp
  also have "\<dots> = mset (choices blk (k # (x # xs) @ ys))" using choices_swap [of x k] Cons.prems by simp
  finally show ?case .
qed simp

lemma choices_perm: "distinct lay \<Longrightarrow> mset lay = mset lay' \<Longrightarrow> mset (choices blk lay) = mset (choices blk lay')"
proof (induction lay arbitrary: lay')
  case (Cons k lay)
  then have "k \<in> set lay'" by (metis list.set_intros(1) mset_eq_setD)
  then obtain xs ys where l: "lay' = xs @ k # ys" "k \<notin> set xs" by (meson split_list_first)
  then have "mset lay = mset (xs @ ys)" using Cons.prems by simp
  then have "mset (choices blk lay) = mset (choices blk (xs @ ys))" using Cons.IH Cons.prems by simp
  then have "mset (choices blk (k # lay)) = mset (choices blk (k # xs @ ys))" by (simp only: mset_choices_Cons)
  then show ?case using choices_move [OF l(2), of blk ys] l(1) by simp
qed simp

text \<open>
  Joining one more table: the rows of the tables so far that satisfy \<open>P\<close>, each paired with the rows
  of table \<open>k\<close> that satisfy \<open>Q\<close> with it.
\<close>
lemma join_step:
  assumes "\<And>f r. f \<in> set (choices blk lay) \<Longrightarrow> r \<in> set (blk k) \<Longrightarrow> (P' (f(k := r)) \<longleftrightarrow> P f \<and> Q f r) \<and> h' (f(k := r)) = h f r"
  shows "image_mset h' (filter_mset P' (mset (choices blk (k # lay))))
    = (\<Sum>f \<in># filter_mset P (mset (choices blk lay)). \<Sum>r \<in># filter_mset (Q f) (mset (blk k)). {#h f r#})"
proof -
  let ?C = "mset (choices blk lay)" and ?B = "mset (blk k)"
  let ?one = "\<lambda>f r. if P f \<and> Q f r then {#h f r#} else {#}"
  have sum_if: "(\<Sum>x \<in># filter_mset R M. F x) = (\<Sum>x \<in># M. if R x then F x else {#})" for R M and F :: "'x \<Rightarrow> 'y multiset"
    by (induction M) simp_all
  have "image_mset h' (filter_mset P' (image_mset (\<lambda>f. f(k := r)) ?C)) = (\<Sum>f \<in># ?C. ?one f r)" if "r \<in> set (blk k)" for r
  proof -
    have "image_mset h' (filter_mset P' (image_mset g M)) = (\<Sum>f \<in># M. if P' (g f) then {#h' (g f)#} else {#})" for g M
      by (induction M) simp_all
    then have "image_mset h' (filter_mset P' (image_mset (\<lambda>f. f(k := r)) ?C))
        = (\<Sum>f \<in># ?C. if P' (f(k := r)) then {#h' (f(k := r))#} else {#})" .
    also have "\<dots> = (\<Sum>f \<in># ?C. ?one f r)"
      using assms [OF _ that] by (intro arg_cong [where f = sum_mset] image_mset_cong) auto
    finally show ?thesis .
  qed
  then have "image_mset h' (filter_mset P' (mset (choices blk (k # lay)))) = (\<Sum>r \<in># ?B. \<Sum>f \<in># ?C. ?one f r)"
    by (simp only: mset_choices_Cons filter_mset_sum image_mset_sum)
      (intro arg_cong [where f = sum_mset] image_mset_cong, simp)
  also have "\<dots> = (\<Sum>f \<in># ?C. \<Sum>r \<in># ?B. ?one f r)" by (rule sum_mset.swap)
  also have "\<dots> = (\<Sum>f \<in># ?C. if P f then (\<Sum>r \<in># ?B. if Q f r then {#h f r#} else {#}) else {#})"
    by (intro arg_cong [where f = sum_mset] image_mset_cong) simp
  also have "\<dots> = (\<Sum>f \<in># filter_mset P ?C. \<Sum>r \<in># filter_mset (Q f) ?B. {#h f r#})"
    by (simp only: sum_if)
  finally show ?thesis .
qed

section \<open>Columns in a joined row\<close>

text \<open>The part of a row that comes from one table.\<close>
definition block :: "string \<Rightarrow> string list \<Rightarrow> ExecRow \<Rightarrow> bool" where
  "block a ns r \<longleftrightarrow> map fd_column r = ns \<and> (\<forall>x \<in> set r. fd_table x = a)"

lemma block_scan_row [simp]: "block alias (map cd_name (columns schema)) (scan_row alias schema vs)"
  by (auto simp: block_def scan_row_def intro: nth_equalityI)

definition blocks :: "(nat \<Rightarrow> string) \<Rightarrow> (nat \<Rightarrow> string list) \<Rightarrow> nat list \<Rightarrow> (nat \<Rightarrow> ExecRow) \<Rightarrow> bool" where
  "blocks A N lay f \<longleftrightarrow> distinct lay \<and> inj_on A (set lay) \<and> (\<forall>k \<in> set lay. block (A k) (N k) (f k))"

lemma filter_joined:
  assumes "distinct lay" "k \<in> set lay" "\<And>j. j \<in> set lay \<Longrightarrow> j \<noteq> k \<Longrightarrow> filter P (f j) = []"
  shows "filter P (joined_row lay f) = filter P (f k)"
  using assms
proof (induction lay)
  case (Cons j lay)
  show ?case
  proof (cases "j = k")
    case True
    then have "\<forall>i \<in> set lay. filter P (f i) = []" using Cons.prems by auto
    then have "filter P (joined_row lay f) = []" by (induction lay) simp_all
    then show ?thesis using True by simp
  next
    case False
    then show ?thesis using Cons by simp
  qed
qed simp

lemma find_qualified_joined:
  assumes "blocks A N lay f"
  shows "k \<in> set lay \<Longrightarrow> find_qualified (A k) c (joined_row lay f) = find_qualified (A k) c (f k)"
    and "t \<notin> A ` set lay \<Longrightarrow> find_qualified t c (joined_row lay f) = Inl (ColumnResolutionError ''no qualified column in this row'')"
proof -
  have other: "filter (\<lambda>x. fd_table x = t \<and> fd_column x = c) (f j) = []" if "j \<in> set lay" "A j \<noteq> t" for j t
    using assms that by (auto simp: blocks_def block_def filter_empty_conv)
  {
    assume k: "k \<in> set lay"
    have "filter (\<lambda>x. fd_table x = A k \<and> fd_column x = c) (joined_row lay f) = filter (\<lambda>x. fd_table x = A k \<and> fd_column x = c) (f k)"
      by (rule filter_joined [OF _ k]) (use assms k other in \<open>auto simp: blocks_def inj_on_def\<close>)
    then show "find_qualified (A k) c (joined_row lay f) = find_qualified (A k) c (f k)" by (simp add: find_qualified_filter)
  }
  assume t: "t \<notin> A ` set lay"
  have "filter (\<lambda>x. fd_table x = t \<and> fd_column x = c) (f j) = []" if "j \<in> set lay" for j
    by (rule other [OF that]) (use t that in auto)
  then have "filter (\<lambda>x. fd_table x = t \<and> fd_column x = c) (joined_row lay f) = []"
    by (auto simp: joined_row_def filter_concat)
  then show "find_qualified t c (joined_row lay f) = Inl (ColumnResolutionError ''no qualified column in this row'')"
    by (simp add: find_qualified_filter)
qed

lemma blocks_perm: "blocks A N lay f \<Longrightarrow> mset lay = mset lay' \<Longrightarrow> blocks A N lay' f"
  unfolding blocks_def by (metis mset_eq_imp_distinct_iff mset_eq_setD)

text \<open>Columns are found wherever the tables stand.\<close>

lemma Find_perm:
  assumes "blocks A N lay f" "mset lay = mset lay'"
  shows "Find (joined_row lay f) t c = Find (joined_row lay' f) t c"
proof (cases t)
  case None
  have "mset (named c (joined_row lay f)) = mset (named c (joined_row lay' f))"
    using assms(2) by (simp add: named_def joined_row_def mset_concat_map)
  then have eq: "named c (joined_row lay f) = named c (joined_row lay' f)
      \<or> 2 \<le> length (named c (joined_row lay f)) \<and> 2 \<le> length (named c (joined_row lay' f))"
  proof (cases "named c (joined_row lay f)" rule: remdups_adj.cases)
    case (2 x)
    then show ?thesis using \<open>mset (named c (joined_row lay f)) = _\<close> by (simp add: mset_single_iff_right)
  next
    case (3 x y xs)
    then have "size (mset (named c (joined_row lay' f))) = Suc (Suc (length xs))"
      using \<open>mset (named c (joined_row lay f)) = _\<close> by (metis length_Cons size_mset)
    then show ?thesis using 3 by simp
  qed simp
  have amb: "find_unqualified c r None = Inl (ColumnResolutionError ''column is ambiguous'')" if "2 \<le> length (named c r)" for r
    using that by (auto simp: find_unqualified_named split: list.split)
  show ?thesis using eq amb None unfolding Find_def by (auto simp: find_unqualified_named)
next
  case (Some a)
  have lay': "blocks A N lay' f" "set lay' = set lay" using blocks_perm [OF assms] assms(2) by (auto dest: mset_eq_setD)
  show ?thesis
  proof (cases "a \<in> A ` set lay")
    case True
    then obtain k where k: "k \<in> set lay" "a = A k" by blast
    then show ?thesis using find_qualified_joined(1) [OF assms(1) k(1)] find_qualified_joined(1) [OF lay'(1), of k] lay'(2) Some
      by (simp add: Find_def)
  next
    case False
    then show ?thesis using find_qualified_joined(2) [OF assms(1)] find_qualified_joined(2) [OF lay'(1)] lay'(2) Some by (simp add: Find_def)
  qed
qed

lemma EvalBool_Find_cong:
  assumes "\<And>t c. Find r t c = Find r' t c"
  shows "EvalBool e r = EvalBool e r'"
proof -
  have "EvalValue a r = EvalValue a r'" for a using assms by (simp add: EvalValue_def split: Expr.split)
  then show ?thesis by (induction e) (simp_all split: sum.split bool.split)
qed

lemma project_row_Find_cong:
  assumes "\<And>t c. Find r t c = Find r' t c"
  shows "project_row items r = project_row items r'"
  using assms by (induction items) simp_all

lemma cond_holds_Find_cong:
  assumes "\<And>t c. Find r t c = Find r' t c"
  shows "column_value r t c = column_value r' t c" and "cond_holds e r = cond_holds e r'"
proof -
  have col: "column_value r t c = column_value r' t c" for t c
  proof (cases "column_value r t c")
    case None
    then have "column_value r' t c \<noteq> Some v" for v using column_value_Find [of r t c v] column_value_Find [of r' t c v] assms by simp
    then show ?thesis using None by (metis option.exhaust)
  next
    case (Some v)
    then show ?thesis using column_value_Find [of r t c v] column_value_Find [of r' t c v] assms by simp
  qed
  then show "column_value r t c = column_value r' t c" .
  have "operand_value a r = operand_value a r'" for a
    by (cases "(a, r)" rule: operand_value.cases) (simp_all add: col)
  then show "cond_holds e r = cond_holds e r'" by (induction e) simp_all
qed

lemma joined_perm:
  assumes "blocks A N lay f" "mset lay = mset lay'"
  shows "EvalBool e (joined_row lay f) = EvalBool e (joined_row lay' f)"
    and "project_row items (joined_row lay f) = project_row items (joined_row lay' f)"
    and "column_value (joined_row lay f) t c = column_value (joined_row lay' f) t c"
    and "cond_holds e (joined_row lay f) = cond_holds e (joined_row lay' f)"
  using EvalBool_Find_cong project_row_Find_cong cond_holds_Find_cong Find_perm [OF assms] by blast+

section \<open>Rows with more tables\<close>

text \<open>
  A column that is found in a row is found in every row with more tables, if it is qualified or if no other of the
  tables has a column of its name; so is the value of a condition.
\<close>

definition owned_once :: "(nat \<Rightarrow> string list) \<Rightarrow> nat set \<Rightarrow> string \<Rightarrow> bool" where
  "owned_once N K c \<longleftrightarrow> (\<forall>i \<in> K. \<forall>j \<in> K. c \<in> set (N i) \<longrightarrow> c \<in> set (N j) \<longrightarrow> i = j)"

fun column_refs :: "Expr \<Rightarrow> (string option \<times> string) set" where
  "column_refs (ColumnRefExpr t c) = {(t, c)}"
| "column_refs (LiteralExpr l) = {}"
| "column_refs (ComparisonExpr op l r) = column_refs l \<union> column_refs r"
| "column_refs (AndExpr l r) = column_refs l \<union> column_refs r"
| "column_refs (OrExpr l r) = column_refs l \<union> column_refs r"

lemma Find_mono:
  assumes "blocks A N lay f" "blocks A N lay' g" "set lay \<subseteq> set lay'" "\<And>k. k \<in> set lay \<Longrightarrow> g k = f k"
    and "t = None \<Longrightarrow> owned_once N (set lay') c" "Find (joined_row lay f) t c = Inr v"
  shows "Find (joined_row lay' g) t c = Inr v"
proof (cases t)
  case None
  obtain x where x: "named c (joined_row lay f) = [x]" "fd_value x = v"
    using assms(6) None by (auto simp: Find_def find_unqualified_named split: list.splits)
  then have "x \<in> set (named c (joined_row lay f))" by simp
  then have c: "x \<in> set (joined_row lay f)" "fd_column x = c" by (simp_all add: named_def)
  then obtain k where k: "k \<in> set lay" "x \<in> set (f k)" by (auto simp: joined_row_def)
  have names: "set (N i) = fd_column ` set (f i)" if "i \<in> set lay" for i
    using assms(1) that unfolding blocks_def block_def by (metis list.set_map)
  have names': "set (N i) = fd_column ` set (g i)" if "i \<in> set lay'" for i
    using assms(2) that unfolding blocks_def block_def by (metis list.set_map)
  have own: "c \<in> set (N k)" using names [OF k(1)] k(2) c(2) by auto
  have other: "c \<notin> set (N i)" if "i \<in> set lay'" "i \<noteq> k" for i
    using assms(3,5) None own k(1) that unfolding owned_once_def by blast
  have none: "filter (\<lambda>x. fd_column x = c) (f i) = []" if "i \<in> set lay" "i \<noteq> k" for i
    using other [of i] names [of i] assms(3) that by (auto simp: filter_empty_conv)
  have none': "filter (\<lambda>x. fd_column x = c) (g i) = []" if "i \<in> set lay'" "i \<noteq> k" for i
    using other [of i] names' [of i] that by (auto simp: filter_empty_conv)
  have "filter (\<lambda>x. fd_column x = c) (joined_row lay f) = filter (\<lambda>x. fd_column x = c) (f k)"
    by (rule filter_joined [OF _ k(1) none]) (use assms(1) in \<open>simp add: blocks_def\<close>)
  moreover have "filter (\<lambda>x. fd_column x = c) (joined_row lay' g) = filter (\<lambda>x. fd_column x = c) (g k)"
    by (rule filter_joined [OF _ _ none']) (use assms(2,3) k(1) in \<open>auto simp: blocks_def\<close>)
  ultimately have "named c (joined_row lay' g) = [x]" using x(1) assms(4) [OF k(1)] by (simp add: named_def)
  then show ?thesis using None x(2) by (simp add: Find_def find_unqualified_named)
next
  case (Some a)
  then obtain k where k: "k \<in> set lay" "a = A k"
    using find_qualified_joined(2) [OF assms(1), of a c] assms(6) by (auto simp: Find_def)
  then show ?thesis using find_qualified_joined(1) [OF assms(1) k(1), of c] find_qualified_joined(1) [OF assms(2), of k c]
      assms(3,4,6) Some by (auto simp: Find_def)
qed

lemma EvalBool_mono:
  assumes "\<And>t c v. (t, c) \<in> column_refs e \<Longrightarrow> Find r t c = Inr v \<Longrightarrow> Find r' t c = Inr v" "EvalBool e r = Inr b"
  shows "EvalBool e r' = Inr b"
proof -
  have val: "EvalValue a r' = Inr v"
    if "\<And>t c v. (t, c) \<in> column_refs a \<Longrightarrow> Find r t c = Inr v \<Longrightarrow> Find r' t c = Inr v" "EvalValue a r = Inr v" for a v
    using that by (cases a) (auto simp: EvalValue_def)
  show ?thesis using assms
  proof (induction e arbitrary: b)
    case (ComparisonExpr op x y)
    then obtain v w where vw: "EvalValue x r = Inr v" "EvalValue y r = Inr w" by (auto split: sum.splits)
    moreover have "EvalValue x r' = Inr v" by (rule val [OF _ vw(1)]) (use ComparisonExpr.prems(1) in auto)
    moreover have "EvalValue y r' = Inr w" by (rule val [OF _ vw(2)]) (use ComparisonExpr.prems(1) in auto)
    ultimately show ?case using ComparisonExpr.prems(2) by simp
  next
    case (AndExpr x y)
    then obtain a where a: "EvalBool x r = Inr a" by (auto split: sum.splits)
    have "EvalBool x r' = Inr a" by (rule AndExpr.IH(1) [OF _ a]) (use AndExpr.prems(1) in auto)
    then show ?case using AndExpr.prems AndExpr.IH(2) a by (cases a) auto
  next
    case (OrExpr x y)
    then obtain a where a: "EvalBool x r = Inr a" by (auto split: sum.splits)
    have "EvalBool x r' = Inr a" by (rule OrExpr.IH(1) [OF _ a]) (use OrExpr.prems(1) in auto)
    then show ?case using OrExpr.prems OrExpr.IH(2) a by (cases a) auto
  qed simp_all
qed

section \<open>Qualified conditions\<close>

fun fully_qualified :: "Expr \<Rightarrow> bool" where
  "fully_qualified (ColumnRefExpr table column) \<longleftrightarrow> table \<noteq> None"
| "fully_qualified (LiteralExpr l) \<longleftrightarrow> True"
| "fully_qualified (ComparisonExpr op l r) \<longleftrightarrow> fully_qualified l \<and> fully_qualified r"
| "fully_qualified (AndExpr l r) \<longleftrightarrow> fully_qualified l \<and> fully_qualified r"
| "fully_qualified (OrExpr l r) \<longleftrightarrow> fully_qualified l \<and> fully_qualified r"

lemma CollectReferencedTables_Un: "CollectReferencedTables e out = CollectReferencedTables e {} \<union> out"
proof (induction e arbitrary: out)
  case (ComparisonExpr op l r)
  show ?case using ComparisonExpr(1) [of out] ComparisonExpr(2) [of "CollectReferencedTables l out"] ComparisonExpr(2) [of "CollectReferencedTables l {}"] by auto
next
  case (AndExpr l r)
  show ?case using AndExpr(1) [of out] AndExpr(2) [of "CollectReferencedTables l out"] AndExpr(2) [of "CollectReferencedTables l {}"] by auto
next
  case (OrExpr l r)
  show ?case using OrExpr(1) [of out] OrExpr(2) [of "CollectReferencedTables l out"] OrExpr(2) [of "CollectReferencedTables l {}"] by auto
qed (auto split: option.split)

definition expr_tables :: "Expr \<Rightarrow> string set" where
  "expr_tables e = CollectReferencedTables e {}"

lemma expr_tables_simps [simp]:
  "expr_tables (ColumnRefExpr t c) = set_option t" "expr_tables (LiteralExpr l) = {}"
  "expr_tables (ComparisonExpr op a b) = expr_tables a \<union> expr_tables b"
  "expr_tables (AndExpr a b) = expr_tables a \<union> expr_tables b"
  "expr_tables (OrExpr a b) = expr_tables a \<union> expr_tables b"
  unfolding expr_tables_def
  by (simp_all add: CollectReferencedTables_Un [of _ "CollectReferencedTables _ _"] Un_commute split: option.split)

lemma fully_qualified_refs: "fully_qualified e \<Longrightarrow> (None, c) \<notin> column_refs e"
  by (induction e) auto

lemma expr_tables_refs: "t \<in> expr_tables e \<longleftrightarrow> (\<exists>c. (Some t, c) \<in> column_refs e)"
  by (induction e) auto

end
