(* ===== verification/Join_Plans.thy ===== *)
theory Join_Plans
  imports Join_Semantics
begin

text \<open>
  The plans the planner builds for a query's joins, and the rows they yield: those choices of a row
  of every table that satisfy every ON condition, whatever the order and the kinds of the joins.
\<close>

section \<open>Queries the planner joins\<close>

definition multimap_law :: "equal_range \<Rightarrow> bool" where
  "multimap_law er \<longleftrightarrow> (\<forall>m key. mset (er m key) = mset (map snd (filter (\<lambda>p. fst p = key) m)))"

definition node_rows :: "tables \<Rightarrow> TableNode \<Rightarrow> ExecRow list" where
  "node_rows T nd = (case T (tn_table nd) of None \<Rightarrow> [] | Some (schema, vs) \<Rightarrow> map (scan_row (tn_alias nd) schema) vs)"

definition node_columns :: "tables \<Rightarrow> TableNode \<Rightarrow> string list" where
  "node_columns T nd = (case T (tn_table nd) of None \<Rightarrow> [] | Some (schema, vs) \<Rightarrow> map cd_name (columns schema))"

text \<open>A condition that compares two columns of one table.\<close>
definition self_equi :: "Expr \<Rightarrow> bool" where
  "self_equi c = (case ExtractEquiJoin c of Some (a, b) \<Rightarrow> fst a = fst b | None \<Rightarrow> False)"

text \<open>The tables of a query, with names of their own, and conditions for all but the first.\<close>
definition joins_tables :: "tables \<Rightarrow> TableNode list \<Rightarrow> bool" where
  "joins_tables T nodes \<longleftrightarrow> nodes \<noteq> [] \<and> distinct (map tn_alias nodes) \<and> (\<forall>nd \<in> set nodes. T (tn_table nd) \<noteq> None)
     \<and> join_condition (nodes ! 0) = None \<and> (\<forall>k < length nodes. 0 < k \<longrightarrow> join_condition (nodes ! k) \<noteq> None)"

text \<open>
  An unqualified column of an ON condition is a column of one table of the query only. (The validator
  asks that of the tables up to the join; a later table may have a column of the same name.)
\<close>
definition unambiguous :: "tables \<Rightarrow> TableNode list \<Rightarrow> bool" where
  "unambiguous T nodes \<longleftrightarrow> (\<forall>nd \<in> set nodes. \<forall>e. join_condition nd = Some e \<longrightarrow>
     (\<forall>c. (None, c) \<in> column_refs e \<longrightarrow> owned_once (\<lambda>k. node_columns T (nodes ! k)) {..<length nodes} c))"

text \<open>Every condition is qualified, is about its own table and those before it, and does not compare two columns of one table.\<close>
definition joinable :: "tables \<Rightarrow> TableNode list \<Rightarrow> bool" where
  "joinable T nodes \<longleftrightarrow> joins_tables T nodes
     \<and> (\<forall>k < length nodes. \<forall>c. join_condition (nodes ! k) = Some c \<longrightarrow> fully_qualified c \<and> \<not> self_equi c
          \<and> expr_tables c \<subseteq> (\<lambda>j. tn_alias (nodes ! j)) ` {..k})"

definition holds :: "TableNode list \<Rightarrow> nat \<Rightarrow> ExecRow \<Rightarrow> bool" where
  "holds nodes k r = (case join_condition (nodes ! k) of None \<Rightarrow> True | Some c \<Rightarrow> cond_holds c r)"

definition satisfied :: "TableNode list \<Rightarrow> nat list \<Rightarrow> (nat \<Rightarrow> ExecRow) \<Rightarrow> bool" where
  "satisfied nodes lay f \<longleftrightarrow> (\<forall>k \<in> set lay. holds nodes k (joined_row lay f))"

abbreviation join_result :: "tables \<Rightarrow> TableNode list \<Rightarrow> nat list \<Rightarrow> ExecRow multiset" where
  "join_result T nodes lay \<equiv>
     image_mset (joined_row lay) (filter_mset (satisfied nodes lay) (mset (choices (\<lambda>k. node_rows T (nodes ! k)) lay)))"

lemma joins_tablesD:
  assumes "joins_tables T nodes" "k < length nodes"
  shows "T (tn_table (nodes ! k)) \<noteq> None" "k \<noteq> j \<Longrightarrow> j < length nodes \<Longrightarrow> tn_alias (nodes ! k) \<noteq> tn_alias (nodes ! j)"
  using assms by (auto simp: joins_tables_def distinct_conv_nth)

lemma joinable_tables: "joinable T nodes \<Longrightarrow> joins_tables T nodes"
  by (simp add: joinable_def)

lemma joinable_unambiguous: "joinable T nodes \<Longrightarrow> unambiguous T nodes"
  unfolding joinable_def unambiguous_def using fully_qualified_refs by (metis in_set_conv_nth)

lemma joinableD:
  assumes "joinable T nodes" "k < length nodes" "join_condition (nodes ! k) = Some c"
  shows "fully_qualified c \<and> \<not> self_equi c \<and> expr_tables c \<subseteq> (\<lambda>j. tn_alias (nodes ! j)) ` {..k}"
  using assms unfolding joinable_def by blast

text \<open>The parts of a row of a query.\<close>

definition query_row :: "tables \<Rightarrow> TableNode list \<Rightarrow> nat list \<Rightarrow> (nat \<Rightarrow> ExecRow) \<Rightarrow> bool" where
  "query_row T nodes lay f \<longleftrightarrow> distinct lay \<and> set lay \<subseteq> {..<length nodes} \<and> (\<forall>k \<in> set lay. f k \<in> set (node_rows T (nodes ! k)))"

lemma query_row_blocks:
  assumes "joins_tables T nodes" "query_row T nodes lay f"
  shows "blocks (\<lambda>k. tn_alias (nodes ! k)) (\<lambda>k. node_columns T (nodes ! k)) lay f"
proof -
  have "inj_on (\<lambda>k. tn_alias (nodes ! k)) (set lay)"
    using joins_tablesD(2) [OF assms(1)] assms(2) unfolding query_row_def by (intro inj_onI) (metis lessThan_iff subsetD)
  moreover have "block (tn_alias (nodes ! k)) (node_columns T (nodes ! k)) (f k)" if "k \<in> set lay" for k
  proof -
    have "f k \<in> set (node_rows T (nodes ! k))" using assms(2) that by (simp add: query_row_def)
    then show ?thesis by (auto simp: node_rows_def node_columns_def split: option.splits)
  qed
  ultimately show ?thesis using assms(2) by (simp add: blocks_def query_row_def)
qed

lemma choice_query_row:
  assumes "distinct lay" "set lay \<subseteq> {..<length nodes}" "f \<in> set (choices (\<lambda>k. node_rows T (nodes ! k)) lay)"
  shows "query_row T nodes lay f"
  using assms choices_mem [of lay f "\<lambda>k. node_rows T (nodes ! k)"] by (simp add: query_row_def)

lemma query_row_upd:
  assumes "query_row T nodes lay f" "k < length nodes" "k \<notin> set lay" "r \<in> set (node_rows T (nodes ! k))" "mset lay' = add_mset k (mset lay)"
  shows "query_row T nodes lay' (f(k := r))"
proof -
  have "mset lay' = mset (k # lay)" using assms(5) by simp
  then have "distinct lay'" "set lay' = insert k (set lay)"
    using assms(1,3) mset_eq_imp_distinct_iff [of lay' "k # lay"] mset_eq_setD [of lay' "k # lay"] by (simp_all add: query_row_def)
  then show ?thesis using assms(1,2,4) by (auto simp: query_row_def)
qed

section \<open>Conditions decided by part of a row\<close>

text \<open>Whatever rows of further tables are added, the condition of table \<open>k\<close> has this truth value.\<close>
definition decided :: "tables \<Rightarrow> TableNode list \<Rightarrow> nat list \<Rightarrow> (nat \<Rightarrow> ExecRow) \<Rightarrow> nat \<Rightarrow> bool \<Rightarrow> bool" where
  "decided T nodes lay f k b \<longleftrightarrow> (\<forall>lay' g. query_row T nodes lay' g \<longrightarrow> set lay \<subseteq> set lay' \<longrightarrow> (\<forall>i \<in> set lay. g i = f i) \<longrightarrow>
     holds nodes k (joined_row lay' g) = b)"

text \<open>The conditions so far are known to hold, or one of them is known not to.\<close>
definition judged :: "tables \<Rightarrow> TableNode list \<Rightarrow> nat list \<Rightarrow> (nat \<Rightarrow> ExecRow) \<Rightarrow> bool" where
  "judged T nodes lay f \<longleftrightarrow> (\<forall>k \<in> set lay. decided T nodes lay f k True) \<or> (\<exists>k \<in> set lay. decided T nodes lay f k False)"

lemma decided_now: "decided T nodes lay f k b \<Longrightarrow> query_row T nodes lay f \<Longrightarrow> holds nodes k (joined_row lay f) = b"
  unfolding decided_def by blast

lemma decided_later:
  assumes "decided T nodes lay f k b" "set lay \<subseteq> set lay'" "\<And>i. i \<in> set lay \<Longrightarrow> f' i = f i"
  shows "decided T nodes lay' f' k b"
  unfolding decided_def
proof (intro allI impI)
  fix lay'' g
  assume g: "query_row T nodes lay'' g" "set lay' \<subseteq> set lay''" "\<forall>i \<in> set lay'. g i = f' i"
  then have "set lay \<subseteq> set lay''" "\<forall>i \<in> set lay. g i = f i" using assms(2,3) by auto
  then show "holds nodes k (joined_row lay'' g) = b" using assms(1) g(1) unfolding decided_def by blast
qed

lemma judged_satisfied:
  assumes "judged T nodes lay f" "query_row T nodes lay f"
  shows "satisfied nodes lay f \<longleftrightarrow> (\<forall>k \<in> set lay. decided T nodes lay f k True)"
    and "\<not> satisfied nodes lay f \<longleftrightarrow> (\<exists>k \<in> set lay. decided T nodes lay f k False)"
  using assms decided_now [OF _ assms(2)] unfolding judged_def satisfied_def by blast+

lemma judged_step:
  assumes "judged T nodes lay f" "query_row T nodes lay f" "set lay' = insert k (set lay)" "k \<notin> set lay" "query_row T nodes lay' (f(k := r))"
    and "satisfied nodes lay f \<Longrightarrow> \<exists>b. decided T nodes lay' (f(k := r)) k b"
  shows "judged T nodes lay' (f(k := r))"
    and "satisfied nodes lay' (f(k := r)) \<longleftrightarrow> satisfied nodes lay f \<and> holds nodes k (joined_row lay' (f(k := r)))"
proof -
  have later: "decided T nodes lay' (f(k := r)) i b" if "decided T nodes lay f i b" for i b
    by (rule decided_later [OF that]) (use assms(3,4) in auto)
  show J: "judged T nodes lay' (f(k := r))"
  proof (cases "satisfied nodes lay f")
    case True
    then obtain b where b: "decided T nodes lay' (f(k := r)) k b" using assms(6) by blast
    have "\<forall>i \<in> set lay. decided T nodes lay' (f(k := r)) i True" using True later judged_satisfied(1) [OF assms(1,2)] by blast
    then show ?thesis using b unfolding judged_def assms(3) by (cases b) auto
  next
    case False
    then show ?thesis using later judged_satisfied(2) [OF assms(1,2)] unfolding judged_def assms(3) by blast
  qed
  show "satisfied nodes lay' (f(k := r)) \<longleftrightarrow> satisfied nodes lay f \<and> holds nodes k (joined_row lay' (f(k := r)))"
  proof (cases "satisfied nodes lay f")
    case True
    then have "\<forall>i \<in> set lay. holds nodes i (joined_row lay' (f(k := r)))"
      using later judged_satisfied(1) [OF assms(1,2)] decided_now [OF _ assms(5)] by blast
    then show ?thesis using True assms(3) by (simp add: satisfied_def)
  next
    case False
    then obtain i where "i \<in> set lay" "\<not> holds nodes i (joined_row lay' (f(k := r)))"
      using later judged_satisfied(2) [OF assms(1,2)] decided_now [OF _ assms(5)] by blast
    then show ?thesis using False assms(3) by (auto simp: satisfied_def)
  qed
qed

text \<open>Columns found, and conditions evaluated, on part of a row.\<close>

lemma Find_later:
  assumes "joins_tables T nodes" "unambiguous T nodes" "k < length nodes" "join_condition (nodes ! k) = Some e" "(t, c) \<in> column_refs e"
    and "query_row T nodes lay f" "query_row T nodes lay' g" "set lay \<subseteq> set lay'" "\<And>i. i \<in> set lay \<Longrightarrow> g i = f i"
    and "Find (joined_row lay f) t c = Inr v"
  shows "Find (joined_row lay' g) t c = Inr v"
proof (rule Find_mono [OF query_row_blocks [OF assms(1,6)] query_row_blocks [OF assms(1,7)] assms(8,9) _ assms(10)])
  assume "t = None"
  then have "owned_once (\<lambda>k. node_columns T (nodes ! k)) {..<length nodes} c"
    using assms(2-5) unfolding unambiguous_def by (metis nth_mem)
  moreover have "set lay' \<subseteq> {..<length nodes}" using assms(7) by (simp add: query_row_def)
  ultimately show "owned_once (\<lambda>k. node_columns T (nodes ! k)) (set lay') c" unfolding owned_once_def by blast
qed

lemma evaluated_decided:
  assumes "joins_tables T nodes" "unambiguous T nodes" "k < length nodes" "join_condition (nodes ! k) = Some e"
    and "query_row T nodes lay f" "EvalBool e (joined_row lay f) = Inr b"
  shows "decided T nodes lay f k b"
  unfolding decided_def
proof (intro allI impI)
  fix lay' g
  assume g: "query_row T nodes lay' g" "set lay \<subseteq> set lay'" "\<forall>i \<in> set lay. g i = f i"
  have "EvalBool e (joined_row lay' g) = Inr b"
    by (rule EvalBool_mono [OF Find_later [OF assms(1-4) _ assms(5) g(1,2)] assms(6)]) (use g(3) in auto)
  then show "holds nodes k (joined_row lay' g) = b" using assms(4) EvalBool_cond_holds by (simp add: holds_def)
qed

lemma equi_decided:
  assumes "joins_tables T nodes" "unambiguous T nodes" "k < length nodes" "join_condition (nodes ! k) = Some e"
    and "query_row T nodes lay f" "ExtractEquiJoin e = Some (a, b) \<or> ExtractEquiJoin e = Some (b, a)"
    and "Find (joined_row lay f) (fst a) (snd a) = Inr v" "Find (joined_row lay f) (fst b) (snd b) = Inr w"
  shows "decided T nodes lay f k (v = w)"
  unfolding decided_def
proof (intro allI impI)
  fix lay' g
  assume g: "query_row T nodes lay' g" "set lay \<subseteq> set lay'" "\<forall>i \<in> set lay. g i = f i"
  obtain ta ca tb cb where e: "a = (ta, ca)" "b = (tb, cb)" "e = ComparisonExpr kEq (ColumnRefExpr ta ca) (ColumnRefExpr tb cb)
      \<or> e = ComparisonExpr kEq (ColumnRefExpr tb cb) (ColumnRefExpr ta ca)"
    using assms(6) by (cases e rule: ExtractEquiJoin.cases) auto
  have refs: "(ta, ca) \<in> column_refs e" "(tb, cb) \<in> column_refs e" using e(3) by auto
  have g3: "g i = f i" if "i \<in> set lay" for i using g(3) that by blast
  have "Find (joined_row lay' g) ta ca = Inr v" "Find (joined_row lay' g) tb cb = Inr w"
    using Find_later [OF assms(1-4) refs(1) assms(5) g(1,2) g3] Find_later [OF assms(1-4) refs(2) assms(5) g(1,2) g3] assms(7,8) e(1,2) by simp_all
  then have "column_value (joined_row lay' g) ta ca = Some v" "column_value (joined_row lay' g) tb cb = Some w"
    by (simp_all add: column_value_Find)
  then show "holds nodes k (joined_row lay' g) = (v = w)" using assms(4) e(3) by (auto simp: holds_def)
qed

section \<open>The plans\<close>

definition node_scan :: "TableNode \<Rightarrow> PhysicalPlan" where
  "node_scan nd = new_scan (tn_table nd) (tn_alias nd)"

text \<open>With \<open>sc\<close>, plans in which every condition is evaluated once all its tables are joined.\<close>
inductive join_plan :: "TableNode list \<Rightarrow> bool \<Rightarrow> nat list \<Rightarrow> PhysicalPlan \<Rightarrow> bool" for nodes sc where
  first: "join_plan nodes sc [0] (node_scan (nodes ! 0))"
| nested: "join_plan nodes sc lay p \<Longrightarrow> k < length nodes \<Longrightarrow> k \<notin> set lay \<Longrightarrow> join_condition (nodes ! k) = Some c \<Longrightarrow>
    (sc \<Longrightarrow> expr_tables c \<subseteq> (\<lambda>j. tn_alias (nodes ! j)) ` insert k (set lay)) \<Longrightarrow>
    join_plan nodes sc (lay @ [k]) (new_nested_loop_join p (node_scan (nodes ! k)) c)"
| build_left: "join_plan nodes sc lay p \<Longrightarrow> k < length nodes \<Longrightarrow> k \<notin> set lay \<Longrightarrow> join_condition (nodes ! k) = Some c \<Longrightarrow>
    (sc \<Longrightarrow> expr_tables c \<subseteq> (\<lambda>j. tn_alias (nodes ! j)) ` insert k (set lay)) \<Longrightarrow>
    ExtractEquiJoin c = Some (nx, ac) \<or> ExtractEquiJoin c = Some (ac, nx) \<Longrightarrow> fst nx = Some (tn_alias (nodes ! k)) \<Longrightarrow>
    join_plan nodes sc (k # lay) (new_hash_join p (node_scan (nodes ! k)) (fst ac) (snd ac) (fst nx) (snd nx))"
| build_right: "join_plan nodes sc lay p \<Longrightarrow> k < length nodes \<Longrightarrow> k \<notin> set lay \<Longrightarrow> join_condition (nodes ! k) = Some c \<Longrightarrow>
    (sc \<Longrightarrow> expr_tables c \<subseteq> (\<lambda>j. tn_alias (nodes ! j)) ` insert k (set lay)) \<Longrightarrow>
    ExtractEquiJoin c = Some (nx, ac) \<or> ExtractEquiJoin c = Some (ac, nx) \<Longrightarrow> fst nx = Some (tn_alias (nodes ! k)) \<Longrightarrow>
    join_plan nodes sc (lay @ [k]) (new_hash_join (node_scan (nodes ! k)) p (fst nx) (snd nx) (fst ac) (snd ac))"

lemma join_plan_layout:
  assumes "join_plan nodes sc lay p" "nodes \<noteq> []"
  shows "distinct lay \<and> set lay \<subseteq> {..<length nodes}"
  using assms by (induction rule: join_plan.induct) auto

lemma choose_join_plan:
  assumes "join_plan nodes sc lay p" "k < length nodes" "k \<notin> set lay" "join_condition (nodes ! k) = Some c"
    and "sc \<Longrightarrow> expr_tables c \<subseteq> (\<lambda>j. tn_alias (nodes ! j)) ` insert k (set lay)"
  shows "\<exists>lay'. mset lay' = add_mset k (mset lay) \<and> join_plan nodes sc lay' (choose_join p left_rows (nodes ! k) right_rows c)"
proof -
  have nested: "join_plan nodes sc (lay @ [k]) (new_nested_loop_join p (node_scan (nodes ! k)) c)" by (rule nested [OF assms])
  have hash: "\<exists>lay'. mset lay' = add_mset k (mset lay) \<and> join_plan nodes sc lay'
      (if left_rows \<le> right_rows then new_hash_join p (node_scan (nodes ! k)) (fst ac) (snd ac) (fst nx) (snd nx)
       else new_hash_join (node_scan (nodes ! k)) p (fst nx) (snd nx) (fst ac) (snd ac))"
    if "ExtractEquiJoin c = Some (nx, ac) \<or> ExtractEquiJoin c = Some (ac, nx)" "fst nx = Some (tn_alias (nodes ! k))" for nx ac
  proof (cases "left_rows \<le> right_rows")
    case True
    then show ?thesis using build_left [OF assms that] by (intro exI [of _ "k # lay"]) simp
  next
    case False
    then show ?thesis using build_right [OF assms that] by (intro exI [of _ "lay @ [k]"]) simp
  qed
  have "choose_join p left_rows (nodes ! k) right_rows c = new_nested_loop_join p (node_scan (nodes ! k)) c
    \<or> (\<exists>nx ac. (ExtractEquiJoin c = Some (nx, ac) \<or> ExtractEquiJoin c = Some (ac, nx)) \<and> fst nx = Some (tn_alias (nodes ! k))
        \<and> choose_join p left_rows (nodes ! k) right_rows c =
          (if left_rows \<le> right_rows then new_hash_join p (node_scan (nodes ! k)) (fst ac) (snd ac) (fst nx) (snd nx)
           else new_hash_join (node_scan (nodes ! k)) p (fst nx) (snd nx) (fst ac) (snd ac)))"
  proof (cases "ExtractEquiJoin c")
    case None
    then show ?thesis by (simp add: choose_join_def node_scan_def)
  next
    case (Some ab)
    obtain a b where ab: "ab = (a, b)" by (cases ab)
    consider "\<not> left_rows + right_rows \<le> left_rows * right_rows \<or> fst a \<noteq> Some (tn_alias (nodes ! k)) \<and> fst b \<noteq> Some (tn_alias (nodes ! k))"
      | "left_rows + right_rows \<le> left_rows * right_rows" "fst a = Some (tn_alias (nodes ! k))"
      | "left_rows + right_rows \<le> left_rows * right_rows" "fst a \<noteq> Some (tn_alias (nodes ! k))" "fst b = Some (tn_alias (nodes ! k))"
      by blast
    then show ?thesis
    proof cases
      case 1
      then show ?thesis using Some ab by (auto simp: choose_join_def node_scan_def Let_def)
    next
      case 2
      then show ?thesis using Some ab
        by (intro disjI2 exI [of _ a] exI [of _ b]) (simp add: choose_join_def node_scan_def Let_def)
    next
      case 3
      then show ?thesis using Some ab
        by (intro disjI2 exI [of _ b] exI [of _ a]) (simp add: choose_join_def node_scan_def Let_def)
    qed
  qed
  then show ?thesis using hash nested by (elim disjE exE conjE) (auto intro: exI [of _ "lay @ [k]"])
qed

section \<open>Their rows\<close>

lemma test_rows:
  assumes "snd (bind_stream (test_row c) (xs, e)) = None"
  shows "fst (bind_stream (test_row c) (xs, e)) = filter (\<lambda>x. EvalBool c x = Inr True) xs"
  using assms by (induction xs) (auto simp: test_row_def append_stream_def split: sum.splits option.splits if_splits)

lemma pair_rows_fst:
  assumes "snd (pair_rows c rights x) = None"
  shows "fst (pair_rows c rights x) = filter (\<lambda>y. EvalBool c y = Inr True) (map (\<lambda>r. x @ r) rights)"
  using test_rows [OF assms [unfolded pair_rows_def]] by (simp add: pair_rows_def)

lemma key_rows_Inr:
  "key_rows t c (xs, e) = Inr m \<longleftrightarrow> e = None \<and> (\<forall>x \<in> set xs. \<exists>v. Find x t c = Inr v) \<and> m = map (\<lambda>x. (projr (Find x t c), x)) xs"
proof (induction xs arbitrary: m)
  case Nil
  then show ?case by (cases e) auto
next
  case (Cons x xs)
  then show ?case by (cases "Find x t c") (auto simp: and_then_Inr)
qed

lemma sum_filter_swap:
  "(\<Sum>r \<in># B. \<Sum>f \<in># filter_mset (\<lambda>f. Q f r) C. {#h f r#}) = (\<Sum>f \<in># C. \<Sum>r \<in># filter_mset (Q f) B. {#h f r#})"
proof -
  have sum_if: "(\<Sum>x \<in># filter_mset R M. F x) = (\<Sum>x \<in># M. if R x then F x else {#})" for R M and F :: "'x \<Rightarrow> 'y multiset"
    by (induction M) simp_all
  show ?thesis unfolding sum_if by (rule sum_mset.swap)
qed

text \<open>The result over one more table, as the sum a join node computes.\<close>

lemma layout_step:
  assumes "distinct lay" "set lay \<subseteq> {..<length nodes}" "k < length nodes" "k \<notin> set lay" "mset lay' = add_mset k (mset lay)"
  shows "distinct lay'" "set lay' = insert k (set lay)"
proof -
  have "mset lay' = mset (k # lay)" using assms(5) by simp
  moreover have "distinct (k # lay)" using assms(1,4) by simp
  ultimately show "distinct lay'" "set lay' = insert k (set lay)" by (metis mset_eq_imp_distinct_iff, metis list.simps(15) mset_eq_setD)
qed

lemma choices_step:
  assumes "distinct lay" "k \<notin> set lay" "mset lay' = add_mset k (mset lay)"
  shows "mset (choices blk lay') = mset (choices blk (k # lay))"
    and "f' \<in> set (choices blk lay') \<Longrightarrow> \<exists>f r. f' = f(k := r) \<and> f \<in> set (choices blk lay) \<and> r \<in> set (blk k)"
proof -
  have "mset lay' = mset (k # lay)" using assms(3) by simp
  then show m: "mset (choices blk lay') = mset (choices blk (k # lay))"
    using assms(1,2) choices_perm [of "k # lay" lay' blk] by simp
  show "f' \<in> set (choices blk lay') \<Longrightarrow> \<exists>f r. f' = f(k := r) \<and> f \<in> set (choices blk lay) \<and> r \<in> set (blk k)"
    unfolding mset_eq_setD [OF m] by auto
qed

lemma join_result_step:
  assumes "distinct lay" "set lay \<subseteq> {..<length nodes}" "k < length nodes" "k \<notin> set lay" "mset lay' = add_mset k (mset lay)"
    and "\<And>f. f \<in> set (choices (\<lambda>k. node_rows T (nodes ! k)) lay) \<Longrightarrow> judged T nodes lay f"
    and "\<And>f r. f \<in> set (choices (\<lambda>k. node_rows T (nodes ! k)) lay) \<Longrightarrow> r \<in> set (node_rows T (nodes ! k)) \<Longrightarrow> satisfied nodes lay f \<Longrightarrow>
      decided T nodes lay' (f(k := r)) k (Q (joined_row lay f) r)"
    and "\<And>f r. h (joined_row lay f) r = joined_row lay' (f(k := r))"
  shows "join_result T nodes lay' = (\<Sum>x \<in># join_result T nodes lay. \<Sum>r \<in># filter_mset (Q x) (mset (node_rows T (nodes ! k))). {#h x r#})"
    and "f' \<in> set (choices (\<lambda>k. node_rows T (nodes ! k)) lay') \<Longrightarrow> judged T nodes lay' f'"
proof -
  let ?C = "choices (\<lambda>k. node_rows T (nodes ! k))"
  note lay' = layout_step [OF assms(1-5)]
  note C = choices_step [OF assms(1,4,5)]
  have step: "judged T nodes lay' (f(k := r))"
    "satisfied nodes lay' (f(k := r)) \<longleftrightarrow> satisfied nodes lay f \<and> Q (joined_row lay f) r"
    if f: "f \<in> set (?C lay)" "r \<in> set (node_rows T (nodes ! k))" for f r
  proof -
    have q: "query_row T nodes lay f" by (rule choice_query_row [OF assms(1,2) f(1)])
    have q': "query_row T nodes lay' (f(k := r))" by (rule query_row_upd [OF q assms(3,4) f(2) assms(5)])
    have d: "\<exists>b. decided T nodes lay' (f(k := r)) k b" if "satisfied nodes lay f" using assms(7) [OF f that] by blast
    note J = judged_step [OF assms(6) [OF f(1)] q lay'(2) assms(4) q' d]
    show "judged T nodes lay' (f(k := r))" by (rule J(1))
    show "satisfied nodes lay' (f(k := r)) \<longleftrightarrow> satisfied nodes lay f \<and> Q (joined_row lay f) r"
      using J(2) assms(7) [OF f] decided_now [OF _ q'] by blast
  qed
  show "f' \<in> set (?C lay') \<Longrightarrow> judged T nodes lay' f'" using C(2) [of f' "\<lambda>k. node_rows T (nodes ! k)"] step(1) by blast
  have "join_result T nodes lay' = image_mset (joined_row lay') (filter_mset (satisfied nodes lay') (mset (?C (k # lay))))"
    using C(1) by simp
  also have "\<dots> = (\<Sum>f \<in># filter_mset (satisfied nodes lay) (mset (?C lay)).
      \<Sum>r \<in># filter_mset (Q (joined_row lay f)) (mset (node_rows T (nodes ! k))). {#h (joined_row lay f) r#})"
    by (rule join_step) (use step(2) assms(8) in simp)
  finally show "join_result T nodes lay' = (\<Sum>x \<in># join_result T nodes lay. \<Sum>r \<in># filter_mset (Q x) (mset (node_rows T (nodes ! k))). {#h x r#})"
    by (simp add: image_mset.compositionality comp_def)
qed

lemma join_result_grows:
  assumes "distinct lay" "set lay \<subseteq> {..<length nodes}" "k < length nodes" "k \<notin> set lay" "mset lay' = add_mset k (mset lay)"
    and "\<And>f. f \<in> set (choices (\<lambda>k. node_rows T (nodes ! k)) lay) \<Longrightarrow> judged T nodes lay f"
    and "\<And>f r. f \<in> set (choices (\<lambda>k. node_rows T (nodes ! k)) lay) \<Longrightarrow> r \<in> set (node_rows T (nodes ! k)) \<Longrightarrow> satisfied nodes lay f \<Longrightarrow>
      decided T nodes lay' (f(k := r)) k (Q (joined_row lay f) r)"
    and "\<And>f r. h (joined_row lay f) r = joined_row lay' (f(k := r))"
    and "M = (\<Sum>x \<in># join_result T nodes lay. \<Sum>r \<in># filter_mset (Q x) (mset (node_rows T (nodes ! k))). {#h x r#})"
  shows "M = join_result T nodes lay' \<and> (\<forall>f \<in> set (choices (\<lambda>k. node_rows T (nodes ! k)) lay'). judged T nodes lay' f)"
proof (intro conjI ballI)
  have "join_result T nodes lay' = (\<Sum>x \<in># join_result T nodes lay. \<Sum>r \<in># filter_mset (Q x) (mset (node_rows T (nodes ! k))). {#h x r#})"
    by (rule join_result_step(1) [OF assms(1-5)], erule assms(6), erule (2) assms(7), rule assms(8))
  then show "M = join_result T nodes lay'" using assms(9) by simp
  fix f assume f: "f \<in> set (choices (\<lambda>k. node_rows T (nodes ! k)) lay')"
  show "judged T nodes lay' f"
    by (rule join_result_step(2) [OF assms(1-5) _ _ _ f], erule assms(6), erule (2) assms(7), rule assms(8))
qed

text \<open>The rows of a query's plan.\<close>

lemma node_scan_stream:
  assumes "T (tn_table nd) \<noteq> None"
  shows "plan_stream er T (node_scan nd) = (node_rows T nd, None)"
  using assms by (auto simp: node_scan_def new_scan_def node_rows_def)

lemma equi_columns:
  assumes "joinable T nodes" "k < length nodes" "join_condition (nodes ! k) = Some c"
    and "ExtractEquiJoin c = Some (nx, ac) \<or> ExtractEquiJoin c = Some (ac, nx)" "fst nx = Some (tn_alias (nodes ! k))"
    and "expr_tables c \<subseteq> (\<lambda>j. tn_alias (nodes ! j)) ` insert k (set lay)"
  shows "\<exists>j \<in> set lay. fst ac = Some (tn_alias (nodes ! j))"
proof -
  have c: "fully_qualified c" "\<not> self_equi c" using joinableD [OF assms(1-3)] by simp_all
  obtain t where t: "fst ac = Some t" "t \<in> expr_tables c"
    using assms(4) c(1) by (cases c rule: ExtractEquiJoin.cases) auto
  have "fst nx \<noteq> fst ac" using c(2) assms(4) by (auto simp: self_equi_def)
  then have "t \<noteq> tn_alias (nodes ! k)" using t(1) assms(5) by simp
  then show ?thesis using t assms(6) by auto
qed

lemma sum_mset_cong: "(\<And>x. x \<in># M \<Longrightarrow> F x = G x) \<Longrightarrow> (\<Sum>x \<in># M. F x) = (\<Sum>x \<in># M. G x)"
  by (simp cong: image_mset_cong)

text \<open>The matches of a key among the rows of the build side.\<close>

lemma er_matches:
  assumes "multimap_law er" "key_rows t c (xs, e) = Inr m"
  shows "mset (er m key) = filter_mset (\<lambda>x. Find x t c = Inr key) (mset xs)"
proof -
  have m: "m = map (\<lambda>x. (projr (Find x t c), x)) xs" "\<forall>x \<in> set xs. \<exists>v. Find x t c = Inr v" using assms(2) by (simp_all add: key_rows_Inr)
  have "mset (er m key) = mset (map snd (filter (\<lambda>p. fst p = key) m))" using assms(1) unfolding multimap_law_def by blast
  also have "map snd (filter (\<lambda>p. fst p = key) m) = filter (\<lambda>x. projr (Find x t c) = key) xs"
    unfolding m(1) by (induction xs) simp_all
  also have "filter (\<lambda>x. projr (Find x t c) = key) xs = filter (\<lambda>x. Find x t c = Inr key) xs"
    using m(2) by (intro filter_cong) auto
  finally show ?thesis by simp
qed

lemma hash_rows:
  assumes "multimap_law er" "key_rows bt bc (bs, eb) = Inr m" "snd (bind_stream (probe_row er pt' pc' m) (ps, ep)) = None"
  shows "mset (fst (bind_stream (probe_row er pt' pc' m) (ps, ep)))
    = (\<Sum>p \<in># mset ps. \<Sum>b \<in># filter_mset (\<lambda>b. \<exists>v. Find p pt' pc' = Inr v \<and> Find b bt bc = Inr v) (mset bs). {#p @ b#})"
proof -
  have one: "mset (fst (probe_row er pt' pc' m p)) = (\<Sum>b \<in># filter_mset (\<lambda>b. \<exists>v. Find p pt' pc' = Inr v \<and> Find b bt bc = Inr v) (mset bs). {#p @ b#})"
    if p: "snd (probe_row er pt' pc' m p) = None" for p
  proof -
    obtain key where key: "Find p pt' pc' = Inr key" using p by (cases "Find p pt' pc'") (simp_all add: probe_row_def)
    then have "mset (fst (probe_row er pt' pc' m p)) = image_mset (\<lambda>b. p @ b) (filter_mset (\<lambda>b. Find b bt bc = Inr key) (mset bs))"
      using er_matches [OF assms(1,2)] by (simp add: probe_row_def)
    then show ?thesis using key by simp
  qed
  have "\<forall>p \<in> set ps. snd (probe_row er pt' pc' m p) = None" using assms(3) unfolding bind_stream_error by blast
  then have "(\<Sum>p \<in># mset ps. mset (fst (probe_row er pt' pc' m p)))
      = (\<Sum>p \<in># mset ps. \<Sum>b \<in># filter_mset (\<lambda>b. \<exists>v. Find p pt' pc' = Inr v \<and> Find b bt bc = Inr v) (mset bs). {#p @ b#})"
    by (intro sum_mset_cong one) simp
  then show ?thesis unfolding bind_stream_rows [OF assms(3)] mset_concat_map .
qed

text \<open>The columns of an equality, found on both sides of a hash join, decide it.\<close>

lemma equi_step_decided:
  assumes "joins_tables T nodes" "unambiguous T nodes" "distinct lay" "set lay \<subseteq> {..<length nodes}" "k < length nodes" "k \<notin> set lay"
    and "mset lay' = add_mset k (mset lay)" "join_condition (nodes ! k) = Some c"
    and "ExtractEquiJoin c = Some (nx, ac) \<or> ExtractEquiJoin c = Some (ac, nx)"
    and f: "f \<in> set (choices (\<lambda>k. node_rows T (nodes ! k)) lay)" "r \<in> set (node_rows T (nodes ! k))"
    and "Find (joined_row lay f) (fst ac) (snd ac) = Inr v" "Find r (fst nx) (snd nx) = Inr w"
  shows "decided T nodes lay' (f(k := r)) k (v = w)"
proof -
  note lay' = layout_step [OF assms(3-7)]
  have q: "query_row T nodes lay f" by (rule choice_query_row [OF assms(3,4) f(1)])
  have q': "query_row T nodes lay' (f(k := r))" by (rule query_row_upd [OF q assms(5,6) f(2) assms(7)])
  have qk: "query_row T nodes [k] (\<lambda>_. r)" using assms(5) f(2) by (simp add: query_row_def)
  have refs: "(fst ac, snd ac) \<in> column_refs c" "(fst nx, snd nx) \<in> column_refs c"
    using assms(9) by (cases c rule: ExtractEquiJoin.cases; auto)+
  have "Find (joined_row lay' (f(k := r))) (fst ac) (snd ac) = Inr v"
    by (rule Find_later [OF assms(1,2,5,8) refs(1) q q' _ _ assms(12)]) (use lay'(2) assms(6) in auto)
  moreover have "Find (joined_row lay' (f(k := r))) (fst nx) (snd nx) = Inr w"
    by (rule Find_later [OF assms(1,2,5,8) refs(2) qk q']) (use lay'(2) assms(13) in auto)
  moreover have "ExtractEquiJoin c = Some (ac, nx) \<or> ExtractEquiJoin c = Some (nx, ac)" using assms(9) by blast
  ultimately show ?thesis by (intro equi_decided [OF assms(1,2,5,8) q'])
qed

lemma join_plan_rows:
  assumes "joins_tables T nodes" "unambiguous T nodes" "multimap_law er" "join_plan nodes sc lay p" "snd (plan_stream er T p) = None"
  shows "mset (fst (plan_stream er T p)) = join_result T nodes lay \<and> (\<forall>f \<in> set (choices (\<lambda>k. node_rows T (nodes ! k)) lay). judged T nodes lay f)"
  using assms(4,5)
proof (induction rule: join_plan.induct)
  case first
  have T0: "T (tn_table (nodes ! 0)) \<noteq> None" "join_condition (nodes ! 0) = None" using assms(1) by (auto simp: joins_tables_def)
  have "satisfied nodes [0] = (\<lambda>_. True)" by (intro ext) (simp add: satisfied_def holds_def T0(2))
  then show ?case using node_scan_stream [of T "nodes ! 0" er, OF T0(1)] T0(2)
    by (simp add: mset_concat_map image_mset_sum comp_def image_mset.compositionality judged_def decided_def holds_def)
next
  case (nested lay p k c)
  let ?rs = "node_rows T (nodes ! k)"
  obtain xs e where xs: "plan_stream er T p = (xs, e)" by force
  have L: "distinct lay" "set lay \<subseteq> {..<length nodes}" using join_plan_layout [OF nested(1)] assms(1) by (auto simp: joins_tables_def)
  have st: "plan_stream er T (new_nested_loop_join p (node_scan (nodes ! k)) c) = bind_stream (pair_rows c ?rs) (xs, e)"
    using node_scan_stream [of T "nodes ! k" er, OF joins_tablesD(1) [OF assms(1) nested(2)]] xs by (simp add: new_nested_loop_join_def after_error_def)
  have ok: "e = None" "\<forall>x \<in> set xs. snd (pair_rows c ?rs x) = None" using nested.prems unfolding st bind_stream_error by auto
  have IH: "mset xs = join_result T nodes lay" "\<And>f. f \<in> set (choices (\<lambda>k. node_rows T (nodes ! k)) lay) \<Longrightarrow> judged T nodes lay f"
    using nested.IH ok(1) xs by auto
  have D: "decided T nodes (lay @ [k]) (f(k := r)) k (EvalBool c (joined_row lay f @ r) = Inr True)"
    if f: "f \<in> set (choices (\<lambda>k. node_rows T (nodes ! k)) lay)" "r \<in> set ?rs" "satisfied nodes lay f" for f r
  proof -
    have q: "query_row T nodes (lay @ [k]) (f(k := r))"
      by (rule query_row_upd [OF choice_query_row [OF L f(1)] nested(2,3) f(2)]) simp
    have "joined_row lay f \<in># mset xs" unfolding IH(1) using f(1,3) by auto
    then have "snd (pair_rows c ?rs (joined_row lay f)) = None" using ok(2) by simp
    then have "snd (test_row c (joined_row lay f @ r)) = None" using f(2) unfolding pair_rows_def bind_stream_error by simp
    then obtain b where b: "EvalBool c (joined_row lay f @ r) = Inr b" by (auto simp: test_row_def split: sum.splits)
    then have "decided T nodes (lay @ [k]) (f(k := r)) k b"
      using evaluated_decided [OF assms(1,2) nested(2,4) q] nested(3) by simp
    then show ?thesis using b by simp
  qed
  have add: "mset (lay @ [k]) = add_mset k (mset lay)" by simp
  have app: "joined_row lay f @ r = joined_row (lay @ [k]) (f(k := r))" for f r using nested(3) by simp
  have rows: "mset (fst (bind_stream (pair_rows c ?rs) (xs, e))) = (\<Sum>x \<in># mset xs. \<Sum>r \<in># filter_mset (\<lambda>r. EvalBool c (x @ r) = Inr True) (mset ?rs). {#x @ r#})"
    unfolding bind_stream_rows [OF nested.prems [unfolded st]] mset_concat_map
    using ok(2) pair_rows_fst by (intro sum_mset_cong) (simp flip: image_mset_filter_mset_swap)
  show ?case unfolding st
    by (rule join_result_grows [where h = "\<lambda>x r. x @ r", OF L nested(2,3) add IH(2) D app rows [unfolded IH(1)]])
next
  case (build_left lay p k c nx ac)
  let ?rs = "node_rows T (nodes ! k)" and ?Q = "\<lambda>x r. \<exists>v. Find r (fst nx) (snd nx) = Inr v \<and> Find x (fst ac) (snd ac) = Inr v"
  obtain xs e where xs: "plan_stream er T p = (xs, e)" by force
  have L: "distinct lay" "set lay \<subseteq> {..<length nodes}" using join_plan_layout [OF build_left(1)] assms(1) by (auto simp: joins_tables_def)
  have sc: "plan_stream er T (node_scan (nodes ! k)) = (?rs, None)" by (rule node_scan_stream [of T "nodes ! k" er, OF joins_tablesD(1) [OF assms(1) build_left(2)]])
  obtain m where m: "key_rows (fst ac) (snd ac) (xs, e) = Inr m"
    using build_left.prems by (auto simp: new_hash_join_def xs sc split: sum.splits)
  then have e: "e = None" "\<And>x. x \<in> set xs \<Longrightarrow> \<exists>v. Find x (fst ac) (snd ac) = Inr v" by (simp_all add: key_rows_Inr)
  have st: "plan_stream er T (new_hash_join p (node_scan (nodes ! k)) (fst ac) (snd ac) (fst nx) (snd nx))
      = bind_stream (probe_row er (fst nx) (snd nx) m) (?rs, None)" by (simp add: new_hash_join_def xs sc m)
  have probe: "\<exists>w. Find r (fst nx) (snd nx) = Inr w" if "r \<in> set ?rs" for r
    using build_left.prems that unfolding st bind_stream_error by (cases "Find r (fst nx) (snd nx)") (auto simp: probe_row_def)
  have IH: "mset xs = join_result T nodes lay" "\<And>f. f \<in> set (choices (\<lambda>k. node_rows T (nodes ! k)) lay) \<Longrightarrow> judged T nodes lay f"
    using build_left.IH e(1) xs by auto
  have add: "mset (k # lay) = add_mset k (mset lay)" by simp
  have app: "r @ joined_row lay f = joined_row (k # lay) (f(k := r))" for f r using build_left(3) by simp
  have D: "decided T nodes (k # lay) (f(k := r)) k (?Q (joined_row lay f) r)"
    if f: "f \<in> set (choices (\<lambda>k. node_rows T (nodes ! k)) lay)" "r \<in> set ?rs" "satisfied nodes lay f" for f r
  proof -
    have "joined_row lay f \<in># mset xs" unfolding IH(1) using f(1,3) by auto
    then obtain v where v: "Find (joined_row lay f) (fst ac) (snd ac) = Inr v" using e(2) by auto
    obtain w where w: "Find r (fst nx) (snd nx) = Inr w" using probe [OF f(2)] by blast
    have "?Q (joined_row lay f) r \<longleftrightarrow> v = w" using v w by auto
    then show ?thesis using equi_step_decided [OF assms(1,2) L build_left(2,3) add build_left(4,6) f(1,2) v w] by simp
  qed
  have "mset (fst (bind_stream (probe_row er (fst nx) (snd nx) m) (?rs, None)))
      = (\<Sum>r \<in># mset ?rs. \<Sum>x \<in># filter_mset (\<lambda>x. ?Q x r) (mset xs). {#r @ x#})"
    by (rule hash_rows [OF assms(3) m build_left.prems [unfolded st]])
  also have "\<dots> = (\<Sum>x \<in># mset xs. \<Sum>r \<in># filter_mset (?Q x) (mset ?rs). {#r @ x#})" by (rule sum_filter_swap)
  finally have rows: "mset (fst (bind_stream (probe_row er (fst nx) (snd nx) m) (?rs, None)))
      = (\<Sum>x \<in># mset xs. \<Sum>r \<in># filter_mset (?Q x) (mset ?rs). {#r @ x#})" .
  show ?case unfolding st
    by (rule join_result_grows [where h = "\<lambda>x r. r @ x", OF L build_left(2,3) add IH(2) D app rows [unfolded IH(1)]])
next
  case (build_right lay p k c nx ac)
  let ?rs = "node_rows T (nodes ! k)" and ?Q = "\<lambda>x r. \<exists>v. Find x (fst ac) (snd ac) = Inr v \<and> Find r (fst nx) (snd nx) = Inr v"
  obtain xs e where xs: "plan_stream er T p = (xs, e)" by force
  have L: "distinct lay" "set lay \<subseteq> {..<length nodes}" using join_plan_layout [OF build_right(1)] assms(1) by (auto simp: joins_tables_def)
  have sc: "plan_stream er T (node_scan (nodes ! k)) = (?rs, None)" by (rule node_scan_stream [of T "nodes ! k" er, OF joins_tablesD(1) [OF assms(1) build_right(2)]])
  obtain m where m: "key_rows (fst nx) (snd nx) (?rs, None) = Inr m"
    using build_right.prems by (auto simp: new_hash_join_def xs sc split: sum.splits)
  then have build: "\<exists>w. Find r (fst nx) (snd nx) = Inr w" if "r \<in> set ?rs" for r using that by (simp add: key_rows_Inr)
  have st: "plan_stream er T (new_hash_join (node_scan (nodes ! k)) p (fst nx) (snd nx) (fst ac) (snd ac))
      = bind_stream (probe_row er (fst ac) (snd ac) m) (xs, e)" by (simp add: new_hash_join_def xs sc m)
  have e: "e = None" using build_right.prems unfolding st bind_stream_error by simp
  have probe: "\<exists>v. Find x (fst ac) (snd ac) = Inr v" if "x \<in> set xs" for x
    using build_right.prems that unfolding st bind_stream_error by (cases "Find x (fst ac) (snd ac)") (auto simp: probe_row_def)
  have IH: "mset xs = join_result T nodes lay" "\<And>f. f \<in> set (choices (\<lambda>k. node_rows T (nodes ! k)) lay) \<Longrightarrow> judged T nodes lay f"
    using build_right.IH e xs by auto
  have add: "mset (lay @ [k]) = add_mset k (mset lay)" by simp
  have app: "joined_row lay f @ r = joined_row (lay @ [k]) (f(k := r))" for f r using build_right(3) by simp
  have D: "decided T nodes (lay @ [k]) (f(k := r)) k (?Q (joined_row lay f) r)"
    if f: "f \<in> set (choices (\<lambda>k. node_rows T (nodes ! k)) lay)" "r \<in> set ?rs" "satisfied nodes lay f" for f r
  proof -
    have "joined_row lay f \<in># mset xs" unfolding IH(1) using f(1,3) by auto
    then obtain v where v: "Find (joined_row lay f) (fst ac) (snd ac) = Inr v" using probe by auto
    obtain w where w: "Find r (fst nx) (snd nx) = Inr w" using build [OF f(2)] by blast
    have "?Q (joined_row lay f) r \<longleftrightarrow> v = w" using v w by auto
    then show ?thesis using equi_step_decided [OF assms(1,2) L build_right(2,3) add build_right(4,6) f(1,2) v w] by simp
  qed
  have rows: "mset (fst (bind_stream (probe_row er (fst ac) (snd ac) m) (xs, e)))
      = (\<Sum>x \<in># mset xs. \<Sum>r \<in># filter_mset (?Q x) (mset ?rs). {#x @ r#})"
    by (rule hash_rows [OF assms(3) m build_right.prems [unfolded st]])
  show ?case unfolding st
    by (rule join_result_grows [where h = "\<lambda>x r. x @ r", OF L build_right(2,3) add IH(2) D app rows [unfolded IH(1)]])
qed

section \<open>Rows, whatever the conditions\<close>

text \<open>Every row of a plan, also of one that ends in an exception, is made of rows of the tables.\<close>

lemma bind_stream_mem: "y \<in> set (fst (bind_stream g (xs, e))) \<Longrightarrow> \<exists>x \<in> set xs. y \<in> set (fst (g x))"
  by (induction xs) (auto simp: append_stream_def split: option.splits)

lemma pair_rows_mem:
  assumes "y \<in> set (fst (pair_rows c rs x))"
  shows "\<exists>r \<in> set rs. y = x @ r"
proof -
  have "z = y'" if "z \<in> set (fst (test_row c y'))" for z y' using that by (auto simp: test_row_def split: sum.splits if_splits)
  then show ?thesis using bind_stream_mem [OF assms [unfolded pair_rows_def]] by fastforce
qed

lemma hash_rows_mem:
  assumes "multimap_law er" "key_rows bt bc (bs, eb) = Inr m" "y \<in> set (fst (bind_stream (probe_row er pt' pc' m) (ps, ep)))"
  shows "\<exists>q \<in> set ps. \<exists>b \<in> set bs. y = q @ b"
proof -
  obtain q where q: "q \<in> set ps" "y \<in> set (fst (probe_row er pt' pc' m q))" using bind_stream_mem [OF assms(3)] by blast
  then obtain key b where b: "b \<in> set (er m key)" "y = q @ b" by (auto simp: probe_row_def split: sum.splits)
  have "mset (er m key) = filter_mset (\<lambda>x. Find x bt bc = Inr key) (mset bs)" by (rule er_matches [OF assms(1,2)])
  then have "b \<in># filter_mset (\<lambda>x. Find x bt bc = Inr key) (mset bs)" using b(1) by (metis set_mset_mset)
  then show ?thesis using q(1) b(2) by auto
qed

lemma join_plan_row:
  assumes "joins_tables T nodes" "multimap_law er" "join_plan nodes sc lay p" "x \<in> set (fst (plan_stream er T p))"
  shows "\<exists>f. x = joined_row lay f \<and> query_row T nodes lay f"
  using assms(3,4)
proof (induction arbitrary: x rule: join_plan.induct)
  case first
  have T0: "T (tn_table (nodes ! 0)) \<noteq> None" "0 < length nodes" using assms(1) by (auto simp: joins_tables_def)
  have x: "x \<in> set (node_rows T (nodes ! 0))" using first node_scan_stream [of T "nodes ! 0" er, OF T0(1)] by simp
  show ?case by (rule exI [of _ "\<lambda>_. x"]) (use x T0(2) in \<open>simp add: query_row_def\<close>)
next
  case (nested lay p k c)
  obtain xs e where xs: "plan_stream er T p = (xs, e)" by force
  note scan = node_scan_stream [of T "nodes ! k" er, OF joins_tablesD(1) [OF assms(1) nested(2)]]
  have "x \<in> set (fst (bind_stream (pair_rows c (node_rows T (nodes ! k))) (xs, e)))"
    using nested.prems scan xs by (simp add: new_nested_loop_join_def after_error_def)
  then obtain y where y: "y \<in> set xs" "x \<in> set (fst (pair_rows c (node_rows T (nodes ! k)) y))" using bind_stream_mem by blast
  then obtain r where r: "r \<in> set (node_rows T (nodes ! k))" "x = y @ r" using pair_rows_mem by blast
  obtain f where f: "y = joined_row lay f" "query_row T nodes lay f" using nested.IH y(1) xs by auto
  have "x = joined_row (lay @ [k]) (f(k := r))" using f(1) r(2) nested(3) by simp
  moreover have "query_row T nodes (lay @ [k]) (f(k := r))" by (rule query_row_upd [OF f(2) nested(2,3) r(1)]) simp
  ultimately show ?case by blast
next
  case (build_left lay p k c nx ac)
  obtain xs e where xs: "plan_stream er T p = (xs, e)" by force
  note scan = node_scan_stream [of T "nodes ! k" er, OF joins_tablesD(1) [OF assms(1) build_left(2)]]
  obtain m where m: "key_rows (fst ac) (snd ac) (xs, e) = Inr m" "x \<in> set (fst (bind_stream (probe_row er (fst nx) (snd nx) m) (node_rows T (nodes ! k), None)))"
    using build_left.prems scan xs by (auto simp: new_hash_join_def split: sum.splits)
  obtain r y where r: "r \<in> set (node_rows T (nodes ! k))" "y \<in> set xs" "x = r @ y" using hash_rows_mem [OF assms(2) m] by blast
  obtain f where f: "y = joined_row lay f" "query_row T nodes lay f" using build_left.IH r(2) xs by auto
  have "x = joined_row (k # lay) (f(k := r))" using f(1) r(3) build_left(3) by simp
  moreover have "query_row T nodes (k # lay) (f(k := r))" by (rule query_row_upd [OF f(2) build_left(2,3) r(1)]) simp
  ultimately show ?case by blast
next
  case (build_right lay p k c nx ac)
  obtain xs e where xs: "plan_stream er T p = (xs, e)" by force
  note scan = node_scan_stream [of T "nodes ! k" er, OF joins_tablesD(1) [OF assms(1) build_right(2)]]
  obtain m where m: "key_rows (fst nx) (snd nx) (node_rows T (nodes ! k), None) = Inr m" "x \<in> set (fst (bind_stream (probe_row er (fst ac) (snd ac) m) (xs, e)))"
    using build_right.prems scan xs by (auto simp: new_hash_join_def split: sum.splits)
  obtain r y where r: "r \<in> set (node_rows T (nodes ! k))" "y \<in> set xs" "x = y @ r" using hash_rows_mem [OF assms(2) m] by blast
  obtain f where f: "y = joined_row lay f" "query_row T nodes lay f" using build_right.IH r(2) xs by auto
  have "x = joined_row (lay @ [k]) (f(k := r))" using f(1) r(3) build_right(3) by simp
  moreover have "query_row T nodes (lay @ [k]) (f(k := r))" by (rule query_row_upd [OF f(2) build_right(2,3) r(1)]) simp
  ultimately show ?case by blast
qed

end
