(* ===== verification/Catalog_Contract.thy ===== *)
theory Catalog_Contract
  imports Database Catalog Btree_Update
begin

text \<open>
  What the catalog keeps: the page and the handles agree on which tables there are, every table has
  a tree of its own, and the rows in it are encodings of rows of its schema. The lemmas say what
  each operation does to the tables, over any page store.
\<close>

section \<open>Rows of a table\<close>

text \<open>What \<open>CreateTable\<close> asks of a name and a list of columns.\<close>
definition creatable :: "string \<Rightarrow> ColumnDef list \<Rightarrow> bool" where
  "creatable name cols \<longleftrightarrow>
     name \<noteq> '''' \<and> length name < CATALOG_TABLE_NAME_LEN \<and> cols \<noteq> [] \<and> length cols \<le> MAX_CATALOG_COLUMNS
     \<and> (\<forall>c \<in> set cols. cd_name c \<noteq> '''' \<and> length (cd_name c) < CATALOG_COLUMN_NAME_LEN)
     \<and> length (filter is_primary_key cols) = 1 \<and> (\<forall>c \<in> set cols. is_primary_key c \<longrightarrow> cd_type c = kInteger)
     \<and> EncodedSize \<lparr>table_name = name, columns = cols\<rparr> \<le> VALUE_SIZE"

text \<open>And that the names are those of the parser, without the character that ends them in a slot.\<close>
definition schema_ok :: "TableSchema \<Rightarrow> bool" where
  "schema_ok sch \<longleftrightarrow> creatable (table_name sch) (columns sch) \<and> CHR 0x00 \<notin> set (table_name sch)
     \<and> (\<forall>c \<in> set (columns sch). CHR 0x00 \<notin> set (cd_name c))"

lemma one_primary_key:
  assumes "length (filter is_primary_key cols) = 1"
  obtains q where "index_where is_primary_key cols = Some q" "q < length cols" "is_primary_key (cols ! q)"
proof -
  have "index_where is_primary_key cols \<noteq> None"
  proof
    assume "index_where is_primary_key cols = None"
    then have "filter is_primary_key cols = []" by (simp add: index_where_None filter_empty_conv)
    then show False using assms by simp
  qed
  then show ?thesis using that by (auto simp: index_where_Some)
qed

lemma schema_okD:
  assumes "schema_ok sch"
  obtains p where "PrimaryKeyIndex sch = int p" "p < length (columns sch)" "cd_type (columns sch ! p) = kInteger"
proof -
  have one: "length (filter is_primary_key (columns sch)) = 1" "\<forall>c \<in> set (columns sch). is_primary_key c \<longrightarrow> cd_type c = kInteger"
    using assms by (simp_all add: schema_ok_def creatable_def)
  obtain q where q: "index_where is_primary_key (columns sch) = Some q" "q < length (columns sch)" "is_primary_key (columns sch ! q)"
    by (rule one_primary_key [OF one(1)])
  show ?thesis by (rule that [of q]) (use q one(2) in \<open>simp_all add: PrimaryKeyIndex_def\<close>)
qed

lemma schema_ok_size: "schema_ok sch \<Longrightarrow> EncodedSize sch \<le> VALUE_SIZE"
  by (simp add: schema_ok_def creatable_def EncodedSize_def PrimaryKeyIndex_def)

lemma schema_ok_pk: "schema_ok sch \<Longrightarrow> \<not> PrimaryKeyIndex sch < 0"
  by (erule schema_okD) simp

text \<open>A row that can be stored, under the key \<open>k\<close>.\<close>
definition row_of :: "TableSchema \<Rightarrow> i64 \<Rightarrow> Value list \<Rightarrow> bool" where
  "row_of sch k row \<longleftrightarrow> storable sch row \<and> row ! nat (PrimaryKeyIndex sch) = IntV k"

definition row_blob :: "TableSchema \<Rightarrow> Value list \<Rightarrow> byte list" where
  "row_blob sch row = row_bytes (PrimaryKeyIndex sch) 0 row"

definition rows_ok :: "TableSchema \<Rightarrow> (i64 \<times> byte list) list \<Rightarrow> bool" where
  "rows_ok sch es \<longleftrightarrow> (\<forall>(k, b) \<in> set es. \<exists>row. row_of sch k row \<and> b = row_blob sch row)"

definition decoded :: "TableSchema \<Rightarrow> (i64 \<times> byte list) list \<Rightarrow> (i64 \<times> Value list) list" where
  "decoded sch es = map (\<lambda>(k, b). (k, projr (Decode sch k b))) es"

lemma Decode_row_blob: "row_of sch k row \<Longrightarrow> Decode sch k (row_blob sch row) = Inr row"
  using Decode_row_bytes [of sch row k "[]"] by (simp add: row_of_def row_blob_def) (metis nat_int)

lemma Encode_row: "row_of sch k row \<Longrightarrow> Encode sch row = Inr (row_blob sch row)"
  using Encode_storable by (simp add: row_of_def row_blob_def)

lemma length_row_blob: "row_of sch k row \<Longrightarrow> length (row_blob sch row) = EncodedSize sch"
  by (simp add: row_of_def row_blob_def storable_def EncodedSize_def length_row_bytes)

lemma decode_rows_decoded:
  assumes "rows_ok sch es"
  shows "decode_rows sch es = Inr (map snd (decoded sch es))"
  using assms
proof (induction es)
  case (Cons e es)
  obtain k b where e: "e = (k, b)" by (cases e)
  then obtain row where "Decode sch k b = Inr row" using Cons.prems Decode_row_blob by (auto simp: rows_ok_def)
  then show ?case using e Cons by (simp add: decoded_def rows_ok_def)
qed (simp add: decoded_def)

lemma decoded_upd:
  assumes "row_of sch k row"
  shows "decoded sch (upd_entry k (row_blob sch row) es) = upd_entry k row (decoded sch es)"
  using Decode_row_blob [OF assms]
  by (simp add: decoded_def upd_entry_def takeWhile_map dropWhile_map comp_def case_prod_beta)

lemma rows_ok_upd: "rows_ok sch es \<Longrightarrow> row_of sch k row \<Longrightarrow> rows_ok sch (upd_entry k (row_blob sch row) es)"
  unfolding rows_ok_def upd_entry_def by (auto dest: set_takeWhileD set_dropWhileD)

lemma rows_ok_Nil [simp]: "rows_ok sch []"
  by (simp add: rows_ok_def)

section \<open>The checks of \<open>CreateTable\<close>\<close>

lemma check_columns_spec:
  "check_columns i cs n p = Inr (n', p') \<longleftrightarrow>
     (\<forall>c \<in> set cs. cd_name c \<noteq> '''' \<and> length (cd_name c) < CATALOG_COLUMN_NAME_LEN)
     \<and> n' = n + int (length (filter is_primary_key cs))
     \<and> p' = foldl (\<lambda>q k. if is_primary_key (cs ! k) then int (i + k) else q) p [0..<length cs]"
proof (induction cs arbitrary: i n p)
  case (Cons c cs)
  have "foldl (\<lambda>q k. if is_primary_key ((c # cs) ! k) then int (i + k) else q) p [0..<length (c # cs)]
      = foldl (\<lambda>q k. if is_primary_key (cs ! k) then int (Suc i + k) else q) (if is_primary_key c then int i else p) [0..<length cs]"
    by (simp add: upt_conv_Cons map_Suc_upt [symmetric] foldl_map ac_simps del: upt_Suc cong: if_cong)
  then show ?case using Cons.IH by (auto simp: not_le)
qed auto

lemma check_columns_cases: "(\<exists>msg. check_columns i cs n p = Inl (CatalogError msg)) \<or> (\<exists>r. check_columns i cs n p = Inr r)"
  by (induction cs arbitrary: i n p) auto

lemma only_primary_key:
  assumes "index_where is_primary_key cs = Some q" "length (filter is_primary_key cs) = 1" "k < length cs" "is_primary_key (cs ! k)"
  shows "k = q"
proof -
  have "card {k. k < length cs \<and> is_primary_key (cs ! k)} = 1" using assms(2) by (simp add: length_filter_conv_card)
  then obtain x where x: "{k. k < length cs \<and> is_primary_key (cs ! k)} = {x}" by (auto simp: card_1_singleton_iff)
  have "q \<in> {k. k < length cs \<and> is_primary_key (cs ! k)}" using assms(1) by (auto simp: index_where_Some)
  then show ?thesis using x assms(3,4) by auto
qed

lemma last_primary_key:
  assumes "index_where is_primary_key cs = Some q" "length (filter is_primary_key cs) = 1"
  shows "foldl (\<lambda>r k. if is_primary_key (cs ! k) then int k else r) p [0..<length cs] = int q"
proof -
  let ?f = "\<lambda>r k. if is_primary_key (cs ! k) then int k else r"
  have q: "q < length cs" "is_primary_key (cs ! q)" using assms(1) by (auto simp: index_where_Some)
  have "foldl ?f r [q..<m] = int q" if "q < m" "m \<le> length cs" for m r
    using that
  proof (induction m)
    case (Suc m)
    show ?case
    proof (cases "m = q")
      case True
      then show ?thesis using q(2) by simp
    next
      case False
      then show ?thesis using Suc only_primary_key [OF assms, of m] by auto
    qed
  qed simp
  moreover have "[0..<length cs] = [0..<q] @ [q..<length cs]"
    using upt_add_eq_append [of 0 q "length cs - q"] q(1) by simp
  ultimately show ?thesis using q(1) by simp
qed

text \<open>The columns pass exactly when there is one primary key and it is an integer.\<close>

lemma check_columns_creatable:
  assumes "\<forall>c \<in> set cols. cd_name c \<noteq> '''' \<and> length (cd_name c) < CATALOG_COLUMN_NAME_LEN"
    and "length (filter is_primary_key cols) = 1"
  obtains q where "check_columns 0 cols 0 (- 1) = Inr (1, int q)"
    "cd_type (cols ! q) = kInteger \<longleftrightarrow> (\<forall>c \<in> set cols. is_primary_key c \<longrightarrow> cd_type c = kInteger)"
proof -
  obtain q where q: "index_where is_primary_key cols = Some q" "q < length cols" "is_primary_key (cols ! q)"
    by (rule one_primary_key [OF assms(2)])
  have "check_columns 0 cols 0 (- 1) = Inr (1, int q)"
    using assms check_columns_spec [of 0 cols 0 "- 1" 1 "int q"] last_primary_key [OF q(1) assms(2)] by (simp cong: if_cong)
  moreover have "cd_type (cols ! q) = kInteger \<longleftrightarrow> (\<forall>c \<in> set cols. is_primary_key c \<longrightarrow> cd_type c = kInteger)"
    using q only_primary_key [OF q(1) assms(2)] by (metis in_set_conv_nth)
  ultimately show ?thesis by (rule that)
qed

lemma check_create_ok:
  assumes "creatable name cols" "\<not> TableExists cat name" "index_where (\<lambda>h. \<not> th_in_use h) (cat_tables cat) = Some slot"
  shows "check_create name cols cat = Inr slot"
proof -
  have names: "\<forall>c \<in> set cols. cd_name c \<noteq> '''' \<and> length (cd_name c) < CATALOG_COLUMN_NAME_LEN"
    and one: "length (filter is_primary_key cols) = 1" using assms(1) by (simp_all add: creatable_def)
  obtain q where "check_columns 0 cols 0 (- 1) = Inr (1, int q)"
    "cd_type (cols ! q) = kInteger \<longleftrightarrow> (\<forall>c \<in> set cols. is_primary_key c \<longrightarrow> cd_type c = kInteger)"
    by (rule check_columns_creatable [OF names one])
  then show ?thesis using assms by (simp add: check_create_def creatable_def)
qed

lemma check_create_error:
  assumes "\<not> (creatable name cols \<and> \<not> TableExists cat name \<and> index_where (\<lambda>h. \<not> th_in_use h) (cat_tables cat) \<noteq> None)"
  shows "\<exists>msg. check_create name cols cat = Inl (CatalogError msg)"
proof (rule ccontr)
  assume err: "\<nexists>msg. check_create name cols cat = Inl (CatalogError msg)"
  then have base: "name \<noteq> ''''" "length name < CATALOG_TABLE_NAME_LEN" "\<not> TableExists cat name" "cols \<noteq> []" "length cols \<le> MAX_CATALOG_COLUMNS"
    by (auto simp: check_create_def not_le split: if_splits)
  then obtain n p where np: "check_columns 0 cols 0 (- 1) = Inr (n, p)"
    using err check_columns_cases [of 0 cols 0 "- 1"] by (auto simp: check_create_def)
  then have n: "n = 1" "cd_type (cols ! nat p) = kInteger" "EncodedSize \<lparr>table_name = name, columns = cols\<rparr> \<le> VALUE_SIZE"
    "index_where (\<lambda>h. \<not> th_in_use h) (cat_tables cat) \<noteq> None"
    using err base by (auto simp: check_create_def not_le split: if_splits option.splits)
  have names: "\<forall>c \<in> set cols. cd_name c \<noteq> '''' \<and> length (cd_name c) < CATALOG_COLUMN_NAME_LEN"
    and one: "length (filter is_primary_key cols) = 1"
    using np n(1) check_columns_spec [of 0 cols 0 "- 1" n p] by simp_all
  obtain q where "check_columns 0 cols 0 (- 1) = Inr (1, int q)"
    "cd_type (cols ! q) = kInteger \<longleftrightarrow> (\<forall>c \<in> set cols. is_primary_key c \<longrightarrow> cd_type c = kInteger)"
    by (rule check_columns_creatable [OF names one])
  then have "creatable name cols" using np n names one base by (simp add: creatable_def)
  then show False using assms base(3) n(4) by blast
qed

section \<open>Tables on pages\<close>

type_synonym slot = "(TableSchema \<times> btree \<times> u64) option"

fun slot_ids :: "slot \<Rightarrow> page_id_t list" where
  "slot_ids None = []"
| "slot_ids (Some (sch, T, cnt)) = ids T"

fun entry_is :: "byte list \<Rightarrow> slot \<Rightarrow> bool" where
  "entry_is e None \<longleftrightarrow> te_in_use e = 0"
| "entry_is e (Some (sch, T, cnt)) \<longleftrightarrow>
     te_in_use e \<noteq> 0 \<and> unat (te_num_columns e) \<le> MAX_CATALOG_COLUMNS \<and> schema_of_entry e = sch
     \<and> te_root_page_id e = root_id T \<and> te_row_count e = cnt"

fun slot_ok :: "(page_id_t \<Rightarrow> page option) \<Rightarrow> slot \<Rightarrow> bool" where
  "slot_ok V None \<longleftrightarrow> True"
| "slot_ok V (Some (sch, T, cnt)) \<longleftrightarrow>
     schema_ok sch \<and> rows_ok sch (entries T) \<and> 0 \<notin> set (ids T) \<and> (\<exists>n. tree_of V (root_id T) n T)"

fun slot_name :: "slot \<Rightarrow> string option" where
  "slot_name None = None"
| "slot_name (Some (sch, T, cnt)) = Some (table_name sch)"

definition slots_in :: "(page_id_t \<Rightarrow> page option) \<Rightarrow> page \<Rightarrow> slot list \<Rightarrow> bool" where
  "slots_in V c slots \<longleftrightarrow> length slots = MAX_CATALOG_TABLES
     \<and> (\<forall>i < MAX_CATALOG_TABLES. entry_is (table_entry i c) (slots ! i) \<and> slot_ok V (slots ! i))
     \<and> (\<forall>i < MAX_CATALOG_TABLES. \<forall>j < MAX_CATALOG_TABLES. i \<noteq> j \<longrightarrow>
          set (slot_ids (slots ! i)) \<inter> set (slot_ids (slots ! j)) = {}
          \<and> (slot_name (slots ! i) \<noteq> None \<longrightarrow> slot_name (slots ! i) \<noteq> slot_name (slots ! j)))"

lemma slot_ok_in_view: "slot_ok V sl \<Longrightarrow> j \<in> set (slot_ids sl) \<Longrightarrow> V j \<noteq> None \<and> j \<noteq> 0"
  using forest_in_view by (cases sl rule: slot_ids.cases) (force simp: tree_of_def)+

lemma slot_ok_frame:
  assumes "slot_ok V sl" "\<And>j. j \<in> set (slot_ids sl) \<Longrightarrow> V' j = V j"
  shows "slot_ok V' sl"
proof (cases sl rule: slot_ids.cases)
  case (2 sch T cnt)
  then obtain n where n: "tree_of V (root_id T) n T" using assms(1) by auto
  have "tree_of V' (root_id T) n T"
    using n forest_frame [of n _ _ _ V "[]" "[T]" V'] assms(2) 2 by (simp add: tree_of_def)
  then show ?thesis using assms(1) 2 by auto
qed simp

text \<open>One table changes, or a slot is taken: the others do not notice.\<close>

lemma slots_in_update:
  assumes "slots_in V c slots" "i < MAX_CATALOG_TABLES"
    and ev: "evolves V V' (0 # slot_ids (slots ! i)) (0 # slot_ids sl)"
    and sl: "slot_ok V' sl" "entry_is (table_entry i c') sl"
    and other: "\<And>j. j < MAX_CATALOG_TABLES \<Longrightarrow> j \<noteq> i \<Longrightarrow> table_entry j c' = table_entry j c"
    and name: "\<And>j. j < MAX_CATALOG_TABLES \<Longrightarrow> j \<noteq> i \<Longrightarrow> slot_name sl \<noteq> None \<Longrightarrow> slot_name (slots ! j) \<noteq> slot_name sl"
  shows "slots_in V' c' (slots[i := sl])"
proof -
  let ?N = "MAX_CATALOG_TABLES"
  have S: "length slots = ?N" "\<And>j. j < ?N \<Longrightarrow> entry_is (table_entry j c) (slots ! j) \<and> slot_ok V (slots ! j)"
    "\<And>j k. j < ?N \<Longrightarrow> k < ?N \<Longrightarrow> j \<noteq> k \<Longrightarrow> set (slot_ids (slots ! j)) \<inter> set (slot_ids (slots ! k)) = {}
       \<and> (slot_name (slots ! j) \<noteq> None \<longrightarrow> slot_name (slots ! j) \<noteq> slot_name (slots ! k))"
    using assms(1) by (simp_all add: slots_in_def)
  have keep: "x \<notin> set (slot_ids sl) \<and> V' x = V x" if "j < ?N" "j \<noteq> i" "x \<in> set (slot_ids (slots ! j))" for j x
  proof -
    have "V x \<noteq> None" "x \<noteq> 0" using slot_ok_in_view [of V "slots ! j" x] S(2) that by blast+
    moreover have "x \<notin> set (slot_ids (slots ! i))" using S(3) [OF that(1) assms(2) that(2)] that(3) by blast
    ultimately show ?thesis using ev unfolding evolves_def by auto
  qed
  have ok: "entry_is (table_entry j c') (slots[i := sl] ! j) \<and> slot_ok V' (slots[i := sl] ! j)" if j: "j < ?N" for j
  proof (cases "j = i")
    case True
    then show ?thesis using sl S(1) assms(2) by simp
  next
    case False
    then have "slot_ok V' (slots ! j)" using slot_ok_frame S(2) [OF j] keep [OF j False] by blast
    then show ?thesis using False S(2) [OF j] other [OF j] by simp
  qed
  have disj: "set (slot_ids (slots[i := sl] ! j)) \<inter> set (slot_ids (slots[i := sl] ! k)) = {}
      \<and> (slot_name (slots[i := sl] ! j) \<noteq> None \<longrightarrow> slot_name (slots[i := sl] ! j) \<noteq> slot_name (slots[i := sl] ! k))"
    if jk: "j < ?N" "k < ?N" "j \<noteq> k" for j k
  proof -
    consider "j = i" "k \<noteq> i" | "k = i" "j \<noteq> i" | "j \<noteq> i" "k \<noteq> i" using jk(3) by blast
    then show ?thesis
    proof cases
      case 1
      then show ?thesis using keep [OF jk(2)] name [OF jk(2)] S(1) assms(2) by (auto simp del: not_None_eq)
    next
      case 2
      then show ?thesis using keep [OF jk(1)] name [OF jk(1)] S(1) assms(2) by (auto simp del: not_None_eq)
    next
      case 3
      then show ?thesis using S(3) [OF jk] by simp
    qed
  qed
  show ?thesis unfolding slots_in_def using S(1) ok disj by simp
qed

section \<open>Handles\<close>

definition table_bt :: "'s page_store_ops \<Rightarrow> nat \<Rightarrow> page_id_t \<Rightarrow> 's BTree" where
  "table_bt ops i r =
     \<lparr>metadata_page_id = 0, catalog_managed = True, on_root_changed = Some (WriteRootPageId ops 0 i), root_page_id = r\<rparr>"

fun handle_is :: "'s page_store_ops \<Rightarrow> nat \<Rightarrow> 's TableHandle \<Rightarrow> slot \<Rightarrow> bool" where
  "handle_is ops i h None \<longleftrightarrow> \<not> th_in_use h"
| "handle_is ops i h (Some (sch, T, cnt)) \<longleftrightarrow>
     th_in_use h \<and> th_schema h = sch \<and> (th_tree h = None \<or> th_tree h = Some (table_bt ops i (root_id T)))"

abbreviation slot_of :: "slot list \<Rightarrow> string \<Rightarrow> nat option" where
  "slot_of slots name \<equiv> index_where (\<lambda>sl. slot_name sl = Some name) slots"

lemma index_where_cong:
  assumes "length xs = length ys" "\<And>i. i < length xs \<Longrightarrow> P (xs ! i) = Q (ys ! i)"
  shows "index_where P xs = index_where Q ys"
  using assms
proof (induction xs ys rule: list_induct2)
  case (Cons x xs y ys)
  have "P x = Q y" using Cons.prems [of 0] by simp
  moreover have "index_where P xs = index_where Q ys" using Cons.IH Cons.prems [of "Suc _"] by simp
  ultimately show ?case by simp
qed simp

lemma slot_ofD:
  assumes "slot_of slots name = Some i" "length slots = MAX_CATALOG_TABLES"
  obtains sch T cnt where "i < MAX_CATALOG_TABLES" "slots ! i = Some (sch, T, cnt)" "table_name sch = name"
  using assms by (cases "slots ! i" rule: slot_ids.cases) (auto simp: index_where_Some)

context page_store
begin

definition catalog_is :: "'s \<Rightarrow> 's Catalog \<Rightarrow> slot list \<Rightarrow> bool" where
  "catalog_is s cat slots \<longleftrightarrow> inv s \<and> (\<exists>c. view s 0 = Some c \<and> slots_in (view s) c slots)
     \<and> catalog_page_id cat = 0 \<and> length (cat_tables cat) = MAX_CATALOG_TABLES
     \<and> (\<forall>i < MAX_CATALOG_TABLES. handle_is ops i (cat_tables cat ! i) (slots ! i))"

lemma catalog_isD:
  assumes "catalog_is s cat slots"
  shows "inv s" "length slots = MAX_CATALOG_TABLES" "length (cat_tables cat) = MAX_CATALOG_TABLES" "catalog_page_id cat = 0"
    "\<And>i. i < MAX_CATALOG_TABLES \<Longrightarrow> handle_is ops i (cat_tables cat ! i) (slots ! i)"
    "\<And>i. i < MAX_CATALOG_TABLES \<Longrightarrow> slot_ok (view s) (slots ! i)"
  using assms by (auto simp: catalog_is_def slots_in_def)

lemma FindTableIndex_slots:
  assumes "catalog_is s cat slots"
  shows "FindTableIndex cat name = (case slot_of slots name of None \<Rightarrow> - 1 | Some i \<Rightarrow> int i)"
proof -
  note D = catalog_isD [OF assms]
  have "(th_in_use (cat_tables cat ! i) \<and> table_name (th_schema (cat_tables cat ! i)) = name) = (slot_name (slots ! i) = Some name)"
    if "i < MAX_CATALOG_TABLES" for i
    using D(5) [OF that] by (cases "slots ! i" rule: slot_ids.cases) auto
  then have "index_where (\<lambda>h. th_in_use h \<and> table_name (th_schema h) = name) (cat_tables cat) = slot_of slots name"
    using D(2,3) by (intro index_where_cong) simp_all
  then show ?thesis by (simp add: FindTableIndex_def)
qed

lemma catalog_is_step:
  assumes "catalog_is s cat slots" "inv s'" "view s' = view s"
  shows "catalog_is s' cat slots"
  using assms by (simp add: catalog_is_def)

text \<open>A table's slot after one of its operations: page, handle and tree move together.\<close>

lemma catalog_is_update:
  assumes "catalog_is s cat slots" "i < MAX_CATALOG_TABLES" "inv s'" "view s 0 = Some c" "view s' 0 = Some c'"
    and "evolves (view s) (view s') (0 # slot_ids (slots ! i)) (0 # slot_ids sl)" "slot_ok (view s') sl"
    and "entry_is (table_entry i c') sl" "handle_is ops i h sl"
    and "\<And>j. j < MAX_CATALOG_TABLES \<Longrightarrow> j \<noteq> i \<Longrightarrow> table_entry j c' = table_entry j c"
    and "\<And>j. j < MAX_CATALOG_TABLES \<Longrightarrow> j \<noteq> i \<Longrightarrow> slot_name sl \<noteq> None \<Longrightarrow> slot_name (slots ! j) \<noteq> slot_name sl"
  shows "catalog_is s' (cat\<lparr>cat_tables := (cat_tables cat)[i := h]\<rparr>) (slots[i := sl])"
proof -
  have "slots_in (view s) c slots" using assms(1,4) by (auto simp: catalog_is_def)
  then have "slots_in (view s') c' (slots[i := sl])"
    by (rule slots_in_update [OF _ assms(2,6-8,10,11)])
  then show ?thesis
    using assms(1-3,5,9) catalog_isD(2,3) [OF assms(1)] unfolding catalog_is_def by (auto simp: nth_list_update)
qed

lemma slot_names_differ:
  assumes "catalog_is s cat slots" "i < MAX_CATALOG_TABLES" "j < MAX_CATALOG_TABLES" "j \<noteq> i" "slot_name (slots ! i) \<noteq> None"
  shows "slot_name (slots ! j) \<noteq> slot_name (slots ! i)"
  using assms unfolding catalog_is_def slots_in_def by metis

section \<open>Writing to the catalog page\<close>

lemma table_records:
  assumes "i < MAX_CATALOG_TABLES"
  shows "records (\<lambda>r. record_root ops ((table_bt ops i r0)\<lparr>root_page_id := r\<rparr>)) 0
    (\<lambda>r c. content (set_table_entry i (set_te_root_page_id r (table_entry i c)) c))"
proof (rule put_scope_records)
  show "record_root ops ((table_bt ops i r0)\<lparr>root_page_id := r\<rparr>) s = with_page ops 0 s
      (\<lambda>g page s1. (Inr (), ps_put ops g (set_table_entry i (set_te_root_page_id r (table_entry i page)) page) s1))" for r s
    by (simp add: record_root_def table_bt_def WriteRootPageId_def)
  show "content (set_table_entry i (set_te_root_page_id r (table_entry i (content p))) (content p))
      = content (set_table_entry i (set_te_root_page_id r (table_entry i p)) p)" if "wf_page p" for r p
    using that assms by (simp add: content_set_table_entry)
qed (use assms in simp)

lemma BumpRowCount_ok:
  assumes "inv s" "view s 0 = Some c" "npins s < cap s" "0 < room s" "i < MAX_CATALOG_TABLES"
  defines "e \<equiv> table_entry i c"
  shows "\<exists>s'. BumpRowCount ops 0 i s = (Inr (), s') \<and> ext 1 s s'
    \<and> view s' = (view s)(0 \<mapsto> content (set_table_entry i (set_te_row_count (te_row_count e + 1) e) c))"
proof -
  let ?f = "\<lambda>page. set_table_entry i (set_te_row_count (te_row_count (table_entry i page) + 1) (table_entry i page)) page"
  have "records (\<lambda>_. BumpRowCount ops 0 i) 0 (\<lambda>_ c. content (?f c))"
    by (rule put_scope_records) (use assms(5) in \<open>simp_all add: BumpRowCount_def content_set_table_entry\<close>)
  then show ?thesis using assms(1-4) unfolding records_def e_def by blast
qed

lemma write_entry_ok:
  assumes "inv s" "view s 0 = Some c" "npins s < cap s" "0 < room s" "i < MAX_CATALOG_TABLES" "length e = CatalogTableEntry_size"
  shows "\<exists>s' c'. write_entry ops 0 i e s = (Inr (), s') \<and> ext 1 s s' \<and> view s' = (view s)(0 \<mapsto> c')
    \<and> (\<forall>j < MAX_CATALOG_TABLES. table_entry j c' = (if j = i then e else table_entry j c))"
proof -
  let ?f = "\<lambda>page. set_num_tables (num_tables page + 1) (set_table_entry i e page)"
  have c: "wf_page c" "content c = c" using view_content [OF assms(1,2)] by simp_all
  let ?R = "\<lambda>(_ :: unit) V. \<exists>p. wf_page p \<and> content p = c \<and> V = (view s)(0 \<mapsto> content (?f p))"
  have "\<exists>x s'. write_entry ops 0 i e s = (Inr x, s') \<and> ext 1 s s' \<and> ?R x (view s')"
    unfolding write_entry_def
  proof (rule with_page_rel [where R = ?R, OF assms(1-4)])
    fix g s1 assume g: "guard_ok s1 g" "g_page_id g = 0" "inv s1" "view s1 = view s" "wf_page (ps_page ops g s1)" "content (ps_page ops g s1) = c"
    have wf: "wf_page (?f (ps_page ops g s1))" using g(5) assms(5,6) by simp
    show "\<exists>x s2. (Inr (), ps_put ops g (?f (ps_page ops g s1)) s1) = (Inr x, s2) \<and> ext 0 s1 s2 \<and> ?R x (view s2)"
      using ext_put [OF g(3,1) wf] g by auto
  qed
  then obtain s' p where s': "write_entry ops 0 i e s = (Inr (), s')" "ext 1 s s'" "wf_page p" "content p = c"
    "view s' = (view s)(0 \<mapsto> content (?f p))" by auto
  have "table_entry j (content (?f p)) = (if j = i then e else table_entry j c)" if "j < MAX_CATALOG_TABLES" for j
  proof -
    have "table_entry j (content (?f p)) = table_entry j (set_table_entry i e p)" using that s'(3) assms(5,6) by simp
    also have "\<dots> = (if j = i then e else table_entry j p)" by (rule table_entry_set [OF s'(3) assms(5) that assms(6)])
    also have "table_entry j p = table_entry j c" using that s'(3,4) table_entry_content by metis
    finally show ?thesis .
  qed
  then show ?thesis using s'(1,2,5) by blast
qed

section \<open>The operations\<close>

lemma GetTable_ok:
  assumes "catalog_is s cat slots" "slot_of slots name = Some i" "slots ! i = Some (sch, T, cnt)" "npins s < cap s" "0 < room s"
  shows "\<exists>s' cat'. GetTable ops name cat s = (Inr (table_bt ops i (root_id T)), cat', s') \<and> ext 1 s s' \<and> view s' = view s
    \<and> catalog_page_id cat' = 0 \<and> catalog_is s' cat' slots"
proof -
  note D = catalog_isD [OF assms(1)]
  have i: "i < MAX_CATALOG_TABLES" using assms(2) D(2) by (auto simp: index_where_Some)
  have idx: "FindTableIndex cat name = int i" using FindTableIndex_slots [OF assms(1)] assms(2) by simp
  have h: "handle_is ops i (cat_tables cat ! i) (Some (sch, T, cnt))" using D(5) [OF i] assms(3) by simp
  show ?thesis
  proof (cases "th_tree (cat_tables cat ! i)")
    case (Some t)
    then have "GetTable ops name cat s = (Inr (table_bt ops i (root_id T)), cat, s)" using h idx by (simp add: GetTable_def)
    then show ?thesis using assms(1) ext_refl [OF D(1)] D(4) by blast
  next
    case None
    obtain c where c: "view s 0 = Some c" "slots_in (view s) c slots" using assms(1) by (auto simp: catalog_is_def)
    have root: "te_root_page_id (table_entry i c) = root_id T" using c(2) i assms(3) by (auto simp: slots_in_def)
    let ?body = "\<lambda>g page s1. (BTree_attach (te_root_page_id (table_entry i page)) (Some (WriteRootPageId ops 0 i)), s1)"
    have "\<exists>s'. with_page ops 0 s ?body = (Inr (table_bt ops i (root_id T)), s') \<and> ext 1 s s' \<and> view s' = view s"
    proof (rule with_page_ok [OF D(1) c(1) assms(4,5)])
      fix g s1 assume g: "inv s1" "view s1 = view s" "wf_page (ps_page ops g s1)" "content (ps_page ops g s1) = c"
      then have "table_entry i (ps_page ops g s1) = table_entry i c" using i table_entry_content by metis
      then show "\<exists>s2. ?body g (ps_page ops g s1) s1 = (Inr (table_bt ops i (root_id T)), s2) \<and> ext 0 s1 s2 \<and> view s2 = view s"
        using g root ext_refl [OF g(1)] by (simp add: BTree_attach_def table_bt_def)
    qed
    then obtain s' where s': "with_page ops 0 s ?body = (Inr (table_bt ops i (root_id T)), s')" "ext 1 s s'" "view s' = view s" by blast
    let ?cat = "set_tree i (table_bt ops i (root_id T)) cat"
    have "GetTable ops name cat s = (Inr (table_bt ops i (root_id T)), ?cat, s')"
      using None idx s'(1) D(4) by (simp add: GetTable_def)
    moreover have "catalog_is s' (cat\<lparr>cat_tables := (cat_tables cat)[i := (cat_tables cat ! i)\<lparr>th_tree := Some (table_bt ops i (root_id T))\<rparr>]\<rparr>) (slots[i := slots ! i])"
      by (rule catalog_is_update [OF assms(1) i, where c = c and c' = c])
        (use s'(2,3) c D(6) [OF i] h i assms(3) slot_names_differ [OF assms(1) i] in \<open>auto simp: ext_def slots_in_def\<close>)
    ultimately show ?thesis using s' D(4) by (simp add: set_tree_def)
  qed
qed

text \<open>The tree of a table takes a row, and its root is recorded when it moves.\<close>

lemma table_insert_ok:
  assumes "catalog_is s cat slots" "i < MAX_CATALOG_TABLES" "slots ! i = Some (sch, T, cnt)" "row_of sch k row"
    and "npins s + 34 \<le> cap s" "102 < room s"
  shows "\<exists>bt' s' T'. BTree_Insert ops k (row_blob sch row) (table_bt ops i (root_id T)) s = Some (Inr (), bt', s') \<and> ext 102 s s'
    \<and> entries T' = upd_entry k (row_blob sch row) (entries T) \<and> catalog_is s' (set_tree i bt' cat) (slots[i := Some (sch, T', cnt)])"
proof -
  note D = catalog_isD [OF assms(1)] and i = assms(2)
  let ?bt = "table_bt ops i (root_id T)" let ?b = "row_blob sch row"
  have sl: "schema_ok sch" "rows_ok sch (entries T)" "0 \<notin> set (ids T)" using D(6) [OF i] assms(3) by simp_all
  obtain c where c: "view s 0 = Some c" "slots_in (view s) c slots" using assms(1) by (auto simp: catalog_is_def)
  have e: "entry_is (table_entry i c) (Some (sch, T, cnt))" "wf_page c"
    using c i assms(3) view_content [OF D(1) c(1)] by (auto simp: slots_in_def)
  obtain n where n: "tree_of (view s) (root_id T) n T" using D(6) [OF i] assms(3) by auto
  then have n32: "n \<le> 32" by (rule tree_of_height)
  have pre: "tree_of (view s) (root_page_id ?bt) n T" "length ?b \<le> VALUE_SIZE" "npins s + n + 1 < cap s" "3 * n + 6 < room s"
    using n length_row_blob [OF assms(4)] schema_ok_size [OF sl(1)] assms(5,6) n32 by (simp_all add: table_bt_def)
  obtain bt' s2 n' T' where B: "BTree_Insert ops k ?b ?bt s = Some (Inr (), bt', s2)" "ext (3 * n + 6) s s2"
    "bt' = ?bt\<lparr>root_page_id := root_id T'\<rparr>" "tree_of (view s2) (root_page_id bt') n' T'"
    "entries T' = upd_entry k ?b (entries T)" "0 \<notin> set (ids T')" "evolves (view s) (view s2) (0 # ids T) (0 # ids T')"
    "bt' = ?bt \<and> view s2 0 = Some c
      \<or> view s2 0 = Some (content (set_table_entry i (set_te_root_page_id (root_page_id bt') (table_entry i c)) c))"
    using BTree_Insert_ok [OF D(1) pre(1,2) table_records [OF i] sl(3) c(1) pre(3,4)] by blast
  let ?sl = "Some (sch, T', cnt) :: slot" let ?e = "set_te_root_page_id (root_id T') (table_entry i c)"
  have bt': "bt' = table_bt ops i (root_id T')" using B(3) by (simp add: table_bt_def)
  have le: "length ?e = CatalogTableEntry_size" using e(2) i by simp
  have e': "entry_is ?e ?sl" using e i by simp
  obtain c2 where c2: "view s2 0 = Some c2" "entry_is (table_entry i c2) ?sl"
    "\<And>j. j < MAX_CATALOG_TABLES \<Longrightarrow> j \<noteq> i \<Longrightarrow> table_entry j c2 = table_entry j c"
  proof (cases "bt' = ?bt \<and> view s2 0 = Some c")
    case True
    then have "root_id T' = root_id T" using bt' by (simp add: table_bt_def)
    then show ?thesis using that [of c] True e by simp
  next
    case False
    have "root_page_id bt' = root_id T'" using bt' by (simp add: table_bt_def)
    then have v: "view s2 0 = Some (content (set_table_entry i ?e c))" using B(8) False by metis
    show ?thesis by (rule that [OF v]) (use table_entry_put [OF e(2) i _ le] e' i in simp_all)
  qed
  have ok: "slot_ok (view s2) ?sl" using sl(1) rows_ok_upd [OF sl(2) assms(4)] B(4-6) bt' by (auto simp: table_bt_def)
  have hd: "handle_is ops i ((cat_tables cat ! i)\<lparr>th_tree := Some bt'\<rparr>) ?sl" using D(5) [OF i] assms(3) bt' by simp
  have "catalog_is s2 (set_tree i bt' cat) (slots[i := ?sl])"
    unfolding set_tree_def
    by (rule catalog_is_update [OF assms(1) i _ c(1) c2(1) _ ok c2(2) hd c2(3)])
      (use B(2,7) assms(3) slot_names_differ [OF assms(1) i] in \<open>simp_all add: ext_def\<close>)
  moreover have "ext 102 s s2" using ext_mono [OF B(2)] n32 by simp
  ultimately show ?thesis using B(1,5) by blast
qed

lemma bump_ok:
  assumes "catalog_is s cat slots" "i < MAX_CATALOG_TABLES" "slots ! i = Some (sch, T, cnt)" "npins s < cap s" "0 < room s"
  shows "\<exists>s'. BumpRowCount ops 0 i s = (Inr (), s') \<and> ext 1 s s' \<and> catalog_is s' cat (slots[i := Some (sch, T, cnt + 1)])"
proof -
  note D = catalog_isD [OF assms(1)] and i = assms(2)
  obtain c where c: "view s 0 = Some c" "slots_in (view s) c slots" using assms(1) by (auto simp: catalog_is_def)
  have e: "entry_is (table_entry i c) (Some (sch, T, cnt))" "wf_page c"
    using c i assms(3) view_content [OF D(1) c(1)] by (auto simp: slots_in_def)
  let ?e = "set_te_row_count (te_row_count (table_entry i c) + 1) (table_entry i c)" let ?c = "content (set_table_entry i ?e c)"
  let ?sl = "Some (sch, T, cnt + 1) :: slot"
  obtain s' where s': "BumpRowCount ops 0 i s = (Inr (), s')" "ext 1 s s'" "view s' = (view s)(0 \<mapsto> ?c)"
    using BumpRowCount_ok [OF D(1) c(1) assms(4,5) i] by blast
  have le: "length ?e = CatalogTableEntry_size" using e(2) i by simp
  have ent: "entry_is (table_entry i ?c) ?sl" using table_entry_put [OF e(2) i i le] e i by simp
  have "0 \<notin> set (slot_ids (slots ! i))" using D(6) [OF i] assms(3) by simp
  then have "slot_ok (view s') (slots ! i)" using s'(3) by (intro slot_ok_frame [OF D(6) [OF i]]) auto
  then have ok: "slot_ok (view s') ?sl" using assms(3) by simp
  have hd: "handle_is ops i (cat_tables cat ! i) ?sl" using D(5) [OF i] assms(3) by simp
  have "catalog_is s' (cat\<lparr>cat_tables := (cat_tables cat)[i := cat_tables cat ! i]\<rparr>) (slots[i := ?sl])"
    by (rule catalog_is_update [OF assms(1) i _ c(1) _ _ ok ent hd])
      (use s' table_entry_put [OF e(2) i _ le] assms(3) slot_names_differ [OF assms(1) i] in \<open>simp_all add: ext_def evolves_def\<close>)
  then show ?thesis using s' by auto
qed

lemma InsertRow_ok:
  assumes "catalog_is s cat slots" "slot_of slots name = Some i" "slots ! i = Some (sch, T, cnt)" "row_of sch k row"
    and "npins s + 34 \<le> cap s" "104 < room s"
  shows "\<exists>s' cat' T'. InsertRow ops name row cat s = Some (Inr (), cat', s') \<and> ext 104 s s'
    \<and> catalog_is s' cat' (slots[i := Some (sch, T', cnt + 1)]) \<and> entries T' = upd_entry k (row_blob sch row) (entries T)"
proof -
  note D = catalog_isD [OF assms(1)]
  have i: "i < MAX_CATALOG_TABLES" using assms(2) D(2) by (auto simp: index_where_Some)
  have idx: "FindTableIndex cat name = int i" using FindTableIndex_slots [OF assms(1)] assms(2) by simp
  have h: "th_schema (cat_tables cat ! i) = sch" "schema_ok sch" using D(5,6) [OF i] assms(3) by simp_all
  have "npins s < cap s" "0 < room s" using assms(5,6) by simp_all
  then obtain s1 cat1 where G: "GetTable ops name cat s = (Inr (table_bt ops i (root_id T)), cat1, s1)" "ext 1 s s1" "catalog_is s1 cat1 slots"
    using GetTable_ok [OF assms(1-3)] by blast
  have s1: "npins s1 + 34 \<le> cap s1" "102 < room s1" using G(2) ext_npins [OF G(2)] assms(5,6) by (simp_all add: ext_def)
  obtain bt' s2 T' where B: "BTree_Insert ops k (row_blob sch row) (table_bt ops i (root_id T)) s1 = Some (Inr (), bt', s2)" "ext 102 s1 s2"
    "entries T' = upd_entry k (row_blob sch row) (entries T)" "catalog_is s2 (set_tree i bt' cat1) (slots[i := Some (sch, T', cnt)])"
    using table_insert_ok [OF G(3) i assms(3,4) s1] by blast
  have s2: "npins s2 < cap s2" "0 < room s2" using B(2) ext_npins [OF B(2)] s1 G(2) assms(6) by (simp_all add: ext_def)
  obtain s3 where s3: "BumpRowCount ops 0 i s2 = (Inr (), s3)" "ext 1 s2 s3"
    "catalog_is s3 (set_tree i bt' cat1) (slots[i := Some (sch, T', cnt + 1)])"
    using bump_ok [OF B(4) i _ s2] i D(2) by auto
  have "InsertRow ops name row cat s = Some (Inr (), set_tree i bt' cat1, s3)"
    using idx h(1) schema_ok_pk [OF h(2)] assms(4) Encode_row [OF assms(4)] G(1) B(1) s3(1) D(4)
    by (simp add: InsertRow_def Let_def row_of_def storable_def storable_from_def)
  moreover have "ext 104 s s3" using ext_trans [OF ext_trans [OF G(2) B(2)] s3(2)] by simp
  ultimately show ?thesis using s3(3) B(3) by blast
qed

subsection \<open>A new table\<close>

lemma alloc_root_ok:
  assumes "inv s" "npins s < cap s" "1 < room s"
  shows "\<exists>s' r. alloc_root ops s = (Inr r, s') \<and> ext 2 s s' \<and> view s r = None
    \<and> tree_of (view s') r 0 (BLeaf r []) \<and> (\<forall>j. j \<noteq> r \<longrightarrow> view s' j = view s j)"
proof -
  have "0 < room s" using assms(3) by simp
  then obtain g s1 r where g: "ps_new ops s = (Inr (Some g), s1)" "g_page_id g = r" "guard_ok s1 g" "inv s1"
    "view s r = None" "r \<noteq> INVALID_PAGE_ID" "ps_page ops g s1 = set_page_id r zero_page"
    "view s1 = (view s)(r \<mapsto> content (set_page_id r zero_page))" "room s \<le> Suc (room s1)"
    "\<And>k (x :: page_id_t res) s2. ext k s1 s2 \<Longrightarrow> 0 < room s2 \<Longrightarrow>
       \<exists>s3. end_scope ops g (x, s2) = (x, s3) \<and> ext (k + 2) s s3 \<and> view s3 = view s2"
    using new_scope [OF assms(1) _ assms(2), where 'a = page_id_t] by metis
  let ?p = "init_leaf (ps_page ops g s1)"
  have p: "leaf_node ?p []" "next_leaf ?p = INVALID_PAGE_ID" using init_leaf_node [of "ps_page ops g s1"] g(7) by simp_all
  have wf: "wf_page ?p" using p(1) by (simp add: leaf_node_def)
  note P = ext_put [OF g(4,3) wf]
  have "0 < room (ps_put ops g ?p s1)" using P(1) g(9) assms(3) by (simp add: ext_def)
  from g(10) [OF P(1) this] obtain s3 where s3: "end_scope ops g (Inr r, ps_put ops g ?p s1) = (Inr r, s3)" "ext 2 s s3"
    "view s3 = view (ps_put ops g ?p s1)" unfolding add_0 by blast
  have V: "view s3 = (view s)(r \<mapsto> content ?p)" using s3(3) P(2) g(2,8) by simp
  have tree: "tree_of (view s3) r 0 (BLeaf r [])"
    by (rule empty_leaf_tree [where p = "content ?p"]) (use V p wf g(6) in simp_all)
  have res: "alloc_root ops s = (Inr r, s3)" using g(1,2) s3(1) by (simp add: alloc_root_def)
  show ?thesis using res s3(2) g(5) tree V by auto
qed

lemma new_entry_is:
  assumes "schema_ok sch"
  shows "length (new_table_entry (table_name sch) (columns sch) r) = CatalogTableEntry_size"
    "entry_is (new_table_entry (table_name sch) (columns sch) r) (Some (sch, BLeaf r [], 0))"
proof -
  have n: "storable_name CATALOG_TABLE_NAME_LEN (table_name sch)" "length (columns sch) \<le> MAX_CATALOG_COLUMNS"
    "\<forall>c \<in> set (columns sch). storable_name CATALOG_COLUMN_NAME_LEN (cd_name c)"
    using assms by (simp_all add: schema_ok_def creatable_def storable_name_def)
  note N = new_table_entry_spec [OF n, of r]
  have "unat (of_nat (length (columns sch)) :: byte) = length (columns sch)"
    using n(2) by (simp add: unat_of_nat_byte layout_simps)
  then show "length (new_table_entry (table_name sch) (columns sch) r) = CatalogTableEntry_size"
    "entry_is (new_table_entry (table_name sch) (columns sch) r) (Some (sch, BLeaf r [], 0))"
    using N n(2) by simp_all
qed

lemma free_slot:
  assumes "catalog_is s cat slots"
  shows "index_where (\<lambda>h. \<not> th_in_use h) (cat_tables cat) = index_where (\<lambda>sl. sl = None) slots"
proof -
  note D = catalog_isD [OF assms]
  have "(\<not> th_in_use (cat_tables cat ! i)) = (slots ! i = None)" if "i < MAX_CATALOG_TABLES" for i
    using D(5) [OF that] by (cases "slots ! i" rule: slot_ids.cases) auto
  then show ?thesis using D(2,3) by (intro index_where_cong) simp_all
qed

lemma TableExists_slots: "catalog_is s cat slots \<Longrightarrow> TableExists cat name \<longleftrightarrow> slot_of slots name \<noteq> None"
  by (auto simp: TableExists_def FindTableIndex_slots split: option.split)

lemma CreateTable_ok:
  assumes "catalog_is s cat slots" "schema_ok sch" "slot_of slots (table_name sch) = None" "index_where (\<lambda>sl. sl = None) slots = Some i"
    and "npins s < cap s" "4 \<le> room s"
  shows "\<exists>s' cat' r. Catalog_CreateTable ops (table_name sch) (columns sch) cat s = (Inr (), cat', s') \<and> ext 3 s s'
    \<and> catalog_is s' cat' (slots[i := Some (sch, BLeaf r [], 0)])"
proof -
  note D = catalog_isD [OF assms(1)]
  have i: "i < MAX_CATALOG_TABLES" "slots ! i = None" using assms(4) D(2) by (auto simp: index_where_Some)
  have check: "check_create (table_name sch) (columns sch) cat = Inr i"
    using assms(2-4) TableExists_slots [OF assms(1)] free_slot [OF assms(1)]
    by (intro check_create_ok) (simp_all add: schema_ok_def)
  have "1 < room s" using assms(6) by simp
  then obtain s1 r where A: "alloc_root ops s = (Inr r, s1)" "ext 2 s s1" "view s r = None"
    "tree_of (view s1) r 0 (BLeaf r [])" "\<And>j. j \<noteq> r \<Longrightarrow> view s1 j = view s j"
    using alloc_root_ok [OF D(1) assms(5)] by blast
  obtain c where c: "view s 0 = Some c" "slots_in (view s) c slots" using assms(1) by (auto simp: catalog_is_def)
  have r: "r \<noteq> 0" using A(3) c(1) by auto
  let ?e = "new_table_entry (table_name sch) (columns sch) r" let ?sl = "Some (sch, BLeaf r [], 0) :: slot"
  note E = new_entry_is [OF assms(2), of r]
  have s1: "inv s1" "view s1 0 = Some c" "npins s1 < cap s1" "0 < room s1"
    using A(2) A(5) [of 0] r c(1) ext_npins [OF A(2)] assms(5,6) by (simp_all add: ext_def)
  obtain s2 c2 where W: "write_entry ops 0 i ?e s1 = (Inr (), s2)" "ext 1 s1 s2" "view s2 = (view s1)(0 \<mapsto> c2)"
    "\<And>j. j < MAX_CATALOG_TABLES \<Longrightarrow> table_entry j c2 = (if j = i then ?e else table_entry j c)"
    using write_entry_ok [OF s1 i(1) E(1)] by blast
  have tree2: "tree_of (view s2) r 0 (BLeaf r [])"
    using A(4) forest_frame [of 0 _ _ _ "view s1" "[]" "[BLeaf r []]" "view s2"] W(3) r by (auto simp: tree_of_def)
  have ok: "slot_ok (view s2) ?sl" using assms(2) r tree2 by auto
  have "view s1 j = view s j" if "view s j \<noteq> None" for j using that A(3,5) by (cases "j = r") auto
  then have ev: "evolves (view s) (view s2) (0 # slot_ids (slots ! i)) (0 # slot_ids ?sl)"
    using i(2) A(3) W(3) by (auto simp: evolves_def)
  have v2: "view s2 0 = Some c2" using W(3) by simp
  let ?h = "\<lparr>th_in_use = True, th_schema = sch, th_tree = None\<rparr> :: 's TableHandle"
  have names: "slot_name (slots ! j) \<noteq> slot_name ?sl" if "j < MAX_CATALOG_TABLES" for j
    using assms(3) that D(2) unfolding index_where_None by simp
  have "catalog_is s2 (cat\<lparr>cat_tables := (cat_tables cat)[i := ?h]\<rparr>) (slots[i := ?sl])"
    by (rule catalog_is_update [OF assms(1) i(1) _ c(1) v2 ev ok])
      (use W(2-4) i(1) E(2) names in \<open>simp_all add: ext_def\<close>)
  moreover have "Catalog_CreateTable ops (table_name sch) (columns sch) cat s = (Inr (), cat\<lparr>cat_tables := (cat_tables cat)[i := ?h]\<rparr>, s2)"
    using check A(1) W(1) D(4) by (cases sch) (simp add: Catalog_CreateTable_def)
  moreover have "ext 3 s s2" using ext_trans [OF A(2) W(2)] by simp
  ultimately show ?thesis by blast
qed

subsection \<open>Reading\<close>

lemma ScanTable_ok:
  assumes "catalog_is s cat slots" "slot_of slots name = Some i" "slots ! i = Some (sch, T, cnt)"
    and "npins s < cap s" "34 + length (leaf_ids T) < room s"
  shows "\<exists>s' cat'. ScanTable ops name cat s = Some (Inr (map snd (decoded sch (entries T))), cat', s')
    \<and> ext (34 + length (leaf_ids T)) s s' \<and> catalog_is s' cat' slots \<and> view s' = view s"
proof -
  note D = catalog_isD [OF assms(1)]
  have i: "i < MAX_CATALOG_TABLES" using assms(2) D(2) by (auto simp: index_where_Some)
  have idx: "FindTableIndex cat name = int i" using FindTableIndex_slots [OF assms(1)] assms(2) by simp
  have h: "th_schema (cat_tables cat ! i) = sch" "rows_ok sch (entries T)" using D(5,6) [OF i] assms(3) by simp_all
  have "0 < room s" using assms(5) by simp
  then obtain s1 cat1 where G: "GetTable ops name cat s = (Inr (table_bt ops i (root_id T)), cat1, s1)" "ext 1 s s1" "view s1 = view s"
    "catalog_is s1 cat1 slots" using GetTable_ok [OF assms(1-4)] by blast
  obtain n where n: "tree_of (view s1) (root_id T) n T" using catalog_isD(6) [OF G(4) i] assms(3) by auto
  then have n32: "n \<le> 32" by (rule tree_of_height)
  let ?bt = "table_bt ops i (root_id T)"
  have pre: "tree_of (view s1) (root_page_id ?bt) n T" "npins s1 < cap s1" "n + 1 + length (leaf_ids T) < room s1"
    using n n32 G(2) ext_npins [OF G(2)] assms(4,5) by (simp_all add: table_bt_def ext_def)
  have all: "filter (in_range INT64_MIN INT64_MAX) (entries T) = entries T"
  proof (rule filter_True, rule ballI)
    fix e show "in_range INT64_MIN INT64_MAX e"
      using sint_range [of "fst e"] by (simp add: INT64_MIN_def INT64_MAX_def)
  qed
  obtain s2 where S: "RangeScan ops INT64_MIN INT64_MAX ?bt s1 = Some (Inr (entries T), s2)"
    "ext (n + 1 + length (leaf_ids T)) s1 s2" "view s2 = view s1"
    using RangeScan_ok [OF catalog_isD(1) [OF G(4)] pre, of INT64_MIN INT64_MAX] unfolding all by blast
  have "ScanTable ops name cat s = Some (Inr (map snd (decoded sch (entries T))), cat1, s2)"
    using idx h G(1) S(1) decode_rows_decoded [OF h(2)] by (simp add: ScanTable_def Let_def)
  moreover have "catalog_is s2 cat1 slots" using catalog_is_step [OF G(4) _ S(3)] S(2) by (simp add: ext_def)
  moreover have "ext (34 + length (leaf_ids T)) s s2" using ext_mono [OF ext_trans [OF G(2) S(2)]] n32 by simp
  ultimately show ?thesis using S(3) G(3) by auto
qed

lemma EstimatedRowCount_ok:
  assumes "catalog_is s cat slots" "slot_of slots name = Some i" "slots ! i = Some (sch, T, cnt)" "npins s < cap s" "0 < room s"
  shows "\<exists>s'. EstimatedRowCount ops name cat s = (Inr cnt, s') \<and> ext 1 s s' \<and> view s' = view s \<and> catalog_is s' cat slots"
proof -
  note D = catalog_isD [OF assms(1)]
  have i: "i < MAX_CATALOG_TABLES" using assms(2) D(2) by (auto simp: index_where_Some)
  have idx: "FindTableIndex cat name = int i" using FindTableIndex_slots [OF assms(1)] assms(2) by simp
  obtain c where c: "view s 0 = Some c" "slots_in (view s) c slots" using assms(1) by (auto simp: catalog_is_def)
  have e: "te_row_count (table_entry i c) = cnt" using c(2) i assms(3) by (auto simp: slots_in_def)
  have "\<exists>s'. with_page ops 0 s (\<lambda>g page s1. (Inr (te_row_count (table_entry i page)), s1)) = (Inr cnt, s') \<and> ext 1 s s' \<and> view s' = view s"
  proof (rule with_page_ok [OF D(1) c(1) assms(4,5)])
    fix g s1 assume g: "inv s1" "view s1 = view s" "wf_page (ps_page ops g s1)" "content (ps_page ops g s1) = c"
    then have "table_entry i (ps_page ops g s1) = table_entry i c" using i table_entry_content by metis
    then show "\<exists>s2. (Inr (te_row_count (table_entry i (ps_page ops g s1))), s1) = (Inr cnt, s2) \<and> ext 0 s1 s2 \<and> view s2 = view s"
      using g e ext_refl [OF g(1)] by simp
  qed
  then obtain s' where s': "with_page ops 0 s (\<lambda>g page s1. (Inr (te_row_count (table_entry i page)), s1)) = (Inr cnt, s')"
    "ext 1 s s'" "view s' = view s" by blast
  then have "catalog_is s' cat slots" using catalog_is_step [OF assms(1) _ s'(3)] by (simp add: ext_def)
  then show ?thesis using s' idx D(4) by (auto simp: EstimatedRowCount_def)
qed

subsection \<open>Opening\<close>

lemma load_handles_ok:
  assumes "length es = length sls" "\<forall>i < length es. entry_is (es ! i) (sls ! i)"
  shows "\<exists>hs :: 's TableHandle list. load_handles es = Inr hs \<and> length hs = length es
    \<and> (\<forall>i < length es. (sls ! i = None \<longrightarrow> \<not> th_in_use (hs ! i))
      \<and> (\<forall>sch T cnt. sls ! i = Some (sch, T, cnt) \<longrightarrow> hs ! i = \<lparr>th_in_use = True, th_schema = sch, th_tree = None\<rparr>))"
  using assms
proof (induction es sls rule: list_induct2)
  case (Cons e es sl sls)
  have "entry_is e sl" "\<forall>i < length es. entry_is (es ! i) (sls ! i)" using Cons.prems by auto
  moreover from this(2) obtain hs :: "'s TableHandle list" where "load_handles es = Inr hs" "length hs = length es"
    "\<forall>i < length es. (sls ! i = None \<longrightarrow> \<not> th_in_use (hs ! i))
      \<and> (\<forall>sch T cnt. sls ! i = Some (sch, T, cnt) \<longrightarrow> hs ! i = \<lparr>th_in_use = True, th_schema = sch, th_tree = None\<rparr>)"
    using Cons.IH by blast
  ultimately show ?case
    by (cases sl rule: slot_ids.cases) (auto simp: less_Suc_eq_0_disj empty_handle_def not_less)
qed simp

text \<open>Opening an existing file brings back every table; the trees are built when they are touched.\<close>

lemma Catalog_open_ok:
  assumes "inv s" "view s 0 = Some c" "slots_in (view s) c slots" "npins s < cap s" "0 < room s"
  shows "\<exists>s' cat. Catalog_new ops s = (Inr cat, s') \<and> ext 1 s s' \<and> view s' = view s \<and> catalog_is s' cat slots"
proof -
  let ?es = "\<lambda>p. map (\<lambda>i. table_entry i p) [0..<MAX_CATALOG_TABLES]"
  have S: "length slots = MAX_CATALOG_TABLES" "\<And>i. i < MAX_CATALOG_TABLES \<Longrightarrow> entry_is (table_entry i c) (slots ! i)"
    using assms(3) by (simp_all add: slots_in_def)
  obtain hs :: "'s TableHandle list" where hs: "load_handles (?es c) = Inr hs" "length hs = MAX_CATALOG_TABLES"
    "\<And>i. i < MAX_CATALOG_TABLES \<Longrightarrow> (slots ! i = None \<longrightarrow> \<not> th_in_use (hs ! i))
      \<and> (\<forall>sch T cnt. slots ! i = Some (sch, T, cnt) \<longrightarrow> hs ! i = \<lparr>th_in_use = True, th_schema = sch, th_tree = None\<rparr>)"
    using load_handles_ok [of "?es c" slots] S by auto
  have count: "ps_count ops s \<noteq> 0" using view_bound [OF assms(1,2)] by simp
  obtain g s1 where g: "ps_fetch ops 0 s = (Inr (Some g), s1)" "inv s1" "view s1 = view s"
    "content (ps_page ops g s1) = c" "wf_page (ps_page ops g s1)" "room s1 = room s"
    "\<And>k (x :: 's Catalog res) s2. ext k s1 s2 \<Longrightarrow> 0 < room s2 \<Longrightarrow>
       \<exists>s3. end_scope ops g (x, s2) = (x, s3) \<and> ext (Suc k) s s3 \<and> view s3 = view s2"
    using fetch_scope [OF assms(1,2,4), where 'a = "'s Catalog"] by metis
  have "?es (ps_page ops g s1) = ?es c" using g(4,5) table_entry_content by (intro map_cong) auto
  then have load: "load_handles (?es (ps_page ops g s1)) = Inr hs" using hs(1) by metis
  let ?cat = "\<lparr>catalog_page_id = 0, cat_tables = hs\<rparr> :: 's Catalog"
  have "0 < room s1" using g(6) assms(5) by simp
  from g(7) [OF ext_refl [OF g(2), of 0] this, of "Inr ?cat"] obtain s3 where
    s3: "end_scope ops g (Inr ?cat, s1) = (Inr ?cat, s3)" "ext 1 s s3" "view s3 = view s1" by auto
  have "Catalog_new ops s = (Inr ?cat, s3)" using count g(1) load s3(1) by (simp add: Catalog_new_def)
  moreover have "handle_is ops i (hs ! i) (slots ! i)" if "i < MAX_CATALOG_TABLES" for i
    using hs(3) [OF that] by (cases "slots ! i" rule: slot_ids.cases) auto
  then have "catalog_is s3 ?cat slots"
    using assms(2,3) s3(2,3) g(3) hs(2) by (auto simp: catalog_is_def ext_def)
  ultimately show ?thesis using s3(2,3) g(3) by auto
qed

text \<open>A fresh file gets an empty catalog page.\<close>

lemma zero_entry: "i < MAX_CATALOG_TABLES \<Longrightarrow> te_in_use (table_entry i (set_page_type t (set_page_id 0 zero_page))) = 0"
proof -
  assume i: "i < MAX_CATALOG_TABLES"
  have "table_entry i (set_page_type t (set_page_id 0 zero_page)) = table_entry i zero_page"
    using i by simp
  also have "\<dots> = replicate CatalogTableEntry_size 0"
    using i tables.cell_fits [of i] by (simp add: table_entry_def cell_def zero_page_def seg_def)
  finally show ?thesis by (simp add: te_in_use_def get_field_def seg_def le_word_def layout_simps)
qed

lemma Catalog_create_ok:
  assumes "inv s" "ps_count ops s = 0" "npins s < cap s" "2 \<le> room s"
  shows "\<exists>s' cat. Catalog_new ops s = (Inr cat, s') \<and> ext 2 s s' \<and> catalog_is s' cat (replicate MAX_CATALOG_TABLES None)"
proof -
  have "0 < room s" using assms(4) by simp
  then obtain g s1 r where g: "ps_new ops s = (Inr (Some g), s1)" "g_page_id g = r" "guard_ok s1 g" "inv s1"
    "unat r = ps_count ops s" "ps_page ops g s1 = set_page_id r zero_page"
    "view s1 = (view s)(r \<mapsto> content (set_page_id r zero_page))" "room s \<le> Suc (room s1)"
    "\<And>k (x :: 's Catalog res) s2. ext k s1 s2 \<Longrightarrow> 0 < room s2 \<Longrightarrow>
       \<exists>s3. end_scope ops g (x, s2) = (x, s3) \<and> ext (k + 2) s s3 \<and> view s3 = view s2"
    using new_scope [OF assms(1) _ assms(3), where 'a = "'s Catalog"] by metis
  have r: "r = 0" using g(5) assms(2) by (simp add: unat_eq_zero)
  let ?p = "set_page_type (page_type_code CATALOG) (ps_page ops g s1)"
  let ?cat = "\<lparr>catalog_page_id = 0, cat_tables = replicate MAX_CATALOG_TABLES empty_handle\<rparr> :: 's Catalog"
  have wf: "wf_page ?p" using g(6) by simp
  note P = ext_put [OF g(4,3) wf]
  have "0 < room (ps_put ops g ?p s1)" using P(1) g(8) assms(4) by (simp add: ext_def)
  from g(9) [OF P(1) this, of "Inr ?cat"] obtain s3 where s3: "end_scope ops g (Inr ?cat, ps_put ops g ?p s1) = (Inr ?cat, s3)" "ext 2 s s3"
    "view s3 = view (ps_put ops g ?p s1)" unfolding add_0 by blast
  have V: "view s3 0 = Some (content ?p)" using s3(3) P(2) g(2) r by simp
  have "te_in_use (table_entry i (content ?p)) = 0" if "i < MAX_CATALOG_TABLES" for i
    using zero_entry [OF that] that wf g(6) r by simp
  then have "slots_in (view s3) (content ?p) (replicate MAX_CATALOG_TABLES None)" by (simp add: slots_in_def)
  then have "catalog_is s3 ?cat (replicate MAX_CATALOG_TABLES None)"
    using V s3(2) by (simp add: catalog_is_def ext_def empty_handle_def)
  moreover have "Catalog_new ops s = (Inr ?cat, s3)"
    using assms(2) g(1,2) r s3(1) by (simp add: Catalog_new_def)
  ultimately show ?thesis using s3(2) by blast
qed

end

end
