(* ===== verification/Query_Execution.thy ===== *)
theory Query_Execution
  imports Join_Plans Catalog_Contract
begin

text \<open>
  Planning and running a query over the catalog: opening a plan scans the tables through the pages
  below, and from then on the plan yields the stream computed from the tables alone; planning asks
  for estimates only, and joins the tables of a validated query in an order in which every
  condition finds its columns.
\<close>

section \<open>The tables a catalog holds\<close>

record Relation =
  rel_schema :: TableSchema
  rel_rows :: "(i64 \<times> Value list) list"
  rel_count :: u64

fun slot_relation :: "slot \<Rightarrow> Relation option" where
  "slot_relation None = None"
| "slot_relation (Some (sch, T, cnt)) = Some \<lparr>rel_schema = sch, rel_rows = decoded sch (entries T), rel_count = cnt\<rparr>"

type_synonym relations = "string \<Rightarrow> Relation option"

definition relations_of :: "slot list \<Rightarrow> relations" where
  "relations_of slots name = (case slot_of slots name of None \<Rightarrow> None | Some i \<Rightarrow> slot_relation (slots ! i))"

definition row_tables :: "relations \<Rightarrow> tables" where
  "row_tables D name = map_option (\<lambda>R. (rel_schema R, map snd (rel_rows R))) (D name)"

text \<open>The catalogs whose schemas are those of \<open>D\<close>.\<close>
definition catalogs_of :: "relations \<Rightarrow> 's Catalog set" where
  "catalogs_of D = {cat. \<forall>name. GetSchema cat name = (case D name of
     None \<Rightarrow> Inl (CatalogError ''no such table'') | Some R \<Rightarrow> Inr (rel_schema R))}"

definition leaf_bound :: "slot list \<Rightarrow> nat \<Rightarrow> bool" where
  "leaf_bound slots b \<longleftrightarrow> (\<forall>sch T cnt. Some (sch, T, cnt) \<in> set slots \<longrightarrow> length (leaf_ids T) \<le> b)"

lemma rows_ok_length:
  assumes "rows_ok sch es" "r \<in> set (map snd (decoded sch es))"
  shows "length r = length (columns sch)"
proof -
  obtain k b where "(k, b) \<in> set es" "r = projr (Decode sch k b)" using assms(2) by (auto simp: decoded_def)
  then obtain row where "row_of sch k row" "r = row"
    using assms(1) Decode_row_blob by (fastforce simp: rows_ok_def)
  then show ?thesis by (simp add: row_of_def storable_def storable_from_def)
qed

context page_store
begin

lemma relations_slot:
  assumes "catalog_is s cat slots"
  shows "relations_of slots name = None \<longleftrightarrow> slot_of slots name = None"
    and "slot_of slots name = Some i \<Longrightarrow> \<exists>sch T cnt. slots ! i = Some (sch, T, cnt) \<and> i < MAX_CATALOG_TABLES \<and> table_name sch = name
      \<and> relations_of slots name = Some \<lparr>rel_schema = sch, rel_rows = decoded sch (entries T), rel_count = cnt\<rparr>"
proof -
  note D = catalog_isD [OF assms]
  have two: "slot_of slots name = Some i \<Longrightarrow> \<exists>sch T cnt. slots ! i = Some (sch, T, cnt) \<and> i < MAX_CATALOG_TABLES \<and> table_name sch = name
      \<and> relations_of slots name = Some \<lparr>rel_schema = sch, rel_rows = decoded sch (entries T), rel_count = cnt\<rparr>" for i
  proof -
    assume i: "slot_of slots name = Some i"
    from i obtain sch T cnt where "i < MAX_CATALOG_TABLES" "slots ! i = Some (sch, T, cnt)" "table_name sch = name"
      by (rule slot_ofD [OF _ D(2)])
    then show ?thesis using i by (simp add: relations_of_def)
  qed
  then show "slot_of slots name = Some i \<Longrightarrow> \<exists>sch T cnt. slots ! i = Some (sch, T, cnt) \<and> i < MAX_CATALOG_TABLES \<and> table_name sch = name
      \<and> relations_of slots name = Some \<lparr>rel_schema = sch, rel_rows = decoded sch (entries T), rel_count = cnt\<rparr>" .
  show "relations_of slots name = None \<longleftrightarrow> slot_of slots name = None"
  proof (cases "slot_of slots name")
    case (Some i)
    then show ?thesis using two [of i] by auto
  qed (simp add: relations_of_def)
qed

lemma GetSchema_relations:
  assumes "catalog_is s cat slots"
  shows "cat \<in> catalogs_of (relations_of slots)"
proof -
  note D = catalog_isD [OF assms]
  have "GetSchema cat name = (case relations_of slots name of None \<Rightarrow> Inl (CatalogError ''no such table'') | Some R \<Rightarrow> Inr (rel_schema R))" for name
  proof (cases "slot_of slots name")
    case None
    then show ?thesis using FindTableIndex_slots [OF assms, of name] relations_slot(1) [OF assms, of name] by (simp add: GetSchema_def)
  next
    case (Some i)
    then obtain sch T cnt where R: "slots ! i = Some (sch, T, cnt)" "i < MAX_CATALOG_TABLES"
      "relations_of slots name = Some \<lparr>rel_schema = sch, rel_rows = decoded sch (entries T), rel_count = cnt\<rparr>"
      using relations_slot(2) [OF assms, of name i] by blast
    then have "th_schema (cat_tables cat ! i) = sch" using D(5) [OF R(2)] by simp
    then show ?thesis using FindTableIndex_slots [OF assms, of name] Some R(3) by (simp add: GetSchema_def)
  qed
  then show ?thesis by (simp add: catalogs_of_def)
qed

lemma TableExists_relations: "catalog_is s cat slots \<Longrightarrow> TableExists cat name \<longleftrightarrow> relations_of slots name \<noteq> None"
  using TableExists_slots relations_slot(1) by simp

lemma catalog_rows_ok:
  assumes "catalog_is s cat slots" "i < MAX_CATALOG_TABLES" "slots ! i = Some (sch, T, cnt)"
  shows "rows_ok sch (entries T)"
  using catalog_isD(6) [OF assms(1,2)] assms(3) by simp

section \<open>Scanning\<close>

lemma ScanTable_relations:
  assumes "catalog_is s cat slots" "npins s < cap s" "leaf_bound slots b" "34 + b < room s"
  shows "\<exists>r cat' s'. ScanTable ops name cat s = Some (r, cat', s') \<and> ext (34 + b) s s' \<and> catalog_is s' cat' slots
    \<and> r = (case relations_of slots name of None \<Rightarrow> Inl (CatalogError ''no such table'') | Some R \<Rightarrow> Inr (map snd (rel_rows R)))"
proof (cases "slot_of slots name")
  case None
  then have "ScanTable ops name cat s = Some (Inl (CatalogError ''no such table''), cat, s)"
    using FindTableIndex_slots [OF assms(1), of name] by (simp add: ScanTable_def)
  then show ?thesis using None relations_slot(1) [OF assms(1), of name] assms(1) ext_refl [OF catalog_isD(1) [OF assms(1)]] by simp
next
  case (Some i)
  then obtain sch T cnt where R: "slots ! i = Some (sch, T, cnt)" "i < MAX_CATALOG_TABLES"
    "relations_of slots name = Some \<lparr>rel_schema = sch, rel_rows = decoded sch (entries T), rel_count = cnt\<rparr>"
    using relations_slot(2) [OF assms(1), of name i] by blast
  have "Some (sch, T, cnt) \<in> set slots" using R(1,2) catalog_isD(2) [OF assms(1)] by (metis nth_mem)
  then have len: "length (leaf_ids T) \<le> b" using assms(3) unfolding leaf_bound_def by blast
  then have "34 + length (leaf_ids T) < room s" using assms(4) by simp
  then obtain s' cat' where S: "ScanTable ops name cat s = Some (Inr (map snd (decoded sch (entries T))), cat', s')"
    "ext (34 + length (leaf_ids T)) s s'" "catalog_is s' cat' slots"
    using ScanTable_ok [OF assms(1) Some R(1) assms(2)] by blast
  then show ?thesis using R(3) ext_mono [OF S(2)] len by simp
qed

section \<open>Opening a plan\<close>

lemma scan_stream_yields:
  assumes "catalog_is s cat slots" "relations_of slots table = Some R"
  shows "yields er (catalogs_of (relations_of slots) :: 's Catalog set) (PhysicalScan table alias (map snd (rel_rows R)) 0)
    (map (scan_row alias (rel_schema R)) (map snd (rel_rows R)), None)"
proof -
  have "\<forall>r \<in> set (map snd (rel_rows R)). length r = length (columns (rel_schema R))"
  proof (cases "slot_of slots table")
    case None
    then show ?thesis using relations_slot(1) [OF assms(1), of table] assms(2) by simp
  next
    case (Some i)
    then obtain sch T cnt where S: "slots ! i = Some (sch, T, cnt)" "i < MAX_CATALOG_TABLES"
      "R = \<lparr>rel_schema = sch, rel_rows = decoded sch (entries T), rel_count = cnt\<rparr>"
      using relations_slot(2) [OF assms(1), of table i] assms(2) by auto
    then show ?thesis using rows_ok_length [OF catalog_rows_ok [OF assms(1) S(2,1)]] by simp
  qed
  moreover have "GetSchema c table = Inr (rel_schema R)" if "c \<in> (catalogs_of (relations_of slots) :: 's Catalog set)" for c
    using that assms(2) by (simp add: catalogs_of_def)
  ultimately show ?thesis
    using scan_yields [of "catalogs_of (relations_of slots) :: 's Catalog set" table "rel_schema R" "map snd (rel_rows R)" er "alias" "[]"]
    by simp
qed

text \<open>A plan opened, or an exception the plan's stream tells of.\<close>
definition opened :: "equal_range \<Rightarrow> relations \<Rightarrow> PhysicalPlan \<Rightarrow> PhysicalPlan res \<Rightarrow> bool" where
  "opened er D p r \<longleftrightarrow> (case r of Inl e \<Rightarrow> snd (plan_stream er (row_tables D) p) \<noteq> None \<and> raises (row_tables D) p e
     | Inr p' \<Rightarrow> yields er (catalogs_of D :: 's Catalog set) p' (plan_stream er (row_tables D) p))"

lemma Open_ok:
  assumes "catalog_is s cat slots" "npins s < cap s" "leaf_bound slots b" "length (plan_scans p) * (34 + b) < room s"
  shows "\<exists>r cat' s'. Open er ops p cat s = Some (r, cat', s') \<and> ext (length (plan_scans p) * (34 + b)) s s'
    \<and> catalog_is s' cat' slots \<and> opened er (relations_of slots) p r"
  using assms(1,2,4)
proof (induction p arbitrary: cat s)
  case (PhysicalScan table as rows cursor)
  have "34 + b < room s" using PhysicalScan(3) by simp
  then obtain r cat' s' where S: "ScanTable ops table cat s = Some (r, cat', s')" "ext (34 + b) s s'" "catalog_is s' cat' slots"
    "r = (case relations_of slots table of None \<Rightarrow> Inl (CatalogError ''no such table'') | Some R \<Rightarrow> Inr (map snd (rel_rows R)))"
    using ScanTable_relations [OF PhysicalScan(1,2) assms(3)] by blast
  then show ?case using scan_stream_yields [OF PhysicalScan(1), of table]
    by (cases "relations_of slots table") (simp_all add: step_then_def row_tables_def opened_def raises_def)
next
  case (PhysicalFilter p c)
  obtain r cat' s' where P: "Open er ops p cat s = Some (r, cat', s')" "ext (length (plan_scans p) * (34 + b)) s s'" "catalog_is s' cat' slots"
    "opened er (relations_of slots) p r"
    using PhysicalFilter.IH [OF PhysicalFilter(2,3)] PhysicalFilter(4) by auto
  obtain xs e where st: "plan_stream er (row_tables (relations_of slots)) p = (xs, e)" by force
  show ?case using P st filter_yields [of er _ _ xs e c] bind_stream_error [of "test_row c" xs e]
    by (cases r) (auto simp: step_then_def opened_def raises_def)
next
  case (PhysicalProject p star items)
  obtain r cat' s' where P: "Open er ops p cat s = Some (r, cat', s')" "ext (length (plan_scans p) * (34 + b)) s s'" "catalog_is s' cat' slots"
    "opened er (relations_of slots) p r"
    using PhysicalProject.IH [OF PhysicalProject(2,3)] PhysicalProject(4) by auto
  obtain xs e where st: "plan_stream er (row_tables (relations_of slots)) p = (xs, e)" by force
  show ?case using P st project_yields [of er _ _ xs e star items] bind_stream_error [of "item_row star items" xs e]
    by (cases r) (auto simp: step_then_def opened_def raises_def)
next
  case (PhysicalNestedLoopJoin left right c cur rights k)
  let ?S = "plan_stream er (row_tables (relations_of slots))" and ?n = "34 + b" and ?C = "catalogs_of (relations_of slots) :: 's Catalog set"
  let ?J = "PhysicalNestedLoopJoin left right c cur rights k"
  obtain xs e where st: "?S left = (xs, e)" by force
  obtain rs e' where st': "?S right = (rs, e')" by force
  have room: "length (plan_scans left) * ?n + length (plan_scans right) * ?n < room s"
    using PhysicalNestedLoopJoin(5) by (simp add: add_mult_distrib)
  then obtain r1 cat1 s1 where L: "Open er ops left cat s = Some (r1, cat1, s1)" "ext (length (plan_scans left) * ?n) s s1" "catalog_is s1 cat1 slots"
    "opened er (relations_of slots) left r1"
    using PhysicalNestedLoopJoin.IH(1) [OF PhysicalNestedLoopJoin(3,4)] by auto
  have stream_err: "snd (?S ?J) \<noteq> None" if "e \<noteq> None \<or> e' \<noteq> None"
    using that st st' bind_stream_error [of "pair_rows c rs" xs e] by (cases e') (simp_all add: after_error_def)
  let ?T = "row_tables (relations_of slots)"
  have sub: "raises ?T ?J x" if "raises ?T left x \<or> raises ?T right x" for x using that by (auto simp: raises_def)
  show ?case
  proof (cases r1)
    case (Inl x)
    then have "opened er (relations_of slots) ?J (Inl x)" using L(4) st stream_err sub by (simp add: opened_def)
    then show ?thesis using L Inl ext_mono [OF L(2)] by (auto simp: step_then_def add_mult_distrib)
  next
    case (Inr left1)
    then have yl: "yields er ?C left1 (xs, e)" using L(4) st by (simp add: opened_def)
    have s1: "npins s1 < cap s1" "length (plan_scans right) * ?n < room s1"
      using L(2) ext_npins [OF L(2)] PhysicalNestedLoopJoin(4) room by (simp_all add: ext_def)
    obtain r2 cat2 s2 where R: "Open er ops right cat1 s1 = Some (r2, cat2, s2)" "ext (length (plan_scans right) * ?n) s1 s2"
      "catalog_is s2 cat2 slots" "opened er (relations_of slots) right r2"
      using PhysicalNestedLoopJoin.IH(2) [OF L(3) s1] by blast
    have ex: "ext (length (plan_scans ?J) * ?n) s s2" using ext_trans [OF L(2) R(2)] by (simp add: add_mult_distrib)
    have cat2: "cat2 \<in> ?C" by (rule GetSchema_relations [OF R(3)])
    show ?thesis
    proof (cases r2)
      case (Inl x)
      then have "opened er (relations_of slots) ?J (Inl x)" using R(4) st' stream_err sub by (simp add: opened_def)
      then show ?thesis using L Inr R Inl ex by (auto simp: step_then_def)
    next
      case (Inr right1)
      then have yr: "yields er ?C right1 (rs, e')" using R(4) st' by (simp add: opened_def)
      obtain p' where dr: "drain er cat2 right1 [] = Some (case e' of None \<Rightarrow> Inr ([] @ rs, p') | Some x \<Rightarrow> Inl x)"
        using drain_stream [OF yr cat2, of "[]"] by blast
      show ?thesis
      proof (cases e')
        case (Some x)
        then have "raises ?T right x" using plan_stream_raises [of er ?T right x] st' by simp
        then have "opened er (relations_of slots) ?J (Inl x)" using Some stream_err sub by (simp add: opened_def)
        then show ?thesis using L \<open>r1 = Inr left1\<close> R Inr dr Some ex by (auto simp: step_then_def pure_step_def)
      next
        case None
        consider (err) x where "Next er cat2 left1 = Some (Inl x)" "(xs, e) = ([], Some x)"
          | (ok) cur' left' where "Next er cat2 left1 = Some (Inr (cur', left'))"
            "yields er ?C (PhysicalNestedLoopJoin left' (Close p') c cur' rs 0) (bind_stream (pair_rows c rs) (xs, e))"
          using nested_loop_opens [OF yl cat2, of "Close p'" c rs] by blast
        then show ?thesis
        proof cases
          case (err x)
          then have "raises ?T left x" using plan_stream_raises [of er ?T left x] st by simp
          then have "opened er (relations_of slots) ?J (Inl x)" using err(2) stream_err sub by (simp add: opened_def)
          then show ?thesis using L \<open>r1 = Inr left1\<close> R Inr dr None ex err by (auto simp: step_then_def pure_step_def)
        next
          case (ok cur' left')
          then have "opened er (relations_of slots) ?J (Inr (PhysicalNestedLoopJoin left' (Close p') c cur' rs 0))"
            using st st' None by (simp add: opened_def after_error_def)
          then show ?thesis using L \<open>r1 = Inr left1\<close> R Inr dr None ex ok by (auto simp: step_then_def pure_step_def)
        qed
      qed
    qed
  qed
next
  case (PhysicalHashJoin build probe bt bc pt' pc' m ms k cur)
  let ?S = "plan_stream er (row_tables (relations_of slots))" and ?n = "34 + b" and ?C = "catalogs_of (relations_of slots) :: 's Catalog set"
  let ?J = "PhysicalHashJoin build probe bt bc pt' pc' m ms k cur"
  obtain bs eb where st: "?S build = (bs, eb)" by force
  obtain ps e where st': "?S probe = (ps, e)" by force
  have room: "length (plan_scans build) * ?n + length (plan_scans probe) * ?n < room s"
    using PhysicalHashJoin(5) by (simp add: add_mult_distrib)
  then obtain r1 cat1 s1 where L: "Open er ops build cat s = Some (r1, cat1, s1)" "ext (length (plan_scans build) * ?n) s s1" "catalog_is s1 cat1 slots"
    "opened er (relations_of slots) build r1"
    using PhysicalHashJoin.IH(1) [OF PhysicalHashJoin(3,4)] by auto
  have ex1: "ext (length (plan_scans ?J) * ?n) s s1" using ext_mono [OF L(2)] by (simp add: add_mult_distrib)
  let ?T = "row_tables (relations_of slots)"
  have sub: "raises ?T ?J x" if "raises ?T build x \<or> raises ?T probe x" for x using that by (auto simp: raises_def)
  show ?case
  proof (cases r1)
    case (Inl x)
    then have "key_rows bt bc (bs, eb) \<noteq> Inr m'" for m' using L(4) st by (simp add: opened_def key_rows_Inr)
    then have "opened er (relations_of slots) ?J (Inl x)" using st L(4) Inl sub by (simp add: opened_def split: sum.split)
    then show ?thesis using L Inl ex1 by (auto simp: step_then_def)
  next
    case (Inr build1)
    then have yb: "yields er ?C build1 (bs, eb)" using L(4) st by (simp add: opened_def)
    have cat1: "cat1 \<in> ?C" by (rule GetSchema_relations [OF L(3)])
    obtain p' where dr: "drain_keyed er cat1 bt bc build1 [] = Some (map_sum id (\<lambda>m'. ([] @ m', p')) (key_rows bt bc (bs, eb)))"
      using drain_keyed_stream [OF yb cat1] by blast
    show ?thesis
    proof (cases "key_rows bt bc (bs, eb)")
      case (Inl x)
      then have "snd (?S ?J) = Some x" using st by simp
      then have "opened er (relations_of slots) ?J (Inl x)" using plan_stream_raises [of er ?T ?J x] by (simp add: opened_def)
      then show ?thesis using L \<open>r1 = Inr build1\<close> dr Inl ex1 by (auto simp: step_then_def pure_step_def)
    next
      case (Inr m')
      have s1: "npins s1 < cap s1" "length (plan_scans probe) * ?n < room s1"
        using L(2) ext_npins [OF L(2)] PhysicalHashJoin(4) room by (simp_all add: ext_def)
      obtain r2 cat2 s2 where R: "Open er ops probe cat1 s1 = Some (r2, cat2, s2)" "ext (length (plan_scans probe) * ?n) s1 s2"
        "catalog_is s2 cat2 slots" "opened er (relations_of slots) probe r2"
        using PhysicalHashJoin.IH(2) [OF L(3) s1] by blast
      have ex: "ext (length (plan_scans ?J) * ?n) s s2" using ext_trans [OF L(2) R(2)] by (simp add: add_mult_distrib)
      have cat2: "cat2 \<in> ?C" by (rule GetSchema_relations [OF R(3)])
      have J: "?S ?J = bind_stream (probe_row er pt' pc' m') (ps, e)" using st st' Inr by simp
      have stream_err: "opened er (relations_of slots) ?J (Inl x)" if "e \<noteq> None" "raises ?T probe x" for x
        using that sub J bind_stream_error [of "probe_row er pt' pc' m'" ps e] by (simp add: opened_def)
      show ?thesis
      proof (cases r2)
        case (Inl x)
        then have "opened er (relations_of slots) ?J (Inl x)" using R(4) st' stream_err [of x] by (simp add: opened_def)
        then show ?thesis using L \<open>r1 = Inr build1\<close> dr Inr R Inl ex by (auto simp: step_then_def pure_step_def)
      next
        case (Inr probe1)
        then have yp: "yields er ?C probe1 (ps, e)" using R(4) st' by (simp add: opened_def)
        consider (err) x where "Next er cat2 probe1 = Some (Inl x)" "(ps, e) = ([], Some x)"
          | (ok) cur' probe' where "Next er cat2 probe1 = Some (Inr (cur', probe'))"
            "yields er ?C (PhysicalHashJoin (Close p') probe' bt bc pt' pc' m' [] 0 cur') (bind_stream (probe_row er pt' pc' m') (ps, e))"
          using hash_join_opens [OF yp cat2, of "Close p'" bt bc pt' pc' m'] by blast
        then show ?thesis
        proof cases
          case (err x)
          then have "raises ?T probe x" using plan_stream_raises [of er ?T probe x] st' by simp
          then have "opened er (relations_of slots) ?J (Inl x)" using err(2) stream_err by simp
          then show ?thesis using L \<open>r1 = Inr build1\<close> dr \<open>key_rows bt bc (bs, eb) = Inr m'\<close> R Inr ex err
            by (auto simp: step_then_def pure_step_def)
        next
          case (ok cur' probe')
          then have "opened er (relations_of slots) ?J (Inr (PhysicalHashJoin (Close p') probe' bt bc pt' pc' m' [] 0 cur'))"
            using J by (simp add: opened_def)
          then show ?thesis using L \<open>r1 = Inr build1\<close> dr \<open>key_rows bt bc (bs, eb) = Inr m'\<close> R Inr ex ok
            by (auto simp: step_then_def pure_step_def)
        qed
      qed
    qed
  qed
qed

end

end
