(* ===== verification/Query_Planning.thy ===== *)
theory Query_Planning
  imports Query_Execution
begin

text \<open>
  What the planner does with a catalog: estimates come from the row counts of the catalog page, and
  the greedy loop joins every table once, always finding one whose condition is about tables
  joined already when every condition is about its own table and those before it in the query.
\<close>

fun plan_estimate :: "relations \<Rightarrow> PhysicalPlan \<Rightarrow> u64" where
  "plan_estimate D (PhysicalScan table alias rows cursor) = (case D table of None \<Rightarrow> 0 | Some R \<Rightarrow> rel_count R)"
| "plan_estimate D (PhysicalFilter input c) = plan_estimate D input"
| "plan_estimate D (PhysicalNestedLoopJoin left right c cur rights k) = plan_estimate D left * plan_estimate D right"
| "plan_estimate D (PhysicalHashJoin build probe btab bcol ptab pcol m ms k cur) = plan_estimate D build + plan_estimate D probe"
| "plan_estimate D (PhysicalProject input star items) = plan_estimate D input"

text \<open>Nodes that can be planned at all: their tables exist, and all but the first have a condition.\<close>
definition plannable :: "relations \<Rightarrow> TableNode list \<Rightarrow> bool" where
  "plannable D nodes \<longleftrightarrow> (\<forall>nd \<in> set nodes. D (tn_table nd) \<noteq> None)
     \<and> (\<forall>i < length nodes. 0 < i \<longrightarrow> join_condition (nodes ! i) \<noteq> None)"

lemma plan_scans_join:
  "plan_scans (choose_join p l nd r c) = plan_scans p @ [tn_table nd] \<or> plan_scans (choose_join p l nd r c) = tn_table nd # plan_scans p"
  by (auto simp: choose_join_def Let_def new_scan_def new_hash_join_def new_nested_loop_join_def split: option.split prod.split)

lemma connected_iff:
  "connected nd joined = Inr b \<longleftrightarrow> (\<exists>c. join_condition nd = Some c \<and> b = (expr_tables c - {tn_alias nd} \<subseteq> joined))"
  by (auto simp: connected_def expr_tables_def split: option.split)

context page_store
begin

section \<open>Estimates\<close>

lemma EstimatedRowCount_relations:
  assumes "catalog_is s cat slots" "npins s < cap s" "0 < room s"
  shows "\<exists>r s'. EstimatedRowCount ops name cat s = (r, s') \<and> ext 1 s s' \<and> catalog_is s' cat slots
    \<and> r = (case relations_of slots name of None \<Rightarrow> Inl (CatalogError ''no such table'') | Some R \<Rightarrow> Inr (rel_count R))"
proof (cases "slot_of slots name")
  case None
  then have "EstimatedRowCount ops name cat s = (Inl (CatalogError ''no such table''), s)"
    using FindTableIndex_slots [OF assms(1), of name] by (simp add: EstimatedRowCount_def)
  then show ?thesis using None relations_slot(1) [OF assms(1), of name] assms(1) ext_refl [OF catalog_isD(1) [OF assms(1)]] by simp
next
  case (Some i)
  then obtain sch T cnt where R: "slots ! i = Some (sch, T, cnt)"
    "relations_of slots name = Some \<lparr>rel_schema = sch, rel_rows = decoded sch (entries T), rel_count = cnt\<rparr>"
    using relations_slot(2) [OF assms(1), of name i] by blast
  then show ?thesis using EstimatedRowCount_ok [OF assms(1) Some R(1) assms(2,3)] by auto
qed

lemma ext_keeps: "ext k s s' \<Longrightarrow> npins s < cap s \<Longrightarrow> k + n < room s \<Longrightarrow> npins s' < cap s' \<and> n < room s'"
  using ext_npins [of k s s'] by (auto simp: ext_def)

lemma EstimatedRows_ok:
  assumes "catalog_is s cat slots" "npins s < cap s" "length (plan_scans p) < room s" "\<forall>t \<in> set (plan_scans p). relations_of slots t \<noteq> None"
  shows "\<exists>s'. EstimatedRows ops p cat s = (Inr (plan_estimate (relations_of slots) p), s') \<and> ext (length (plan_scans p)) s s' \<and> catalog_is s' cat slots"
  using assms
proof (induction p arbitrary: s)
  case (PhysicalScan table as rows cursor)
  have "0 < room s" using PhysicalScan(3) by simp
  then show ?case using EstimatedRowCount_relations [OF PhysicalScan(1,2), of table] PhysicalScan(4)
    by (auto split: option.splits)
next
  case (PhysicalNestedLoopJoin left right c cur rights k)
  obtain s1 where s1: "EstimatedRows ops left cat s = (Inr (plan_estimate (relations_of slots) left), s1)"
    "ext (length (plan_scans left)) s s1" "catalog_is s1 cat slots"
    using PhysicalNestedLoopJoin.IH(1) [OF PhysicalNestedLoopJoin(3,4)] PhysicalNestedLoopJoin(5,6) by auto
  obtain s2 where s2: "EstimatedRows ops right cat s1 = (Inr (plan_estimate (relations_of slots) right), s2)"
    "ext (length (plan_scans right)) s1 s2" "catalog_is s2 cat slots"
    using PhysicalNestedLoopJoin.IH(2) [OF s1(3)] ext_keeps [OF s1(2) PhysicalNestedLoopJoin(4)] PhysicalNestedLoopJoin(5,6) by auto
  then show ?case using s1(1) ext_trans [OF s1(2) s2(2)] by simp
next
  case (PhysicalHashJoin build probe bt bc pt' pc' m ms k cur)
  obtain s1 where s1: "EstimatedRows ops build cat s = (Inr (plan_estimate (relations_of slots) build), s1)"
    "ext (length (plan_scans build)) s s1" "catalog_is s1 cat slots"
    using PhysicalHashJoin.IH(1) [OF PhysicalHashJoin(3,4)] PhysicalHashJoin(5,6) by auto
  obtain s2 where s2: "EstimatedRows ops probe cat s1 = (Inr (plan_estimate (relations_of slots) probe), s2)"
    "ext (length (plan_scans probe)) s1 s2" "catalog_is s2 cat slots"
    using PhysicalHashJoin.IH(2) [OF s1(3)] ext_keeps [OF s1(2) PhysicalHashJoin(4)] PhysicalHashJoin(5,6) by auto
  then show ?case using s1(1) ext_trans [OF s1(2) s2(2)] by simp
qed simp_all

section \<open>The next table\<close>

lemma pick_loop_ok:
  assumes "catalog_is s cat slots" "npins s < cap s" "length is < room s" "plannable (relations_of slots) nodes" "set is \<subseteq> {0<..<length nodes}"
  shows "\<exists>b' s'. pick_loop ops nodes consumed joined is b rows cat s = (Inr b', s') \<and> ext (length is) s s' \<and> catalog_is s' cat slots
    \<and> (b' = b \<or> (\<exists>i \<in> set is. b' = int i \<and> \<not> consumed ! i \<and> connected (nodes ! i) joined = Inr True))
    \<and> (b' < 0 \<longrightarrow> b < 0 \<and> (\<forall>i \<in> set is. \<not> consumed ! i \<longrightarrow> connected (nodes ! i) joined = Inr False))"
  using assms(1-3,5)
proof (induction "is" arbitrary: b rows s)
  case Nil
  then show ?case using ext_refl [OF catalog_isD(1) [OF Nil(1)]] by simp
next
  case (Cons i "is")
  have rest: "length is < room s" "set is \<subseteq> {0<..<length nodes}" using Cons(4,5) by simp_all
  have i: "0 < i" "i < length nodes" using Cons(5) by simp_all
  obtain c where c: "join_condition (nodes ! i) = Some c" "relations_of slots (tn_table (nodes ! i)) \<noteq> None"
    using assms(4) i by (auto simp: plannable_def)
  let ?con = "expr_tables c - {tn_alias (nodes ! i)} \<subseteq> joined"
  have con: "connected (nodes ! i) joined = Inr ?con" using c(1) connected_iff by blast
  have skip: ?case if "consumed ! i \<or> \<not> ?con"
  proof -
    obtain b' s' where IH: "pick_loop ops nodes consumed joined is b rows cat s = (Inr b', s')" "ext (length is) s s'" "catalog_is s' cat slots"
      "b' = b \<or> (\<exists>i \<in> set is. b' = int i \<and> \<not> consumed ! i \<and> connected (nodes ! i) joined = Inr True)"
      "b' < 0 \<longrightarrow> b < 0 \<and> (\<forall>i \<in> set is. \<not> consumed ! i \<longrightarrow> connected (nodes ! i) joined = Inr False)"
      using Cons.IH [OF Cons(2,3) rest] by blast
    have "pick_loop ops nodes consumed joined (i # is) b rows cat s = (Inr b', s')" using that con IH(1) by auto
    then show ?thesis using IH that con ext_mono [OF IH(2)] by auto
  qed
  show ?case
  proof (cases "consumed ! i \<or> \<not> ?con")
    case False
    have "0 < room s" using Cons(4) by simp
    obtain R where "relations_of slots (tn_table (nodes ! i)) = Some R" using c(2) by blast
    with \<open>0 < room s\<close> obtain s1 where E: "EstimatedRowCount ops (tn_table (nodes ! i)) cat s = (Inr (rel_count R), s1)" "ext 1 s s1" "catalog_is s1 cat slots"
      using EstimatedRowCount_relations [OF Cons(2,3), of "tn_table (nodes ! i)"] by auto
    have s1: "npins s1 < cap s1" "length is < room s1" using ext_keeps [OF E(2) Cons(3), of "length is"] Cons(4) by auto
    let ?better = "b < 0 \<or> rel_count R < rows"
    let ?b = "if ?better then int i else b" and ?rows = "if ?better then rel_count R else rows"
    obtain b' s' where IH: "pick_loop ops nodes consumed joined is ?b ?rows cat s1 = (Inr b', s')" "ext (length is) s1 s'" "catalog_is s' cat slots"
      "b' = ?b \<or> (\<exists>i \<in> set is. b' = int i \<and> \<not> consumed ! i \<and> connected (nodes ! i) joined = Inr True)"
      "b' < 0 \<longrightarrow> ?b < 0 \<and> (\<forall>i \<in> set is. \<not> consumed ! i \<longrightarrow> connected (nodes ! i) joined = Inr False)"
      using Cons.IH [OF E(3) s1 rest(2)] by blast
    have "pick_loop ops nodes consumed joined (i # is) b rows cat s = (Inr b', s')" using False con E(1) IH(1) by (auto split: if_splits)
    moreover have "ext (length (i # is)) s s'" using ext_trans [OF E(2) IH(2)] by simp
    moreover have "\<not> ?b < 0 \<or> b < 0 \<and> \<not> ?better" by auto
    ultimately show ?thesis using IH(3-5) False con by (auto split: if_splits)
  qed (rule skip)
qed

lemma pick_next_ok:
  assumes "catalog_is s cat slots" "npins s < cap s" "length nodes \<le> room s" "plannable (relations_of slots) nodes"
    and "0 < j" "j < length nodes" "\<not> consumed ! j"
  shows "\<exists>i s'. pick_next ops nodes consumed joined cat s = (Inr i, s') \<and> ext (length nodes) s s' \<and> catalog_is s' cat slots
    \<and> 0 < i \<and> i < length nodes \<and> \<not> consumed ! i
    \<and> (connected (nodes ! j) joined = Inr True \<longrightarrow> connected (nodes ! i) joined = Inr True)"
proof -
  let ?is = "[1..<length nodes]"
  have "length ?is < room s" "set ?is \<subseteq> {0<..<length nodes}" using assms(3,6) by auto
  then obtain b s' where L: "pick_loop ops nodes consumed joined ?is (- 1) 0 cat s = (Inr b, s')" "ext (length ?is) s s'" "catalog_is s' cat slots"
    "b = - 1 \<or> (\<exists>i \<in> set ?is. b = int i \<and> \<not> consumed ! i \<and> connected (nodes ! i) joined = Inr True)"
    "b < 0 \<longrightarrow> (\<forall>i \<in> set ?is. \<not> consumed ! i \<longrightarrow> connected (nodes ! i) joined = Inr False)"
    using pick_loop_ok [OF assms(1,2) _ assms(4)] by blast
  have ex: "ext (length nodes) s s'" using ext_mono [OF L(2)] by simp
  show ?thesis
  proof (cases "b < 0")
    case True
    have "index_where (\<lambda>i. 0 < i \<and> \<not> consumed ! i) [0..<length nodes] \<noteq> None"
      using assms(5-7) by (auto simp: index_where_None)
    then obtain i where i: "index_where (\<lambda>i. 0 < i \<and> \<not> consumed ! i) [0..<length nodes] = Some i" by blast
    then have "0 < i" "i < length nodes" "\<not> consumed ! i" by (auto simp: index_where_Some)
    moreover have "connected (nodes ! j) joined \<noteq> Inr True" using L(5) True assms(5-7) by auto
    ultimately show ?thesis using L(1,3) True i ex by (simp add: pick_next_def)
  next
    case False
    then show ?thesis using L ex by (auto simp: pick_next_def)
  qed
qed

section \<open>All tables\<close>

lemma join_tables_ok:
  assumes "catalog_is s cat slots" "npins s < cap s" "plannable (relations_of slots) nodes"
    and "remaining * (2 * length nodes + 2) < room s"
    and "distinct lay" "set lay = {i. i < length nodes \<and> consumed ! i}" "0 \<in> set lay" "length consumed = length nodes"
    and "remaining + length lay = length nodes" "joined = (\<lambda>j. tn_alias (nodes ! j)) ` set lay"
    and "length (plan_scans p) = length lay" "set (plan_scans p) \<subseteq> tn_table ` set nodes"
    and "\<And>sc. (sc \<Longrightarrow> joinable (row_tables (relations_of slots)) nodes) \<Longrightarrow> \<exists>lay'. mset lay' = mset lay \<and> join_plan nodes sc lay' p"
  shows "\<exists>p' s'. join_tables ops nodes remaining p joined consumed cat s = (Inr p', s')
    \<and> ext (remaining * (2 * length nodes + 2)) s s' \<and> catalog_is s' cat slots
    \<and> length (plan_scans p') = length nodes \<and> set (plan_scans p') \<subseteq> tn_table ` set nodes
    \<and> (\<forall>sc. (sc \<longrightarrow> joinable (row_tables (relations_of slots)) nodes) \<longrightarrow> (\<exists>lay'. mset lay' = mset [0..<length nodes] \<and> join_plan nodes sc lay' p'))"
  using assms(1,2,4-)
proof (induction remaining arbitrary: lay p joined consumed s)
  case 0
  have "set lay \<subseteq> {0..<length nodes}" unfolding 0(5) by (intro subsetI) simp
  moreover have "card (set lay) = card {0..<length nodes}" using 0(8) distinct_card [OF 0(4)] by simp
  ultimately have "set lay = {0..<length nodes}" by (intro card_subset_eq) simp_all
  then have "mset lay = mset [0..<length nodes]" using 0(4)
    by (metis distinct_upt set_eq_iff_mset_eq_distinct set_upt)
  then have "\<exists>lay'. mset lay' = mset [0..<length nodes] \<and> join_plan nodes sc lay' p"
    if "sc \<longrightarrow> joinable (row_tables (relations_of slots)) nodes" for sc
    using 0(12) [of sc] that by metis
  then show ?case using 0(1,8,10,11) ext_refl [OF catalog_isD(1) [OF 0(1)], of 0]
    by (intro exI [of _ p] exI [of _ s]) simp
next
  case (Suc remaining)
  note cat = Suc(2) and np = Suc(3) and room = Suc(4) and lay = Suc(5,6,7) and len = Suc(8,9) and joined = Suc(10) and p = Suc(11,12,13)
  let ?n = "length nodes" and ?A = "\<lambda>j. tn_alias (nodes ! j)"
  have "\<exists>j. j < ?n \<and> \<not> consumed ! j"
  proof (rule ccontr)
    assume "\<nexists>j. j < ?n \<and> \<not> consumed ! j"
    then have "set lay = {0..<?n}" using lay(2) by auto
    then have "length lay = ?n" using distinct_card [OF lay(1)] by simp
    then show False using len(2) by simp
  qed
  then obtain j where j: "j < ?n" "\<not> consumed ! j" "\<And>i. i < j \<Longrightarrow> consumed ! i"
    using exists_least_iff [of "\<lambda>j. j < ?n \<and> \<not> consumed ! j"] by (metis order_less_trans)
  have j0: "0 < j" using j(2) lay(2,3) by (cases j) auto
  have r1: "?n \<le> room s" using room by simp
  obtain i s1 where P: "pick_next ops nodes consumed joined cat s = (Inr i, s1)" "ext ?n s s1" "catalog_is s1 cat slots"
    "0 < i" "i < ?n" "\<not> consumed ! i" "connected (nodes ! j) joined = Inr True \<longrightarrow> connected (nodes ! i) joined = Inr True"
    using pick_next_ok [OF cat np r1 assms(3) j0 j(1,2), of joined] by blast
  obtain c R where c: "join_condition (nodes ! i) = Some c" and R: "relations_of slots (tn_table (nodes ! i)) = Some R"
    using assms(3) P(4,5) unfolding plannable_def by (metis nth_mem option.exhaust)
  have s1: "npins s1 < cap s1" "remaining * (2 * ?n + 2) + ?n + 2 < room s1"
    using ext_keeps [OF P(2) np, of "remaining * (2 * ?n + 2) + ?n + 2"] room by simp_all
  then have "0 < room s1" by simp
  then obtain s2 where E: "EstimatedRowCount ops (tn_table (nodes ! i)) cat s1 = (Inr (rel_count R), s2)" "ext 1 s1 s2" "catalog_is s2 cat slots"
    using EstimatedRowCount_relations [OF P(3) s1(1), of "tn_table (nodes ! i)"] R by auto
  have s2: "npins s2 < cap s2" "remaining * (2 * ?n + 2) + ?n + 1 < room s2"
    using ext_keeps [OF E(2) s1(1), of "remaining * (2 * ?n + 2) + ?n + 1"] s1(2) by simp_all
  have scans: "length (plan_scans p) < room s2" "\<forall>t \<in> set (plan_scans p). relations_of slots t \<noteq> None"
    using s2(2) p(1,2) len(2) assms(3) unfolding plannable_def by auto
  obtain s3 where F: "EstimatedRows ops p cat s2 = (Inr (plan_estimate (relations_of slots) p), s3)" "ext (length (plan_scans p)) s2 s3" "catalog_is s3 cat slots"
    using EstimatedRows_ok [OF E(3) s2(1) scans] by blast
  have "ext ?n s2 s3" using ext_mono [OF F(2)] p(1) len(2) by simp
  note ex3 = ext_trans [OF ext_trans [OF P(2) E(2)] this]
  have s3: "npins s3 < cap s3" "remaining * (2 * ?n + 2) < room s3"
    using ext_keeps [OF \<open>ext ?n s2 s3\<close> s2(1), of "remaining * (2 * ?n + 2)"] s2(2) by simp_all
  let ?p = "choose_join p (plan_estimate (relations_of slots) p) (nodes ! i) (rel_count R) c"
  have i: "i \<notin> set lay" using P(6) lay(2) by simp
  have lay': "distinct (lay @ [i])" "set (lay @ [i]) = {k. k < ?n \<and> consumed[i := True] ! k}" "0 \<in> set (lay @ [i])"
    "length (consumed[i := True]) = ?n" "remaining + length (lay @ [i]) = ?n"
    "insert (?A i) joined = ?A ` set (lay @ [i])"
    using lay i P(5) len joined by (auto simp: nth_list_update)
  have "plan_scans ?p = plan_scans p @ [tn_table (nodes ! i)] \<or> plan_scans ?p = tn_table (nodes ! i) # plan_scans p"
    by (rule plan_scans_join)
  then have p': "length (plan_scans ?p) = length (lay @ [i])" "set (plan_scans ?p) \<subseteq> tn_table ` set nodes"
    using p(1,2) P(5) by (elim disjE; simp)+
  have plan: "\<exists>lay'. mset lay' = mset (lay @ [i]) \<and> join_plan nodes sc lay' ?p" if J: "sc \<Longrightarrow> joinable (row_tables (relations_of slots)) nodes" for sc
  proof -
    obtain lay0 where lay0: "mset lay0 = mset lay" "join_plan nodes sc lay0 p" using p(3) [OF J] by blast
    have s0: "set lay0 = set lay" using lay0(1) by (rule mset_eq_setD)
    have refs: "expr_tables c \<subseteq> ?A ` insert i (set lay0)" if sc
    proof -
      obtain cj where cj: "join_condition (nodes ! j) = Some cj" using assms(3) j(1) j0 by (auto simp: plannable_def)
      have own: "expr_tables cj \<subseteq> ?A ` {..j}" using joinableD [OF J [OF that] j(1) cj] by simp
      have "expr_tables cj - {?A j} \<subseteq> joined"
      proof
        fix t assume t: "t \<in> expr_tables cj - {?A j}"
        then obtain k where k: "k \<le> j" "t = ?A k" using own by blast
        then have "k < j" using t by (cases "k = j") simp_all
        then have "k \<in> set lay" unfolding lay(2) using j(1,3) by simp
        then show "t \<in> joined" unfolding joined using k(2) by blast
      qed
      then have "connected (nodes ! j) joined = Inr True" using cj connected_iff by blast
      then have "expr_tables c - {?A i} \<subseteq> joined" using P(7) c connected_iff by auto
      then show ?thesis unfolding joined s0 by auto
    qed
    obtain lay1 where "mset lay1 = add_mset i (mset lay0)" "join_plan nodes sc lay1 ?p"
      using choose_join_plan [OF lay0(2) P(5) _ c refs] i s0 by blast
    then show ?thesis using lay0(1) by (intro exI [of _ lay1]) simp
  qed
  obtain p1 s4 where IH: "join_tables ops nodes remaining ?p (insert (?A i) joined) (consumed[i := True]) cat s3 = (Inr p1, s4)"
    "ext (remaining * (2 * ?n + 2)) s3 s4" "catalog_is s4 cat slots" "length (plan_scans p1) = ?n" "set (plan_scans p1) \<subseteq> tn_table ` set nodes"
    "\<forall>sc. (sc \<longrightarrow> joinable (row_tables (relations_of slots)) nodes) \<longrightarrow> (\<exists>lay'. mset lay' = mset [0..<?n] \<and> join_plan nodes sc lay' p1)"
    using Suc.IH [OF F(3) s3 lay' p' plan] by blast
  have "join_tables ops nodes (Suc remaining) p joined consumed cat s = (Inr p1, s4)"
    using P(1) E(1) F(1) c IH(1) by simp
  moreover have "ext (Suc remaining * (2 * ?n + 2)) s s4" using ext_mono [OF ext_trans [OF ex3 IH(2)]] by simp
  ultimately show ?case using IH(3-6) by blast
qed

end

end
