(* ===== verification/Query_Types.thy ===== *)
theory Query_Types
  imports Join_Plans
begin

text \<open>
  Types of expressions over the tables of a query. A condition whose comparisons are between values
  of one type, and whose columns resolve, evaluates on every row of the tables; a plan for a query
  of such conditions never throws. (The engine has no such check: an ill-typed comparison throws when
  a row reaches it.)
\<close>

section \<open>Types\<close>

definition columns_named :: "string \<Rightarrow> AliasMap \<Rightarrow> ColumnDef list" where
  "columns_named c A = concat (map (\<lambda>(a, sch). filter (\<lambda>cd. cd_name cd = c) (columns sch)) A)"

definition column_type :: "AliasMap \<Rightarrow> string option \<Rightarrow> string \<Rightarrow> ColumnType option" where
  "column_type A table c =
     (case table of
        Some t \<Rightarrow>
          (case map_of A t of
             None \<Rightarrow> None
           | Some sch \<Rightarrow> (case filter (\<lambda>cd. cd_name cd = c) (columns sch) of [] \<Rightarrow> None | cd # _ \<Rightarrow> Some (cd_type cd)))
      | None \<Rightarrow> (case columns_named c A of [cd] \<Rightarrow> Some (cd_type cd) | _ \<Rightarrow> None))"

text \<open>The qualifiers of an expression's columns.\<close>
fun qualifiers :: "Expr \<Rightarrow> string option set" where
  "qualifiers (ColumnRefExpr t c) = {t}"
| "qualifiers (LiteralExpr l) = {}"
| "qualifiers (ComparisonExpr op l r) = qualifiers l \<union> qualifiers r"
| "qualifiers (AndExpr l r) = qualifiers l \<union> qualifiers r"
| "qualifiers (OrExpr l r) = qualifiers l \<union> qualifiers r"

lemma qualifiers_qualified: "fully_qualified e \<Longrightarrow> qualifiers e = Some ` expr_tables e"
  by (induction e) auto

text \<open>Columns with these qualifiers resolve to values of their types.\<close>
definition resolves :: "AliasMap \<Rightarrow> string option set \<Rightarrow> ExecRow \<Rightarrow> bool" where
  "resolves A Q row \<longleftrightarrow> (\<forall>t \<in> Q. \<forall>c ty. column_type A t c = Some ty \<longrightarrow> (\<exists>v. Find row t c = Inr v \<and> value_type v = ty))"

lemma value_expr_value:
  assumes "resolves A Q row" "qualifiers e \<subseteq> Q" "value_expr_type (column_type A) e = Some ty"
  shows "\<exists>v. EvalValue e row = Inr v \<and> value_type v = ty"
  using assms by (cases e) (simp_all add: EvalValue_def resolves_def)

lemma well_typed_evaluates:
  assumes "resolves A Q row" "qualifiers e \<subseteq> Q" "well_typed (column_type A) e"
  shows "\<exists>b. EvalBool e row = Inr b"
  using assms(2-)
proof (induction e)
  case (ComparisonExpr op l r)
  have eq: "value_expr_type (column_type A) l \<noteq> None" "value_expr_type (column_type A) l = value_expr_type (column_type A) r" using ComparisonExpr.prems(2) unfolding well_typed.simps by blast+
  then obtain ty where l: "value_expr_type (column_type A) l = Some ty" by blast
  have r: "value_expr_type (column_type A) r = Some ty" using eq(2) l by metis
  note ty = l r
  obtain v w where vw: "EvalValue l row = Inr v" "value_type v = ty" "EvalValue r row = Inr w" "value_type w = ty"
    using value_expr_value [OF assms(1) _ ty(1)] value_expr_value [OF assms(1) _ ty(2)] ComparisonExpr.prems by auto
  then obtain n where "CompareValues v w = Inr n" using CompareValues_types by metis
  then show ?case using vw by simp
next
  case (AndExpr l r)
  then obtain a b where "EvalBool l row = Inr a" "EvalBool r row = Inr b" by auto
  then show ?case by (cases a) auto
next
  case (OrExpr l r)
  then obtain a b where "EvalBool l row = Inr a" "EvalBool r row = Inr b" by auto
  then show ?case by (cases a) auto
qed simp_all

section \<open>Rows of a query\<close>

definition typed_row :: "TableSchema \<Rightarrow> Value list \<Rightarrow> bool" where
  "typed_row sch vs \<longleftrightarrow> map value_type vs = map cd_type (columns sch)"

definition typed_tables :: "tables \<Rightarrow> bool" where
  "typed_tables T \<longleftrightarrow> (\<forall>name sch rows. T name = Some (sch, rows) \<longrightarrow> (\<forall>vs \<in> set rows. typed_row sch vs))"

definition node_aliases :: "tables \<Rightarrow> TableNode list \<Rightarrow> AliasMap" where
  "node_aliases T nodes = map (\<lambda>nd. (tn_alias nd, fst (the (T (tn_table nd))))) nodes"

text \<open>The fields of a name in a table's row stand for the columns of that name.\<close>

lemma filter_nth: "filter P xs = map ((!) xs) (filter (\<lambda>i. P (xs ! i)) [0..<length xs])"
  using filter_map [of P "(!) xs" "[0..<length xs]"] by (simp add: map_nth comp_def)

lemma scan_row_named:
  assumes "typed_row sch vs"
  shows "map (\<lambda>x. value_type (fd_value x)) (filter (\<lambda>x. fd_column x = c) (scan_row a sch vs))
    = map cd_type (filter (\<lambda>cd. cd_name cd = c) (columns sch))"
proof -
  have len: "length vs = length (columns sch)" using assms unfolding typed_row_def by (metis length_map)
  have ty: "value_type (vs ! i) = cd_type (columns sch ! i)" if "i < length (columns sch)" for i
    using assms that len unfolding typed_row_def by (metis nth_map)
  have "map cd_type (filter (\<lambda>cd. cd_name cd = c) (columns sch))
      = map (\<lambda>i. cd_type (columns sch ! i)) (filter (\<lambda>i. cd_name (columns sch ! i) = c) [0..<length (columns sch)])"
    by (subst filter_nth) simp
  also have "\<dots> = map (\<lambda>i. value_type (vs ! i)) (filter (\<lambda>i. cd_name (columns sch ! i) = c) [0..<length (columns sch)])"
    by (rule map_cong) (auto simp: ty)
  finally show ?thesis by (simp add: scan_row_def filter_map comp_def)
qed

lemma query_row_block:
  assumes "joins_tables T nodes" "typed_tables T" "k < length nodes" "r \<in> set (node_rows T (nodes ! k))"
  shows "\<exists>sch vs. r = scan_row (tn_alias (nodes ! k)) sch vs \<and> typed_row sch vs \<and> node_aliases T nodes ! k = (tn_alias (nodes ! k), sch)"
proof -
  obtain sch rows where T: "T (tn_table (nodes ! k)) = Some (sch, rows)" using joins_tablesD(1) [OF assms(1,3)] by auto
  then obtain vs where "vs \<in> set rows" "r = scan_row (tn_alias (nodes ! k)) sch vs" using assms(4) by (auto simp: node_rows_def)
  then show ?thesis using assms(2,3) T by (auto simp: typed_tables_def node_aliases_def)
qed

lemma aliases_distinct: "joins_tables T nodes \<Longrightarrow> distinct (map fst (node_aliases T nodes))"
  by (simp add: joins_tables_def node_aliases_def comp_def)

lemma block_resolves:
  assumes "typed_row sch vs" "filter (\<lambda>cd. cd_name cd = c) (columns sch) = cd # cds"
  shows "\<exists>v. find_qualified a c (scan_row a sch vs) = Inr v \<and> value_type v = cd_type cd"
proof -
  have "filter (\<lambda>x. fd_table x = a \<and> fd_column x = c) (scan_row a sch vs) = filter (\<lambda>x. fd_column x = c) (scan_row a sch vs)"
    by (rule filter_cong) (auto simp: scan_row_def)
  moreover obtain x xs where "filter (\<lambda>x. fd_column x = c) (scan_row a sch vs) = x # xs" "value_type (fd_value x) = cd_type cd"
    using scan_row_named [OF assms(1), of c a] assms(2) by (auto simp: map_eq_Cons_conv)
  ultimately show ?thesis by (simp add: find_qualified_filter)
qed

lemma qualified_resolves:
  assumes "joins_tables T nodes" "typed_tables T" "query_row T nodes lay f"
  shows "resolves (node_aliases T nodes) (Some ` (\<lambda>k. tn_alias (nodes ! k)) ` set lay) (joined_row lay f)"
  unfolding resolves_def
proof (intro ballI allI impI)
  fix t c ty
  assume "t \<in> Some ` (\<lambda>k. tn_alias (nodes ! k)) ` set lay" and ty: "column_type (node_aliases T nodes) t c = Some ty"
  then obtain k where k: "k \<in> set lay" "t = Some (tn_alias (nodes ! k))" by auto
  have kl: "k < length nodes" "f k \<in> set (node_rows T (nodes ! k))" using assms(3) k(1) by (auto simp: query_row_def)
  obtain sch vs where r: "f k = scan_row (tn_alias (nodes ! k)) sch vs" "typed_row sch vs" "node_aliases T nodes ! k = (tn_alias (nodes ! k), sch)"
    using query_row_block [OF assms(1,2) kl] by blast
  have "(tn_alias (nodes ! k), sch) \<in> set (node_aliases T nodes)"
    using r(3) kl(1) by (metis length_map node_aliases_def nth_mem)
  then have "map_of (node_aliases T nodes) (tn_alias (nodes ! k)) = Some sch" using aliases_distinct [OF assms(1)] by simp
  then obtain cd cds where cd: "filter (\<lambda>cd. cd_name cd = c) (columns sch) = cd # cds" "ty = cd_type cd"
    using ty k(2) by (auto simp: column_type_def split: list.splits)
  have "Find (joined_row lay f) t c = find_qualified (tn_alias (nodes ! k)) c (f k)"
    using find_qualified_joined(1) [OF query_row_blocks [OF assms(1,3)] k(1), of c] k(2) by (simp add: Find_def)
  then show "\<exists>v. Find (joined_row lay f) t c = Inr v \<and> value_type v = ty"
    using block_resolves [OF r(2) cd(1)] r(1) cd(2) by simp
qed

text \<open>The fields of a name in a row of all tables.\<close>

lemma query_row_named:
  assumes "joins_tables T nodes" "typed_tables T" "k < length nodes" "r \<in> set (node_rows T (nodes ! k))"
  shows "map (\<lambda>x. value_type (fd_value x)) (named c r) = map cd_type (filter (\<lambda>cd. cd_name cd = c) (columns (snd (node_aliases T nodes ! k))))"
proof -
  from query_row_block [OF assms] obtain sch vs where "r = scan_row (tn_alias (nodes ! k)) sch vs" "typed_row sch vs"
    "node_aliases T nodes ! k = (tn_alias (nodes ! k), sch)" by blast
  then show ?thesis using scan_row_named [of sch vs c "tn_alias (nodes ! k)"] by (simp add: named_def)
qed

lemma full_row_named:
  assumes "joins_tables T nodes" "typed_tables T" "query_row T nodes [0..<length nodes] f"
  shows "map (\<lambda>x. value_type (fd_value x)) (named c (joined_row [0..<length nodes] f)) = map cd_type (columns_named c (node_aliases T nodes))"
proof -
  let ?named = "\<lambda>r. map (\<lambda>x. value_type (fd_value x)) (named c r)"
  have "?named (f k) = map cd_type (filter (\<lambda>cd. cd_name cd = c) (columns (snd (node_aliases T nodes ! k))))" if "k < length nodes" for k
    by (rule query_row_named [OF assms(1,2) that]) (use assms(3) that in \<open>auto simp: query_row_def\<close>)
  then have "concat (map (\<lambda>k. ?named (f k)) [0..<length nodes])
      = concat (map (\<lambda>k. map cd_type (filter (\<lambda>cd. cd_name cd = c) (columns (snd (node_aliases T nodes ! k))))) [0..<length nodes])"
    by (intro arg_cong [where f = concat] map_cong) simp_all
  also have "\<dots> = concat (map (\<lambda>p. map cd_type (filter (\<lambda>cd. cd_name cd = c) (columns (snd p)))) (map ((!) (node_aliases T nodes)) [0..<length nodes]))"
    by (simp add: comp_def)
  also have "map ((!) (node_aliases T nodes)) [0..<length nodes] = node_aliases T nodes"
    using map_nth [of "node_aliases T nodes"] by (simp add: node_aliases_def)
  also have "concat (map (\<lambda>p. map cd_type (filter (\<lambda>cd. cd_name cd = c) (columns (snd p)))) (node_aliases T nodes))
      = map cd_type (columns_named c (node_aliases T nodes))"
    by (simp add: columns_named_def map_concat comp_def case_prod_beta)
  finally show ?thesis by (simp add: named_def joined_row_def filter_concat map_concat comp_def)
qed

lemma unqualified_resolves:
  assumes "joins_tables T nodes" "typed_tables T" "query_row T nodes [0..<length nodes] f"
    and "column_type (node_aliases T nodes) None c = Some ty"
  shows "\<exists>v. Find (joined_row [0..<length nodes] f) None c = Inr v \<and> value_type v = ty"
proof -
  obtain cd where "columns_named c (node_aliases T nodes) = [cd]" "ty = cd_type cd"
    using assms(4) by (auto simp: column_type_def split: list.splits)
  then obtain x where "named c (joined_row [0..<length nodes] f) = [x]" "value_type (fd_value x) = ty"
    using full_row_named [OF assms(1-3), of c] by auto
  then show ?thesis by (simp add: Find_def find_unqualified_named)
qed

lemma full_row_resolves:
  assumes "joins_tables T nodes" "typed_tables T" "query_row T nodes lay f" "mset lay = mset [0..<length nodes]" "column_type (node_aliases T nodes) t c = Some ty"
  shows "\<exists>v. Find (joined_row lay f) t c = Inr v \<and> value_type v = ty"
proof (cases t)
  case None
  have "query_row T nodes [0..<length nodes] f" using assms(3,4) mset_eq_setD [OF assms(4)] by (simp add: query_row_def)
  moreover have "Find (joined_row lay f) t c = Find (joined_row [0..<length nodes] f) t c"
    by (rule Find_perm [OF query_row_blocks [OF assms(1,3)] assms(4)])
  ultimately show ?thesis using unqualified_resolves [OF assms(1,2)] assms(5) None by simp
next
  case (Some a)
  have "map_of (node_aliases T nodes) a \<noteq> None" using assms(5) Some by (auto simp: column_type_def split: option.splits)
  then have "a \<in> fst ` set (node_aliases T nodes)" by (simp add: map_of_eq_None_iff)
  then obtain k where "k < length nodes" "a = tn_alias (nodes ! k)" by (auto simp: node_aliases_def in_set_conv_nth)
  then have "t \<in> Some ` (\<lambda>k. tn_alias (nodes ! k)) ` set lay" using Some mset_eq_setD [OF assms(4)] by auto
  then show ?thesis using qualified_resolves [OF assms(1-3)] assms(5) unfolding resolves_def by blast
qed

text \<open>And a column that is found has the type of its column.\<close>

lemma map_of_alias:
  assumes "joins_tables T nodes" "k < length nodes" "node_aliases T nodes ! k = (a, sch)"
  shows "map_of (node_aliases T nodes) a = Some sch"
proof -
  have "(a, sch) \<in> set (node_aliases T nodes)" using assms(2,3) by (metis length_map node_aliases_def nth_mem)
  then show ?thesis using aliases_distinct [OF assms(1)] by simp
qed

lemma found_column_typed:
  assumes "joins_tables T nodes" "typed_tables T" "query_row T nodes lay f" "mset lay = mset [0..<length nodes]"
    and "Find (joined_row lay f) t c = Inr v"
  shows "column_type (node_aliases T nodes) t c = Some (value_type v)"
proof (cases t)
  case None
  have q: "query_row T nodes [0..<length nodes] f" using assms(3,4) mset_eq_setD [OF assms(4)] by (simp add: query_row_def)
  have "Find (joined_row [0..<length nodes] f) None c = Inr v"
    using Find_perm [OF query_row_blocks [OF assms(1,3)] assms(4), of t c] assms(5) None by simp
  then obtain x where "named c (joined_row [0..<length nodes] f) = [x]" "fd_value x = v"
    by (auto simp: Find_def find_unqualified_named split: list.splits)
  then obtain cd where "columns_named c (node_aliases T nodes) = [cd]" "cd_type cd = value_type v"
    using full_row_named [OF assms(1,2) q, of c] by (auto simp: map_eq_Cons_conv)
  then show ?thesis using None by (simp add: column_type_def)
next
  case (Some a)
  note B = query_row_blocks [OF assms(1,3)]
  obtain k where k: "k \<in> set lay" "a = tn_alias (nodes ! k)"
    using find_qualified_joined(2) [OF B, of a c] assms(5) Some by (auto simp: Find_def)
  have kl: "k < length nodes" "f k \<in> set (node_rows T (nodes ! k))" using assms(3) k(1) by (auto simp: query_row_def)
  obtain sch vs where r: "f k = scan_row a sch vs" "typed_row sch vs" "node_aliases T nodes ! k = (a, sch)"
    using query_row_block [OF assms(1,2) kl] k(2) by blast
  have "find_qualified a c (f k) = Inr v" using find_qualified_joined(1) [OF B k(1), of c] k(2) assms(5) Some by (simp add: Find_def)
  moreover have "filter (\<lambda>x. fd_table x = a \<and> fd_column x = c) (f k) = named c (f k)"
    unfolding named_def by (rule filter_cong) (auto simp: r(1) scan_row_def)
  ultimately obtain x xs where "named c (f k) = x # xs" "fd_value x = v" by (auto simp: find_qualified_filter split: list.splits)
  then obtain cd cds where "filter (\<lambda>cd. cd_name cd = c) (columns sch) = cd # cds" "cd_type cd = value_type v"
    using query_row_named [OF assms(1,2) kl, of c] r(3) by (auto simp: map_eq_Cons_conv)
  then show ?thesis using map_of_alias [OF assms(1) kl(1) r(3)] Some by (simp add: column_type_def)
qed

section \<open>Plans that do not throw\<close>

definition typed_conditions :: "tables \<Rightarrow> TableNode list \<Rightarrow> bool" where
  "typed_conditions T nodes \<longleftrightarrow> (\<forall>nd \<in> set nodes. \<forall>c. join_condition nd = Some c \<longrightarrow> well_typed (column_type (node_aliases T nodes)) c)"

lemma condition_evaluates:
  assumes "joinable T nodes" "typed_tables T" "typed_conditions T nodes" "query_row T nodes lay f" "k < length nodes"
    and "join_condition (nodes ! k) = Some c" "expr_tables c \<subseteq> (\<lambda>j. tn_alias (nodes ! j)) ` set lay"
  shows "\<exists>b. EvalBool c (joined_row lay f) = Inr b"
proof (rule well_typed_evaluates [OF qualified_resolves [OF joinable_tables [OF assms(1)] assms(2,4)]])
  have q: "fully_qualified c" using joinableD [OF assms(1,5,6)] by simp
  show "qualifiers c \<subseteq> Some ` (\<lambda>k. tn_alias (nodes ! k)) ` set lay"
    unfolding qualifiers_qualified [OF q] by (rule image_mono [OF assms(7)])
  show "well_typed (column_type (node_aliases T nodes)) c" using assms(3,5,6) by (auto simp: typed_conditions_def)
qed

text \<open>The columns of an equality have a type.\<close>

lemma equi_typed:
  assumes "well_typed (column_type A) c" "ExtractEquiJoin c = Some (a, b)"
  shows "\<exists>ty. column_type A (fst a) (snd a) = Some ty" "\<exists>ty. column_type A (fst b) (snd b) = Some ty"
  using assms by (cases c rule: ExtractEquiJoin.cases; auto)+

lemma equi_resolves:
  assumes "joinable T nodes" "typed_tables T" "typed_conditions T nodes" "k < length nodes" "join_condition (nodes ! k) = Some c"
    and "ExtractEquiJoin c = Some (nx, ac) \<or> ExtractEquiJoin c = Some (ac, nx)" "fst nx = Some (tn_alias (nodes ! k))"
    and "expr_tables c \<subseteq> (\<lambda>j. tn_alias (nodes ! j)) ` insert k (set lay)"
  shows "query_row T nodes lay f \<Longrightarrow> \<exists>v. Find (joined_row lay f) (fst ac) (snd ac) = Inr v"
    and "r \<in> set (node_rows T (nodes ! k)) \<Longrightarrow> \<exists>v. Find r (fst nx) (snd nx) = Inr v"
proof -
  have c: "well_typed (column_type (node_aliases T nodes)) c" using assms(3-5) by (auto simp: typed_conditions_def)
  obtain ty ty' where ty: "column_type (node_aliases T nodes) (fst ac) (snd ac) = Some ty" "column_type (node_aliases T nodes) (fst nx) (snd nx) = Some ty'"
    using equi_typed [OF c] assms(6) by metis
  {
    assume q: "query_row T nodes lay f"
    obtain j where "j \<in> set lay" "fst ac = Some (tn_alias (nodes ! j))" using equi_columns [OF assms(1,4-8)] by blast
    then have "fst ac \<in> Some ` (\<lambda>k. tn_alias (nodes ! k)) ` set lay" by simp
    then show "\<exists>v. Find (joined_row lay f) (fst ac) (snd ac) = Inr v"
      using qualified_resolves [OF joinable_tables [OF assms(1)] assms(2) q] ty(1) unfolding resolves_def by blast
  }
  assume r: "r \<in> set (node_rows T (nodes ! k))"
  have q: "query_row T nodes [k] (\<lambda>_. r)" using assms(4) r by (simp add: query_row_def)
  have "fst nx \<in> Some ` (\<lambda>k. tn_alias (nodes ! k)) ` set [k]" using assms(7) by simp
  then have "\<exists>v. Find (joined_row [k] (\<lambda>_. r)) (fst nx) (snd nx) = Inr v"
    using qualified_resolves [OF joinable_tables [OF assms(1)] assms(2) q] ty(2) unfolding resolves_def by blast
  then show "\<exists>v. Find r (fst nx) (snd nx) = Inr v" by simp
qed

lemma probe_row_ok: "Find x t c = Inr v \<Longrightarrow> snd (probe_row er t c m x) = None"
  by (simp add: probe_row_def)

lemma join_plan_total:
  assumes "joinable T nodes" "typed_tables T" "typed_conditions T nodes" "multimap_law er" "join_plan nodes True lay p"
  shows "snd (plan_stream er T p) = None"
proof -
  note J = joinable_tables [OF assms(1)]
  show ?thesis using assms(5)
  proof (induction rule: join_plan.induct)
    case first
    have "T (tn_table (nodes ! 0)) \<noteq> None" using assms(1) by (auto simp: joinable_def joins_tables_def)
    then show ?case using node_scan_stream [of T "nodes ! 0" er] by simp
  next
    case (nested lay p k c)
    let ?rs = "node_rows T (nodes ! k)"
    obtain xs where xs: "plan_stream er T p = (xs, None)" using nested.IH by (metis prod.collapse)
    have "snd (test_row c (x @ r)) = None" if x: "x \<in> set xs" and r: "r \<in> set ?rs" for x r
    proof -
      obtain f where f: "x = joined_row lay f" "query_row T nodes lay f" using join_plan_row [OF J assms(4) nested(1)] x xs by auto
      have q: "query_row T nodes (lay @ [k]) (f(k := r))"
        by (rule query_row_upd [OF f(2) nested(2,3) r]) simp
      then obtain b where "EvalBool c (joined_row (lay @ [k]) (f(k := r))) = Inr b"
        using condition_evaluates [OF assms(1-3) q nested(2,4)] nested(5) by auto
      then show ?thesis using f(1) nested(3) by (simp add: test_row_eval)
    qed
    then have "snd (pair_rows c ?rs x) = None" if "x \<in> set xs" for x
      unfolding pair_rows_def bind_stream_error using that by auto
    then show ?case
      using node_scan_stream [of T "nodes ! k" er, OF joins_tablesD(1) [OF J nested(2)]] xs
      by (simp add: new_nested_loop_join_def after_error_def bind_stream_error)
  next
    case (build_left lay p k c nx ac)
    let ?rs = "node_rows T (nodes ! k)"
    note E = equi_resolves [OF assms(1-3) build_left(2,4,6,7,5)]
    obtain xs where xs: "plan_stream er T p = (xs, None)" using build_left.IH by (metis prod.collapse)
    have "\<exists>v. Find x (fst ac) (snd ac) = Inr v" if "x \<in> set xs" for x
      using join_plan_row [OF J assms(4) build_left(1), of x] that xs E(1) by auto
    then have "\<exists>m. key_rows (fst ac) (snd ac) (xs, None) = Inr m" by (simp add: key_rows_Inr)
    moreover have "snd (bind_stream (probe_row er (fst nx) (snd nx) m) (?rs, None)) = None" for m
      unfolding bind_stream_error using E(2) probe_row_ok by blast
    ultimately show ?case
      using node_scan_stream [of T "nodes ! k" er, OF joins_tablesD(1) [OF J build_left(2)]] xs by (auto simp: new_hash_join_def)
  next
    case (build_right lay p k c nx ac)
    let ?rs = "node_rows T (nodes ! k)"
    note E = equi_resolves [OF assms(1-3) build_right(2,4,6,7,5)]
    obtain xs where xs: "plan_stream er T p = (xs, None)" using build_right.IH by (metis prod.collapse)
    have "\<exists>v. Find x (fst ac) (snd ac) = Inr v" if "x \<in> set xs" for x
      using join_plan_row [OF J assms(4) build_right(1), of x] that xs E(1) by auto
    then have "snd (bind_stream (probe_row er (fst ac) (snd ac) m) (xs, None)) = None" for m
      unfolding bind_stream_error using probe_row_ok by blast
    moreover have "\<exists>m. key_rows (fst nx) (snd nx) (?rs, None) = Inr m" using E(2) by (simp add: key_rows_Inr)
    ultimately show ?case
      using node_scan_stream [of T "nodes ! k" er, OF joins_tablesD(1) [OF J build_right(2)]] xs by (auto simp: new_hash_join_def)
  qed
qed

end
