(* ===== verification/Query_Results.thy ===== *)
theory Query_Results
  imports Query_Planning Query_Types
begin

text \<open>
  The result of a SELECT: the meaning of the statement over the tables alone, and \<open>ExecuteSelect\<close>
  computing it.
\<close>

section \<open>The meaning of a query\<close>

definition table_node :: "TableRef \<Rightarrow> Expr option \<Rightarrow> TableNode" where
  "table_node ref c = \<lparr>tn_table = tr_table ref, tn_alias = ref_alias ref, join_condition = c\<rparr>"

text \<open>The tables of a query in the order they are written.\<close>
definition stmt_nodes :: "SelectStmt \<Rightarrow> TableNode list" where
  "stmt_nodes stmt = table_node (from_table stmt) None # map (\<lambda>j. table_node (jc_table j) (Some (on_condition j))) (sel_joins stmt)"

abbreviation query_order :: "SelectStmt \<Rightarrow> nat list" where
  "query_order stmt \<equiv> [0..<length (stmt_nodes stmt)]"

text \<open>
  Whether a choice of a row of every table satisfies the WHERE condition, and every ON condition besides,
  in the sense of \<open>cond_holds\<close>.
\<close>
definition where_holds :: "SelectStmt \<Rightarrow> (nat \<Rightarrow> ExecRow) \<Rightarrow> bool" where
  "where_holds stmt f \<longleftrightarrow> (case sel_where stmt of None \<Rightarrow> True | Some e \<Rightarrow> cond_holds e (joined_row (query_order stmt) f))"

definition selects :: "SelectStmt \<Rightarrow> (nat \<Rightarrow> ExecRow) \<Rightarrow> bool" where
  "selects stmt f \<longleftrightarrow> satisfied (stmt_nodes stmt) (query_order stmt) f \<and> where_holds stmt f"

text \<open>
  The output row of a choice. A select list is looked up by name; for \<open>SELECT *\<close> the tables'
  columns come in the order \<open>lay\<close> in which the planner joined the tables.
\<close>
definition output_values :: "SelectStmt \<Rightarrow> nat list \<Rightarrow> (nat \<Rightarrow> ExecRow) \<Rightarrow> Value option list" where
  "output_values stmt lay f =
     (if is_star stmt then map (\<lambda>x. Some (fd_value x)) (joined_row lay f)
      else map (\<lambda>item. column_value (joined_row (query_order stmt) f) (si_table item) (si_column item)) (select_items stmt))"

definition item_name :: "SelectItem \<Rightarrow> string" where
  "item_name item = (case si_alias item of Some a \<Rightarrow> a | None \<Rightarrow> si_column item)"

definition output_names :: "tables \<Rightarrow> SelectStmt \<Rightarrow> nat list \<Rightarrow> string list" where
  "output_names T stmt lay =
     (if is_star stmt then concat (map (\<lambda>k. node_columns T (stmt_nodes stmt ! k)) lay) else map item_name (select_items stmt))"

definition query_choices :: "tables \<Rightarrow> SelectStmt \<Rightarrow> (nat \<Rightarrow> ExecRow) multiset" where
  "query_choices T stmt = mset (choices (\<lambda>k. node_rows T (stmt_nodes stmt ! k)) (query_order stmt))"

text \<open>The rows asked for, with multiplicity. (The engine gives names to the columns only when there are rows.)\<close>
definition select_answer :: "tables \<Rightarrow> SelectStmt \<Rightarrow> QueryResult \<Rightarrow> bool" where
  "select_answer T stmt result \<longleftrightarrow>
     (\<exists>lay. mset lay = mset (query_order stmt)
       \<and> image_mset (map Some) (mset (res_rows result)) = image_mset (output_values stmt lay) (filter_mset (selects stmt) (query_choices T stmt))
       \<and> column_names result = (if res_rows result = [] then [] else output_names T stmt lay))"

text \<open>Rows made of a row of every table that satisfy the WHERE condition.\<close>
definition select_shape :: "tables \<Rightarrow> SelectStmt \<Rightarrow> QueryResult \<Rightarrow> bool" where
  "select_shape T stmt result \<longleftrightarrow>
     (\<exists>lay. mset lay = mset (query_order stmt)
       \<and> (\<forall>vs \<in> set (res_rows result). \<exists>f. query_row T (stmt_nodes stmt) (query_order stmt) f \<and> where_holds stmt f
            \<and> map Some vs = output_values stmt lay f)
       \<and> column_names result = (if res_rows result = [] then [] else output_names T stmt lay))"

text \<open>
  Well typed queries: ON conditions are qualified, about their own table and those before it, and do not equate two
  columns of one table; all conditions compare values of one type, and all columns resolve.
\<close>
definition typed_query :: "tables \<Rightarrow> SelectStmt \<Rightarrow> bool" where
  "typed_query T stmt \<longleftrightarrow> joinable T (stmt_nodes stmt) \<and> typed_conditions T (stmt_nodes stmt)
     \<and> (case sel_where stmt of None \<Rightarrow> True | Some e \<Rightarrow> well_typed (column_type (node_aliases T (stmt_nodes stmt))) e)
     \<and> (is_star stmt \<or> (\<forall>item \<in> set (select_items stmt). column_type (node_aliases T (stmt_nodes stmt)) (si_table item) (si_column item) \<noteq> None))"

text \<open>
  What a SELECT may answer: the rows asked for, or an exception of a row. Well typed queries
  do not throw. Of queries with an unqualified ON column that a later table has too, it is only said that
  their rows are made of rows of the tables.
\<close>
definition select_outcome :: "tables \<Rightarrow> SelectStmt \<Rightarrow> QueryResult res \<Rightarrow> bool" where
  "select_outcome T stmt r \<longleftrightarrow>
     (case r of
        Inl e \<Rightarrow> row_exception e \<and> \<not> typed_query T stmt
      | Inr result \<Rightarrow> select_shape T stmt result \<and> (unambiguous T (stmt_nodes stmt) \<longrightarrow> select_answer T stmt result))"

section \<open>The plan of a query\<close>

lemma FlattenJoins_joins:
  "FlattenJoins (logical_joins js (MakeScan ref)) = Inr (table_node ref None # map (\<lambda>j. table_node (jc_table j) (Some (on_condition j))) js)"
  by (induction js rule: rev_induct) (simp_all add: logical_joins_def MakeScan_def table_node_def)

lemma logical_joins_shape: "logical_joins js (MakeScan ref) \<noteq> LogicalFilter a b"
  by (induction js rule: rev_induct) (simp_all add: logical_joins_def MakeScan_def)

definition finish_plan :: "SelectStmt \<Rightarrow> PhysicalPlan \<Rightarrow> PhysicalPlan" where
  "finish_plan stmt p =
     PhysicalProject (case sel_where stmt of Some e \<Rightarrow> PhysicalFilter p e | None \<Rightarrow> p) (is_star stmt) (select_items stmt)"

lemma BuildPhysicalPlan_joins:
  "BuildPhysicalPlan ops (BuildLogicalPlan stmt) cat s =
     (case join_tables ops (stmt_nodes stmt) (length (sel_joins stmt)) (node_scan (stmt_nodes stmt ! 0)) {tn_alias (stmt_nodes stmt ! 0)}
         ((replicate (length (stmt_nodes stmt)) False)[0 := True]) cat s of
        (Inl e, s1) \<Rightarrow> (Inl e, s1) | (Inr p, s1) \<Rightarrow> (Inr (finish_plan stmt p), s1))"
proof -
  let ?L = "logical_joins (sel_joins stmt) (MakeScan (from_table stmt))"
  have F: "FlattenJoins ?L = Inr (stmt_nodes stmt)" by (simp add: FlattenJoins_joins stmt_nodes_def)
  have len: "length (stmt_nodes stmt) - 1 = length (sel_joins stmt)" by (simp add: stmt_nodes_def)
  have N: "(case ?L of LogicalFilter input' e \<Rightarrow> (Some e, input') | _ \<Rightarrow> (None, ?L)) = (None, ?L)"
    using logical_joins_shape [of "sel_joins stmt" "from_table stmt"] by (cases ?L) auto
  show ?thesis
  proof (cases "sel_where stmt")
    case None
    have "BuildLogicalPlan stmt = LogicalProject ?L (is_star stmt) (select_items stmt)" using None by (simp add: BuildLogicalPlan_def)
    then show ?thesis using None N F len
      by (simp add: BuildPhysicalPlan_def finish_plan_def node_scan_def split: sum.split prod.split)
  next
    case (Some e)
    have "BuildLogicalPlan stmt = LogicalProject (LogicalFilter ?L e) (is_star stmt) (select_items stmt)" using Some by (simp add: BuildLogicalPlan_def)
    then show ?thesis using Some F len
      by (simp add: BuildPhysicalPlan_def finish_plan_def node_scan_def split: sum.split prod.split)
  qed
qed

lemma project_row_names: "project_row items r = Inr y \<Longrightarrow> map fd_column y = map item_name items"
  by (induction items arbitrary: y) (auto simp: and_then_Inr item_name_def)

lemma project_row_ok: "(\<And>item. item \<in> set items \<Longrightarrow> \<exists>v. Find r (si_table item) (si_column item) = Inr v) \<Longrightarrow> \<exists>y. project_row items r = Inr y"
  by (induction items) (fastforce simp: and_then_Inr)+

section \<open>Its rows\<close>

lemma joined_row_names:
  assumes "blocks A N lay f"
  shows "map fd_column (joined_row lay f) = concat (map N lay)"
  using assms by (auto simp: blocks_def block_def joined_row_def map_concat comp_def intro!: arg_cong [where f = concat])

lemma project_row_values:
  "project_row items r = Inr y \<Longrightarrow> map (\<lambda>x. Some (fd_value x)) y = map (\<lambda>item. column_value r (si_table item) (si_column item)) items"
  by (induction items arbitrary: y) (auto simp: and_then_Inr dest: column_value_Find [THEN iffD2])

lemma item_rows:
  assumes "snd (bind_stream (item_row star items) (xs, e)) = None"
  shows "fst (bind_stream (item_row star items) (xs, e)) = map (\<lambda>x. if star then x else projr (project_row items x)) xs"
    and "\<not> star \<Longrightarrow> \<forall>x \<in> set xs. \<exists>y. project_row items x = Inr y"
  using assms by (induction xs) (auto simp: item_row_def append_stream_def split: sum.splits option.splits if_splits)

lemma where_rows:
  assumes "snd (plan_stream er T (case w of Some e \<Rightarrow> PhysicalFilter p e | None \<Rightarrow> p)) = None"
  shows "snd (plan_stream er T p) = None"
    and "fst (plan_stream er T (case w of Some e \<Rightarrow> PhysicalFilter p e | None \<Rightarrow> p))
      = filter (\<lambda>x. case w of None \<Rightarrow> True | Some e \<Rightarrow> cond_holds e x) (fst (plan_stream er T p))"
proof -
  obtain xs e where xs: "plan_stream er T p = (xs, e)" by force
  show "snd (plan_stream er T p) = None"
    using assms xs bind_stream_error [of _ xs e] by (cases w) auto
  show "fst (plan_stream er T (case w of Some e \<Rightarrow> PhysicalFilter p e | None \<Rightarrow> p))
      = filter (\<lambda>x. case w of None \<Rightarrow> True | Some e \<Rightarrow> cond_holds e x) (fst (plan_stream er T p))"
  proof (cases w)
    case (Some c)
    have err: "snd (bind_stream (test_row c) (xs, e)) = None" using assms xs Some by simp
    have "filter (\<lambda>x. EvalBool c x = Inr True) xs = filter (cond_holds c) xs"
    proof (rule filter_cong [OF refl])
      fix x assume "x \<in> set xs"
      then have "snd (test_row c x) = None" using err unfolding bind_stream_error by blast
      then obtain b where "EvalBool c x = Inr b" by (auto simp: test_row_def split: sum.splits)
      then show "(EvalBool c x = Inr True) = cond_holds c x" using EvalBool_cond_holds [of c x b] by simp
    qed
    then show ?thesis using test_rows [OF err] xs Some by simp
  qed (simp add: xs)
qed

text \<open>One row of the output, of a plan that ends well.\<close>

lemma finish_row:
  assumes "joins_tables T (stmt_nodes stmt)" "mset lay = mset (query_order stmt)" "query_row T (stmt_nodes stmt) lay f"
    and "is_star stmt \<or> (\<exists>y. project_row (select_items stmt) (joined_row lay f) = Inr y)"
    and "x = (if is_star stmt then joined_row lay f else projr (project_row (select_items stmt) (joined_row lay f)))"
  shows "map Some (map fd_value x) = output_values stmt lay f" "map fd_column x = output_names T stmt lay"
    "(case sel_where stmt of None \<Rightarrow> True | Some e \<Rightarrow> cond_holds e (joined_row lay f)) = where_holds stmt f"
    "query_row T (stmt_nodes stmt) (query_order stmt) f"
proof -
  note B = query_row_blocks [OF assms(1,3)]
  note P = joined_perm [OF B assms(2)]
  show "map Some (map fd_value x) = output_values stmt lay f"
    using assms(4,5) project_row_values P(3) by (auto simp: output_values_def comp_def)
  show "map fd_column x = output_names T stmt lay"
    using assms(4,5) joined_row_names [OF B] project_row_names by (auto simp: output_names_def)
  show "(case sel_where stmt of None \<Rightarrow> True | Some e \<Rightarrow> cond_holds e (joined_row lay f)) = where_holds stmt f"
    using P(4) by (simp add: where_holds_def split: option.split)
  show "query_row T (stmt_nodes stmt) (query_order stmt) f"
    using assms(3) mset_eq_setD [OF assms(2)] by (simp add: query_row_def)
qed

lemma plan_shape:
  assumes "joins_tables T (stmt_nodes stmt)" "multimap_law er" "join_plan (stmt_nodes stmt) sc lay p" "mset lay = mset (query_order stmt)"
    and "plan_stream er T (finish_plan stmt p) = (xs, None)" "x \<in> set xs"
  shows "map fd_column x = output_names T stmt lay"
    and "\<exists>f. query_row T (stmt_nodes stmt) (query_order stmt) f \<and> where_holds stmt f \<and> map Some (map fd_value x) = output_values stmt lay f"
proof -
  let ?q = "case sel_where stmt of Some e \<Rightarrow> PhysicalFilter p e | None \<Rightarrow> p"
  obtain zs e where zs: "plan_stream er T ?q = (zs, e)" by force
  have st: "bind_stream (item_row (is_star stmt) (select_items stmt)) (zs, e) = (xs, None)" using assms(5) zs by (simp add: finish_plan_def)
  then have e: "e = None" using bind_stream_error [of _ zs e] by (metis snd_conv)
  note I = item_rows [of "is_star stmt" "select_items stmt" zs e, unfolded st snd_conv fst_conv, OF refl]
  obtain z where z: "z \<in> set zs" "x = (if is_star stmt then z else projr (project_row (select_items stmt) z))"
    using assms(6) unfolding I(1) set_map by blast
  have "snd (plan_stream er T ?q) = None" using zs e by simp
  note W = where_rows(2) [OF this]
  have zp: "z \<in> set (fst (plan_stream er T p))" "case sel_where stmt of None \<Rightarrow> True | Some e \<Rightarrow> cond_holds e z"
    using W z(1) zs by simp_all
  obtain f where f: "z = joined_row lay f" "query_row T (stmt_nodes stmt) lay f" using join_plan_row [OF assms(1-3) zp(1)] by blast
  have ok: "is_star stmt \<or> (\<exists>y. project_row (select_items stmt) (joined_row lay f) = Inr y)" using I(2) z(1) f(1) by blast
  note R = finish_row [OF assms(1,4) f(2) ok z(2) [unfolded f(1)]]
  show "map fd_column x = output_names T stmt lay" by (rule R(2))
  have "where_holds stmt f" using zp(2) unfolding f(1) R(3) .
  then show "\<exists>f. query_row T (stmt_nodes stmt) (query_order stmt) f \<and> where_holds stmt f \<and> map Some (map fd_value x) = output_values stmt lay f"
    using R(1,4) by blast
qed

text \<open>Satisfying the conditions does not depend on where the tables stand.\<close>

lemma selects_perm:
  assumes "joins_tables T (stmt_nodes stmt)" "mset lay = mset (query_order stmt)" "query_row T (stmt_nodes stmt) lay f"
  shows "satisfied (stmt_nodes stmt) lay f \<and> (case sel_where stmt of None \<Rightarrow> True | Some e \<Rightarrow> cond_holds e (joined_row lay f)) \<longleftrightarrow> selects stmt f"
proof -
  note P = joined_perm [OF query_row_blocks [OF assms(1,3)] assms(2)]
  have "holds (stmt_nodes stmt) k (joined_row lay f) = holds (stmt_nodes stmt) k (joined_row (query_order stmt) f)" for k
    using P(4) by (simp add: holds_def split: option.split)
  then have "satisfied (stmt_nodes stmt) lay f = satisfied (stmt_nodes stmt) (query_order stmt) f"
    unfolding satisfied_def using mset_eq_setD [OF assms(2)] by simp
  then show ?thesis using P(4) by (simp add: selects_def where_holds_def split: option.split)
qed

lemma plan_rows:
  assumes "joins_tables T (stmt_nodes stmt)" "unambiguous T (stmt_nodes stmt)" "multimap_law er" "join_plan (stmt_nodes stmt) sc lay p"
    and "mset lay = mset (query_order stmt)"
    and "snd (plan_stream er T (case sel_where stmt of Some e \<Rightarrow> PhysicalFilter p e | None \<Rightarrow> p)) = None"
  shows "mset (fst (plan_stream er T (case sel_where stmt of Some e \<Rightarrow> PhysicalFilter p e | None \<Rightarrow> p)))
      = image_mset (joined_row lay) (filter_mset (selects stmt) (query_choices T stmt))"
    and "f \<in># query_choices T stmt \<Longrightarrow> query_row T (stmt_nodes stmt) lay f"
proof -
  let ?n = "stmt_nodes stmt" and ?W = "\<lambda>x. case sel_where stmt of None \<Rightarrow> True | Some e \<Rightarrow> cond_holds e x"
  let ?C = "\<lambda>lay. mset (choices (\<lambda>k. node_rows T (?n ! k)) lay)"
  note W = where_rows [OF assms(6)]
  have L: "distinct lay" "set lay \<subseteq> {..<length ?n}" using join_plan_layout [OF assms(4)] by (simp_all add: stmt_nodes_def)
  have C: "?C lay = query_choices T stmt" using choices_perm [OF L(1) assms(5)] by (simp add: query_choices_def)
  show row: "query_row T ?n lay f" if "f \<in># query_choices T stmt" for f
    by (rule choice_query_row [OF L]) (use that in \<open>simp flip: C\<close>)
  have "mset (filter ?W (fst (plan_stream er T p))) = filter_mset ?W (join_result T ?n lay)"
    using join_plan_rows [OF assms(1-4) W(1)] by simp
  also have "\<dots> = image_mset (joined_row lay) (filter_mset (\<lambda>f. ?W (joined_row lay f)) (filter_mset (satisfied ?n lay) (?C lay)))"
    by (rule image_mset_filter_mset_swap [symmetric])
  also have "filter_mset (\<lambda>f. ?W (joined_row lay f)) (filter_mset (satisfied ?n lay) (?C lay))
      = filter_mset (\<lambda>f. satisfied ?n lay f \<and> ?W (joined_row lay f)) (query_choices T stmt)"
    unfolding C by (simp only: filter_filter_mset conj_commute)
  also have "\<dots> = filter_mset (selects stmt) (query_choices T stmt)"
    by (rule filter_mset_cong [OF refl]) (use selects_perm [OF assms(1,5) row] in simp)
  finally show "mset (fst (plan_stream er T (case sel_where stmt of Some e \<Rightarrow> PhysicalFilter p e | None \<Rightarrow> p)))
      = image_mset (joined_row lay) (filter_mset (selects stmt) (query_choices T stmt))" unfolding W(2) .
qed

lemma plan_answer:
  assumes "joins_tables T (stmt_nodes stmt)" "unambiguous T (stmt_nodes stmt)" "multimap_law er" "join_plan (stmt_nodes stmt) sc lay p"
    and "mset lay = mset (query_order stmt)" "plan_stream er T (finish_plan stmt p) = (xs, None)"
  shows "image_mset (map Some) (mset (map (map fd_value) xs)) = image_mset (output_values stmt lay) (filter_mset (selects stmt) (query_choices T stmt))"
proof -
  let ?q = "case sel_where stmt of Some e \<Rightarrow> PhysicalFilter p e | None \<Rightarrow> p" and ?F = "filter_mset (selects stmt) (query_choices T stmt)"
  let ?out = "\<lambda>x. if is_star stmt then x else projr (project_row (select_items stmt) x)"
  obtain zs e where zs: "plan_stream er T ?q = (zs, e)" by force
  have st: "bind_stream (item_row (is_star stmt) (select_items stmt)) (zs, e) = (xs, None)" using assms(6) zs by (simp add: finish_plan_def)
  then have e: "e = None" using bind_stream_error [of _ zs e] by (metis snd_conv)
  note I = item_rows [of "is_star stmt" "select_items stmt" zs e, unfolded st snd_conv fst_conv, OF refl]
  have "snd (plan_stream er T ?q) = None" using zs e by simp
  note R = plan_rows [OF assms(1-5) this]
  have zs': "mset zs = image_mset (joined_row lay) ?F" using R(1) zs by simp
  have out: "map Some (map fd_value (?out (joined_row lay f))) = output_values stmt lay f" if f: "f \<in># ?F" for f
  proof -
    have "joined_row lay f \<in># mset zs" unfolding zs' using f by simp
    then have ok: "is_star stmt \<or> (\<exists>y. project_row (select_items stmt) (joined_row lay f) = Inr y)" using I(2) by auto
    have "query_row T (stmt_nodes stmt) lay f" using R(2) f by simp
    from finish_row(1) [OF assms(1,5) this ok refl] show ?thesis .
  qed
  have "image_mset (map Some) (mset (map (map fd_value) xs)) = image_mset (\<lambda>x. map Some (map fd_value (?out x))) (mset zs)"
    unfolding I(1) by (simp add: image_mset.compositionality comp_def)
  also have "\<dots> = image_mset (\<lambda>f. map Some (map fd_value (?out (joined_row lay f)))) ?F"
    unfolding zs' by (simp only: image_mset.compositionality comp_def)
  also have "\<dots> = image_mset (output_values stmt lay) ?F" by (rule image_mset_cong) (rule out)
  finally show ?thesis .
qed

text \<open>A well typed query does not throw.\<close>

lemma typed_plan_total:
  assumes "typed_query T stmt" "typed_tables T" "multimap_law er" "join_plan (stmt_nodes stmt) True lay p" "mset lay = mset (query_order stmt)"
  shows "snd (plan_stream er T (finish_plan stmt p)) = None"
proof -
  let ?n = "stmt_nodes stmt" and ?q = "case sel_where stmt of Some e \<Rightarrow> PhysicalFilter p e | None \<Rightarrow> p"
  have J: "joinable T ?n" "typed_conditions T ?n" using assms(1) by (simp_all add: typed_query_def)
  note tot = join_plan_total [OF J(1) assms(2) J(2) assms(3,4)]
  note row = join_plan_row [OF joinable_tables [OF J(1)] assms(3,4)]
  obtain xs where xs: "plan_stream er T p = (xs, None)" using tot by (metis prod.collapse)
  note full = full_row_resolves [OF joinable_tables [OF J(1)] assms(2) _ assms(5)]
  have q: "snd (plan_stream er T ?q) = None"
  proof (cases "sel_where stmt")
    case None
    then show ?thesis using tot by simp
  next
    case (Some e)
    have ev: "\<exists>b. EvalBool e x = Inr b" if x: "x \<in> set xs" for x
    proof -
      obtain f where f: "x = joined_row lay f" "query_row T ?n lay f" using row x xs by auto
      have "resolves (node_aliases T ?n) UNIV x" unfolding resolves_def f(1) using full [OF f(2)] by blast
      then show ?thesis by (rule well_typed_evaluates) (use assms(1) Some in \<open>simp_all add: typed_query_def\<close>)
    qed
    have "snd (test_row e x) = None" if "x \<in> set xs" for x
      using ev [OF that] by (auto simp: test_row_eval)
    then show ?thesis using Some xs by (simp add: bind_stream_error)
  qed
  then obtain zs where zs: "plan_stream er T ?q = (zs, None)" by (metis prod.collapse)
  have sub: "x \<in> set (fst (plan_stream er T p))" if "x \<in> set zs" for x
    using where_rows(2) [OF q] zs that by simp
  have "snd (item_row (is_star stmt) (select_items stmt) x) = None" if x: "x \<in> set zs" for x
  proof (cases "is_star stmt")
    case False
    obtain f where f: "x = joined_row lay f" "query_row T ?n lay f" using row [OF sub [OF x]] by blast
    have "\<exists>v. Find x (si_table item) (si_column item) = Inr v" if item: "item \<in> set (select_items stmt)" for item
    proof -
      obtain ty where "column_type (node_aliases T ?n) (si_table item) (si_column item) = Some ty"
        using assms(1) False item by (auto simp: typed_query_def)
      then show ?thesis using full [OF f(2)] f(1) by blast
    qed
    then obtain y where "project_row (select_items stmt) x = Inr y" using project_row_ok by blast
    then show ?thesis by (simp add: item_row_def)
  qed (simp add: item_row_def)
  then show ?thesis using zs by (simp add: finish_plan_def bind_stream_error)
qed

section \<open>Executing the statement\<close>

lemma row_of_typed:
  assumes "schema_ok sch" "row_of sch k row"
  shows "typed_row sch row"
proof -
  obtain p where p: "PrimaryKeyIndex sch = int p" "p < length (columns sch)" "cd_type (columns sch ! p) = kInteger"
    by (rule schema_okD [OF assms(1)])
  have row: "length row = length (columns sch)" "row ! p = IntV k"
    "\<And>j. j < length (columns sch) \<Longrightarrow> j \<noteq> p \<Longrightarrow> fits_column (columns sch ! j) (row ! j)"
    using assms(2) p(1) by (auto simp: row_of_def storable_def storable_from_def)
  have "value_type (row ! j) = cd_type (columns sch ! j)" if "j < length (columns sch)" for j
    using row(2) row(3) [OF that] p(3) by (cases "j = p") (auto simp: fits_column_def split: Value.splits)
  then show ?thesis using row(1) by (simp add: typed_row_def list_eq_iff_nth_eq)
qed

definition select_cost :: "nat \<Rightarrow> nat \<Rightarrow> nat" where
  "select_cost n b = n * (2 * n + 2) + n * (34 + b)"

context page_store
begin

lemma catalog_typed_tables:
  assumes "catalog_is s cat slots"
  shows "typed_tables (row_tables (relations_of slots))"
  unfolding typed_tables_def
proof (intro allI impI ballI)
  fix name sch rows vs
  assume T: "row_tables (relations_of slots) name = Some (sch, rows)" and vs: "vs \<in> set rows"
  then have "slot_of slots name \<noteq> None" using relations_slot(1) [OF assms, of name] by (auto simp: row_tables_def)
  then obtain i where "slot_of slots name = Some i" by blast
  then obtain sch' tr cnt where R: "slots ! i = Some (sch', tr, cnt)" "i < MAX_CATALOG_TABLES"
    "relations_of slots name = Some \<lparr>rel_schema = sch', rel_rows = decoded sch' (entries tr), rel_count = cnt\<rparr>"
    using relations_slot(2) [OF assms, of name i] by blast
  then have eq: "sch' = sch" "rows = map snd (decoded sch (entries tr))" using T by (auto simp: row_tables_def)
  have ok: "schema_ok sch" "rows_ok sch (entries tr)" using catalog_isD(6) [OF assms R(2)] R(1) eq(1) by simp_all
  obtain k b where kb: "(k, b) \<in> set (entries tr)" "vs = projr (Decode sch k b)" using vs eq(2) by (auto simp: decoded_def)
  then obtain row where "row_of sch k row" "vs = row" using ok(2) Decode_row_blob by (fastforce simp: rows_ok_def)
  then show "typed_row sch vs" using row_of_typed [OF ok(1)] by simp
qed

lemma BuildPhysicalPlan_ok:
  assumes "catalog_is s cat slots" "npins s < cap s" "plannable (relations_of slots) (stmt_nodes stmt)"
    and "length (stmt_nodes stmt) * (2 * length (stmt_nodes stmt) + 2) < room s"
  shows "\<exists>p s'. BuildPhysicalPlan ops (BuildLogicalPlan stmt) cat s = (Inr (finish_plan stmt p), s')
    \<and> ext (length (stmt_nodes stmt) * (2 * length (stmt_nodes stmt) + 2)) s s' \<and> catalog_is s' cat slots
    \<and> length (plan_scans p) = length (stmt_nodes stmt) \<and> set (plan_scans p) \<subseteq> tn_table ` set (stmt_nodes stmt)
    \<and> (\<forall>sc. (sc \<longrightarrow> joinable (row_tables (relations_of slots)) (stmt_nodes stmt)) \<longrightarrow>
        (\<exists>lay. mset lay = mset (query_order stmt) \<and> join_plan (stmt_nodes stmt) sc lay p))"
proof -
  let ?n = "stmt_nodes stmt" and ?r = "length (sel_joins stmt)"
  have n: "length ?n = Suc ?r" by (simp add: stmt_nodes_def)
  have room: "?r * (2 * length ?n + 2) < room s" using assms(4) n by simp
  have scan: "length (plan_scans (node_scan (?n ! 0))) = length [0 :: nat]" "set (plan_scans (node_scan (?n ! 0))) \<subseteq> tn_table ` set ?n"
    using n by (auto simp: node_scan_def new_scan_def intro!: imageI nth_mem)
  have flags: "set [0 :: nat] = {i. i < length ?n \<and> ((replicate (length ?n) False)[0 := True]) ! i}"
  proof -
    have "((replicate (length ?n) False)[0 := True]) ! i \<longleftrightarrow> i = 0" if "i < length ?n" for i
      using that n by (cases i) simp_all
    then show ?thesis using n by auto
  qed
  obtain p s' where J: "join_tables ops ?n ?r (node_scan (?n ! 0)) {tn_alias (?n ! 0)} ((replicate (length ?n) False)[0 := True]) cat s = (Inr p, s')"
    "ext (?r * (2 * length ?n + 2)) s s'" "catalog_is s' cat slots" "length (plan_scans p) = length ?n" "set (plan_scans p) \<subseteq> tn_table ` set ?n"
    "\<forall>sc. (sc \<longrightarrow> joinable (row_tables (relations_of slots)) ?n) \<longrightarrow> (\<exists>lay. mset lay = mset [0..<length ?n] \<and> join_plan ?n sc lay p)"
    using join_tables_ok [OF assms(1-3) room, of "[0]", OF _ flags _ _ _ _ scan] n join_plan.first by auto
  have "ext (length ?n * (2 * length ?n + 2)) s s'" using ext_mono [OF J(2)] n by simp
  then show ?thesis using J by (intro exI [of _ p] exI [of _ s'] conjI) (simp_all add: BuildPhysicalPlan_joins)
qed

lemma ExecuteSelect_ok:
  assumes "catalog_is s cat slots" "npins s < cap s" "leaf_bound slots b" "plannable (relations_of slots) (stmt_nodes stmt)"
    and "select_cost (length (stmt_nodes stmt)) b < room s"
  shows "\<exists>r cat' s'. ExecuteSelect er ops stmt cat s = Some (r, cat', s') \<and> ext (select_cost (length (stmt_nodes stmt)) b) s s'
    \<and> catalog_is s' cat' slots
    \<and> (joins_tables (row_tables (relations_of slots)) (stmt_nodes stmt) \<longrightarrow> multimap_law er \<longrightarrow>
        select_outcome (row_tables (relations_of slots)) stmt r)"
proof -
  let ?n = "length (stmt_nodes stmt)" and ?T = "row_tables (relations_of slots)" and ?C = "catalogs_of (relations_of slots) :: 's Catalog set"
  have room: "?n * (2 * ?n + 2) + ?n * (34 + b) < room s" using assms(5) by (simp add: select_cost_def)
  obtain p s1 where B: "BuildPhysicalPlan ops (BuildLogicalPlan stmt) cat s = (Inr (finish_plan stmt p), s1)"
    "ext (?n * (2 * ?n + 2)) s s1" "catalog_is s1 cat slots" "length (plan_scans p) = ?n"
    "set (plan_scans p) \<subseteq> tn_table ` set (stmt_nodes stmt)"
    "\<And>sc. (sc \<longrightarrow> joinable ?T (stmt_nodes stmt)) \<Longrightarrow> \<exists>lay. mset lay = mset (query_order stmt) \<and> join_plan (stmt_nodes stmt) sc lay p"
    using BuildPhysicalPlan_ok [OF assms(1,2,4)] room by auto
  let ?p = "finish_plan stmt p"
  have scans: "length (plan_scans ?p) = ?n" using B(4) by (cases "sel_where stmt") (simp_all add: finish_plan_def)
  have s1: "npins s1 < cap s1" "length (plan_scans ?p) * (34 + b) < room s1"
    using ext_keeps [OF B(2) assms(2), of "?n * (34 + b)"] room scans by simp_all
  obtain r cat2 s2 where O: "Open er ops ?p cat s1 = Some (r, cat2, s2)" "ext (?n * (34 + b)) s1 s2" "catalog_is s2 cat2 slots"
    "opened er (relations_of slots) ?p r" using Open_ok [OF B(3) s1(1) assms(3) s1(2), of er, unfolded scans] by blast
  have ex: "ext (select_cost ?n b) s s2" using ext_trans [OF B(2) O(2)] by (simp add: select_cost_def)
  have cat2: "cat2 \<in> ?C" by (rule GetSchema_relations [OF O(3)])
  obtain xs e where xs: "plan_stream er ?T ?p = (xs, e)" by force
  have typed: "e = None" if h: "multimap_law er" "typed_query ?T stmt"
  proof -
    have "joinable ?T (stmt_nodes stmt)" using h(2) by (simp add: typed_query_def)
    then obtain lay where lay: "mset lay = mset (query_order stmt)" "join_plan (stmt_nodes stmt) True lay p" using B(6) [of True] by blast
    then show ?thesis using typed_plan_total [OF h(2) catalog_typed_tables [OF assms(1)] h(1) lay(2,1)] xs by simp
  qed
  have raised: "row_exception x" if "joins_tables ?T (stmt_nodes stmt)" "raises ?T ?p x" for x
  proof -
    have "plan_scans ?p = plan_scans p" by (cases "sel_where stmt") (simp_all add: finish_plan_def)
    moreover have "?T t \<noteq> None" if "t \<in> set (plan_scans p)" for t
      using that B(5) \<open>joins_tables ?T (stmt_nodes stmt)\<close> unfolding joins_tables_def by blast
    ultimately show ?thesis using that(2) unfolding raises_def by metis
  qed
  show ?thesis
  proof (cases r)
    case (Inl x)
    then have E: "ExecuteSelect er ops stmt cat s = Some (Inl x, cat2, s2)" using B(1) O(1) by (simp add: ExecuteSelect_def step_then_def)
    have x: "e \<noteq> None" "raises ?T ?p x" using O(4) Inl xs by (simp_all add: opened_def)
    have "select_outcome ?T stmt (Inl x)" if "joins_tables ?T (stmt_nodes stmt)" "multimap_law er"
      using raised [OF that(1) x(2)] typed [OF that(2)] x(1) by (auto simp: select_outcome_def)
    then show ?thesis using E ex O(3) by blast
  next
    case (Inr plan)
    then have y: "yields er ?C plan (xs, e)" using O(4) xs by (simp add: opened_def)
    let ?result = "\<lparr>column_names = (if xs \<noteq> [] then map fd_column (hd xs) else []), res_rows = map (map fd_value) xs\<rparr>"
    have "\<exists>p'. collect_rows er cat2 plan True no_rows = Some (case e of Some x \<Rightarrow> Inl x | None \<Rightarrow> Inr (?result, p'))"
      using collect_rows_stream [OF y cat2, of True no_rows] by (cases "xs = []"; cases e) (simp_all add: no_rows_def)
    then obtain p' where "collect_rows er cat2 plan True no_rows = Some (case e of Some x \<Rightarrow> Inl x | None \<Rightarrow> Inr (?result, p'))" ..
    then have E: "ExecuteSelect er ops stmt cat s = Some (case e of Some x \<Rightarrow> Inl x | None \<Rightarrow> Inr ?result, cat2, s2)"
      using B(1) O(1) Inr by (cases e) (simp_all add: ExecuteSelect_def step_then_def pure_step_def)
    have "select_outcome ?T stmt (case e of Some x \<Rightarrow> Inl x | None \<Rightarrow> Inr ?result)"
      if h: "joins_tables ?T (stmt_nodes stmt)" "multimap_law er"
    proof (cases e)
      case (Some x)
      then have "row_exception x" using raised [OF h(1) plan_stream_raises [of er ?T ?p x]] xs by simp
      then show ?thesis using typed [OF h(2)] Some by (auto simp: select_outcome_def)
    next
      case None
      obtain lay where lay: "mset lay = mset (query_order stmt)" "join_plan (stmt_nodes stmt) False lay p" using B(6) [of False] by blast
      note S = plan_shape [OF h lay(2,1) xs [unfolded None]]
      have names: "column_names ?result = (if res_rows ?result = [] then [] else output_names ?T stmt lay)"
        using S(1) [of "hd xs"] by (cases xs) simp_all
      have "select_shape ?T stmt ?result" unfolding select_shape_def using lay(1) S(2) names by (intro exI [of _ lay]) auto
      moreover have "select_answer ?T stmt ?result" if u: "unambiguous ?T (stmt_nodes stmt)"
        unfolding select_answer_def using lay(1) plan_answer [OF h(1) u h(2) lay(2,1) xs [unfolded None]] names by (intro exI [of _ lay]) simp
      ultimately show ?thesis using None by (simp add: select_outcome_def)
    qed
    then show ?thesis using E ex O(3) by blast
  qed
qed

end

end
