(* ===== verification/Sql_Validation.thy ===== *)
theory Sql_Validation
  imports Query_Results
begin

text \<open>
  Which statements the validator accepts, in terms of the tables alone, and that it answers every
  other statement with a \<open>SemanticError\<close>.
\<close>

section \<open>Column references\<close>

definition has_column :: "TableSchema \<Rightarrow> string \<Rightarrow> bool" where
  "has_column sch c \<longleftrightarrow> c \<in> cd_name ` set (columns sch)"

text \<open>A qualified column is in the table of that name, any other in exactly one of the tables.\<close>
definition column_ok :: "AliasMap \<Rightarrow> string option \<Rightarrow> string \<Rightarrow> bool" where
  "column_ok A table c \<longleftrightarrow>
     (case table of
        Some t \<Rightarrow> (\<exists>sch. (t, sch) \<in> set A \<and> has_column sch c)
      | None \<Rightarrow> length (filter (\<lambda>(t, sch). has_column sch c) A) = 1)"

definition refs_ok :: "AliasMap \<Rightarrow> Expr \<Rightarrow> bool" where
  "refs_ok A e \<longleftrightarrow> (\<forall>(t, c) \<in> column_refs e. column_ok A t c)"

definition accepts :: "'a res \<Rightarrow> 'a \<Rightarrow> bool \<Rightarrow> bool" where
  "accepts r x P \<longleftrightarrow> (if P then r = Inr x else \<exists>msg. r = Inl (SemanticError msg))"

lemma accepts_count:
  "accepts (if n = 0 then Inl (SemanticError a) else if n > 1 then Inl (SemanticError b) else Inr x) x (n = (1 :: nat))"
  by (auto simp: accepts_def)

lemma ColumnIndex_has: "ColumnIndex sch c < 0 \<longleftrightarrow> \<not> has_column sch c"
proof (cases "index_where (\<lambda>cd. cd_name cd = c) (columns sch)")
  case None
  then show ?thesis by (auto simp: ColumnIndex_def has_column_def dest: index_where_None [THEN iffD1])
next
  case (Some i)
  then have "i < length (columns sch)" "cd_name (columns sch ! i) = c" by (simp_all add: index_where_Some)
  then show ?thesis using Some unfolding has_column_def by (auto simp: ColumnIndex_def)
qed

lemma map_of_distinct: "distinct (map fst A) \<Longrightarrow> map_of A t = Some sch \<longleftrightarrow> (t, sch) \<in> set A"
  by (rule map_of_eq_Some_iff)

lemma tables_with_columns: "tables_with c A = length (filter (\<lambda>(t, sch). has_column sch c) A)"
  unfolding tables_with_def using ColumnIndex_has by (metis (mono_tags, lifting) linorder_not_le)

lemma column_ok_qualified:
  assumes "distinct (map fst A)"
  shows "column_ok A (Some t) c \<longleftrightarrow> (\<exists>sch. map_of A t = Some sch \<and> has_column sch c)"
  using map_of_distinct [OF assms] by (simp add: column_ok_def)

lemma ValidateColumnRef_accepts:
  assumes "distinct (map fst A)"
  shows "accepts (ValidateColumnRef t c A) () (column_ok A t c)"
proof (cases t)
  case None
  then show ?thesis unfolding ValidateColumnRef_def column_ok_def tables_with_columns Let_def by (simp only: option.case accepts_count)
next
  case (Some a)
  then show ?thesis unfolding Some column_ok_qualified [OF assms]
    by (auto simp: accepts_def ValidateColumnRef_def ColumnIndex_has split: option.split)
qed

lemma ValidateSelectItem_accepts:
  assumes "distinct (map fst A)"
  shows "accepts (ValidateSelectItem item A) () (column_ok A (si_table item) (si_column item))"
proof (cases "si_table item")
  case None
  then show ?thesis unfolding ValidateSelectItem_def column_ok_def tables_with_columns Let_def by (simp only: option.case accepts_count)
next
  case (Some a)
  then show ?thesis unfolding Some column_ok_qualified [OF assms]
    by (auto simp: accepts_def ValidateSelectItem_def Some ColumnIndex_has split: option.split)
qed

lemma accepts_then: "accepts r x P \<Longrightarrow> (P \<Longrightarrow> accepts (f x) y Q) \<Longrightarrow> accepts (and_then r f) y (P \<and> Q)"
  unfolding accepts_def by (cases P) (auto split: if_splits)

lemma accepts_unit_then: "accepts r () P \<Longrightarrow> (P \<Longrightarrow> accepts q y Q) \<Longrightarrow> accepts (and_then r (\<lambda>_. q)) y (P \<and> Q)"
  by (rule accepts_then)

lemma accepts_Inr [simp]: "accepts (Inr x) x P \<longleftrightarrow> P"
  by (simp add: accepts_def)

lemma refs_ok_simps [simp]:
  "refs_ok A (ColumnRefExpr t c) \<longleftrightarrow> column_ok A t c" "refs_ok A (LiteralExpr v)"
  "refs_ok A (ComparisonExpr op l r) \<longleftrightarrow> refs_ok A l \<and> refs_ok A r"
  "refs_ok A (AndExpr l r) \<longleftrightarrow> refs_ok A l \<and> refs_ok A r" "refs_ok A (OrExpr l r) \<longleftrightarrow> refs_ok A l \<and> refs_ok A r"
  by (auto simp: refs_ok_def)

lemma ValidateColumnRefsIn_accepts:
  assumes "distinct (map fst A)"
  shows "accepts (ValidateColumnRefsIn e A) () (refs_ok A e)"
proof (induction e)
  case (ColumnRefExpr t c)
  then show ?case using ValidateColumnRef_accepts [OF assms] by simp
next
  case (ComparisonExpr op l r)
  then show ?case unfolding ValidateColumnRefsIn.simps refs_ok_simps by (intro accepts_unit_then)
next
  case (AndExpr l r)
  then show ?case unfolding ValidateColumnRefsIn.simps refs_ok_simps by (intro accepts_unit_then)
next
  case (OrExpr l r)
  then show ?case unfolding ValidateColumnRefsIn.simps refs_ok_simps by (intro accepts_unit_then)
qed simp

lemma validate_items_accepts:
  assumes "distinct (map fst A)"
  shows "accepts (validate_items items A) () (\<forall>item \<in> set items. column_ok A (si_table item) (si_column item))"
proof (induction items)
  case (Cons item items)
  show ?case unfolding validate_items.simps list.set ball_simps insert_iff
    using accepts_unit_then [OF ValidateSelectItem_accepts [OF assms] Cons.IH] by simp
qed simp

section \<open>SELECT\<close>

definition stmt_refs :: "SelectStmt \<Rightarrow> TableRef list" where
  "stmt_refs stmt = from_table stmt # map jc_table (sel_joins stmt)"

definition query_aliases :: "relations \<Rightarrow> TableRef list \<Rightarrow> AliasMap" where
  "query_aliases D refs = map (\<lambda>ref. (ref_alias ref, rel_schema (the (D (tr_table ref))))) refs"

text \<open>
  Every table exists and has a name of its own; an ON condition is about its own table and those
  before it; the select list and the WHERE condition are about the tables of the query.
\<close>
definition select_ok :: "relations \<Rightarrow> SelectStmt \<Rightarrow> bool" where
  "select_ok D stmt \<longleftrightarrow>
     (let refs = stmt_refs stmt; A = query_aliases D refs in
        (\<forall>ref \<in> set refs. D (tr_table ref) \<noteq> None) \<and> distinct (map ref_alias refs)
        \<and> (\<forall>i < length (sel_joins stmt). refs_ok (query_aliases D (take (i + 2) refs)) (on_condition (sel_joins stmt ! i)))
        \<and> (is_star stmt \<or> (\<forall>item \<in> set (select_items stmt). column_ok A (si_table item) (si_column item)))
        \<and> (\<forall>e. sel_where stmt = Some e \<longrightarrow> refs_ok A e))"

lemma fst_query_aliases [simp]: "map fst (query_aliases D refs) = map ref_alias refs"
  by (simp add: query_aliases_def comp_def)

lemma catalogs_ofD: "cat \<in> catalogs_of D \<Longrightarrow> GetSchema cat name = (case D name of
    None \<Rightarrow> Inl (CatalogError ''no such table'') | Some R \<Rightarrow> Inr (rel_schema R))"
  by (simp add: catalogs_of_def)

lemma TableExists_catalogs: "cat \<in> catalogs_of D \<Longrightarrow> TableExists cat name \<longleftrightarrow> D name \<noteq> None"
  using catalogs_ofD [of cat D name] by (auto simp: TableExists_def GetSchema_def Let_def split: option.splits if_splits)

lemma add_table_accepts:
  assumes "cat \<in> catalogs_of D" "distinct (map ref_alias refs)"
  shows "accepts (add_table cat ref (query_aliases D refs)) (query_aliases D (refs @ [ref]))
    (D (tr_table ref) \<noteq> None \<and> distinct (map ref_alias (refs @ [ref])))"
proof -
  have "map_of (query_aliases D refs) a = None \<longleftrightarrow> a \<notin> ref_alias ` set refs" for a
    by (simp add: map_of_eq_None_iff query_aliases_def image_image)
  then show ?thesis using assms TableExists_catalogs [OF assms(1)] catalogs_ofD [OF assms(1), of "tr_table ref"]
    by (auto simp: accepts_def add_table_def query_aliases_def)
qed

lemma validate_joins_accepts:
  assumes "cat \<in> catalogs_of D" "distinct (map ref_alias refs)"
  shows "accepts (validate_joins cat js (query_aliases D refs)) (query_aliases D (refs @ map jc_table js))
    ((\<forall>j \<in> set js. D (tr_table (jc_table j)) \<noteq> None) \<and> distinct (map ref_alias (refs @ map jc_table js))
      \<and> (\<forall>i < length js. refs_ok (query_aliases D (refs @ map jc_table (take (i + 1) js))) (on_condition (js ! i))))"
  using assms(2)
proof (induction js arbitrary: refs)
  case (Cons j js)
  let ?refs = "refs @ [jc_table j]"
  note A = add_table_accepts [OF assms(1) Cons.prems, of "jc_table j"]
  let ?here = "D (tr_table (jc_table j)) \<noteq> None \<and> distinct (map ref_alias ?refs)"
  let ?rest = "refs_ok (query_aliases D ?refs) (on_condition j) \<and>
       ((\<forall>j \<in> set js. D (tr_table (jc_table j)) \<noteq> None) \<and> distinct (map ref_alias (?refs @ map jc_table js))
      \<and> (\<forall>i < length js. refs_ok (query_aliases D (?refs @ map jc_table (take (i + 1) js))) (on_condition (js ! i))))"
  have "accepts (and_then (ValidateColumnRefsIn (on_condition j) (query_aliases D ?refs)) (\<lambda>_. validate_joins cat js (query_aliases D ?refs)))
      (query_aliases D (?refs @ map jc_table js)) ?rest" if ?here
    by (intro accepts_unit_then ValidateColumnRefsIn_accepts Cons.IH) (use that in \<open>simp_all only: fst_query_aliases\<close>)
  then have B: "accepts (validate_joins cat (j # js) (query_aliases D refs)) (query_aliases D (?refs @ map jc_table js)) (?here \<and> ?rest)"
    unfolding validate_joins.simps by (rule accepts_then [OF A])
  have "(\<forall>i < length (j # js). refs_ok (query_aliases D (refs @ map jc_table (take (i + 1) (j # js)))) (on_condition ((j # js) ! i)))
      \<longleftrightarrow> refs_ok (query_aliases D ?refs) (on_condition j)
        \<and> (\<forall>i < length js. refs_ok (query_aliases D (?refs @ map jc_table (take (i + 1) js))) (on_condition (js ! i)))"
    by (auto simp: less_Suc_eq_0_disj)
  moreover have "distinct (map ref_alias (?refs @ map jc_table js)) \<longrightarrow> distinct (map ref_alias ?refs)" by simp
  ultimately show ?case using B by (simp add: conj_ac)
qed simp

lemma ValidateSelect_accepts:
  assumes "cat \<in> catalogs_of D"
  shows "accepts (ValidateSelect stmt cat) () (select_ok D stmt)"
proof -
  let ?refs = "stmt_refs stmt" and ?A = "query_aliases D (stmt_refs stmt)" and ?js = "sel_joins stmt"
  have A0: "accepts (add_table cat (from_table stmt) []) (query_aliases D [from_table stmt]) (D (tr_table (from_table stmt)) \<noteq> None)"
    using add_table_accepts [OF assms, of "[]" "from_table stmt"] by (simp add: query_aliases_def)
  have J: "accepts (validate_joins cat ?js (query_aliases D [from_table stmt])) ?A
    ((\<forall>j \<in> set ?js. D (tr_table (jc_table j)) \<noteq> None) \<and> distinct (map ref_alias ?refs)
      \<and> (\<forall>i < length ?js. refs_ok (query_aliases D (take (i + 2) ?refs)) (on_condition (?js ! i))))"
    using validate_joins_accepts [OF assms, of "[from_table stmt]" ?js] by (simp add: stmt_refs_def take_map)
  let ?P = "is_star stmt \<or> (\<forall>item \<in> set (select_items stmt). column_ok ?A (si_table item) (si_column item))"
  have items: "accepts (if is_star stmt then Inr () else validate_items (select_items stmt) ?A) () ?P"
    if "distinct (map ref_alias ?refs)"
    using validate_items_accepts [of ?A "select_items stmt"] that by simp
  have wh: "accepts (case sel_where stmt of None \<Rightarrow> Inr () | Some e \<Rightarrow> ValidateColumnRefsIn e ?A) () (\<forall>e. sel_where stmt = Some e \<longrightarrow> refs_ok ?A e)"
    if "distinct (map ref_alias ?refs)"
    using ValidateColumnRefsIn_accepts [of ?A] that by (cases "sel_where stmt") simp_all
  have tail: "accepts (and_then (if is_star stmt then Inr () else validate_items (select_items stmt) ?A) (\<lambda>_.
      (case sel_where stmt of None \<Rightarrow> Inr () | Some e \<Rightarrow> ValidateColumnRefsIn e ?A))) ()
      (?P \<and> (\<forall>e. sel_where stmt = Some e \<longrightarrow> refs_ok ?A e))"
    if "distinct (map ref_alias ?refs)" by (rule accepts_unit_then [OF items [OF that] wh [OF that]])
  have "accepts (ValidateSelect stmt cat) () (D (tr_table (from_table stmt)) \<noteq> None \<and>
    (((\<forall>j \<in> set ?js. D (tr_table (jc_table j)) \<noteq> None) \<and> distinct (map ref_alias ?refs)
      \<and> (\<forall>i < length ?js. refs_ok (query_aliases D (take (i + 2) ?refs)) (on_condition (?js ! i))))
     \<and> ?P \<and> (\<forall>e. sel_where stmt = Some e \<longrightarrow> refs_ok ?A e)))"
    unfolding ValidateSelect_def by (rule accepts_then [OF A0], rule accepts_then [OF J], rule tail) simp
  moreover have "select_ok D stmt \<longleftrightarrow> D (tr_table (from_table stmt)) \<noteq> None \<and>
    (((\<forall>j \<in> set ?js. D (tr_table (jc_table j)) \<noteq> None) \<and> distinct (map ref_alias ?refs)
      \<and> (\<forall>i < length ?js. refs_ok (query_aliases D (take (i + 2) ?refs)) (on_condition (?js ! i))))
     \<and> ?P \<and> (\<forall>e. sel_where stmt = Some e \<longrightarrow> refs_ok ?A e))"
    unfolding select_ok_def Let_def stmt_refs_def list.set set_map ball_simps by blast
  ultimately show ?thesis by simp
qed

section \<open>Queries that can be planned\<close>

text \<open>Every ON condition is qualified and does not compare two columns of one table.\<close>
definition qualified_query :: "SelectStmt \<Rightarrow> bool" where
  "qualified_query stmt \<longleftrightarrow> (\<forall>j \<in> set (sel_joins stmt). fully_qualified (on_condition j) \<and> \<not> self_equi (on_condition j))"

lemma stmt_nodes_refs: "map tn_alias (stmt_nodes stmt) = map ref_alias (stmt_refs stmt)" "map tn_table (stmt_nodes stmt) = map tr_table (stmt_refs stmt)"
  by (simp_all add: stmt_nodes_def stmt_refs_def table_node_def comp_def)

lemma stmt_nodes_join:
  "0 < k \<Longrightarrow> k < length (stmt_nodes stmt) \<Longrightarrow> join_condition (stmt_nodes stmt ! k) = Some (on_condition (sel_joins stmt ! (k - 1)))
    \<and> k - 1 < length (sel_joins stmt)"
  by (cases k) (auto simp: stmt_nodes_def table_node_def)

lemma select_okD:
  assumes "select_ok D stmt"
  shows "nd \<in> set (stmt_nodes stmt) \<Longrightarrow> D (tn_table nd) \<noteq> None" "distinct (map tn_alias (stmt_nodes stmt))"
    "i < length (sel_joins stmt) \<Longrightarrow> refs_ok (query_aliases D (take (i + 2) (stmt_refs stmt))) (on_condition (sel_joins stmt ! i))"
proof -
  have ok: "\<forall>ref \<in> set (stmt_refs stmt). D (tr_table ref) \<noteq> None" "distinct (map ref_alias (stmt_refs stmt))"
    "\<forall>i < length (sel_joins stmt). refs_ok (query_aliases D (take (i + 2) (stmt_refs stmt))) (on_condition (sel_joins stmt ! i))"
    using assms unfolding select_ok_def Let_def by blast+
  show "distinct (map tn_alias (stmt_nodes stmt))" using ok(2) unfolding stmt_nodes_refs .
  show "i < length (sel_joins stmt) \<Longrightarrow> refs_ok (query_aliases D (take (i + 2) (stmt_refs stmt))) (on_condition (sel_joins stmt ! i))"
    using ok(3) by blast
  have "tn_table ` set (stmt_nodes stmt) = tr_table ` set (stmt_refs stmt)" using stmt_nodes_refs(2) by (metis list.set_map)
  then show "nd \<in> set (stmt_nodes stmt) \<Longrightarrow> D (tn_table nd) \<noteq> None" using ok(1) by (metis image_iff)
qed

lemma select_ok_plannable: "select_ok D stmt \<Longrightarrow> plannable D (stmt_nodes stmt)"
  unfolding plannable_def using select_okD(1) stmt_nodes_join by fastforce

lemma select_ok_tables:
  assumes "select_ok D stmt"
  shows "joins_tables (row_tables D) (stmt_nodes stmt)"
proof -
  have "join_condition (stmt_nodes stmt ! 0) = None" "stmt_nodes stmt \<noteq> []" by (simp_all add: stmt_nodes_def table_node_def)
  moreover have "join_condition (stmt_nodes stmt ! k) \<noteq> None" if "0 < k" "k < length (stmt_nodes stmt)" for k
    using stmt_nodes_join [OF that] by simp
  ultimately show ?thesis using select_okD(1,2) [OF assms] by (auto simp: joins_tables_def row_tables_def)
qed

lemma select_ok_joinable:
  assumes "select_ok D stmt" "qualified_query stmt"
  shows "joinable (row_tables D) (stmt_nodes stmt)"
proof -
  let ?n = "stmt_nodes stmt" and ?refs = "stmt_refs stmt"
  have "fully_qualified c \<and> \<not> self_equi c \<and> expr_tables c \<subseteq> (\<lambda>j. tn_alias (?n ! j)) ` {..k}"
    if k: "k < length ?n" "join_condition (?n ! k) = Some c" for k c
  proof -
    have k0: "0 < k" using k(2) by (cases k) (simp_all add: stmt_nodes_def table_node_def)
    have j: "c = on_condition (sel_joins stmt ! (k - 1))" "k - 1 < length (sel_joins stmt)" using stmt_nodes_join [OF k0 k(1)] k(2) by simp_all
    have "t \<in> (\<lambda>j. tn_alias (?n ! j)) ` {..k}" if t: "t \<in> expr_tables c" for t
    proof -
      obtain col where "(Some t, col) \<in> column_refs c" using t by (auto simp: expr_tables_refs)
      then have "column_ok (query_aliases D (take (k - 1 + 2) ?refs)) (Some t) col"
        using select_okD(3) [OF assms(1) j(2)] j(1) unfolding refs_ok_def by blast
      then have "t \<in> ref_alias ` set (take (Suc k) ?refs)" using k0 by (auto simp: column_ok_def query_aliases_def)
      then have "t \<in> set (take (Suc k) (map tn_alias ?n))" unfolding stmt_nodes_refs take_map set_map .
      then show ?thesis using k(1) by (auto simp: in_set_conv_nth less_Suc_eq_le)
    qed
    then show ?thesis using j assms(2) nth_mem [OF j(2)] unfolding qualified_query_def by blast
  qed
  then show ?thesis using select_ok_tables [OF assms(1)] unfolding joinable_def by blast
qed

section \<open>INSERT\<close>

text \<open>
  The row an INSERT means: its values in the order of the columns, or each under its name when the
  statement lists all columns of the table, each once.
\<close>
definition inserts :: "InsertStmt \<Rightarrow> TableSchema \<Rightarrow> Value list \<Rightarrow> bool" where
  "inserts st sch row \<longleftrightarrow>
     (let n = length (columns sch); names = ins_columns st; vals = map LiteralToValue (ins_values st) in
        length row = n \<and> length vals = n
        \<and> (if names = [] then row = vals
            else length names = n \<and> distinct names
              \<and> (\<forall>j < n. \<exists>i < n. cd_name (columns sch ! i) = names ! j \<and> row ! i = vals ! j)))"

lemma inserts_unique:
  assumes "inserts st sch row" "inserts st sch row'"
  shows "row = row'"
proof (cases "ins_columns st = []")
  case True
  then show ?thesis using assms by (simp add: inserts_def Let_def)
next
  case False
  let ?n = "length (columns sch)" and ?N = "map cd_name (columns sch)" and ?cs = "ins_columns st"
  note A = assms(1) [unfolded inserts_def Let_def if_not_P [OF False]] and B = assms(2) [unfolded inserts_def Let_def if_not_P [OF False]]
  have I: "length ?cs = ?n" "distinct ?cs" "length row = ?n" "length row' = ?n" using A B by blast+
  have at: "j < ?n \<Longrightarrow> \<exists>i < ?n. ?N ! i = ?cs ! j \<and> row ! i = map LiteralToValue (ins_values st) ! j"
    "j < ?n \<Longrightarrow> \<exists>i < ?n. ?N ! i = ?cs ! j \<and> row' ! i = map LiteralToValue (ins_values st) ! j" for j
    using A B by (metis nth_map)+
  have sub: "set ?cs \<subseteq> set ?N" using I(1) at(1) by (metis in_set_conv_nth length_map nth_mem subsetI)
  have "card (set ?N) \<le> card (set ?cs)" using card_length [of ?N] distinct_card [OF I(2)] I(1) by simp
  then have eq: "set ?cs = set ?N" using sub by (simp add: card_seteq)
  then have "distinct ?N" using distinct_card [OF I(2)] I(1) by (intro card_distinct) simp
  then have inj: "i < ?n \<Longrightarrow> i' < ?n \<Longrightarrow> ?N ! i = ?N ! i' \<Longrightarrow> i = i'" for i i' by (simp only: nth_eq_iff_index_eq length_map)
  have "row ! i = row' ! i" if i: "i < ?n" for i
  proof -
    have "?N ! i \<in> set ?cs" unfolding eq using i by (metis length_map nth_mem)
    then obtain j where "j < ?n" "?cs ! j = ?N ! i" using I(1) by (metis in_set_conv_nth)
    then show ?thesis using at [of j] inj [OF i] by metis
  qed
  then show ?thesis using I(3,4) by (simp add: nth_equalityI)
qed

lemma validate_insert_columns_accepts:
  "accepts (validate_insert_columns sch names seen) () ((\<forall>c \<in> set names. has_column sch c) \<and> distinct names \<and> set names \<inter> seen = {})"
proof (induction names arbitrary: seen)
  case (Cons c names)
  show ?case using Cons.IH [of "insert c seen"] by (auto simp: ColumnIndex_has accepts_def split: if_splits)
qed (simp add: accepts_def)

lemma ColumnIndex_at:
  assumes "has_column sch c"
  shows "\<exists>i. ColumnIndex sch c = int i \<and> i < length (columns sch) \<and> cd_name (columns sch ! i) = c"
proof (cases "index_where (\<lambda>cd. cd_name cd = c) (columns sch)")
  case None
  then show ?thesis using assms ColumnIndex_has [of sch c] by (simp add: ColumnIndex_def)
next
  case (Some i)
  then have "i < length (columns sch) \<and> cd_name (columns sch ! i) = c" by (simp add: index_where_Some)
  then show ?thesis using Some by (simp add: ColumnIndex_def)
qed

lemma place_values_row:
  assumes "\<forall>c \<in> set cs. has_column sch c" "distinct cs" "length ls = length cs" "length vs = length (columns sch)"
  shows "\<exists>row. place_values sch cs ls vs = Inr row \<and> length row = length (columns sch)
    \<and> (\<forall>j < length cs. row ! nat (ColumnIndex sch (cs ! j)) = LiteralToValue (ls ! j))
    \<and> (\<forall>i. (\<forall>c \<in> set cs. ColumnIndex sch c \<noteq> int i) \<longrightarrow> row ! i = vs ! i)"
  using assms
proof (induction cs arbitrary: ls vs)
  case (Cons c cs)
  obtain l ls' where ls: "ls = l # ls'" using Cons.prems(3) by (cases ls) auto
  obtain i where i: "ColumnIndex sch c = int i" "i < length (columns sch)" "cd_name (columns sch ! i) = c"
    using ColumnIndex_at Cons.prems(1) by auto
  have other: "ColumnIndex sch c' \<noteq> int i" if "c' \<in> set cs" for c'
    using ColumnIndex_at [of sch c'] i(3) Cons.prems(1,2) that by auto
  obtain row where row: "place_values sch cs ls' (vs[i := LiteralToValue l]) = Inr row" "length row = length (columns sch)"
    "\<forall>j < length cs. row ! nat (ColumnIndex sch (cs ! j)) = LiteralToValue (ls' ! j)"
    "\<forall>i'. (\<forall>c \<in> set cs. ColumnIndex sch c \<noteq> int i') \<longrightarrow> row ! i' = vs[i := LiteralToValue l] ! i'"
    using Cons.IH [of ls' "vs[i := LiteralToValue l]"] Cons.prems ls by auto
  have "row ! i = LiteralToValue l" using row(4) other i(2) Cons.prems(4) by simp
  then have "\<forall>j < length (c # cs). row ! nat (ColumnIndex sch ((c # cs) ! j)) = LiteralToValue (ls ! j)"
    using row(3) ls i(1) by (auto simp: less_Suc_eq_0_disj)
  moreover have "\<forall>i'. (\<forall>c \<in> set (c # cs). ColumnIndex sch c \<noteq> int i') \<longrightarrow> row ! i' = vs ! i'"
    using row(4) i(1) by auto
  ultimately show ?case using row(1,2) ls i(1) by (intro exI [of _ row]) simp
qed simp

definition insert_shape :: "InsertStmt \<Rightarrow> TableSchema \<Rightarrow> bool" where
  "insert_shape st sch \<longleftrightarrow>
     (if ins_columns st = [] then length (ins_values st) = length (columns sch)
      else length (ins_columns st) = length (columns sch) \<and> length (ins_columns st) = length (ins_values st)
        \<and> (\<forall>c \<in> set (ins_columns st). has_column sch c) \<and> distinct (ins_columns st))"

lemma insert_shape_row:
  assumes "insert_shape st sch"
  shows "\<exists>row. insert_values st sch = Inr row \<and> inserts st sch row"
proof (cases "ins_columns st = []")
  case True
  then show ?thesis using assms by (simp add: insert_shape_def insert_values_def inserts_def Let_def)
next
  case False
  let ?cs = "ins_columns st" and ?n = "length (columns sch)"
  have cs: "\<forall>c \<in> set ?cs. has_column sch c" "distinct ?cs" "length (ins_values st) = length ?cs" "length ?cs = ?n"
    using assms False by (simp_all add: insert_shape_def)
  obtain row where row: "place_values sch ?cs (ins_values st) (replicate ?n (IntV 0)) = Inr row" "length row = ?n"
    "\<forall>j < ?n. row ! nat (ColumnIndex sch (?cs ! j)) = LiteralToValue (ins_values st ! j)"
    using place_values_row [OF cs(1-3), of "replicate ?n (IntV 0)"] cs(4) by auto
  have "\<exists>i < ?n. cd_name (columns sch ! i) = ?cs ! j \<and> row ! i = map LiteralToValue (ins_values st) ! j" if j: "j < ?n" for j
  proof -
    obtain i where i: "ColumnIndex sch (?cs ! j) = int i" "i < ?n" "cd_name (columns sch ! i) = ?cs ! j"
      using ColumnIndex_at cs(1,4) j by (metis nth_mem)
    have "row ! i = LiteralToValue (ins_values st ! j)" using row(3) j i(1) by (metis nat_int)
    then show ?thesis using i(2,3) j cs(3,4) by (intro exI [of _ i]) simp
  qed
  then show ?thesis using row(1,2) cs False by (simp add: insert_values_def inserts_def Let_def)
qed

lemma inserts_shape: "(\<exists>row. inserts st sch row) \<longleftrightarrow> insert_shape st sch"
proof
  assume "\<exists>row. inserts st sch row"
  then obtain row where row: "inserts st sch row" by blast
  show "insert_shape st sch"
  proof (cases "ins_columns st = []")
    case True
    then show ?thesis using row by (simp add: insert_shape_def inserts_def Let_def)
  next
    case False
    note A = row [unfolded inserts_def Let_def if_not_P [OF False]]
    have "has_column sch c" if c: "c \<in> set (ins_columns st)" for c
    proof -
      have "length (ins_columns st) = length (columns sch)" using A by blast
      then obtain j where "j < length (columns sch)" "c = ins_columns st ! j" using c by (auto simp: in_set_conv_nth)
      then obtain i where "i < length (columns sch)" "cd_name (columns sch ! i) = c" using A by blast
      then show ?thesis unfolding has_column_def by (metis image_eqI nth_mem)
    qed
    then have "\<forall>c \<in> set (ins_columns st). has_column sch c" by blast
    moreover have "length (ins_columns st) = length (columns sch)" "length (map LiteralToValue (ins_values st)) = length (columns sch)" "distinct (ins_columns st)"
      using A by blast+
    ultimately show ?thesis using False unfolding insert_shape_def by simp
  qed
next
  assume "insert_shape st sch"
  then show "\<exists>row. inserts st sch row" using insert_shape_row by blast
qed

lemma insert_values_row: "inserts st sch row \<Longrightarrow> insert_values st sch = Inr row"
  using insert_shape_row inserts_shape inserts_unique by metis

lemma ValidateInsert_accepts:
  assumes "cat \<in> catalogs_of D"
  shows "accepts (ValidateInsert st cat) () (\<exists>R row. D (ins_table_name st) = Some R \<and> inserts st (rel_schema R) row)"
proof (cases "D (ins_table_name st)")
  case None
  then show ?thesis using TableExists_catalogs [OF assms, of "ins_table_name st"] by (simp add: ValidateInsert_def accepts_def)
next
  case (Some R)
  let ?sch = "rel_schema R"
  have "GetSchema cat (ins_table_name st) = Inr ?sch" using catalogs_ofD [OF assms, of "ins_table_name st"] Some by simp
  then have "accepts (ValidateInsert st cat) () (insert_shape st ?sch)"
    using TableExists_catalogs [OF assms, of "ins_table_name st"] Some validate_insert_columns_accepts [of ?sch "ins_columns st" "{}"]
    by (auto simp: ValidateInsert_def insert_shape_def accepts_def)
  then show ?thesis unfolding inserts_shape [symmetric] using Some by simp
qed

end
