(* ===== verification/Parser_Names.thy ===== *)
theory Parser_Names
  imports Parser
begin

text \<open>
  The names in a statement of the parser are identifiers of the lexer: they hold letters, digits
  and underscores, so in particular no character 0, which ends a name in a slot of the catalog.
\<close>

section \<open>Identifiers of the lexer\<close>

definition clean_token :: "Token \<Rightarrow> bool" where
  "clean_token t \<longleftrightarrow> tok_type t = IDENTIFIER \<longrightarrow> CHR 0x00 \<notin> set (tok_text t)"

abbreviation clean :: "Token list \<Rightarrow> bool" where
  "clean ts \<equiv> ts \<noteq> [] \<and> list_all clean_token ts"

lemma advance_while_chars: "fst (advance_while P lx acc) = acc' \<Longrightarrow> c \<in> set acc' \<Longrightarrow> c \<in> set acc \<or> P c"
proof (induction P lx acc rule: advance_while.induct)
  case (1 P lx acc)
  then show ?case by (subst (asm) (2) advance_while.simps) (auto split: if_splits)
qed

lemma lex_token_clean:
  assumes "lex_token lx = Inr (t, lx')"
  shows "clean_token t"
proof -
  have "\<not> isalnum (CHR 0x00)" by code_simp
  then have "clean_token (fst (LexIdentifierOrKeyword lx))"
    using advance_while_chars [of "\<lambda>c. isalnum c \<or> c = CHR ''_''" lx "[]" _ "CHR 0x00"]
    by (auto simp: LexIdentifierOrKeyword_def clean_token_def split: prod.split)
  then show ?thesis using assms
    by (auto simp: lex_token_def LexNumber_def LexString_def lex_punctuation_def MakeToken_def Let_def clean_token_def
        split: if_splits prod.splits sum.splits)
qed

lemma tokenize_loop_clean: "tokenize_loop lx tokens = Inr ts \<Longrightarrow> list_all clean_token tokens \<Longrightarrow> clean ts"
proof (induction lx tokens rule: tokenize_loop.induct)
  case (1 lx tokens)
  show ?case
  proof (cases "IsAtEnd (SkipWhitespace lx)")
    case True
    then show ?thesis using 1(2,3) by (subst (asm) tokenize_loop.simps) (auto simp: clean_token_def Let_def)
  next
    case False
    then obtain t lx2 where t: "lex_token (SkipWhitespace lx) = Inr (t, lx2)"
      using 1(2) by (subst (asm) tokenize_loop.simps) (auto simp: Let_def split: sum.splits)
    have "tokenize_loop lx2 (tokens @ [t]) = Inr ts"
      using 1(2) False t by (subst (asm) tokenize_loop.simps) simp
    then show ?thesis using 1(1) [OF refl False t refl] 1(3) lex_token_clean [OF t] by simp
  qed
qed

section \<open>Names of the parser\<close>

text \<open>A parser whose results satisfy \<open>P\<close>, on clean tokens, and which leaves clean tokens.\<close>
definition gives :: "('a \<Rightarrow> bool) \<Rightarrow> 'a parser \<Rightarrow> bool" where
  "gives P p \<longleftrightarrow> (\<forall>ts x ts'. clean ts \<longrightarrow> p ts = Some (Inr (x, ts')) \<longrightarrow> P x \<and> clean ts')"

text \<open>Whose results satisfy \<open>P\<close> whatever the tokens are.\<close>
definition always :: "('a \<Rightarrow> bool) \<Rightarrow> 'a parser \<Rightarrow> bool" where
  "always P p \<longleftrightarrow> (\<forall>ts x ts'. p ts = Some (Inr (x, ts')) \<longrightarrow> P x)"

lemma pbind_Inr: "pbind p f ts = Some (Inr y) \<longleftrightarrow> (\<exists>x ts1. p ts = Some (Inr (x, ts1)) \<and> f x ts1 = Some (Inr y))"
  by (auto simp: pbind_def split: option.split sum.split)

lemma gives_bind: "gives P p \<Longrightarrow> (\<And>x. P x \<Longrightarrow> gives Q (f x)) \<Longrightarrow> gives Q (pbind p f)"
  unfolding gives_def pbind_Inr by blast

lemma always_bind: "(\<And>x. always P (f x)) \<Longrightarrow> always P (pbind p f)"
  unfolding always_def pbind_Inr by blast

lemma always_if: "always P p \<Longrightarrow> always P q \<Longrightarrow> always P (if b then p else q)"
  by simp

lemma gives_if: "(b \<Longrightarrow> gives P p) \<Longrightarrow> (\<not> b \<Longrightarrow> gives P q) \<Longrightarrow> gives P (if b then p else q)"
  by simp

lemma gives_ret: "P x \<Longrightarrow> gives P (ret x)"
  by (simp add: gives_def ret_def)

lemma always_ret: "P x \<Longrightarrow> always P (ret x)"
  by (simp add: always_def ret_def)

lemma clean_Advance: "clean ts \<Longrightarrow> clean (AdvanceToken ts)"
  by (cases ts; cases "tl ts") (auto simp: AdvanceToken_def)

lemma gives_Match: "gives (\<lambda>_. True) (Match ty)"
  by (auto simp: gives_def Match_def ret_def clean_Advance)

lemma gives_Expect: "gives (\<lambda>_. True) (Expect ty w)"
  by (auto simp: gives_def Expect_def Error_def ret_def clean_Advance)

lemma gives_Error: "gives P (Error w)"
  by (simp add: gives_def Error_def)

abbreviation clean_name :: "string \<Rightarrow> bool" where
  "clean_name n \<equiv> CHR 0x00 \<notin> set n"

lemma gives_ParseIdent: "gives clean_name ParseIdent"
  unfolding gives_def
proof (intro allI impI)
  fix ts x ts' assume ts: "clean ts" "ParseIdent ts = Some (Inr (x, ts'))"
  then have p: "Check IDENTIFIER ts" "x = tok_text (PeekToken ts)" "ts' = AdvanceToken ts"
    by (auto simp: ParseIdent_def pbind_def Expect_def Error_def ret_def split: if_splits)
  then show "clean_name x \<and> clean ts'"
    using ts(1) clean_Advance [OF ts(1)] by (cases ts) (auto simp: Check_def PeekToken_def clean_token_def)
qed

abbreviation clean_column :: "ColumnDef \<Rightarrow> bool" where
  "clean_column c \<equiv> clean_name (cd_name c)"

lemma gives_ParseTypeName: "gives (\<lambda>_. True) ParseTypeName"
  unfolding ParseTypeName_def by (intro gives_bind [OF gives_Match] gives_if gives_ret gives_Error TrueI)

lemma gives_ParseColumnDef: "gives clean_column ParseColumnDef"
  unfolding ParseColumnDef_def
  by (intro gives_bind [OF gives_ParseIdent] gives_bind [OF gives_ParseTypeName] gives_bind [OF gives_Match] gives_bind [OF gives_Expect]
      gives_if gives_ret) simp_all

lemma gives_comma_loop: "gives P p \<Longrightarrow> list_all P xs \<Longrightarrow> gives (list_all P) (comma_loop n p xs)"
proof (induction n arbitrary: xs)
  case 0
  show ?case by (simp add: gives_def)
next
  case (Suc n)
  show ?case unfolding comma_loop.simps
    by (intro gives_bind [OF gives_Match] gives_if gives_bind [OF Suc.prems(1)] Suc.IH gives_ret) (use Suc.prems in simp_all)
qed

fun clean_statement :: "Statement \<Rightarrow> bool" where
  "clean_statement (CreateTable st) \<longleftrightarrow> clean_name (ct_table_name st) \<and> list_all clean_column (ct_columns st)"
| "clean_statement _ \<longleftrightarrow> True"

lemma gives_ParseCreateTable: "gives clean_statement (ParseCreateTable n)"
proof -
  have cols: "gives (list_all clean_column) (comma_list n ParseColumnDef)"
    unfolding comma_list_def by (intro gives_bind [OF gives_ParseColumnDef] gives_comma_loop gives_ParseColumnDef) simp
  show ?thesis unfolding ParseCreateTable_def
    by (intro gives_bind [OF gives_Expect] gives_bind [OF gives_ParseIdent] gives_bind [OF cols] gives_ret) simp
qed

lemma clean_ParseStatement:
  assumes "ParseStatement n ts = Some (Inr (stmt, ts'))" "clean ts"
  shows "clean_statement stmt"
proof -
  let ?rule = "if_check CREATE (ParseCreateTable n) (if_check INSERT (ParseInsert n) (if_check SELECT (ParseSelect n)
    (Error ''expected a statement starting with CREATE, INSERT, or SELECT'')))"
  obtain st ts1 where st: "?rule ts = Some (Inr (st, ts1))" and stmt: "stmt = st"
    using assms(1) by (auto simp: ParseStatement_def pbind_Inr ret_def)
  have "always clean_statement (ParseInsert n)" "always clean_statement (ParseSelect n)"
    unfolding ParseInsert_def ParseSelect_def by (intro always_bind always_ret, simp)+
  then have other: "ParseInsert n ts = Some (Inr (st, ts1)) \<Longrightarrow> clean_statement st" "ParseSelect n ts = Some (Inr (st, ts1)) \<Longrightarrow> clean_statement st"
    unfolding always_def by blast+
  have "ParseCreateTable n ts = Some (Inr (st, ts1)) \<Longrightarrow> clean_statement st"
    using gives_ParseCreateTable [of n] assms(2) unfolding gives_def by blast
  then show ?thesis using st other unfolding stmt if_check_def Error_def by (simp split: if_splits)
qed

lemma clean_ParseSQL:
  assumes "ParseSQL sql = Some (Inr stmt)"
  shows "clean_statement stmt"
proof -
  obtain ts where ts: "tokenize_loop (Lexer_new sql) [] = Inr ts" "ParseTokens ts = Some (Inr stmt)"
    using assms by (auto simp: ParseSQL_def Tokenize_def split: sum.splits)
  then obtain r where r: "ParseStatement (parse_fuel ts) ts = Some r" "map_sum id fst r = Inr stmt" by (auto simp: ParseTokens_def)
  then obtain ts' where "ParseStatement (parse_fuel ts) ts = Some (Inr (stmt, ts'))" by (cases r) auto
  then show ?thesis using clean_ParseStatement tokenize_loop_clean [OF ts(1)] by simp
qed

end
