(* ===== verification/Engine_Contract.thy ===== *)
theory Engine_Contract
  imports Sql_Validation Parser_Names Parser_Termination
begin

text \<open>
  What the SQL engine promises, over tables without pages: what each statement answers and what it
  makes of the tables, and that the engine does so, statement by statement and across restarts.
\<close>

section \<open>Statements over tables\<close>

definition new_relation :: "TableSchema \<Rightarrow> Relation" where
  "new_relation sch = \<lparr>rel_schema = sch, rel_rows = [], rel_count = 0\<rparr>"

text \<open>A row replaces the one with its key; the count goes up either way.\<close>
definition with_row :: "i64 \<Rightarrow> Value list \<Rightarrow> Relation \<Rightarrow> Relation" where
  "with_row k row R = R\<lparr>rel_rows := upd_entry k row (rel_rows R), rel_count := rel_count R + 1\<rparr>"

text \<open>
  A statement that is refused changes nothing; an accepted \<open>SELECT\<close> answers as \<open>select_outcome\<close> says, and
  changes nothing either.
\<close>
inductive sql_result :: "relations \<Rightarrow> Statement \<Rightarrow> QueryResult res \<Rightarrow> relations \<Rightarrow> bool" for D where
  created: "creatable (ct_table_name st) (ct_columns st) \<Longrightarrow> D (ct_table_name st) = None \<Longrightarrow> card (dom D) < MAX_CATALOG_TABLES \<Longrightarrow>
    sql_result D (CreateTable st) (Inr no_rows)
      (D(ct_table_name st \<mapsto> new_relation \<lparr>table_name = ct_table_name st, columns = ct_columns st\<rparr>))"
| not_created: "\<not> (creatable (ct_table_name st) (ct_columns st) \<and> D (ct_table_name st) = None \<and> card (dom D) < MAX_CATALOG_TABLES) \<Longrightarrow>
    sql_result D (CreateTable st) (Inl (CatalogError msg)) D"
| inserted: "D (ins_table_name st) = Some R \<Longrightarrow> inserts st (rel_schema R) row \<Longrightarrow> row_of (rel_schema R) k row \<Longrightarrow>
    sql_result D (Insert st) (Inr no_rows) (D(ins_table_name st \<mapsto> with_row k row R))"
| no_such_row: "\<nexists>R row. D (ins_table_name st) = Some R \<and> inserts st (rel_schema R) row \<Longrightarrow>
    sql_result D (Insert st) (Inl (SemanticError msg)) D"
| not_storable: "D (ins_table_name st) = Some R \<Longrightarrow> inserts st (rel_schema R) row \<Longrightarrow> \<nexists>k. row_of (rel_schema R) k row \<Longrightarrow>
    e = CatalogError msg \<or> e = RowEncodingError msg \<Longrightarrow> sql_result D (Insert st) (Inl e) D"
| selected: "select_ok D st \<Longrightarrow> select_outcome (row_tables D) st a \<Longrightarrow> sql_result D (Select st) a D"
| not_selected: "\<not> select_ok D st \<Longrightarrow> sql_result D (Select st) (Inl (SemanticError msg)) D"

inductive_cases sql_result_CreateTable: "sql_result D (CreateTable st) a D'"
inductive_cases sql_result_Insert: "sql_result D (Insert st) a D'"
inductive_cases sql_result_Select: "sql_result D (Select st) a D'"

section \<open>Slots and tables\<close>

lemma relations_of_update:
  assumes "slot_of slots name = Some i" "slots ! i = Some (sch, T, cnt)" "i < length slots"
  shows "relations_of (slots[i := Some (sch, T', cnt')])
    = (relations_of slots)(name \<mapsto> \<lparr>rel_schema = sch, rel_rows = decoded sch (entries T'), rel_count = cnt'\<rparr>)"
proof
  fix nm
  have same: "slot_of (slots[i := Some (sch, T', cnt')]) nm = slot_of slots nm"
    by (rule index_where_cong) (use assms(2,3) in \<open>auto simp: nth_list_update\<close>)
  have name: "table_name sch = name" using assms(1,2) by (simp add: index_where_Some)
  show "relations_of (slots[i := Some (sch, T', cnt')]) nm
    = ((relations_of slots)(name \<mapsto> \<lparr>rel_schema = sch, rel_rows = decoded sch (entries T'), rel_count = cnt'\<rparr>)) nm"
  proof (cases "nm = name")
    case True
    then show ?thesis using same assms(1,3) by (simp add: relations_of_def)
  next
    case False
    have "j \<noteq> i" if "slot_of slots nm = Some j" for j
      using that False name assms(2) by (auto simp: index_where_Some)
    then show ?thesis using same False by (cases "slot_of slots nm") (simp_all add: relations_of_def)
  qed
qed

lemma relations_of_create:
  assumes "slot_of slots (table_name sch) = None" "slots ! i = None" "i < length slots"
  shows "relations_of (slots[i := Some (sch, BLeaf r [], 0)]) = (relations_of slots)(table_name sch \<mapsto> new_relation sch)"
proof
  fix nm
  have fresh: "slot_name (slots ! j) \<noteq> Some (table_name sch)" if "j < length slots" for j
    using assms(1) that nth_mem [OF that] by (auto simp: index_where_None)
  let ?s = "slots[i := Some (sch, BLeaf r [], 0)]"
  show "relations_of ?s nm = ((relations_of slots)(table_name sch \<mapsto> new_relation sch)) nm"
  proof (cases "nm = table_name sch")
    case True
    have "slot_of ?s nm = Some i" using True assms(3) fresh by (auto simp: index_where_Some nth_list_update)
    then show ?thesis using True assms(3) by (simp add: relations_of_def new_relation_def decoded_def)
  next
    case False
    have same: "slot_of ?s nm = slot_of slots nm"
      by (rule index_where_cong) (use False assms(2,3) in \<open>auto simp: nth_list_update\<close>)
    have "j \<noteq> i" if "slot_of slots nm = Some j" for j
      using that assms(2) by (auto simp: index_where_Some)
    then show ?thesis using same False by (cases "slot_of slots nm") (simp_all add: relations_of_def)
  qed
qed

text \<open>How many page ids and LSNs a statement may use up, in a file of so many pages.\<close>
fun stmt_cost :: "Statement \<Rightarrow> nat \<Rightarrow> nat" where
  "stmt_cost (Select st) pages = select_cost (length (stmt_nodes st)) pages"
| "stmt_cost _ pages = 104"

context page_store
begin

lemma free_slot_dom:
  assumes "catalog_is s cat slots"
  shows "index_where (\<lambda>sl. sl = None) slots = None \<longleftrightarrow> \<not> card (dom (relations_of slots)) < MAX_CATALOG_TABLES"
proof -
  note D = catalog_isD [OF assms]
  let ?I = "{i. i < MAX_CATALOG_TABLES \<and> slots ! i \<noteq> None}" and ?f = "\<lambda>i. the (slot_name (slots ! i))"
  have named: "slot_name (slots ! i) \<noteq> None" if "i \<in> ?I" for i using that by (cases "slots ! i") auto
  have "inj_on ?f ?I"
  proof (rule inj_onI)
    fix i j assume ij: "i \<in> ?I" "j \<in> ?I" "?f i = ?f j"
    then have eq: "slot_name (slots ! i) = slot_name (slots ! j)" using named [OF ij(1)] named [OF ij(2)] by auto
    show "i = j"
    proof (rule ccontr)
      assume "i \<noteq> j"
      then have "slot_name (slots ! i) \<noteq> slot_name (slots ! j)"
        by (intro slot_names_differ [OF assms _ _ _ named [OF ij(2)]]) (use ij in simp_all)
      then show False using eq by contradiction
    qed
  qed
  then have card: "card (?f ` ?I) = card ?I" by (rule card_image)
  have "dom (relations_of slots) = ?f ` ?I"
  proof (intro set_eqI iffI)
    fix nm assume "nm \<in> dom (relations_of slots)"
    then obtain i where i: "slot_of slots nm = Some i" using relations_slot(1) [OF assms, of nm] by auto
    then have "i < MAX_CATALOG_TABLES" "slot_name (slots ! i) = Some nm" using D(2) by (simp_all add: index_where_Some)
    then show "nm \<in> ?f ` ?I" by (cases "slots ! i") (auto intro!: image_eqI [of _ _ i])
  next
    fix nm assume "nm \<in> ?f ` ?I"
    then obtain i where i: "i \<in> ?I" "slot_name (slots ! i) = Some nm" using named by fastforce
    then have "slots ! i \<in> set slots" using D(2) by (intro nth_mem) simp
    then have "slot_of slots nm \<noteq> None" using i(2) by (auto simp: index_where_None simp del: not_None_eq)
    then show "nm \<in> dom (relations_of slots)" using relations_slot(1) [OF assms, of nm] by auto
  qed
  then have c: "card (dom (relations_of slots)) = card ?I" using card by simp
  have sub: "?I \<subseteq> {..<MAX_CATALOG_TABLES}" by auto
  have "index_where (\<lambda>sl. sl = None) slots = None \<longleftrightarrow> (\<forall>i < MAX_CATALOG_TABLES. slots ! i \<noteq> None)"
    using D(2) by (simp add: index_where_None all_set_conv_all_nth del: not_None_eq)
  also have "\<dots> \<longleftrightarrow> ?I = {..<MAX_CATALOG_TABLES}" by blast
  also have "\<dots> \<longleftrightarrow> \<not> card ?I < MAX_CATALOG_TABLES"
  proof
    assume "?I = {..<MAX_CATALOG_TABLES}"
    then show "\<not> card ?I < MAX_CATALOG_TABLES" by (simp only: card_lessThan less_irrefl not_False_eq_True)
  next
    assume n: "\<not> card ?I < MAX_CATALOG_TABLES"
    have "card ?I \<le> card {..<MAX_CATALOG_TABLES}" by (rule card_mono [OF finite_lessThan sub])
    then have "card ?I = card {..<MAX_CATALOG_TABLES}" using n by (simp only: card_lessThan)
    then show "?I = {..<MAX_CATALOG_TABLES}" by (rule card_subset_eq [OF finite_lessThan sub])
  qed
  finally show ?thesis using c by simp
qed

section \<open>One statement\<close>

lemma leaf_bound_count:
  assumes "catalog_is s cat slots"
  shows "leaf_bound slots (ps_count ops s)"
  unfolding leaf_bound_def
proof (intro allI impI)
  fix sch T cnt assume "Some (sch, T, cnt) \<in> set slots"
  then obtain i where "i < MAX_CATALOG_TABLES" "slots ! i = Some (sch, T, cnt)" using catalog_isD(2) [OF assms] by (metis in_set_conv_nth)
  then obtain n where "tree_of (view s) (root_id T) n T" using catalog_isD(6) [OF assms] by fastforce
  then show "length (leaf_ids T) \<le> ps_count ops s" by (rule leaf_count_bound [OF catalog_isD(1) [OF assms]])
qed

lemma execute_CreateTable:
  assumes "catalog_is s cat slots" "npins s < cap s" "104 < room s" "clean_statement (CreateTable st)"
  shows "\<exists>a cat' s' slots'. Catalog_CreateTable ops (ct_table_name st) (ct_columns st) cat s = (a, cat', s') \<and> ext 104 s s'
    \<and> catalog_is s' cat' slots' \<and> sql_result (relations_of slots) (CreateTable st) (map_sum id (\<lambda>_. no_rows) a) (relations_of slots')"
proof -
  let ?name = "ct_table_name st" and ?cols = "ct_columns st" and ?D = "relations_of slots"
  let ?sch = "\<lparr>table_name = ?name, columns = ?cols\<rparr>"
  let ?ok = "creatable ?name ?cols \<and> ?D ?name = None \<and> card (dom ?D) < MAX_CATALOG_TABLES"
  have free: "index_where (\<lambda>h. \<not> th_in_use h) (cat_tables cat) = index_where (\<lambda>sl. sl = None) slots" by (rule free_slot [OF assms(1)])
  show ?thesis
  proof (cases ?ok)
    case True
    then obtain i where i: "index_where (\<lambda>sl. sl = None) slots = Some i" using free_slot_dom [OF assms(1)] by fastforce
    have sch: "schema_ok ?sch" using True assms(4) by (auto simp: schema_ok_def list_all_iff)
    have none: "slot_of slots (table_name ?sch) = None" using True relations_slot(1) [OF assms(1), of ?name] by simp
    obtain s' cat' r where C: "Catalog_CreateTable ops ?name ?cols cat s = (Inr (), cat', s')" "ext 3 s s'"
      "catalog_is s' cat' (slots[i := Some (?sch, BLeaf r [], 0)])"
      using CreateTable_ok [OF assms(1) sch none i assms(2)] assms(3) by auto
    have "relations_of (slots[i := Some (?sch, BLeaf r [], 0)]) = ?D(?name \<mapsto> new_relation ?sch)"
      using relations_of_create [OF none, of i r] i by (simp add: index_where_Some)
    then show ?thesis using C ext_mono [OF C(2), of 104] True sql_result.created [of st ?D] by auto
  next
    case False
    have "\<not> (creatable ?name ?cols \<and> \<not> TableExists cat ?name \<and> index_where (\<lambda>h. \<not> th_in_use h) (cat_tables cat) \<noteq> None)"
      unfolding free TableExists_relations [OF assms(1)] using False free_slot_dom [OF assms(1)] by simp
    then obtain msg where "check_create ?name ?cols cat = Inl (CatalogError msg)" using check_create_error by blast
    then have "Catalog_CreateTable ops ?name ?cols cat s = (Inl (CatalogError msg), cat, s)" by (simp add: Catalog_CreateTable_def)
    then show ?thesis using sql_result.not_created [OF False] assms(1) ext_refl [OF catalog_isD(1) [OF assms(1)]] by auto
  qed
qed

lemma InsertRow_refused:
  assumes "catalog_is s cat slots" "relations_of slots name = Some R" "length row = length (columns (rel_schema R))" "\<nexists>k. row_of (rel_schema R) k row"
  shows "\<exists>e msg. InsertRow ops name row cat s = Some (Inl e, cat, s) \<and> (e = CatalogError msg \<or> e = RowEncodingError msg)"
proof -
  obtain i where "slot_of slots name = Some i" using relations_slot(1) [OF assms(1), of name] assms(2) by auto
  then obtain sch T cnt where R: "slots ! i = Some (sch, T, cnt)" "i < MAX_CATALOG_TABLES" "rel_schema R = sch" "slot_of slots name = Some i"
    using relations_slot(2) [OF assms(1)] assms(2) by fastforce
  have sch: "schema_ok sch" using catalog_isD(6) [OF assms(1) R(2)] R(1) by simp
  have idx: "FindTableIndex cat name = int i" using FindTableIndex_slots [OF assms(1), of name] R(4) by simp
  have th: "th_schema (cat_tables cat ! i) = sch" using catalog_isD(5) [OF assms(1) R(2)] R(1) by simp
  obtain p where p: "PrimaryKeyIndex sch = int p" by (rule schema_okD [OF sch])
  show ?thesis
  proof (cases "row ! p")
    case (IntV k)
    then have "\<not> storable sch row" using assms(4) p R(3) by (auto simp: row_of_def)
    then obtain msg where "Encode sch row = Inl (RowEncodingError msg)" using Encode_accepts by blast
    then show ?thesis using idx th p IntV assms(3) R(3) by (simp add: InsertRow_def Let_def)
  next
    case (TextV t)
    then show ?thesis using idx th p assms(3) R(3) by (simp add: InsertRow_def Let_def)
  qed
qed

lemma InsertRow_relations:
  assumes "catalog_is s cat slots" "npins s + 34 \<le> cap s" "104 < room s" "relations_of slots name = Some R" "row_of (rel_schema R) k row"
  shows "\<exists>cat' s' slots'. InsertRow ops name row cat s = Some (Inr (), cat', s') \<and> ext 104 s s' \<and> catalog_is s' cat' slots'
    \<and> relations_of slots' = (relations_of slots)(name \<mapsto> with_row k row R)"
proof -
  obtain i where i: "slot_of slots name = Some i" using relations_slot(1) [OF assms(1), of name] assms(4) by auto
  then obtain sch T cnt where S: "slots ! i = Some (sch, T, cnt)" "i < MAX_CATALOG_TABLES"
    "R = \<lparr>rel_schema = sch, rel_rows = decoded sch (entries T), rel_count = cnt\<rparr>"
    using relations_slot(2) [OF assms(1)] assms(4) by fastforce
  obtain s' cat' T' where I: "InsertRow ops name row cat s = Some (Inr (), cat', s')" "ext 104 s s'"
    "catalog_is s' cat' (slots[i := Some (sch, T', cnt + 1)])" "entries T' = upd_entry k (row_blob sch row) (entries T)"
    using InsertRow_ok [OF assms(1) i S(1) _ assms(2,3), of k row] assms(5) S(3) by auto
  have "decoded sch (entries T') = upd_entry k row (decoded sch (entries T))" using decoded_upd assms(5) S(3) I(4) by simp
  then have "relations_of (slots[i := Some (sch, T', cnt + 1)]) = (relations_of slots)(name \<mapsto> with_row k row R)"
    using relations_of_update [OF i S(1)] S(2,3) catalog_isD(2) [OF assms(1)] by (simp add: with_row_def)
  then show ?thesis using I(1-3) by blast
qed

lemma execute_Insert:
  assumes "catalog_is s cat slots" "npins s + 34 \<le> cap s" "104 < room s" "relations_of slots (ins_table_name st) = Some R" "inserts st (rel_schema R) row"
  shows "\<exists>a cat' s' slots'. ExecuteInsert ops st cat s = Some (a, cat', s') \<and> ext 104 s s'
    \<and> catalog_is s' cat' slots' \<and> sql_result (relations_of slots) (Insert st) (map_sum id (\<lambda>_. no_rows) a) (relations_of slots')"
proof -
  let ?name = "ins_table_name st" and ?D = "relations_of slots"
  have cat: "cat \<in> catalogs_of ?D" by (rule GetSchema_relations [OF assms(1)])
  have "GetSchema cat ?name = Inr (rel_schema R)" using catalogs_ofD [OF cat, of ?name] assms(4) by simp
  then have E: "ExecuteInsert ops st cat s = InsertRow ops ?name row cat s" using insert_values_row [OF assms(5)] by (simp add: ExecuteInsert_def)
  show ?thesis
  proof (cases "\<exists>k. row_of (rel_schema R) k row")
    case True
    then obtain k where k: "row_of (rel_schema R) k row" ..
    obtain cat' s' slots' where I: "InsertRow ops ?name row cat s = Some (Inr (), cat', s')" "ext 104 s s'" "catalog_is s' cat' slots'"
      "relations_of slots' = ?D(?name \<mapsto> with_row k row R)" using InsertRow_relations [OF assms(1-4) k] by blast
    then have "sql_result ?D (Insert st) (map_sum id (\<lambda>_. no_rows) (Inr ())) (relations_of slots')"
      using sql_result.inserted [of ?D st R row k] assms(4,5) k by simp
    then show ?thesis unfolding E using I(1-3) by blast
  next
    case False
    have "length row = length (columns (rel_schema R))" using assms(5) by (simp add: inserts_def Let_def)
    then obtain e msg where e: "InsertRow ops ?name row cat s = Some (Inl e, cat, s)" "e = CatalogError msg \<or> e = RowEncodingError msg"
      using InsertRow_refused [OF assms(1,4) _ False] by blast
    then have "sql_result ?D (Insert st) (map_sum id (\<lambda>_. no_rows) (Inl e)) ?D"
      using sql_result.not_storable [of ?D st R row e msg] assms(4,5) False by simp
    then show ?thesis unfolding E using e(1) assms(1) ext_refl [OF catalog_isD(1) [OF assms(1)]] by blast
  qed
qed

lemma execute_ok:
  assumes "catalog_is s cat slots" "npins s + 34 \<le> cap s" "stmt_cost stmt (ps_count ops s) < room s" "clean_statement stmt"
  shows "\<exists>a cat' s' slots'. execute er ops stmt cat s = Some (a, cat', s') \<and> ext (stmt_cost stmt (ps_count ops s)) s s'
    \<and> catalog_is s' cat' slots' \<and> (multimap_law er \<longrightarrow> sql_result (relations_of slots) stmt a (relations_of slots'))"
proof -
  let ?D = "relations_of slots"
  have cat: "cat \<in> catalogs_of ?D" by (rule GetSchema_relations [OF assms(1)])
  have np: "npins s < cap s" using assms(2) by simp
  note refl = ext_refl [OF catalog_isD(1) [OF assms(1)]]
  show ?thesis
  proof (cases stmt)
    case (CreateTable st)
    obtain a cat' s' slots' where C: "Catalog_CreateTable ops (ct_table_name st) (ct_columns st) cat s = (a, cat', s')" "ext 104 s s'"
      "catalog_is s' cat' slots'" "sql_result ?D stmt (map_sum id (\<lambda>_. no_rows) a) (relations_of slots')"
      using execute_CreateTable [OF assms(1) np, of st] assms(3,4) CreateTable by auto
    then have "execute er ops stmt cat s = Some (map_sum id (\<lambda>_. no_rows) a, cat', s')"
      using CreateTable by (simp add: execute_def ValidateStatement_def ExecuteCreateTable_def)
    then show ?thesis using C(2-4) CreateTable by auto
  next
    case (Insert st)
    show ?thesis
    proof (cases "\<exists>R row. ?D (ins_table_name st) = Some R \<and> inserts st (rel_schema R) row")
      case True
      then obtain R row where R: "?D (ins_table_name st) = Some R" "inserts st (rel_schema R) row" by blast
      obtain a cat' s' slots' where I: "ExecuteInsert ops st cat s = Some (a, cat', s')" "ext 104 s s'"
        "catalog_is s' cat' slots'" "sql_result ?D stmt (map_sum id (\<lambda>_. no_rows) a) (relations_of slots')"
        using execute_Insert [OF assms(1,2) _ R] assms(3) Insert by auto
      have "ValidateInsert st cat = Inr ()" using ValidateInsert_accepts [OF cat, of st] True by (simp add: accepts_def)
      then have "execute er ops stmt cat s = Some (map_sum id (\<lambda>_. no_rows) a, cat', s')"
        using Insert I(1) by (simp add: execute_def ValidateStatement_def)
      then show ?thesis using I(2-4) Insert by auto
    next
      case False
      then obtain msg where "ValidateInsert st cat = Inl (SemanticError msg)"
        using ValidateInsert_accepts [OF cat, of st] unfolding accepts_def if_not_P [OF False] by blast
      then have "execute er ops stmt cat s = Some (Inl (SemanticError msg), cat, s)" using Insert by (simp add: execute_def ValidateStatement_def)
      moreover have "sql_result ?D (Insert st) (Inl (SemanticError msg)) ?D" by (rule sql_result.no_such_row) (rule False)
      ultimately show ?thesis using assms(1) refl Insert by auto
    qed
  next
    case (Select st)
    show ?thesis
    proof (cases "select_ok ?D st")
      case True
      obtain r cat' s' where S: "ExecuteSelect er ops st cat s = Some (r, cat', s')" "ext (stmt_cost stmt (ps_count ops s)) s s'" "catalog_is s' cat' slots"
        "multimap_law er \<longrightarrow> select_outcome (row_tables ?D) st r"
        using ExecuteSelect_ok [OF assms(1) np leaf_bound_count [OF assms(1)] select_ok_plannable [OF True], of er] select_ok_tables [OF True] assms(3) Select by auto
      have "ValidateSelect st cat = Inr ()" using ValidateSelect_accepts [OF cat, of st] True by (simp add: accepts_def)
      then have "execute er ops stmt cat s = Some (r, cat', s')" using Select S(1) by (simp add: execute_def ValidateStatement_def)
      moreover have "multimap_law er \<longrightarrow> sql_result ?D stmt r ?D"
        unfolding Select using S(4) by (blast intro: sql_result.selected [OF True])
      ultimately show ?thesis using S(2,3) by blast
    next
      case False
      then obtain msg where "ValidateSelect st cat = Inl (SemanticError msg)" using ValidateSelect_accepts [OF cat, of st] by (auto simp: accepts_def)
      then have "execute er ops stmt cat s = Some (Inl (SemanticError msg), cat, s)" using Select by (simp add: execute_def ValidateStatement_def)
      then show ?thesis using sql_result.not_selected [OF False] assms(1) refl Select by auto
    qed
  qed
qed

end

end
