(* ===== verification/Engine_Store.thy ===== *)
theory Engine_Store
  imports Engine_Contract
begin

text \<open>
  The engine as a store of tables: an engine between two statements represents tables, a statement
  takes it to the tables its answer is about, and opening the files a crash leaves gives back the
  same tables.
\<close>

definition en_rep :: "Engine \<Rightarrow> relations \<Rightarrow> bool" where
  "en_rep en D \<longleftrightarrow> (\<forall>i. pins (en_pool en) i = 0) \<and> 34 \<le> cap (en_pool en)
     \<and> (\<exists>slots. lp.catalog_is (en_pool en) (en_catalog en) slots \<and> D = relations_of slots)"

definition sql_cost :: "string \<Rightarrow> nat \<Rightarrow> nat" where
  "sql_cost sql pages = (case ParseSQL sql of Some (Inr stmt) \<Rightarrow> stmt_cost stmt pages | _ \<Rightarrow> 0)"

text \<open>Ids and LSNs are left for the statement.\<close>
definition en_guard :: "string \<Rightarrow> Engine \<Rightarrow> bool" where
  "en_guard sql en \<longleftrightarrow> sql_cost sql (DiskPageCount (en_pool en)) < room (en_pool en)"

text \<open>A text is an error that changes nothing, or a statement.\<close>
definition sql_spec :: "string \<Rightarrow> relations \<Rightarrow> QueryResult res \<Rightarrow> relations \<Rightarrow> bool" where
  "sql_spec sql D a D' \<longleftrightarrow>
     (case ParseSQL sql of
        None \<Rightarrow> False
      | Some (Inl e) \<Rightarrow> a = Inl e \<and> D' = D
      | Some (Inr stmt) \<Rightarrow> sql_result D stmt a D')"

section \<open>A statement\<close>

lemma en_repI:
  assumes "en_rep en D" "lp.ext k (en_pool en) bp" "lp.catalog_is bp cat slots"
  shows "en_rep \<lparr>en_pool = bp, en_catalog = cat\<rparr> (relations_of slots)"
  using assms by (auto simp: en_rep_def lp.ext_def)

lemma ExecuteSQL_ok:
  assumes "en_rep en D" "en_guard sql en"
  shows "\<exists>a en' D'. ExecuteSQL er sql en = Some (a, en') \<and> en_rep en' D' \<and> (multimap_law er \<longrightarrow> sql_spec sql D a D')
    \<and> room (en_pool en) \<le> room (en_pool en') + sql_cost sql (DiskPageCount (en_pool en))"
proof -
  obtain r where r: "ParseSQL sql = Some r" using ParseSQL_returns by blast
  show ?thesis
  proof (cases r)
    case (Inl e)
    then show ?thesis using r assms(1) by (intro exI [of _ "Inl e"] exI [of _ en] exI [of _ D]) (simp add: ExecuteSQL_def sql_spec_def)
  next
    case (Inr stmt)
    let ?bp = "en_pool en" and ?c = "stmt_cost stmt (DiskPageCount (en_pool en))"
    obtain slots where S: "lp.catalog_is ?bp (en_catalog en) slots" "D = relations_of slots" using assms(1) by (auto simp: en_rep_def)
    have np: "lp.npins ?bp + 34 \<le> cap ?bp" using assms(1) by (simp add: en_rep_def lp.npins_def)
    have cost: "sql_cost sql (DiskPageCount ?bp) = ?c" using r Inr by (simp add: sql_cost_def)
    have room: "stmt_cost stmt (ps_count pool_ops ?bp) < room ?bp" using assms(2) cost by (simp add: en_guard_def)
    have clean: "clean_statement stmt" using clean_ParseSQL r Inr by simp
    obtain a cat' bp' slots' where E: "execute er pool_ops stmt (en_catalog en) ?bp = Some (a, cat', bp')" "lp.ext ?c ?bp bp'"
      "lp.catalog_is bp' cat' slots'" "multimap_law er \<longrightarrow> sql_result (relations_of slots) stmt a (relations_of slots')"
      using lp.execute_ok [OF S(1) np room clean, of er] by (metis pool_ops_sel(6))
    let ?en = "\<lparr>en_pool = bp', en_catalog = cat'\<rparr>"
    have "ExecuteSQL er sql en = Some (a, ?en)" using r Inr E(1) by (simp add: ExecuteSQL_def)
    moreover have "en_rep ?en (relations_of slots')" by (rule en_repI [OF assms(1) E(2,3)])
    moreover have "multimap_law er \<longrightarrow> sql_spec sql D a (relations_of slots')" using E(4) r Inr S(2) by (simp add: sql_spec_def)
    moreover have "room ?bp \<le> room (en_pool ?en) + sql_cost sql (DiskPageCount ?bp)" using E(2) cost by (simp add: lp.ext_def)
    ultimately show ?thesis by blast
  qed
qed

section \<open>Opening\<close>

definition en_crash :: "Engine \<Rightarrow> os_file \<times> os_file \<times> nat \<Rightarrow> bool" where
  "en_crash en = (\<lambda>(data_file, log_file, n). 34 \<le> n \<and> 0 < room (en_pool en)
     \<and> (\<exists>w. wal_manager (en_pool en) = Some w \<and> after_crash (en_pool en) w log_file data_file))"

definition en_reopen :: "os_file \<times> os_file \<times> nat \<Rightarrow> Engine res" where
  "en_reopen = (\<lambda>(data_file, log_file, n). Engine_open data_file log_file n)"

lemma slots_in_frame:
  assumes "slots_in V c slots" "\<And>i x. V i = Some x \<Longrightarrow> V' i = Some x"
  shows "slots_in V' c slots"
proof -
  have "slot_ok V' (slots ! i)" if i: "i < MAX_CATALOG_TABLES" for i
  proof -
    have ok: "slot_ok V (slots ! i)" using assms(1) i by (simp add: slots_in_def)
    have "V' j = V j" if "j \<in> set (slot_ids (slots ! i))" for j
      using slot_ok_in_view [OF ok that] assms(2) by fastforce
    then show ?thesis by (rule slot_ok_frame [OF ok])
  qed
  then show ?thesis using assms(1) unfolding slots_in_def by blast
qed

lemma en_restart:
  assumes "en_rep en D" "en_crash en f"
  shows "\<exists>en'. en_reopen f = Inr en' \<and> en_rep en' D \<and> room (en_pool en) \<le> room (en_pool en') + 1"
proof -
  let ?bp = "en_pool en"
  obtain df lf k w where f: "f = (df, lf, k)" "34 \<le> k" "wal_manager ?bp = Some w" "after_crash ?bp w lf df" "0 < room ?bp"
    using assms(2) by (cases f) (auto simp: en_crash_def)
  obtain slots where S: "lp.catalog_is ?bp (en_catalog en) slots" "D = relations_of slots" "\<forall>i. pins ?bp i = 0"
    using assms(1) by (auto simp: en_rep_def)
  have p: "pool_inv {} ?bp" using lp.catalog_isD(1) [OF S(1)] by (simp add: logging_pool_def)
  obtain d' where d': "RunRecovery (DiskManager_open df) (WAL_open lf) = (Inr (), d')"
    "pool_inv {} (BufferPool_new k d' (Some (WAL_open lf)))"
    "\<And>i c. view ?bp i = Some c \<Longrightarrow> view (BufferPool_new k d' (Some (WAL_open lf))) i = Some c"
    "room ?bp \<le> room (BufferPool_new k d' (Some (WAL_open lf)))"
    using restart_pool [OF p f(3) S(3) f(4), of k] unfolding Let_def by blast
  let ?nb = "BufferPool_new k d' (Some (WAL_open lf))"
  obtain c where c: "view ?bp 0 = Some c" "slots_in (view ?bp) c slots" using S(1) by (auto simp: lp.catalog_is_def)
  have lpi: "logging_pool ?nb" using d'(2) by (simp add: logging_pool_def BufferPool_new_def)
  have np: "lp.npins ?nb < cap ?nb" using f(2) by (simp add: lp.npins_def)
  have room: "0 < room ?nb" using f(5) d'(4) by simp
  obtain bp' cat where o: "Catalog_new pool_ops ?nb = (Inr cat, bp')" "lp.ext 1 ?nb bp'" "lp.catalog_is bp' cat slots"
    using lp.Catalog_open_ok [OF lpi d'(3) [OF c(1)] slots_in_frame [OF c(2) d'(3)] np room] by blast
  have "en_reopen f = Inr \<lparr>en_pool = bp', en_catalog = cat\<rparr>" using d'(1) o(1) f(1) by (simp add: en_reopen_def Engine_open_def)
  moreover have "en_rep \<lparr>en_pool = bp', en_catalog = cat\<rparr> D" using o(2,3) S(2) f(2) by (auto simp: en_rep_def lp.ext_def)
  ultimately show ?thesis using d'(4) o(2) by (auto simp: lp.ext_def)
qed

interpretation en: durable_store "ExecuteSQL er" en_rep en_guard "\<lambda>sql D a D'. multimap_law er \<longrightarrow> sql_spec sql D a D'" en_crash en_reopen for er
proof (unfold_locales, goal_cases)
  case (1 en D sql)
  then show ?case using ExecuteSQL_ok [of en D sql er] by blast
next
  case (2 en D f)
  then show ?case using en_restart by blast
qed

lemma Engine_open_new:
  assumes "34 \<le> k"
  shows "\<exists>en. Engine_open empty_file empty_file k = Inr en \<and> en_rep en (\<lambda>_. None) \<and> 2 ^ 32 - 3 \<le> room (en_pool en)"
proof -
  let ?bp = "BufferPool_new k (DiskManager_open empty_file) (Some (WAL_open empty_file))"
  note P = empty_files_pool(1) empty_files_pool(2-4) [of k]
  have np: "lp.npins ?bp < cap ?bp" using assms by (simp add: lp.npins_def)
  have count: "ps_count pool_ops ?bp = 0" using P(4) by simp
  have "2 \<le> room ?bp" unfolding P(3) by simp
  then obtain bp' cat where C: "Catalog_new pool_ops ?bp = (Inr cat, bp')" "lp.ext 2 ?bp bp'" "lp.catalog_is bp' cat (replicate MAX_CATALOG_TABLES None)"
    using lp.Catalog_create_ok [OF P(2) count np] by blast
  have "relations_of (replicate MAX_CATALOG_TABLES None) = (\<lambda>_. None)"
    by (rule ext) (auto simp: relations_of_def index_where_None split: option.split dest: index_where_Some [THEN iffD1])
  then have "en_rep \<lparr>en_pool = bp', en_catalog = cat\<rparr> (\<lambda>_. None)" using C(2,3) assms by (auto simp: en_rep_def lp.ext_def)
  moreover have "Engine_open empty_file empty_file k = Inr \<lparr>en_pool = bp', en_catalog = cat\<rparr>" using P(1) C(1) by (simp add: Engine_open_def)
  moreover have "2 ^ 32 - 3 \<le> room bp'" using C(2) P(3) by (simp add: lp.ext_def)
  ultimately show ?thesis by (metis Engine.select_convs(1))
qed

end
