(* ===== verification/Engine_Samples.thy ===== *)
theory Engine_Samples
  imports Engine_Store Sql_Roundtrip Database_Properties
begin

text \<open>
  An engine with one table and one row, and the statements that make and query it: the instances at
  which the properties of the engine are applied.
\<close>

definition listed_range :: equal_range where
  "listed_range m key = map snd (filter (\<lambda>p. fst p = key) m)"

lemma listed_range_law: "multimap_law listed_range"
  by (simp add: multimap_law_def listed_range_def)

definition sample_table :: CreateTableStmt where
  "sample_table = \<lparr>ct_table_name = ''t'', ct_columns =
     [\<lparr>cd_name = ''id'', cd_type = kInteger, is_primary_key = True\<rparr>, \<lparr>cd_name = ''n'', cd_type = kInteger, is_primary_key = False\<rparr>]\<rparr>"

definition sample_insert :: InsertStmt where
  "sample_insert = \<lparr>ins_table_name = ''t'', ins_columns = [''n'', ''id''], ins_values = [LitInteger 5, LitInteger 7]\<rparr>"

text \<open>\<open>SELECT a.n FROM t AS a JOIN t AS b ON a.id = b.id WHERE a.n < 9\<close>\<close>
definition sample_query :: SelectStmt where
  "sample_query = \<lparr>is_star = False, select_items = [\<lparr>si_table = Some ''a'', si_column = ''n'', si_alias = None\<rparr>],
     from_table = \<lparr>tr_table = ''t'', tr_alias = Some ''a''\<rparr>,
     sel_joins = [\<lparr>jc_table = \<lparr>tr_table = ''t'', tr_alias = Some ''b''\<rparr>,
       on_condition = ComparisonExpr kEq (ColumnRefExpr (Some ''a'') ''id'') (ColumnRefExpr (Some ''b'') ''id'')\<rparr>],
     sel_where = Some (ComparisonExpr kLt (ColumnRefExpr (Some ''a'') ''n'') (LiteralExpr (LitInteger 9)))\<rparr>"

definition sample_schema :: TableSchema where
  "sample_schema = \<lparr>table_name = ct_table_name sample_table, columns = ct_columns sample_table\<rparr>"

definition sample_row :: "Value list" where
  "sample_row = [IntV 7, IntV 5]"

abbreviation sample_empty :: relations where
  "sample_empty \<equiv> [''t'' \<mapsto> new_relation sample_schema]"

abbreviation sample_full :: relations where
  "sample_full \<equiv> [''t'' \<mapsto> with_row 7 sample_row (new_relation sample_schema)]"

section \<open>Their texts\<close>

lemma sample_names: "list_all valid_name [''t'', ''id'', ''n'', ''a'', ''b'']"
  by code_simp

lemmas sample_defs = sample_table_def sample_insert_def sample_query_def sample_schema_def sample_row_def

lemma sample_texts:
  "ParseSQL (print_sql (CreateTable sample_table)) = Some (Inr (CreateTable sample_table))"
  "ParseSQL (print_sql (Insert sample_insert)) = Some (Inr (Insert sample_insert))"
  "ParseSQL (print_sql (Select sample_query)) = Some (Inr (Select sample_query))"
  by (rule ParseSQL_print;
      use sample_names in \<open>simp add: sample_defs sep_def print_select_item_def print_column_def print_alias_def print_table_ref_def
        print_join_def kw_def ident_def print_column_def_def\<close>)+

section \<open>What they mean\<close>

lemma sample_creatable: "creatable ''t'' (ct_columns sample_table)"
  by (simp add: creatable_def sample_table_def EncodedSize_def PrimaryKeyIndex_def layout_simps VALUE_SIZE_def ColumnWidth_def)

lemma sample_row_of: "row_of sample_schema 7 sample_row"
  by (simp add: row_of_def sample_defs PrimaryKeyIndex_def storable_def storable_from_def All_less_Suc fits_column_def)

lemma sample_inserts: "inserts sample_insert sample_schema sample_row"
  by (simp add: inserts_def sample_defs LiteralToValue_def All_less_Suc Ex_less_Suc)

lemma sample_created: "sql_result (\<lambda>_. None) (CreateTable sample_table) a D \<longleftrightarrow> a = Inr no_rows \<and> D = sample_empty"
proof -
  have "creatable (ct_table_name sample_table) (ct_columns sample_table)" using sample_creatable by (simp add: sample_table_def)
  then show ?thesis
    using sql_result.created [of sample_table "\<lambda>_. None"] by (auto simp: sample_schema_def MAX_CATALOG_TABLES_def sample_table_def elim: sql_result_CreateTable)
qed

lemma sample_inserted: "sql_result sample_empty (Insert sample_insert) a D \<longleftrightarrow> a = Inr no_rows \<and> D = sample_full"
proof
  have t: "ins_table_name sample_insert = ''t''" by (simp add: sample_insert_def)
  have sch: "rel_schema (new_relation sample_schema) = sample_schema" by (simp add: new_relation_def)
  have key: "row_of sample_schema k sample_row \<longleftrightarrow> k = 7" for k
    using sample_row_of by (auto simp: row_of_def sample_defs PrimaryKeyIndex_def)
  assume "sql_result sample_empty (Insert sample_insert) a D"
  then consider (row) row k where "inserts sample_insert sample_schema row" "row_of sample_schema k row" "a = Inr no_rows"
      "D = sample_empty(''t'' \<mapsto> with_row k row (new_relation sample_schema))"
    | (none) "\<nexists>row. inserts sample_insert sample_schema row"
    | (unstorable) row where "inserts sample_insert sample_schema row" "\<nexists>k. row_of sample_schema k row"
    by (rule sql_result_Insert) (auto simp: t sch)
  then show "a = Inr no_rows \<and> D = sample_full"
  proof cases
    case row
    then show ?thesis using inserts_unique [OF row(1) sample_inserts] key by simp
  next
    case none
    then show ?thesis using sample_inserts by blast
  next
    case unstorable
    then show ?thesis using inserts_unique [OF unstorable(1) sample_inserts] sample_row_of by auto
  qed
next
  assume "a = Inr no_rows \<and> D = sample_full"
  then show "sql_result sample_empty (Insert sample_insert) a D"
    using sql_result.inserted [of sample_empty sample_insert "new_relation sample_schema" sample_row 7] sample_inserts sample_row_of
    by (simp add: sample_insert_def new_relation_def)
qed

lemma sample_select_ok: "select_ok sample_full sample_query"
  by (simp add: select_ok_def stmt_refs_def query_aliases_def sample_defs ref_alias_def refs_ok_def column_ok_def has_column_def
      with_row_def new_relation_def less_Suc_eq)

lemma sample_nodes:
  "stmt_nodes sample_query = [table_node (from_table sample_query) None,
      table_node (jc_table (sel_joins sample_query ! 0)) (Some (on_condition (sel_joins sample_query ! 0)))]"
  by (simp add: stmt_nodes_def sample_query_def)

lemma sample_aliases:
  "node_aliases (row_tables sample_full) (stmt_nodes sample_query) = [(''a'', sample_schema), (''b'', sample_schema)]"
  unfolding sample_nodes by (simp add: node_aliases_def row_tables_def table_node_def sample_query_def ref_alias_def with_row_def new_relation_def)

lemma sample_joinable: "joinable (row_tables sample_full) (stmt_nodes sample_query)"
  by (rule select_ok_joinable [OF sample_select_ok]) (simp add: qualified_query_def sample_query_def self_equi_def)

lemmas sample_unambiguous = joinable_unambiguous [OF sample_joinable]

lemma sample_typed: "typed_query (row_tables sample_full) sample_query"
proof -
  have col: "column_type [(''a'', sample_schema), (''b'', sample_schema)] (Some ''a'') ''id'' = Some kInteger"
    "column_type [(''a'', sample_schema), (''b'', sample_schema)] (Some ''b'') ''id'' = Some kInteger"
    "column_type [(''a'', sample_schema), (''b'', sample_schema)] (Some ''a'') ''n'' = Some kInteger"
    by (simp_all add: column_type_def sample_schema_def sample_table_def)
  have "typed_conditions (row_tables sample_full) (stmt_nodes sample_query)"
    unfolding typed_conditions_def sample_aliases unfolding sample_nodes by (simp add: table_node_def sample_query_def col)
  then show ?thesis unfolding typed_query_def sample_aliases using sample_joinable by (simp add: sample_query_def col LiteralToValue_def)
qed

section \<open>Engines\<close>

lemma an_engine: "\<exists>en. Engine_open empty_file empty_file 34 = Inr en \<and> en_rep en (\<lambda>_. None) \<and> 2 ^ 32 - 3 \<le> room (en_pool en)"
  using Engine_open_new [of 34] by simp

lemma sample_step:
  assumes "en_rep en D" "ParseSQL sql = Some (Inr stmt)" "\<And>a D'. sql_result D stmt a D' \<longleftrightarrow> a = Inr no_rows \<and> D' = E"
    and "stmt_cost stmt (DiskPageCount (en_pool en)) = 104" "104 < room (en_pool en)"
  shows "\<exists>en'. ExecuteSQL listed_range sql en = Some (Inr no_rows, en') \<and> en_rep en' E \<and> room (en_pool en) \<le> room (en_pool en') + 104"
proof -
  have cost: "sql_cost sql (DiskPageCount (en_pool en)) = 104" using assms(2,4) by (simp add: sql_cost_def)
  then have "en_guard sql en" using assms(5) by (simp add: en_guard_def)
  from ExecuteSQL_ok [OF assms(1) this, of listed_range] show ?thesis
    using listed_range_law assms(2,3) cost by (auto simp: sql_spec_def)
qed

lemma sample_engines:
  "\<exists>en1 en2 en3. Engine_open empty_file empty_file 34 = Inr en1 \<and> en_rep en1 (\<lambda>_. None) \<and> 2 ^ 32 - 3 \<le> room (en_pool en1)
    \<and> ExecuteSQL listed_range (print_sql (CreateTable sample_table)) en1 = Some (Inr no_rows, en2) \<and> en_rep en2 sample_empty \<and> 2 ^ 32 - 107 \<le> room (en_pool en2)
    \<and> ExecuteSQL listed_range (print_sql (Insert sample_insert)) en2 = Some (Inr no_rows, en3) \<and> en_rep en3 sample_full \<and> 2 ^ 32 - 211 \<le> room (en_pool en3)"
proof -
  obtain en1 where 1: "Engine_open empty_file empty_file 34 = Inr en1" "en_rep en1 (\<lambda>_. None)" "2 ^ 32 - 3 \<le> room (en_pool en1)" using an_engine by blast
  obtain en2 where 2: "ExecuteSQL listed_range (print_sql (CreateTable sample_table)) en1 = Some (Inr no_rows, en2)" "en_rep en2 sample_empty"
    "room (en_pool en1) \<le> room (en_pool en2) + 104"
    using sample_step [OF 1(2) sample_texts(1) sample_created] 1(3) by auto
  obtain en3 where 3: "ExecuteSQL listed_range (print_sql (Insert sample_insert)) en2 = Some (Inr no_rows, en3)" "en_rep en3 sample_full"
    "room (en_pool en2) \<le> room (en_pool en3) + 104"
    using sample_step [OF 2(2) sample_texts(2) sample_inserted] 1(3) 2(3) by auto
  have "2 ^ 32 - 107 \<le> room (en_pool en2)" "2 ^ 32 - 211 \<le> room (en_pool en3)" using 1(3) 2(3) 3(3) by simp_all
  then show ?thesis using 1 2 3 by blast
qed

lemma sample_guard:
  assumes "2 ^ 32 - 300 \<le> room (en_pool en)"
  shows "en_guard (print_sql (Select sample_query)) en"
proof -
  have "DiskPageCount (en_pool en) + room (en_pool en) < 2 ^ 32"
    using unat_bound [of "next_page_id (disk_manager (en_pool en))"] by (simp add: DiskPageCount_def NumPages_def room_def)
  then have "DiskPageCount (en_pool en) \<le> 300" using assms by simp
  moreover have "length (stmt_nodes sample_query) = 2" by (simp add: stmt_nodes_def sample_query_def)
  ultimately show ?thesis using assms sample_texts(3) by (simp add: en_guard_def sql_cost_def select_cost_def)
qed

lemma stopped_engine:
  assumes "en_rep en D" "0 < room (en_pool en)"
  shows "\<exists>df lf. en_crash en (df, lf, 34)"
proof -
  obtain slots where "lp.catalog_is (en_pool en) (en_catalog en) slots" using assms(1) by (auto simp: en_rep_def)
  then have "logging_pool (en_pool en)" by (rule lp.catalog_isD(1))
  then show ?thesis using stopped_pool assms(2) by (fastforce simp: en_crash_def)
qed

end
