(* ===== verification/Engine_Properties.thy ===== *)
theory Engine_Properties
  imports Engine_Samples
begin

text \<open>
  What the SQL engine guarantees, from the text of a statement to the files: the statements act on
  tables, whatever crashes happen between them and however the planner joins the tables of a query.
\<close>

section \<open>Tables of an engine\<close>

lemma en_rep_catalog:
  assumes "en_rep en D"
  obtains slots where "lp.catalog_is (en_pool en) (en_catalog en) slots" "D = relations_of slots"
    "lp.npins (en_pool en) = 0" "34 \<le> cap (en_pool en)"
  using assms by (auto simp: en_rep_def lp.npins_def)

lemma sorted_decoded: "sorted_entries (decoded sch es) = sorted_entries es"
  by (simp add: sorted_entries_def decoded_def comp_def case_prod_beta)

text \<open>Every table has a schema of its own name, and rows in the order of distinct keys that fit it.\<close>

lemma en_rep_relation:
  assumes "en_rep en D" "D name = Some R"
  shows "schema_ok (rel_schema R)" "sorted_entries (rel_rows R)" "(k, row) \<in> set (rel_rows R) \<Longrightarrow> row_of (rel_schema R) k row"
proof -
  obtain slots where S: "lp.catalog_is (en_pool en) (en_catalog en) slots" "D = relations_of slots" using assms(1) by (rule en_rep_catalog)
  obtain i where "slot_of slots name = Some i" using lp.relations_slot(1) [OF S(1), of name] assms(2) S(2) by auto
  then obtain sch T cnt where R: "slots ! i = Some (sch, T, cnt)" "i < MAX_CATALOG_TABLES"
    "R = \<lparr>rel_schema = sch, rel_rows = decoded sch (entries T), rel_count = cnt\<rparr>"
    using lp.relations_slot(2) [OF S(1)] assms(2) S(2) by fastforce
  have ok: "schema_ok sch" "rows_ok sch (entries T)" "\<exists>n. tree_of (view (en_pool en)) (root_id T) n T"
    using lp.catalog_isD(6) [OF S(1) R(2)] R(1) by simp_all
  show "schema_ok (rel_schema R)" using ok(1) R(3) by simp
  show "sorted_entries (rel_rows R)" using ok(3) tree_of_sorted R(3) by (auto simp: sorted_decoded)
  show "(k, row) \<in> set (rel_rows R) \<Longrightarrow> row_of (rel_schema R) k row"
    using ok(2) R(3) Decode_row_blob by (fastforce simp: decoded_def rows_ok_def)
qed

lemma en_rep_dom: "en_rep en D \<Longrightarrow> card (dom D) \<le> MAX_CATALOG_TABLES"
proof -
  assume en: "en_rep en D"
  obtain slots where S: "lp.catalog_is (en_pool en) (en_catalog en) slots" "D = relations_of slots" using en by (rule en_rep_catalog)
  have "dom D \<subseteq> (\<lambda>i. the (slot_name (slots ! i))) ` {..<MAX_CATALOG_TABLES}"
  proof
    fix nm assume "nm \<in> dom D"
    then obtain i where "slot_of slots nm = Some i" using lp.relations_slot(1) [OF S(1), of nm] S(2) by auto
    then have "i < MAX_CATALOG_TABLES" "slot_name (slots ! i) = Some nm" using lp.catalog_isD(2) [OF S(1)] by (simp_all add: index_where_Some)
    then show "nm \<in> (\<lambda>i. the (slot_name (slots ! i))) ` {..<MAX_CATALOG_TABLES}" by (intro image_eqI [of _ _ i]) simp_all
  qed
  then have "card (dom D) \<le> card ((\<lambda>i. the (slot_name (slots ! i))) ` {..<MAX_CATALOG_TABLES})" by (rule card_mono [rotated]) simp
  then show "card (dom D) \<le> MAX_CATALOG_TABLES" using card_image_le [of "{..<MAX_CATALOG_TABLES}" "\<lambda>i. the (slot_name (slots ! i))"] by simp
qed

section \<open>Answers\<close>

lemma select_step:
  assumes "multimap_law er" "en_rep en D" "en_guard sql en" "ParseSQL sql = Some (Inr (Select st))" "select_ok D st"
  shows "\<exists>a en'. ExecuteSQL er sql en = Some (a, en') \<and> en_rep en' D \<and> select_outcome (row_tables D) st a"
proof -
  obtain a en' D' where E: "ExecuteSQL er sql en = Some (a, en')" "en_rep en' D'" "sql_spec sql D a D'"
    using ExecuteSQL_ok [OF assms(2,3), of er] assms(1) by blast
  have r: "sql_result D (Select st) a D'" using E(3) assms(4) by (simp add: sql_spec_def)
  then have "select_outcome (row_tables D) st a" "D' = D" using assms(5) by (auto elim: sql_result_Select)
  then show ?thesis using E(1,2) by blast
qed

lemma typed_outcome: "select_outcome T st a \<Longrightarrow> typed_query T st \<Longrightarrow> \<exists>result. a = Inr result"
  by (cases a) (simp_all add: select_outcome_def)

text \<open>A row with its column names, without the order of the columns.\<close>
definition labels :: "string list \<Rightarrow> Value option list \<Rightarrow> (string \<times> Value) multiset" where
  "labels names vs = mset (zip names (map the vs))"

definition labelled_rows :: "QueryResult \<Rightarrow> (string \<times> Value) multiset multiset" where
  "labelled_rows r = image_mset (\<lambda>vs. mset (zip (column_names r) vs)) (mset (res_rows r))"

text \<open>Two results with the same rows; those of a \<open>SELECT *\<close> may have their columns in another order.\<close>
definition same_rows :: "SelectStmt \<Rightarrow> QueryResult \<Rightarrow> QueryResult \<Rightarrow> bool" where
  "same_rows st r1 r2 \<longleftrightarrow> labelled_rows r1 = labelled_rows r2
     \<and> (\<not> is_star st \<longrightarrow> mset (res_rows r1) = mset (res_rows r2) \<and> column_names r1 = column_names r2)"

lemma output_labels:
  assumes "joins_tables T (stmt_nodes st)" "mset lay = mset (query_order st)" "query_row T (stmt_nodes st) (query_order st) f"
  shows "labels (output_names T st lay) (output_values st lay f)
      = labels (output_names T st (query_order st)) (output_values st (query_order st) f)"
    and "length (output_values st lay f) = length (output_names T st lay)"
proof -
  have L: "distinct lay" using assms(2) by (metis distinct_upt mset_eq_imp_distinct_iff)
  then have q: "query_row T (stmt_nodes st) lay f"
    using assms(3) mset_eq_setD [OF assms(2)] by (simp add: query_row_def)
  note B = query_row_blocks [OF assms(1) q] and B' = query_row_blocks [OF assms(1,3)]
  have star: "labels (map fd_column (joined_row l f)) (map (\<lambda>x. Some (fd_value x)) (joined_row l f))
      = image_mset (\<lambda>x. (fd_column x, fd_value x)) (mset (joined_row l f))" for l
    by (simp add: labels_def comp_def zip_map_map zip_same_conv_map)
  have "mset (joined_row l f) = (\<Sum>k \<in># mset l. mset (f k))" for l by (induction l) (simp_all add: joined_row_def)
  then have "mset (joined_row lay f) = mset (joined_row (query_order st) f)" by (simp only: assms(2))
  then show "labels (output_names T st lay) (output_values st lay f)
      = labels (output_names T st (query_order st)) (output_values st (query_order st) f)"
    using star [of lay] star [of "query_order st"]
    by (simp add: output_names_def output_values_def flip: joined_row_names [OF B] joined_row_names [OF B'])
  show "length (output_values st lay f) = length (output_names T st lay)"
    by (simp add: output_names_def output_values_def flip: joined_row_names [OF B])
qed

lemma shape_lengths:
  assumes "joins_tables T (stmt_nodes st)" "select_shape T st r" "vs \<in> set (res_rows r)"
  shows "length vs = length (column_names r)"
proof -
  obtain lay f where S: "mset lay = mset (query_order st)" "query_row T (stmt_nodes st) (query_order st) f" "map Some vs = output_values st lay f"
    "column_names r = (if res_rows r = [] then [] else output_names T st lay)"
    using assms(2,3) unfolding select_shape_def by blast
  have "length vs = length (output_values st lay f)" using arg_cong [OF S(3), of length] by simp
  then show ?thesis using output_labels(2) [OF assms(1) S(1,2)] S(4) assms(3) by auto
qed

lemma answer_labelled:
  assumes "joins_tables T (stmt_nodes st)" "select_answer T st r"
  shows "labelled_rows r = image_mset (\<lambda>f. labels (output_names T st (query_order st)) (output_values st (query_order st) f))
    (filter_mset (selects st) (query_choices T st))"
proof -
  let ?F = "filter_mset (selects st) (query_choices T st)"
  obtain lay where A: "mset lay = mset (query_order st)" "image_mset (map Some) (mset (res_rows r)) = image_mset (output_values st lay) ?F"
    "column_names r = (if res_rows r = [] then [] else output_names T st lay)"
    using assms(2) unfolding select_answer_def by blast
  have row: "query_row T (stmt_nodes st) (query_order st) f" if "f \<in># ?F" for f
    by (rule choice_query_row) (use that in \<open>auto simp: query_choices_def\<close>)
  have "labelled_rows r = image_mset (\<lambda>vs. labels (output_names T st lay) (map Some vs)) (mset (res_rows r))"
    using A(3) by (cases "res_rows r = []") (simp_all add: labelled_rows_def labels_def comp_def)
  also have "\<dots> = image_mset (labels (output_names T st lay)) (image_mset (map Some) (mset (res_rows r)))"
    by (simp add: image_mset.compositionality comp_def)
  also have "\<dots> = image_mset (\<lambda>f. labels (output_names T st lay) (output_values st lay f)) ?F"
    unfolding A(2) by (simp add: image_mset.compositionality comp_def)
  also have "\<dots> = image_mset (\<lambda>f. labels (output_names T st (query_order st)) (output_values st (query_order st) f)) ?F"
    by (rule image_mset_cong) (rule output_labels(1) [OF assms(1) A(1) row])
  finally show ?thesis .
qed

lemma answer_unique:
  assumes "joins_tables T (stmt_nodes st)" "select_answer T st r1" "select_answer T st r2"
  shows "same_rows st r1 r2"
proof -
  let ?F = "filter_mset (selects st) (query_choices T st)"
  have "mset (res_rows r1) = mset (res_rows r2) \<and> column_names r1 = column_names r2" if star: "\<not> is_star st"
  proof -
    obtain l1 l2 where A: "image_mset (map Some) (mset (res_rows r1)) = image_mset (output_values st l1) ?F"
        "column_names r1 = (if res_rows r1 = [] then [] else output_names T st l1)"
      and B: "image_mset (map Some) (mset (res_rows r2)) = image_mset (output_values st l2) ?F"
        "column_names r2 = (if res_rows r2 = [] then [] else output_names T st l2)"
      using assms(2,3) unfolding select_answer_def by blast
    have o: "output_values st l1 = output_values st l2" "output_names T st l1 = output_names T st l2"
      using star by (simp_all add: output_values_def output_names_def fun_eq_iff)
    have "image_mset (map the) (image_mset (map Some) (mset (res_rows r))) = mset (res_rows r)" for r
      by (simp add: image_mset.compositionality comp_def)
    then have m: "mset (res_rows r1) = mset (res_rows r2)" using A(1) B(1) o(1) by metis
    then have "res_rows r1 = [] \<longleftrightarrow> res_rows r2 = []" by (metis mset_zero_iff)
    then show ?thesis using m A(2) B(2) o(2) by simp
  qed
  then show ?thesis using answer_labelled [OF assms(1,2)] answer_labelled [OF assms(1,3)] by (simp add: same_rows_def)
qed

definition item_type :: "AliasMap \<Rightarrow> SelectItem \<Rightarrow> ColumnType option" where
  "item_type A item = column_type A (si_table item) (si_column item)"

text \<open>The types of the columns of the result, which are those of the tables for \<open>SELECT *\<close>.\<close>
definition output_types :: "AliasMap \<Rightarrow> SelectStmt \<Rightarrow> nat list \<Rightarrow> ColumnType option list" where
  "output_types A st lay =
     (if is_star st then concat (map (\<lambda>k. map (\<lambda>cd. Some (cd_type cd)) (columns (snd (A ! k)))) lay) else map (item_type A) (select_items st))"

lemma scan_row_types:
  assumes "typed_row sch vs"
  shows "map (\<lambda>x. value_type (fd_value x)) (scan_row a sch vs) = map cd_type (columns sch)"
proof -
  have "length vs = length (columns sch)" using arg_cong [OF assms [unfolded typed_row_def], of length] by simp
  then have "map (\<lambda>x. value_type (fd_value x)) (scan_row a sch vs) = map value_type (map ((!) vs) [0..<length vs])"
    by (simp add: scan_row_def)
  then show ?thesis using assms by (simp only: map_nth typed_row_def)
qed

lemma shape_types:
  assumes "joins_tables T (stmt_nodes st)" "typed_tables T" "mset lay = mset (query_order st)" "query_row T (stmt_nodes st) (query_order st) f"
    and "map Some vs = output_values st lay f"
  shows "map (\<lambda>v. Some (value_type v)) vs = output_types (node_aliases T (stmt_nodes st)) st lay"
proof (cases "is_star st")
  case True
  let ?A = "node_aliases T (stmt_nodes st)"
  have ty: "map (\<lambda>x. Some (value_type (fd_value x))) (f k) = map (\<lambda>cd. Some (cd_type cd)) (columns (snd (?A ! k)))" if k: "k \<in> set lay" for k
  proof -
    have kl: "k < length (stmt_nodes st)" "f k \<in> set (node_rows T (stmt_nodes st ! k))"
      using k mset_eq_setD [OF assms(3)] assms(4) by (auto simp: query_row_def)
    obtain sch ws where "f k = scan_row (tn_alias (stmt_nodes st ! k)) sch ws" "typed_row sch ws" "?A ! k = (tn_alias (stmt_nodes st ! k), sch)"
      using query_row_block [OF assms(1,2) kl] by blast
    then show ?thesis using arg_cong [OF scan_row_types, of sch ws "map Some" "tn_alias (stmt_nodes st ! k)"] by (simp add: comp_def)
  qed
  have "map Some vs = map Some (map fd_value (joined_row lay f))" using assms(5) True by (simp add: output_values_def comp_def)
  then have "vs = map fd_value (joined_row lay f)" by (rule map_injective) simp
  then have "map (\<lambda>v. Some (value_type v)) vs = concat (map (\<lambda>k. map (\<lambda>x. Some (value_type (fd_value x))) (f k)) lay)"
    by (simp add: joined_row_def map_concat comp_def)
  also have "\<dots> = concat (map (\<lambda>k. map (\<lambda>cd. Some (cd_type cd)) (columns (snd (?A ! k)))) lay)"
    by (intro arg_cong [where f = concat] map_cong) (simp_all add: ty)
  finally show ?thesis using True by (simp add: output_types_def)
next
  case False
  let ?items = "select_items st" and ?row = "joined_row (query_order st) f"
  have eq: "map Some vs = map (\<lambda>item. column_value ?row (si_table item) (si_column item)) ?items"
    using assms(5) False by (simp add: output_values_def)
  have len: "length vs = length ?items" using arg_cong [OF eq, of length] by simp
  have "Some (value_type (vs ! i)) = item_type (node_aliases T (stmt_nodes st)) (?items ! i)" if i: "i < length vs" for i
  proof -
    have "column_value ?row (si_table (?items ! i)) (si_column (?items ! i)) = Some (vs ! i)"
      using arg_cong [OF eq, of "\<lambda>xs. xs ! i"] i len by simp
    then show ?thesis using found_column_typed [OF assms(1,2,4) refl] by (simp add: column_value_Find item_type_def)
  qed
  then show ?thesis using False len by (simp add: output_types_def list_eq_iff_nth_eq)
qed

section \<open>Statements\<close>

text \<open>
  C2. A SELECT that passes validation is answered, and the tables stay as they were. An answer with
  rows has exactly the rows the statement asks for, with multiplicity: those that its ON and WHERE
  conditions hold of, in the sense of \<open>cond_holds\<close>, among all choices of a row of every table, whatever order
  and kinds of joins the planner picked. Left out are only statements with an unqualified column in
  an ON condition that is also a column of a table joined later (\<open>unambiguous\<close>): of their rows it is said that
  they are made of a row of every table and satisfy the WHERE condition. An exception is an \<open>EvalError\<close> or a \<open>ColumnResolutionError\<close>,
  and there is none when the statement is well typed (\<open>typed_query\<close>: its ON conditions are qualified and no
  one equates two columns of one table, comparisons are between values of one type, all columns resolve).
\<close>
theorem select_computes_join:
  assumes "multimap_law er" "en_rep en D" "en_guard sql en" "ParseSQL sql = Some (Inr (Select st))" "select_ok D st"
  shows "\<exists>a en'. ExecuteSQL er sql en = Some (a, en') \<and> en_rep en' D
    \<and> (\<forall>e. a = Inl e \<longrightarrow> row_exception e \<and> \<not> typed_query (row_tables D) st)
    \<and> (\<forall>result. a = Inr result \<longrightarrow> select_shape (row_tables D) st result
        \<and> (unambiguous (row_tables D) (stmt_nodes st) \<longrightarrow> select_answer (row_tables D) st result))"
  using select_step [OF assms] by (fastforce simp: select_outcome_def split: sum.splits)

theorem select_computes_join_witness:
  "\<exists>en result en'. ExecuteSQL listed_range (print_sql (Select sample_query)) en = Some (Inr result, en')
    \<and> en_rep en' sample_full \<and> select_answer (row_tables sample_full) sample_query result"
proof -
  obtain en where en: "en_rep en sample_full" "2 ^ 32 - 211 \<le> room (en_pool en)" using sample_engines by blast
  have g: "en_guard (print_sql (Select sample_query)) en" by (rule sample_guard) (use en(2) in simp)
  obtain a en' where E: "ExecuteSQL listed_range (print_sql (Select sample_query)) en = Some (a, en')" "en_rep en' sample_full"
    "\<forall>e. a = Inl e \<longrightarrow> row_exception e \<and> \<not> typed_query (row_tables sample_full) sample_query"
    "\<forall>result. a = Inr result \<longrightarrow> select_shape (row_tables sample_full) sample_query result
      \<and> (unambiguous (row_tables sample_full) (stmt_nodes sample_query) \<longrightarrow> select_answer (row_tables sample_full) sample_query result)"
    using select_computes_join [OF listed_range_law en(1) g sample_texts(3) sample_select_ok] by blast
  obtain result where "a = Inr result" using E(3) sample_typed by (cases a) auto
  then show ?thesis using E sample_unambiguous by blast
qed

text \<open>
  C7. The planner's choices do not show in the rows: two engines whose tables hold the same rows, with
  whatever row counts, page layouts and orders of \<open>equal_range\<close>, answer a SELECT that passes validation, and when
  both answer with rows these are the same, with multiplicity; with a select list the column names are
  the same too, and for \<open>SELECT *\<close> each row has the same values under the same names, though the columns may come
  in another order. A well typed statement is answered with rows by both. (Left out are statements with an unqualified column
  in an ON condition that is also a column of a table joined later.)
\<close>
theorem plan_choice_irrelevant:
  assumes "multimap_law er1" "en_rep en1 D1" "en_guard sql en1" "multimap_law er2" "en_rep en2 D2" "en_guard sql en2"
    and "row_tables D1 = row_tables D2" "ParseSQL sql = Some (Inr (Select st))"
    and "select_ok D1 st" "select_ok D2 st" "unambiguous (row_tables D1) (stmt_nodes st)"
  shows "\<exists>a1 e1 a2 e2. ExecuteSQL er1 sql en1 = Some (a1, e1) \<and> ExecuteSQL er2 sql en2 = Some (a2, e2)
    \<and> (typed_query (row_tables D1) st \<longrightarrow> (\<exists>r1 r2. a1 = Inr r1 \<and> a2 = Inr r2))
    \<and> (\<forall>r1 r2. a1 = Inr r1 \<longrightarrow> a2 = Inr r2 \<longrightarrow> same_rows st r1 r2
        \<and> (\<forall>vs \<in> set (res_rows r1). length vs = length (column_names r1)))"
proof -
  obtain a1 e1 where A: "ExecuteSQL er1 sql en1 = Some (a1, e1)" "select_outcome (row_tables D1) st a1"
    using select_step [OF assms(1-3,8,9)] by blast
  obtain a2 e2 where B: "ExecuteSQL er2 sql en2 = Some (a2, e2)" "select_outcome (row_tables D1) st a2"
    using select_step [OF assms(4-6,8,10)] assms(7) by auto
  have J: "joins_tables (row_tables D1) (stmt_nodes st)" by (rule select_ok_tables [OF assms(9)])
  have "same_rows st r1 r2 \<and> (\<forall>vs \<in> set (res_rows r1). length vs = length (column_names r1))" if r: "a1 = Inr r1" "a2 = Inr r2" for r1 r2
    using A(2) B(2) assms(11) answer_unique [OF J, of r1 r2] shape_lengths [OF J, of r1] unfolding select_outcome_def r by simp
  then show ?thesis using A(1) B(1) typed_outcome [OF A(2)] typed_outcome [OF B(2)] by blast
qed

theorem plan_choice_irrelevant_witness:
  "\<exists>en r1 e1 r2 e2. ExecuteSQL listed_range (print_sql (Select sample_query)) en = Some (Inr r1, e1)
    \<and> ExecuteSQL (\<lambda>m key. rev (listed_range m key)) (print_sql (Select sample_query)) en = Some (Inr r2, e2)
    \<and> same_rows sample_query r1 r2"
proof -
  obtain en where en: "en_rep en sample_full" "2 ^ 32 - 211 \<le> room (en_pool en)" using sample_engines by blast
  have g: "en_guard (print_sql (Select sample_query)) en" by (rule sample_guard) (use en(2) in simp)
  have law: "multimap_law (\<lambda>m key. rev (listed_range m key))" using listed_range_law by (simp add: multimap_law_def)
  from plan_choice_irrelevant [OF listed_range_law en(1) g law en(1) g refl sample_texts(3) sample_select_ok sample_select_ok sample_unambiguous]
  show ?thesis using sample_typed by blast
qed

text \<open>
  C15. Types: a SELECT that passes validation is answered with rows whose values are of the types the columns were
  declared with, those of the select list or, for \<open>SELECT *\<close>, all columns of the tables in the order in
  which the column names list them; or it throws an \<open>EvalError\<close> or a \<open>ColumnResolutionError\<close>, and that only if it is not
  well typed in the sense of \<open>typed_query\<close>.
\<close>
theorem select_type_sound:
  assumes "multimap_law er" "en_rep en D" "en_guard sql en" "ParseSQL sql = Some (Inr (Select st))" "select_ok D st"
  shows "\<exists>a en'. ExecuteSQL er sql en = Some (a, en')
    \<and> (case a of
         Inl e \<Rightarrow> row_exception e \<and> \<not> typed_query (row_tables D) st
       | Inr result \<Rightarrow> \<exists>lay. mset lay = mset (query_order st)
           \<and> column_names result = (if res_rows result = [] then [] else output_names (row_tables D) st lay)
           \<and> (\<forall>vs \<in> set (res_rows result). map (\<lambda>v. Some (value_type v)) vs = output_types (node_aliases (row_tables D) (stmt_nodes st)) st lay))"
proof -
  let ?T = "row_tables D"
  obtain a en' where A: "ExecuteSQL er sql en = Some (a, en')" "select_outcome ?T st a" using select_step [OF assms] by blast
  obtain slots where S: "lp.catalog_is (en_pool en) (en_catalog en) slots" "D = relations_of slots" using assms(2) by (rule en_rep_catalog)
  have T: "typed_tables ?T" unfolding S(2) by (rule lp.catalog_typed_tables [OF S(1)])
  have J: "joins_tables ?T (stmt_nodes st)" by (rule select_ok_tables [OF assms(5)])
  show ?thesis
  proof (cases a)
    case (Inl e)
    then show ?thesis using A by (simp add: select_outcome_def)
  next
    case (Inr result)
    have "select_shape ?T st result" using A(2) Inr by (simp add: select_outcome_def)
    then obtain lay where L: "mset lay = mset (query_order st)" "column_names result = (if res_rows result = [] then [] else output_names ?T st lay)"
      "\<forall>vs \<in> set (res_rows result). \<exists>f. query_row ?T (stmt_nodes st) (query_order st) f \<and> where_holds st f \<and> map Some vs = output_values st lay f"
      unfolding select_shape_def by blast
    have "map (\<lambda>v. Some (value_type v)) vs = output_types (node_aliases ?T (stmt_nodes st)) st lay" if "vs \<in> set (res_rows result)" for vs
      using L(3) that shape_types [OF J T L(1)] by blast
    then show ?thesis using A(1) L(1,2) Inr by auto
  qed
qed

theorem select_type_sound_witness:
  "\<exists>en result en'. ExecuteSQL listed_range (print_sql (Select sample_query)) en = Some (Inr result, en')
    \<and> (\<forall>vs \<in> set (res_rows result). map value_type vs = [kInteger])"
proof -
  obtain en where en: "en_rep en sample_full" "2 ^ 32 - 211 \<le> room (en_pool en)" using sample_engines by blast
  have g: "en_guard (print_sql (Select sample_query)) en" by (rule sample_guard) (use en(2) in simp)
  obtain a en' where E: "ExecuteSQL listed_range (print_sql (Select sample_query)) en = Some (a, en')"
    "case a of Inl e \<Rightarrow> row_exception e \<and> \<not> typed_query (row_tables sample_full) sample_query
     | Inr result \<Rightarrow> \<exists>lay. mset lay = mset (query_order sample_query)
           \<and> column_names result = (if res_rows result = [] then [] else output_names (row_tables sample_full) sample_query lay)
           \<and> (\<forall>vs \<in> set (res_rows result). map (\<lambda>v. Some (value_type v)) vs
               = output_types (node_aliases (row_tables sample_full) (stmt_nodes sample_query)) sample_query lay)"
    using select_type_sound [OF listed_range_law en(1) g sample_texts(3) sample_select_ok] by blast
  have ty: "output_types (node_aliases (row_tables sample_full) (stmt_nodes sample_query)) sample_query lay = [Some kInteger]" for lay
    unfolding sample_aliases by (simp add: output_types_def item_type_def column_type_def sample_defs)
  have one: "map value_type vs = [kInteger]" if "map (\<lambda>v. Some (value_type v)) vs = [Some kInteger]" for vs
    using that by (auto simp: map_eq_Cons_conv)
  obtain result where a: "a = Inr result" using E(2) sample_typed by (cases a) auto
  have "\<forall>vs \<in> set (res_rows result). map (\<lambda>v. Some (value_type v)) vs = [Some kInteger]" using E(2) unfolding a ty by auto
  then show ?thesis using E(1) a one by blast
qed

text \<open>
  C16. Bounds: a statement uses up at most \<open>sql_cost\<close> page ids and LSNs (104 for CREATE TABLE and
  INSERT), and leaves at most \<open>MAX_CATALOG_TABLES\<close> tables, whose rows all fit a leaf cell.
\<close>
theorem statement_bounds:
  assumes "en_rep en D" "en_guard sql en"
  shows "\<exists>a en' D'. ExecuteSQL er sql en = Some (a, en') \<and> en_rep en' D'
    \<and> room (en_pool en) \<le> room (en_pool en') + sql_cost sql (DiskPageCount (en_pool en))
    \<and> card (dom D') \<le> MAX_CATALOG_TABLES
    \<and> (\<forall>R \<in> ran D'. \<forall>(k, row) \<in> set (rel_rows R). length (row_blob (rel_schema R) row) \<le> VALUE_SIZE)"
proof -
  obtain a en' D' where E: "ExecuteSQL er sql en = Some (a, en')" "en_rep en' D'"
    "room (en_pool en) \<le> room (en_pool en') + sql_cost sql (DiskPageCount (en_pool en))"
    using ExecuteSQL_ok [OF assms, of er] by blast
  have "length (row_blob (rel_schema R) row) \<le> VALUE_SIZE" if R: "R \<in> ran D'" "(k, row) \<in> set (rel_rows R)" for R k row
  proof -
    obtain name where name: "D' name = Some R" using R(1) by (auto simp: ran_def)
    show ?thesis using length_row_blob en_rep_relation [OF E(2) name] schema_ok_size R(2) by metis
  qed
  then show ?thesis using E en_rep_dom [OF E(2)] by blast
qed

theorem statement_bounds_witness:
  "\<exists>en a en' D'. en_rep en sample_full \<and> ExecuteSQL listed_range (print_sql (Select sample_query)) en = Some (a, en')
    \<and> en_rep en' D' \<and> card (dom D') \<le> MAX_CATALOG_TABLES"
proof -
  obtain en where en: "en_rep en sample_full" "2 ^ 32 - 211 \<le> room (en_pool en)" using sample_engines by blast
  have g: "en_guard (print_sql (Select sample_query)) en" by (rule sample_guard) (use en(2) in simp)
  from statement_bounds [OF en(1) g, of listed_range] show ?thesis using en(1) by blast
qed

text \<open>
  C8. CREATE TABLE accepts exactly the tables it documents: a new name, a free slot, names and columns
  within the limits, one INTEGER primary key and rows that fit a cell; the new table is then empty.
  Everything else is a \<open>CatalogError\<close> that changes neither the catalog nor a page.
\<close>
theorem create_table_outcome:
  assumes "en_rep en D" "104 < room (en_pool en)" "clean_statement (CreateTable \<lparr>ct_table_name = name, ct_columns = cols\<rparr>)"
  shows "\<exists>a cat bp. Catalog_CreateTable pool_ops name cols (en_catalog en) (en_pool en) = (a, cat, bp)
    \<and> (if creatable name cols \<and> D name = None \<and> card (dom D) < MAX_CATALOG_TABLES
       then a = Inr () \<and> en_rep \<lparr>en_pool = bp, en_catalog = cat\<rparr> (D(name \<mapsto> new_relation \<lparr>table_name = name, columns = cols\<rparr>))
       else (\<exists>msg. a = Inl (CatalogError msg)) \<and> cat = en_catalog en \<and> bp = en_pool en)"
proof -
  let ?st = "\<lparr>ct_table_name = name, ct_columns = cols\<rparr>" and ?ok = "creatable name cols \<and> D name = None \<and> card (dom D) < MAX_CATALOG_TABLES"
  obtain slots where S: "lp.catalog_is (en_pool en) (en_catalog en) slots" "D = relations_of slots" "lp.npins (en_pool en) = 0" "34 \<le> cap (en_pool en)"
    using assms(1) by (rule en_rep_catalog)
  have np: "lp.npins (en_pool en) < cap (en_pool en)" using S(3,4) by simp
  show ?thesis
  proof (cases ?ok)
    case True
    obtain a cat bp slots' where C: "Catalog_CreateTable pool_ops name cols (en_catalog en) (en_pool en) = (a, cat, bp)" "lp.ext 104 (en_pool en) bp"
      "lp.catalog_is bp cat slots'" "sql_result D (CreateTable ?st) (map_sum id (\<lambda>_. no_rows) a) (relations_of slots')"
      using lp.execute_CreateTable [OF S(1) np assms(2,3)] S(2) by auto
    have r: "map_sum id (\<lambda>_. no_rows) a = Inr no_rows" "relations_of slots' = D(name \<mapsto> new_relation \<lparr>table_name = name, columns = cols\<rparr>)"
      using C(4) True by (auto elim: sql_result_CreateTable)
    have "a = Inr ()" using r(1) by (cases a) simp_all
    then show ?thesis using True C(1) en_repI [OF assms(1) C(2,3)] r(2) by auto
  next
    case False
    then have "\<not> (creatable name cols \<and> \<not> TableExists (en_catalog en) name \<and> index_where (\<lambda>h. \<not> th_in_use h) (cat_tables (en_catalog en)) \<noteq> None)"
      unfolding lp.free_slot [OF S(1)] lp.TableExists_relations [OF S(1)] using lp.free_slot_dom [OF S(1)] S(2) by simp
    then obtain msg where "check_create name cols (en_catalog en) = Inl (CatalogError msg)" using check_create_error by blast
    then have "Catalog_CreateTable pool_ops name cols (en_catalog en) (en_pool en) = (Inl (CatalogError msg), en_catalog en, en_pool en)"
      by (simp add: Catalog_CreateTable_def)
    then show ?thesis using False by auto
  qed
qed

theorem create_table_outcome_witness:
  "\<exists>(en :: Engine) cat bp. Catalog_CreateTable pool_ops ''t'' (ct_columns sample_table) (en_catalog en) (en_pool en) = (Inr (), cat, bp)
    \<and> en_rep \<lparr>en_pool = bp, en_catalog = cat\<rparr> sample_empty"
proof -
  obtain en where en: "en_rep en (\<lambda>_. None)" "2 ^ 32 - 3 \<le> room (en_pool en)" using an_engine by blast
  have "clean_statement (CreateTable \<lparr>ct_table_name = ''t'', ct_columns = ct_columns sample_table\<rparr>)" by (simp add: sample_table_def)
  moreover have "104 < room (en_pool en)" using en(2) by simp
  moreover have "creatable ''t'' (ct_columns sample_table) \<and> (None :: Relation option) = None \<and> card (dom (\<lambda>_. None :: Relation option)) < MAX_CATALOG_TABLES"
    using sample_creatable by (simp add: MAX_CATALOG_TABLES_def)
  moreover have "\<lparr>table_name = ''t'', columns = ct_columns sample_table\<rparr> = sample_schema" by (simp add: sample_schema_def sample_table_def)
  ultimately have "\<exists>cat bp. Catalog_CreateTable pool_ops ''t'' (ct_columns sample_table) (en_catalog en) (en_pool en) = (Inr (), cat, bp)
      \<and> en_rep \<lparr>en_pool = bp, en_catalog = cat\<rparr> sample_empty"
    using create_table_outcome [OF en(1), of "''t''" "ct_columns sample_table"] by auto
  then show ?thesis by blast
qed

lemma upd_entry_members:
  assumes "sorted_entries es"
  shows "set (upd_entry k v es) = insert (k, v) {e \<in> set es. fst e \<noteq> k}"
proof -
  note M = sorted_entries_map_of [OF upd_entry_sorted [OF assms, of k v]] sorted_entries_map_of [OF assms]
  have "(k', v') \<in> set (upd_entry k v es) \<longleftrightarrow> (k', v') = (k, v) \<or> (k', v') \<in> set es \<and> k' \<noteq> k" for k' v'
    unfolding M [symmetric] map_of_upd_entry [OF assms] by auto
  then show ?thesis by auto
qed

lemma row_of_key: "row_of sch i row \<Longrightarrow> row_of sch j row \<Longrightarrow> i = j"
  by (simp add: row_of_def)

text \<open>
  C6. Inserting a row that fits its table succeeds, and a scan of the table afterwards lists, in the
  order of the primary key, that row and all earlier rows but the one that had its key; no other
  table changes.
\<close>
theorem insert_row_then_scan:
  assumes "en_rep en D" "D name = Some R" "row_of (rel_schema R) k row" "104 < room (en_pool en)"
  shows "\<exists>cat bp. InsertRow pool_ops name row (en_catalog en) (en_pool en) = Some (Inr (), cat, bp)
    \<and> en_rep \<lparr>en_pool = bp, en_catalog = cat\<rparr> (D(name \<mapsto> with_row k row R))
    \<and> (34 + DiskPageCount bp < room bp \<longrightarrow>
        (\<exists>rows cat' bp'. ScanTable pool_ops name cat bp = Some (Inr rows, cat', bp')
          \<and> sorted_wrt (\<lambda>a b. \<forall>i j. row_of (rel_schema R) i a \<longrightarrow> row_of (rel_schema R) j b \<longrightarrow> sint i < sint j) rows
          \<and> set rows = insert row {r \<in> snd ` set (rel_rows R). \<not> row_of (rel_schema R) k r}))"
proof -
  obtain slots where S: "lp.catalog_is (en_pool en) (en_catalog en) slots" "D = relations_of slots" "lp.npins (en_pool en) = 0" "34 \<le> cap (en_pool en)"
    using assms(1) by (rule en_rep_catalog)
  obtain cat bp slots' where I: "InsertRow pool_ops name row (en_catalog en) (en_pool en) = Some (Inr (), cat, bp)" "lp.ext 104 (en_pool en) bp"
    "lp.catalog_is bp cat slots'" "relations_of slots' = D(name \<mapsto> with_row k row R)"
    using lp.InsertRow_relations [OF S(1) _ _ assms(2) [unfolded S(2)] assms(3)] S(2-4) assms(4) by auto
  have en': "en_rep \<lparr>en_pool = bp, en_catalog = cat\<rparr> (D(name \<mapsto> with_row k row R))" using en_repI [OF assms(1) I(2,3)] I(4) by simp
  let ?R = "with_row k row R" and ?sch = "rel_schema R"
  have np: "lp.npins bp < cap bp" using lp.ext_npins [OF I(2)] I(2) S(3,4) by (simp add: lp.ext_def)
  have rel: "rel_schema ?R = ?sch" "rel_rows ?R = upd_entry k row (rel_rows R)" by (simp_all add: with_row_def)
  note old = en_rep_relation [OF assms(1,2)] and new = en_rep_relation [OF en', of name ?R, unfolded rel, simplified]
  have scan: "\<exists>rows cat' bp'. ScanTable pool_ops name cat bp = Some (Inr rows, cat', bp') \<and> rows = map snd (rel_rows ?R)"
    if "34 + DiskPageCount bp < room bp"
    using lp.ScanTable_relations [OF I(3) np lp.leaf_bound_count [OF I(3)], of name] I(4) that by auto
  have sorted: "sorted_wrt (\<lambda>a b. \<forall>i j. row_of ?sch i a \<longrightarrow> row_of ?sch j b \<longrightarrow> sint i < sint j) (map snd (rel_rows ?R))"
    unfolding sorted_wrt_map
  proof (rule sorted_wrt_mono_rel)
    show "sorted_wrt (\<lambda>a b. skey a < skey b) (rel_rows ?R)" using new(2) unfolding rel sorted_entries_def sorted_wrt_map .
    fix a b assume "a \<in> set (rel_rows ?R)" "b \<in> set (rel_rows ?R)" "skey a < skey b"
    moreover from this have "row_of ?sch (fst a) (snd a)" "row_of ?sch (fst b) (snd b)" using new(3) unfolding rel by (metis prod.collapse)+
    ultimately show "\<forall>i j. row_of ?sch i (snd a) \<longrightarrow> row_of ?sch j (snd b) \<longrightarrow> sint i < sint j" using row_of_key by metis
  qed
  have "set (map snd (rel_rows ?R)) = insert row {r \<in> snd ` set (rel_rows R). \<not> row_of ?sch k r}"
  proof -
    have "fst e \<noteq> k \<longleftrightarrow> \<not> row_of ?sch k (snd e)" if "e \<in> set (rel_rows R)" for e
      using old(3) [of "fst e" "snd e"] that row_of_key by auto
    then show ?thesis unfolding rel set_map upd_entry_members [OF old(2)] by auto
  qed
  then show ?thesis using I(1) en' scan sorted by blast
qed

theorem insert_row_then_scan_witness:
  "\<exists>(en :: Engine) cat bp. InsertRow pool_ops ''t'' sample_row (en_catalog en) (en_pool en) = Some (Inr (), cat, bp)
    \<and> en_rep \<lparr>en_pool = bp, en_catalog = cat\<rparr> sample_full"
proof -
  obtain en where en: "en_rep en sample_empty" "2 ^ 32 - 107 \<le> room (en_pool en)" using sample_engines by blast
  have "sample_empty ''t'' = Some (new_relation sample_schema)" by simp
  moreover have "row_of (rel_schema (new_relation sample_schema)) 7 sample_row" using sample_row_of by (simp add: new_relation_def)
  moreover have "104 < room (en_pool en)" using en(2) by simp
  moreover have "sample_empty(''t'' \<mapsto> with_row 7 sample_row (new_relation sample_schema)) = sample_full" by simp
  ultimately have "\<exists>cat bp. InsertRow pool_ops ''t'' sample_row (en_catalog en) (en_pool en) = Some (Inr (), cat, bp)
      \<and> en_rep \<lparr>en_pool = bp, en_catalog = cat\<rparr> sample_full"
    using insert_row_then_scan [OF en(1), of "''t''" "new_relation sample_schema" 7 sample_row] by auto
  then show ?thesis by blast
qed

section \<open>Histories\<close>

text \<open>
  C1. The SQL engine refines tables. Start from empty files and execute any SQL texts, with the
  process stopping and reopening its files between them any number of times: every answer is one
  \<open>sql_spec\<close> allows of the tables so far, the engine ends up holding the tables of that run, and
  the next text is answered (while page ids and LSNs are left for it). A text that does not lex or parse, and a
  statement that does not pass validation, is answered by its error and changes nothing; CREATE
  TABLE and INSERT have one possible effect; an accepted SELECT changes nothing and answers by \<open>select_outcome\<close>: exactly the rows
  asked for, or else an \<open>EvalError\<close> or \<open>ColumnResolutionError\<close>, the latter two only for a statement that is not well typed (ill-typed comparisons, unresolved
  columns, ON conditions that are unqualified or equate two columns of one table). For the rows of a SELECT with an unqualified ON
  column that is also a column of a table joined later, it is only said that they are made of rows of the tables and satisfy the WHERE condition.
\<close>
theorem engine_refines_tables:
  assumes "multimap_law er" "Engine_open empty_file empty_file k = Inr en" "34 \<le> k"
    and "history (ExecuteSQL er) en_guard en_crash en_reopen en n h en'"
  shows "(\<exists>D. spec_run sql_spec (\<lambda>_. None) h D \<and> en_rep en' D) \<and> (en_guard sql en' \<longrightarrow> (\<exists>a en''. ExecuteSQL er sql en' = Some (a, en'')))"
proof -
  have en: "en_rep en (\<lambda>_. None)" using Engine_open_new [OF assms(3)] assms(2) by simp
  have "(\<lambda>sql D a D'. multimap_law er \<longrightarrow> sql_spec sql D a D') = sql_spec" using assms(1) by (simp add: fun_eq_iff)
  then show ?thesis using en.history_refines [OF assms(4) en] en.history_continues(1) [OF assms(4) en] by metis
qed

theorem engine_refines_tables_witness:
  "\<exists>en en' en'' result. history (ExecuteSQL listed_range) en_guard en_crash en_reopen en 4
      [(print_sql (CreateTable sample_table), Inr no_rows), (print_sql (Insert sample_insert), Inr no_rows), (print_sql (Select sample_query), Inr result)] en'
    \<and> (\<exists>D. spec_run sql_spec (\<lambda>_. None)
      [(print_sql (CreateTable sample_table), Inr no_rows), (print_sql (Insert sample_insert), Inr no_rows), (print_sql (Select sample_query), Inr result)] D \<and> en_rep en' D)"
proof -
  obtain en1 en2 en3 where en: "Engine_open empty_file empty_file 34 = Inr en1" "2 ^ 32 - 3 \<le> room (en_pool en1)"
    "ExecuteSQL listed_range (print_sql (CreateTable sample_table)) en1 = Some (Inr no_rows, en2)" "2 ^ 32 - 107 \<le> room (en_pool en2)"
    "ExecuteSQL listed_range (print_sql (Insert sample_insert)) en2 = Some (Inr no_rows, en3)" "en_rep en3 sample_full" "2 ^ 32 - 211 \<le> room (en_pool en3)"
    using sample_engines by blast
  obtain df lf where f: "en_crash en3 (df, lf, 34)" using stopped_engine [OF en(6)] en(7) by auto
  obtain en4 where en4: "en_reopen (df, lf, 34) = Inr en4" "en_rep en4 sample_full" "room (en_pool en3) \<le> room (en_pool en4) + 1"
    using en_restart [OF en(6) f] by blast
  have g: "en_guard (print_sql (Select sample_query)) en4" by (rule sample_guard) (use en(7) en4(3) in simp)
  obtain a en5 where a: "ExecuteSQL listed_range (print_sql (Select sample_query)) en4 = Some (a, en5)" "select_outcome (row_tables sample_full) sample_query a"
    using select_step [OF listed_range_law en4(2) g sample_texts(3) sample_select_ok] by blast
  obtain result where "a = Inr result" using typed_outcome [OF a(2) sample_typed] by blast
  then have en5: "ExecuteSQL listed_range (print_sql (Select sample_query)) en4 = Some (Inr result, en5)" using a(1) by simp
  have g1: "en_guard (print_sql (CreateTable sample_table)) en1" "en_guard (print_sql (Insert sample_insert)) en2"
    using en(2,4) sample_texts(1,2) by (simp_all add: en_guard_def sql_cost_def)
  let ?H = "history (ExecuteSQL listed_range) en_guard en_crash en_reopen en1"
  have h1: "?H 1 [(print_sql (CreateTable sample_table), Inr no_rows)] en2"
    using history.answered [of "ExecuteSQL listed_range" en_guard en_crash en_reopen en1 0 "[]" en1, OF history.start g1(1) en(3)] by simp
  have h2: "?H 2 [(print_sql (CreateTable sample_table), Inr no_rows), (print_sql (Insert sample_insert), Inr no_rows)] en3"
    using history.answered [OF h1 g1(2) en(5)] by (simp add: numeral_2_eq_2)
  have h3: "?H 3 [(print_sql (CreateTable sample_table), Inr no_rows), (print_sql (Insert sample_insert), Inr no_rows)] en4"
    using history.restarted [OF h2 f en4(1)] by (simp add: numeral_3_eq_3)
  have h4: "?H 4 [(print_sql (CreateTable sample_table), Inr no_rows), (print_sql (Insert sample_insert), Inr no_rows), (print_sql (Select sample_query), Inr result)] en5"
    using history.answered [OF h3 g en5] by (simp add: eval_nat_numeral)
  then show ?thesis using engine_refines_tables [OF listed_range_law en(1) _ h4] by fastforce
qed

text \<open>
  C3. Durability of the tables: stop an engine between two statements, leave its files as a crash may
  leave them, and open them again: the new engine has the same tables, rows and row counts.
\<close>
theorem engine_survives_crash:
  assumes "en_rep en D" "wal_manager (en_pool en) = Some w" "after_crash (en_pool en) w log_file data_file"
    and "34 \<le> k" "0 < room (en_pool en)"
  shows "\<exists>en'. Engine_open data_file log_file k = Inr en' \<and> en_rep en' D"
  using en_restart [OF assms(1), of "(data_file, log_file, k)"] assms(2-5) by (auto simp: en_crash_def en_reopen_def)

theorem engine_survives_crash_witness:
  "\<exists>en df lf en'. en_rep en sample_full \<and> en_crash en (df, lf, 34) \<and> Engine_open df lf 34 = Inr en' \<and> en_rep en' sample_full"
proof -
  obtain en where en: "en_rep en sample_full" "2 ^ 32 - 211 \<le> room (en_pool en)" using sample_engines by blast
  then have room: "0 < room (en_pool en)" by simp
  obtain df lf where f: "en_crash en (df, lf, 34)" using stopped_engine [OF en(1) room] by blast
  then obtain w where "wal_manager (en_pool en) = Some w" "after_crash (en_pool en) w lf df" by (auto simp: en_crash_def)
  then show ?thesis using engine_survives_crash [OF en(1) _ _ _ room, of w lf df 34] en(1) f by auto
qed

end
