(* ===== verification/Engine_Findings.thy ===== *)
theory Engine_Findings
  imports Engine_Samples
begin

text \<open>
  Where the engine does something else than its comments say, or than the rest of it would: small
  facts about the definitions, on concrete tables or on any.
\<close>

section \<open>Joins on a condition about the new table only\<close>

text \<open>
  \<open>ON b.c = b.d\<close> is an equi-join by \<open>ExtractEquiJoin\<close>, and as soon as the hash cost is not the
  larger one the planner takes the second column for one of the tables joined so far, where it does
  not resolve. The nested loop join evaluates the same condition.
\<close>

lemma self_equi_join_hashed:
  assumes "l \<le> r" "l + r \<le> l * r"
  shows "choose_join acc l nd r (ComparisonExpr kEq (ColumnRefExpr (Some (tn_alias nd)) c) (ColumnRefExpr (Some (tn_alias nd)) d))
    = new_hash_join acc (new_scan (tn_table nd) (tn_alias nd)) (Some (tn_alias nd)) d (Some (tn_alias nd)) c"
  using assms by (simp add: choose_join_def Let_def)

lemma self_equi_join_throws:
  assumes "\<forall>x \<in> set row. fd_table x \<noteq> a"
  shows "\<exists>msg. Find row (Some a) d = Inl (ColumnResolutionError msg)"
proof -
  have "filter (\<lambda>x. fd_table x = a \<and> fd_column x = d) row = []" using assms by (auto simp: filter_empty_conv)
  then show ?thesis by (simp add: Find_def find_qualified_filter)
qed

section \<open>An unqualified column of a later table\<close>

text \<open>
  \<open>FROM a JOIN b ON a.id = b.id JOIN c ON z = c.id JOIN d ON a.id = d.id\<close>, where \<open>b\<close> and \<open>d\<close> have a column \<open>z\<close>.
  The validator looks for \<open>z\<close> in \<open>a\<close>, \<open>b\<close> and \<open>c\<close> and finds that of \<open>b\<close>. The planner takes \<open>c\<close> to be
  joinable from the start; when it joins \<open>d\<close> and then \<open>c\<close> before \<open>b\<close> (by their row counts), \<open>z\<close> is found in \<open>d\<close>,
  and no exception tells.
\<close>

definition one_table :: "string \<Rightarrow> string list \<Rightarrow> TableSchema" where
  "one_table name cs = \<lparr>table_name = name, columns = \<lparr>cd_name = ''id'', cd_type = kInteger, is_primary_key = True\<rparr>
     # map (\<lambda>c. \<lparr>cd_name = c, cd_type = kInteger, is_primary_key = False\<rparr>) cs\<rparr>"

abbreviation "row_a \<equiv> scan_row ''a'' (one_table ''a'' []) [IntV 1]"
abbreviation "row_b \<equiv> scan_row ''b'' (one_table ''b'' [''z'']) [IntV 1, IntV 5]"
abbreviation "row_c \<equiv> scan_row ''c'' (one_table ''c'' []) [IntV 5]"
abbreviation "row_d \<equiv> scan_row ''d'' (one_table ''d'' [''z'']) [IntV 1, IntV 6]"
abbreviation "on_z \<equiv> ComparisonExpr kEq (ColumnRefExpr None ''z'') (ColumnRefExpr (Some ''c'') ''id'')"

lemma later_column_validated:
  "column_ok [(''a'', one_table ''a'' []), (''b'', one_table ''b'' [''z'']), (''c'', one_table ''c'' [])] None ''z''"
  by (simp add: column_ok_def has_column_def one_table_def)

lemma later_column_connected: "connected \<lparr>tn_table = t, tn_alias = ''c'', join_condition = Some on_z\<rparr> joined = Inr True"
  by (simp add: connected_def)

text \<open>Joined as written the four rows match; by way of \<open>d\<close> they do not.\<close>

lemma later_column_resolved:
  "EvalBool on_z (row_a @ row_b @ row_c) = Inr True" "EvalBool on_z (row_a @ row_d @ row_c) = Inr False"
  by (simp_all add: one_table_def scan_row_def EvalValue_def Find_def find_unqualified_named named_def find_qualified_filter
      CompareValues_def op_holds_def)

section \<open>The row count\<close>

text \<open>Two inserts under one key leave one row and a count of 2.\<close>
lemma row_count_not_exact:
  "rel_count (with_row 7 row' (with_row 7 row (new_relation sch))) = 2"
  "rel_rows (with_row 7 row' (with_row 7 row (new_relation sch))) = [(7, row')]"
  by (simp_all add: with_row_def new_relation_def upd_entry_def)

section \<open>Duplicate column names\<close>

definition twice_named :: "ColumnDef list" where
  "twice_named = [\<lparr>cd_name = ''id'', cd_type = kInteger, is_primary_key = True\<rparr>,
     \<lparr>cd_name = ''n'', cd_type = kInteger, is_primary_key = False\<rparr>, \<lparr>cd_name = ''n'', cd_type = kInteger, is_primary_key = False\<rparr>]"

text \<open>
  A table may have two columns of one name; then \<open>SELECT n FROM t\<close> passes validation, and its column
  does not resolve in a row of the table.
\<close>

lemma duplicate_columns_created: "creatable ''t'' twice_named"
  by (simp add: creatable_def twice_named_def EncodedSize_def PrimaryKeyIndex_def layout_simps VALUE_SIZE_def ColumnWidth_def)

lemma duplicate_column_validated:
  "column_ok [(''t'', \<lparr>table_name = ''t'', columns = twice_named\<rparr>)] None ''n''"
  by (simp add: column_ok_def has_column_def twice_named_def)

lemma duplicate_column_throws:
  "\<exists>msg. Find (scan_row ''t'' \<lparr>table_name = ''t'', columns = twice_named\<rparr> [IntV 1, IntV 2, IntV 3]) None ''n'' = Inl (ColumnResolutionError msg)"
  by (simp add: Find_def find_unqualified_named named_def scan_row_def twice_named_def)

section \<open>Comparing an integer with a text\<close>

text \<open>A nested loop join throws where a hash join finds no match.\<close>

lemma mixed_types_compare: "\<exists>msg. CompareValues (IntV i) (TextV t) = Inl (EvalError msg)"
  by (simp add: CompareValues_def)

lemma mixed_types_hashed:
  assumes "multimap_law er" "\<forall>p \<in> set m. \<exists>i. fst p = IntV i"
  shows "er m (TextV t) = []"
proof -
  have none: "filter (\<lambda>p. fst p = TextV t) m = []" using assms(2) by (auto simp: filter_empty_conv)
  have "mset (er m (TextV t)) = mset (map snd (filter (\<lambda>p. fst p = TextV t) m))"
    using assms(1) unfolding multimap_law_def by blast
  then show ?thesis unfolding none by simp
qed

section \<open>The cost of a nested loop join\<close>

text \<open>The product of the estimates wraps around, so that the larger join can look the cheaper.\<close>
lemma nested_cost_wraps:
  "ExtractEquiJoin c = Some ab \<Longrightarrow> choose_join acc 0x100000000 nd 0x100000000 c = new_nested_loop_join acc (new_scan (tn_table nd) (tn_alias nd)) c"
  by (cases ab) (simp add: choose_join_def Let_def)

end
