(* ===== verification/Spec2Isabelle.thy ===== *)
theory Spec2Isabelle
  imports Storage_Properties Row_Codec Expr_Eval Sql_Roundtrip Database_Properties Engine_Properties Engine_Findings
begin

text \<open>
  A verification of the relational engine (\<open>src/include\<close>, \<open>src/src\<close>).

  \<^bold>\<open>The program.\<close> A statement is a text. \<open>ExecuteSQL\<close> (\<open>engine.cpp\<close>) lexes and parses it, has the
  validator check its names against the catalog, and executes it: \<open>CREATE TABLE\<close> and \<open>INSERT\<close> are
  operations of the catalog, \<open>SELECT\<close> becomes a logical plan, then a tree of iterators, which the
  planner chooses and the engine pulls rows from. The catalog keeps one page with the schemas, the roots and the row counts,
  and one B+tree per table, whose values are rows encoded in at most 120 bytes. Trees and catalog live in
  pages of 4096 bytes that they reach through guards of the buffer pool; the pool evicts by LRU
  and appends the page to the write-ahead log whenever a guard of a dirty page is released. When an engine or a
  database is opened, the log's torn tail is cut off and its records are replayed onto the data file.

  \<^bold>\<open>Conventions.\<close> Classes are records and are passed as state; tagged structs are datatypes;
  integers are words of their width, or \<open>nat\<close> where they are indices. Pages and files are lists of
  bytes, and packed structs are read and written at their offsets. Every exception is a constructor of
  \<open>error\<close>, and \<open>'a res = error + 'a\<close>; its message is cut to its constant part. Where the source dereferences
  something it has not checked, the model has the error \<open>UndefinedBehaviour\<close>, which the theorems
  exclude. Loops and recursions without an evident bound are \<open>partial_function (option)\<close>, so that not
  returning is \<open>None\<close>; the theorems that say an operation answers say \<open>Some\<close>.

  \<^bold>\<open>Storage.\<close>
  \<open>Prelude\<close> has the errors, the arithmetic and the lists shared by all; \<open>Page\<close> is \<open>page.h\<close> and \<open>checksum.h\<close>
  (locales \<open>page_field\<close>, \<open>two_fields\<close> and \<open>byte_hash\<close>, interpreted on the header's fields and on FNV-1a).
  \<open>Posix_File\<close> is the file calls that are used. \<open>Disk_Manager\<close>, \<open>Wal\<close>, \<open>Recovery\<close> and \<open>Buffer_Pool\<close> are the files
  of those names. \<open>Pool_Invariant\<close> says when free list, LRU list, page table and pin counts agree;
  \<open>Pool_Contract\<close> shows that every call keeps it and implements the locale \<open>page_store\<close> (\<open>Page_Store\<close>): a
  map from page ids to contents, with pins, a number of frames and a budget of ids and LSNs (\<open>room\<close>).
  \<open>Durability\<close> and \<open>Restart\<close> show that the log determines that map after a crash. \<open>Storage_Properties\<close> holds the
  claims on this layer.

  \<^bold>\<open>Trees.\<close>
  \<open>Cell_Array\<close> is arrays of structs in a page (\<open>std::memmove\<close> included), \<open>Btree_Node\<close> is \<open>btree_node.h\<close>, and \<open>Btree\<close>
  is \<open>btree.cpp\<close> over the calls of a page store. \<open>Btree_Tree\<close> defines the tree that pages represent
  (\<open>tree_of\<close>: depth, order of the keys, separators, the chain of the leaves); \<open>Btree_Scopes\<close> and \<open>Btree_Forest\<close> say which pages
  belong to it, so that operations on one tree leave the others alone. \<open>Btree_Insertion\<close>, \<open>Btree_Lookup\<close> and
  \<open>Btree_Update\<close> prove the operations against the sorted list of entries, inside \<open>page_store\<close>.
  \<open>Store_History\<close> has the locales \<open>store\<close>, \<open>durable_store\<close> and \<open>metered_store\<close>: operations, crashes and
  restarts in any order refine an abstract specification. \<open>Kv_Store\<close> is the specification of a map
  with 64-bit keys; \<open>Database\<close> is \<open>database.cpp\<close> and interprets the contracts. The claims are in \<open>Database_Properties\<close>.

  \<^bold>\<open>Statements.\<close>
  \<open>Ast\<close> is \<open>ast.h\<close>, \<open>value.h\<close> and \<open>schema.h\<close>; \<open>Row_Codec\<close> and \<open>Expr_Eval\<close> (with \<open>exec_row.cpp\<close>) are the files of those names, with
  their claims. \<open>Token\<close>, \<open>Lexer\<close> and \<open>Parser\<close> are the front end, \<open>Parser_Termination\<close>, \<open>Parser_Roundtrip\<close> and
  \<open>Sql_Roundtrip\<close> its claims: parsing ends, and gives back any statement that was printed. \<open>Parser_Names\<close>
  shows that names hold no character 0, which the catalog's fixed-size slots rely on.

  \<^bold>\<open>Tables and queries.\<close>
  \<open>Catalog_Page\<close> and \<open>Catalog\<close> are \<open>catalog_page.h\<close> and \<open>catalog.cpp\<close>; \<open>Catalog_Contract\<close> shows that the page, the handles and the trees
  represent tables (\<open>Relation\<close>: a schema, rows in the order of their keys, a count) and what each operation does to them.
  \<open>Semantic\<close>, \<open>Logical_Plan\<close>, \<open>Physical_Plan\<close> and \<open>Engine\<close> are the files of those names.
  \<open>Row_Streams\<close> shows what sequence of rows each iterator yields between \<open>Open\<close> and the end, \<open>Join_Semantics\<close> and
  \<open>Join_Plans\<close> that nested loop and hash joins in any order compute the same rows up to their order and
  the order of their columns, \<open>Query_Planning\<close> that the greedy loop joins every table once, \<open>Query_Execution\<close> that scans read the tables,
  \<open>Query_Types\<close> that well typed conditions do not throw and that a column that is found has its declared type, \<open>Query_Results\<close> that \<open>ExecuteSelect\<close> returns
  the choices of a row of every table that satisfy all conditions, or throws what evaluating a row may throw. \<open>Sql_Validation\<close> shows which statements the
  validator accepts (\<open>select_ok\<close>, \<open>inserts\<close>) and that all others are a \<open>SemanticError\<close>.
  \<open>Engine_Contract\<close> states what each statement promises over tables without pages (\<open>execute_ok\<close>), and \<open>Engine_Store\<close>
  interprets \<open>durable_store\<close> on \<open>ExecuteSQL\<close>. \<open>Engine_Samples\<close> runs a small engine for the
  witnesses, \<open>Engine_Properties\<close> holds the claims, \<open>Engine_Findings\<close> the places where code and
  comments, or two plans for one query, disagree.

  \<^bold>\<open>What a SELECT promises.\<close> A condition means \<open>cond_holds\<close> (\<open>Expr_Eval\<close>), which is stated over the fields of a row with
  \<open>value_less\<close>, the signed order of integers and the order of byte strings, and not with the evaluator. The answer to a
  statement the validator accepts is bounded by \<open>select_outcome\<close> (\<open>Query_Results\<close>). If it has rows, they are exactly those asked for (\<open>select_answer\<close>). The
  exceptions are \<open>EvalError\<close> and \<open>ColumnResolutionError\<close>; there are none for a \<open>typed_query\<close>, whose comparisons are between values of
  one type, whose columns resolve, and whose ON conditions are qualified and do not equate two columns of one table: for
  others the code does throw, on some plans (see \<open>Engine_Findings\<close>). One kind of statement is left out of the
  exactness: with an unqualified column in an ON condition that is also a column of a table joined later (not \<open>unambiguous\<close>)
  the code may take the wrong one, and the contract only has \<open>select_shape\<close>: rows made of a row of every table that satisfy the WHERE condition.

  \<^bold>\<open>Bounds.\<close> The parser's fuel is \<open>3 * length ts + 3\<close>, shown to be enough for any tokens. \<open>room\<close> is what is left
  of the \<open>2 ^ 32\<close> page ids and the 64-bit LSNs. An operation on the database uses at most \<open>op_cost\<close> = 102 of it; a
  statement at most \<open>stmt_cost\<close>: 104, or for a query over \<open>n\<close> tables in a file of \<open>b\<close> pages
  \<open>n * (2 * n + 2) + n * (34 + b)\<close>, since a release may log a page again. The claims that operations succeed ask for that much room and for
  34 frames, more than the pins of a descent: a tree over 32-bit page ids is at most 32 levels deep.
  A crash happens between operations and leaves the acknowledged records of the log, anything at the pages the log
  covers, and no unlogged page changed (\<open>after_crash\<close>).

  \<^bold>\<open>Parameters.\<close> \<open>er\<close> is the order in which \<open>std::unordered_multimap::equal_range\<close> yields
  the values of a key; \<open>multimap_law\<close> says that it yields exactly those inserted under it, and the
  claims hold for every such order.

  \<^bold>\<open>Not modelled.\<close> Threads and latches: every operation runs alone. Crashes in the middle of an operation
  (a split logs its pages one by one, and a crash in between can lose keys), apart from what the log
  itself guarantees. Failures of \<open>open\<close>, \<open>fstat\<close> and \<open>ftruncate\<close>. The variable parts of messages
  and the classes of the exceptions. The order in which C++ evaluates operands, where it is unspecified. Tests and build
  files.
\<close>

end
